(* ===== verification/Prelude.thy ===== *)
theory Prelude
  imports Complex_Main
begin

text \<open>
  Shared vocabulary of the development: Python exceptions as values of a sum type, the
  combinators that sequence fallible calls, \<open>range\<close> over integers, decimal rendering of
  counters (tile ids are built with it), and the generic lemmas on lists and sums that the
  component theories share.  Python integers are unbounded and are modelled by \<open>int\<close>; the
  floats that the modelled code only compares, takes the maximum of, or divides exactly are
  modelled by \<open>rat\<close>.
\<close>

named_theorems err_simps \<open>how fallible calls are sequenced\<close>
named_theorems geo_simps \<open>unfolding of pixel geometry\<close>

subsection \<open>Exceptions as values\<close>

datatype py_error =
    ValueError string
  | KeyError string
  | RuntimeError string
  | TypeError string
  | IntegrityError string
  | ProgrammingError string
  | OperationalError string
  | AttributeError string
  | OSError string
  | IndexError string
  | ZeroDivisionError string
  | StopIteration

type_synonym 'a res = "py_error + 'a"

definition ebind :: "'e + 'a \<Rightarrow> ('a \<Rightarrow> 'e + 'b) \<Rightarrow> 'e + 'b" where
  "ebind m f = (case m of Inl e \<Rightarrow> Inl e | Inr a \<Rightarrow> f a)"

lemma ebind_simps [simp, err_simps]:
  "ebind (Inl e) f = Inl e"
  "ebind (Inr a) f = f a"
  by (simp_all add: ebind_def)

lemma ebind_eq_Inr [err_simps]: "ebind m f = Inr b \<longleftrightarrow> (\<exists>a. m = Inr a \<and> f a = Inr b)"
  by (cases m) simp_all

lemma ebind_eq_Inl [err_simps]:
  "ebind m f = Inl e \<longleftrightarrow> m = Inl e \<or> (\<exists>a. m = Inr a \<and> f a = Inl e)"
  by (cases m) simp_all

definition guard :: "bool \<Rightarrow> py_error \<Rightarrow> unit res" where
  "guard bad e = (if bad then Inl e else Inr ())"

lemma guard_simps [simp, err_simps]:
  "guard False e = Inr ()"
  "guard True e = Inl e"
  by (simp_all add: guard_def)

lemma guard_eq_Inr [err_simps]: "guard bad e = Inr u \<longleftrightarrow> \<not> bad"
  by (simp add: guard_def)

lemma guard_eq_Inl [err_simps]: "guard bad e = Inl e' \<longleftrightarrow> bad \<and> e' = e"
  by (auto simp: guard_def)

text \<open>A comprehension or loop whose body may raise stops at the first exception.\<close>

fun mapE :: "('a \<Rightarrow> 'e + 'b) \<Rightarrow> 'a list \<Rightarrow> 'e + 'b list" where
  "mapE f [] = Inr []"
| "mapE f (x # xs) = ebind (f x) (\<lambda>y. ebind (mapE f xs) (\<lambda>ys. Inr (y # ys)))"

fun foldE :: "('s \<Rightarrow> 'a \<Rightarrow> 'e + 's) \<Rightarrow> 's \<Rightarrow> 'a list \<Rightarrow> 'e + 's" where
  "foldE f s [] = Inr s"
| "foldE f s (x # xs) = ebind (f s x) (\<lambda>s'. foldE f s' xs)"

lemma mapE_Inr: "(\<And>x. x \<in> set xs \<Longrightarrow> f x = Inr (g x)) \<Longrightarrow> mapE f xs = Inr (map g xs)"
  by (induction xs) auto

lemma mapE_eq_Inr_iff:
  "mapE f xs = Inr ys \<longleftrightarrow> list_all2 (\<lambda>x y. f x = Inr y) xs ys"
  by (induction xs arbitrary: ys) (auto simp: ebind_eq_Inr list_all2_Cons1)

lemma mapE_mem: "mapE f xs = Inr ys \<Longrightarrow> y \<in> set ys \<Longrightarrow> \<exists>x \<in> set xs. f x = Inr y"
  unfolding mapE_eq_Inr_iff list_all2_conv_all_nth in_set_conv_nth by (metis nth_mem)

lemma mapE_total:
  "(\<And>x. x \<in> set xs \<Longrightarrow> \<exists>y. f x = Inr y \<and> P y) \<Longrightarrow> \<exists>ys. mapE f xs = Inr ys \<and> (\<forall>y\<in>set ys. P y)"
proof (induction xs)
  case (Cons x xs)
  then obtain y ys where "f x = Inr y" "P y" "mapE f xs = Inr ys" "\<forall>y\<in>set ys. P y"
    by (metis list.set_intros)
  then show ?case by simp
qed simp

lemma mapE_length: "mapE f xs = Inr ys \<Longrightarrow> length ys = length xs"
  by (simp add: mapE_eq_Inr_iff list_all2_lengthD)

lemma mapE_map:
  "mapE f xs = Inr ys \<Longrightarrow> (\<And>x y. f x = Inr y \<Longrightarrow> g y = k x) \<Longrightarrow> map g ys = map k xs"
  by (induction xs arbitrary: ys) (auto simp: ebind_eq_Inr)

lemma foldE_append:
  "foldE f s (xs @ ys) = ebind (foldE f s xs) (\<lambda>s'. foldE f s' ys)"
proof (induction xs arbitrary: s)
  case (Cons x xs)
  then show ?case by (cases "f s x") simp_all
qed simp

lemma foldE_invariant:
  assumes "foldE f s xs = Inr s'" and "P s"
    and "\<And>s x s'. P s \<Longrightarrow> x \<in> set xs \<Longrightarrow> f s x = Inr s' \<Longrightarrow> P s'"
  shows "P s'"
  using assms
proof (induction xs arbitrary: s)
  case (Cons x xs)
  from Cons.prems(1) obtain t where "f s x = Inr t" "foldE f t xs = Inr s'"
    by (auto simp: ebind_eq_Inr)
  moreover from this have "P t" using Cons.prems(3) [of s x t] Cons.prems(2) by simp
  ultimately show ?case using Cons.prems(3) by (intro Cons.IH [of t]) auto
qed simp

subsection \<open>Python's \<open>range(lo, hi, step)\<close> for a positive step\<close>

definition pyrange :: "int \<Rightarrow> int \<Rightarrow> int \<Rightarrow> int list" where
  "pyrange lo hi step = map (\<lambda>k. lo + int k * step) [0..<nat ((hi - lo + step - 1) div step)]"

lemma int_le_div_iff: "m \<le> n div q \<longleftrightarrow> m * q \<le> n" if "0 < q" for m n q :: int
proof
  assume "m \<le> n div q"
  then have "m * q \<le> n div q * q" using that by simp
  also have "\<dots> \<le> n" using that
    by (metis add.commute div_mult_mod_eq le_add_same_cancel2 pos_mod_sign)
  finally show "m * q \<le> n" .
next
  assume "m * q \<le> n"
  then have "(m * q) div q \<le> n div q" using that by (rule zdiv_mono1)
  then show "m \<le> n div q" using that by simp
qed

lemma pyrange_mem:
  assumes "0 < step"
  shows "x \<in> set (pyrange lo hi step) \<longleftrightarrow> lo \<le> x \<and> x < hi \<and> step dvd (x - lo)"
proof -
  have bound: "k < (hi - lo + step - 1) div step \<longleftrightarrow> lo + k * step < hi" for k :: int
  proof -
    have "k < (hi - lo + step - 1) div step \<longleftrightarrow> k + 1 \<le> (hi - lo + step - 1) div step"
      by linarith
    also have "\<dots> \<longleftrightarrow> (k + 1) * step \<le> hi - lo + step - 1"
      using assms by (rule int_le_div_iff)
    also have "\<dots> \<longleftrightarrow> lo + k * step < hi"
      by (simp add: algebra_simps) linarith
    finally show ?thesis .
  qed
  show ?thesis
  proof
    assume "x \<in> set (pyrange lo hi step)"
    then obtain k where k: "x = lo + int k * step" "k < nat ((hi - lo + step - 1) div step)"
      unfolding pyrange_def by (metis (no_types, lifting) atLeastLessThan_iff imageE list.set_map set_upt)
    then have "int k < (hi - lo + step - 1) div step" by linarith
    with k assms show "lo \<le> x \<and> x < hi \<and> step dvd (x - lo)"
      by (simp add: bound)
  next
    assume a: "lo \<le> x \<and> x < hi \<and> step dvd (x - lo)"
    then obtain j where j: "x - lo = step * j" by (auto elim: dvdE)
    with a assms have "0 \<le> j" by (metis diff_ge_0_iff_ge zero_le_mult_iff not_less)
    with a j have "int (nat j) < (hi - lo + step - 1) div step"
      by (subst bound) (simp add: algebra_simps)
    moreover have "x = lo + int (nat j) * step" using j \<open>0 \<le> j\<close> by (simp add: algebra_simps)
    ultimately show "x \<in> set (pyrange lo hi step)"
      unfolding pyrange_def set_map
      by (intro image_eqI [of _ _ "nat j"]) (use \<open>0 \<le> j\<close> in \<open>simp_all add: zless_nat_conj\<close>)
  qed
qed

lemma pyrange_distinct: "0 < step \<Longrightarrow> distinct (pyrange lo hi step)"
  by (auto simp: pyrange_def distinct_map inj_on_def)

lemma pyrange_empty: "0 < step \<Longrightarrow> hi \<le> lo \<Longrightarrow> pyrange lo hi step = []"
  using pyrange_mem [of step _ lo hi] by (metis list.set_intros(1) neq_Nil_conv not_le order.trans)

lemma pyrange_sorted: "0 < step \<Longrightarrow> sorted (pyrange lo hi step)"
  unfolding pyrange_def by (rule sorted_map [THEN iffD2]) (auto simp: sorted_wrt_iff_nth_less)

lemma sum_list_filter_split:
  fixes f :: "'a \<Rightarrow> int"
  shows "(\<Sum>x\<leftarrow>xs. f x) = (\<Sum>x\<leftarrow>filter P xs. f x) + (\<Sum>x\<leftarrow>filter (\<lambda>x. \<not> P x) xs. f x)"
  by (induction xs) auto

text \<open>A loop that keeps the last candidate that passes a test.\<close>

lemma foldl_last_match:
  "foldl (\<lambda>best x. if P x then x else best) d xs = last (d # filter P xs)"
  by (induction xs arbitrary: d) auto

lemma sorted_le_last: "sorted ys \<Longrightarrow> x \<in> set ys \<Longrightarrow> x \<le> last ys"
  by (induction ys) auto

lemma last_filter_max:
  fixes xs :: "int list"
  assumes "sorted xs" "x \<in> set xs" "P x"
  shows "P (last (d # filter P xs)) \<and> x \<le> last (d # filter P xs) \<and> last (d # filter P xs) \<in> set xs"
proof -
  have ne: "filter P xs \<noteq> []" using assms(2,3) by (auto simp: filter_empty_conv)
  then have m: "last (filter P xs) \<in> set (filter P xs)" by (rule last_in_set)
  have "sorted (filter P xs)" using assms(1) by (rule sorted_wrt_filter)
  moreover have "x \<in> set (filter P xs)" using assms(2,3) by simp
  ultimately have "x \<le> last (filter P xs)" by (rule sorted_le_last)
  with ne m show ?thesis by simp
qed

subsection \<open>Decimal rendering of counters, as in \<open>f"tile_{idx}"\<close>\<close>

definition digit :: "nat \<Rightarrow> char" where
  "digit d = ''0123456789'' ! d"

fun str_of_nat :: "nat \<Rightarrow> string" where
  "str_of_nat n = (if n < 10 then [digit n] else str_of_nat (n div 10) @ [digit (n mod 10)])"

declare str_of_nat.simps [simp del]

lemma digit_inj: "m < 10 \<Longrightarrow> n < 10 \<Longrightarrow> digit m = digit n \<longleftrightarrow> m = n"
  unfolding digit_def by (rule nth_eq_iff_index_eq) simp_all

lemma digit_mem: "d < 10 \<Longrightarrow> digit d \<in> set ''0123456789''"
  unfolding digit_def by (rule nth_mem) simp

lemma str_of_nat_nonempty [simp]: "str_of_nat n \<noteq> []"
  by (subst str_of_nat.simps) simp

lemma str_of_nat_digits: "set (str_of_nat n) \<subseteq> set ''0123456789''"
proof (induction n rule: str_of_nat.induct)
  case (1 n)
  have "set [digit (n mod 10)] \<subseteq> set ''0123456789''" "n < 10 \<Longrightarrow> set [digit n] \<subseteq> set ''0123456789''"
    using digit_mem [of "n mod 10"] digit_mem [of n] by simp_all
  with 1 show ?case
    by (subst str_of_nat.simps) (simp del: list.set(2))
qed

lemma str_of_nat_inj: "str_of_nat m = str_of_nat n \<longleftrightarrow> m = n"
proof (induction m arbitrary: n rule: str_of_nat.induct)
  case (1 m)
  show ?case
  proof (cases "m < 10"; cases "n < 10")
    assume "m < 10" "n < 10"
    then show ?thesis by (simp add: str_of_nat.simps [of m] str_of_nat.simps [of n] digit_inj)
  next
    assume "m < 10" "\<not> n < 10"
    then show ?thesis using str_of_nat_nonempty [of "n div 10"]
      by (auto simp: str_of_nat.simps [of m] str_of_nat.simps [of n] simp del: str_of_nat_nonempty)
  next
    assume "\<not> m < 10" "n < 10"
    then show ?thesis by (auto simp: str_of_nat.simps [of m] str_of_nat.simps [of n])
  next
    assume big: "\<not> m < 10" "\<not> n < 10"
    then have "str_of_nat m = str_of_nat n \<longleftrightarrow> m div 10 = n div 10 \<and> m mod 10 = n mod 10"
      using 1 [of "n div 10"]
      by (simp add: str_of_nat.simps [of m] str_of_nat.simps [of n] digit_inj)
    then show ?thesis by (metis div_mult_mod_eq)
  qed
qed

end
