(* ===== verification/Geometry.thy ===== *)
theory Geometry
  imports Prelude
begin

text \<open>
  Model of \<open>streaming/geometry.py\<close>: half-open pixel rectangles, halo widths, the core grid
  that partitions a layout, and the read region of a core.  A box whose construction would
  raise in \<open>BoundingBox.__post_init__\<close> is an error of \<open>mk_bbox\<close>.  The specification side is
  \<open>cover_count\<close>: how many boxes of a list own a pixel; an exact cover owns every pixel of the
  domain once and no other pixel.
\<close>

subsection \<open>Boxes and halos\<close>

type_synonym pixel = "int \<times> int"

record bbox =
  bx0 :: int
  by0 :: int
  bx1 :: int
  by1 :: int

definition bbox_ok :: "bbox \<Rightarrow> bool" where
  "bbox_ok b \<longleftrightarrow> bx0 b < bx1 b \<and> by0 b < by1 b"

definition mk_bbox :: "int \<Rightarrow> int \<Rightarrow> int \<Rightarrow> int \<Rightarrow> bbox res" where
  "mk_bbox x0 y0 x1 y1 =
     (if x1 \<le> x0 \<or> y1 \<le> y0 then Inl (ValueError ''degenerate bbox'')
      else Inr \<lparr>bx0 = x0, by0 = y0, bx1 = x1, by1 = y1\<rparr>)"

definition width :: "bbox \<Rightarrow> int" where
  "width b = bx1 b - bx0 b"

definition height :: "bbox \<Rightarrow> int" where
  "height b = by1 b - by0 b"

definition area :: "bbox \<Rightarrow> int" where
  "area b = width b * height b"

definition clipped_to :: "bbox \<Rightarrow> int \<Rightarrow> int \<Rightarrow> bbox res" where
  "clipped_to b w h = mk_bbox (max 0 (bx0 b)) (max 0 (by0 b)) (min w (bx1 b)) (min h (by1 b))"

definition contains :: "bbox \<Rightarrow> bbox \<Rightarrow> bool" where
  "contains outer inner \<longleftrightarrow>
     bx0 outer \<le> bx0 inner \<and> by0 outer \<le> by0 inner \<and>
     bx1 outer \<ge> bx1 inner \<and> by1 outer \<ge> by1 inner"

record halo_spec =
  hleft :: int
  htop :: int
  hright :: int
  hbottom :: int

definition uniform_halo :: "int \<Rightarrow> halo_spec res" where
  "uniform_halo px =
     (if px < 0 then Inl (ValueError ''halo must be nonnegative'')
      else Inr \<lparr>hleft = px, htop = px, hright = px, hbottom = px\<rparr>)"

definition halo_total :: "halo_spec \<Rightarrow> int" where
  "halo_total h = hleft h + htop h + hright h + hbottom h"

definition halo_max :: "halo_spec \<Rightarrow> int" where
  "halo_max h = max (max (hleft h) (htop h)) (max (hright h) (hbottom h))"

subsection \<open>The core grid\<close>

text \<open>\<open>shape\<close> is \<open>(H, W)\<close>, as in the source.\<close>

definition core_grid_boxes :: "int \<times> int \<Rightarrow> int \<Rightarrow> int option \<Rightarrow> bbox list res" where
  "core_grid_boxes shape core_size core_stride =
     (let h = fst shape; w = snd shape in
      if core_size \<le> 0 then Inl (ValueError ''core_size must be positive'')
      else let stride = (case core_stride of None \<Rightarrow> core_size | Some s \<Rightarrow> s) in
      if stride \<le> 0 then Inl (ValueError ''core_stride must be positive'')
      else ebind
        (mapE (\<lambda>y. mapE (\<lambda>x.
            mk_bbox x y
              (if x + core_size > w then min (x + core_size) w else x + core_size)
              (if y + core_size > h then min (y + core_size) h else y + core_size))
          (pyrange 0 w stride)) (pyrange 0 h stride))
        (\<lambda>rows. Inr (concat rows)))"

definition read_bbox_for :: "bbox \<Rightarrow> halo_spec \<Rightarrow> int \<Rightarrow> int \<Rightarrow> bbox res" where
  "read_bbox_for core halo w h =
     mk_bbox (max 0 (bx0 core - hleft halo)) (max 0 (by0 core - htop halo))
             (min w (bx1 core + hright halo)) (min h (by1 core + hbottom halo))"

definition halo_actual :: "bbox \<Rightarrow> bbox \<Rightarrow> halo_spec" where
  "halo_actual core read =
     \<lparr>hleft = bx0 core - bx0 read, htop = by0 core - by0 read,
      hright = bx1 read - bx1 core, hbottom = by1 read - by1 core\<rparr>"

record overhead_stats =
  os_core_pixels :: int
  os_read_pixels :: int
  os_halo_pixels :: int
  os_halo_overhead_pct :: rat
  os_n_tiles :: nat

definition halo_overhead_stats :: "bbox list \<Rightarrow> bbox list \<Rightarrow> overhead_stats res" where
  "halo_overhead_stats cores reads =
     (if length cores \<noteq> length reads
      then Inl (ValueError ''core/read box lists must have the same length'')
      else let core_px = sum_list (map area cores); read_px = sum_list (map area reads) in
      if core_px = 0 then
        Inr \<lparr>os_core_pixels = 0, os_read_pixels = 0, os_halo_pixels = 0,
             os_halo_overhead_pct = 0, os_n_tiles = length cores\<rparr>
      else
        Inr \<lparr>os_core_pixels = core_px, os_read_pixels = read_px,
             os_halo_pixels = read_px - core_px,
             os_halo_overhead_pct = 100 * of_int (read_px - core_px) / of_int core_px,
             os_n_tiles = length cores\<rparr>)"

subsection \<open>Pixels of a box and exact covers\<close>

definition in_box :: "pixel \<Rightarrow> bbox \<Rightarrow> bool" where
  "in_box p b \<longleftrightarrow> bx0 b \<le> fst p \<and> fst p < bx1 b \<and> by0 b \<le> snd p \<and> snd p < by1 b"

definition pixels :: "bbox \<Rightarrow> pixel set" where
  "pixels b = {p. in_box p b}"

definition in_domain :: "int \<times> int \<Rightarrow> pixel \<Rightarrow> bool" where
  "in_domain shape p \<longleftrightarrow> 0 \<le> fst p \<and> fst p < snd shape \<and> 0 \<le> snd p \<and> snd p < fst shape"

definition cover_count :: "bbox list \<Rightarrow> pixel \<Rightarrow> nat" where
  "cover_count bs p = length (filter (in_box p) bs)"

definition exact_cover :: "bbox list \<Rightarrow> (pixel \<Rightarrow> bool) \<Rightarrow> bool" where
  "exact_cover bs D \<longleftrightarrow> (\<forall>p. cover_count bs p = (if D p then 1 else 0))"

lemmas box_simps [geo_simps] =
  bbox_ok_def mk_bbox_def width_def height_def area_def contains_def in_box_def in_domain_def

lemma mk_bbox_Inr:
  "mk_bbox a b c d = Inr r \<longleftrightarrow>
     a < c \<and> b < d \<and> r = \<lparr>bx0 = a, by0 = b, bx1 = c, by1 = d\<rparr>"
  by (auto simp: mk_bbox_def)

lemma mk_bbox_ok: "mk_bbox a b c d = Inr r \<Longrightarrow> bbox_ok r"
  by (auto simp: mk_bbox_Inr bbox_ok_def)

lemma pixels_prod: "pixels b = {bx0 b..<bx1 b} \<times> {by0 b..<by1 b}"
  by (auto simp: pixels_def in_box_def)

lemma finite_pixels [simp]: "finite (pixels b)"
  by (simp add: pixels_prod)

lemma card_pixels: "bbox_ok b \<Longrightarrow> int (card (pixels b)) = area b"
  by (simp add: pixels_prod area_def width_def height_def bbox_ok_def)

lemma area_pos: "bbox_ok b \<Longrightarrow> 0 < area b"
  by (simp add: area_def width_def height_def bbox_ok_def)

lemma contains_pixels: "bbox_ok b \<Longrightarrow> contains a b \<longleftrightarrow> pixels b \<subseteq> pixels a"
proof
  assume b: "bbox_ok b" and sub: "pixels b \<subseteq> pixels a"
  have "(bx0 b, by0 b) \<in> pixels b" "(bx1 b - 1, by1 b - 1) \<in> pixels b"
    using b by (auto simp: pixels_def in_box_def bbox_ok_def)
  then have "(bx0 b, by0 b) \<in> pixels a" "(bx1 b - 1, by1 b - 1) \<in> pixels a"
    using sub by blast+
  then show "contains a b" by (auto simp: pixels_def in_box_def contains_def)
qed (auto simp: pixels_def in_box_def contains_def)

lemma cover_count_simps [simp]:
  "cover_count [] p = 0"
  "cover_count (b # bs) p = (if in_box p b then 1 else 0) + cover_count bs p"
  "cover_count (as @ bs) p = cover_count as p + cover_count bs p"
  by (simp_all add: cover_count_def)

lemma cover_count_pos: "0 < cover_count bs p \<longleftrightarrow> (\<exists>b \<in> set bs. in_box p b)"
  by (induction bs) auto

lemma cover_count_remove1:
  "b \<in> set bs \<Longrightarrow> cover_count bs p = (if in_box p b then 1 else 0) + cover_count (remove1 b bs) p"
  by (induction bs) auto

text \<open>Double counting: the areas of an exact cover add up to the domain's pixel count.\<close>

lemma sum_cover_count:
  assumes "finite U" "\<And>b. b \<in> set bs \<Longrightarrow> pixels b \<subseteq> U"
  shows "(\<Sum>p\<in>U. cover_count bs p) = sum_list (map (\<lambda>b. card (pixels b)) bs)"
  using assms(2)
proof (induction bs)
  case (Cons b bs)
  have "(\<Sum>p\<in>U. if in_box p b then 1 else 0 :: nat) = card {p \<in> U. in_box p b}"
    using assms(1) by (simp add: sum.If_cases Int_def)
  also have "{p \<in> U. in_box p b} = pixels b"
    using Cons.prems [of b] by (auto simp: pixels_def)
  finally show ?case using Cons by (simp add: sum.distrib)
qed simp

lemma exact_cover_area:
  assumes "exact_cover bs D" "\<forall>b \<in> set bs. bbox_ok b" "finite {p. D p}"
  shows "sum_list (map area bs) = int (card {p. D p})"
proof -
  have sub: "pixels b \<subseteq> {p. D p}" if "b \<in> set bs" for b
  proof
    fix p assume "p \<in> pixels b"
    with that have "0 < cover_count bs p" by (auto simp: cover_count_pos pixels_def)
    moreover have "cover_count bs p = (if D p then 1 else 0)"
      using assms(1) unfolding exact_cover_def by blast
    ultimately show "p \<in> {p. D p}" by (simp split: if_splits)
  qed
  have "sum_list (map area bs) = int (sum_list (map (\<lambda>b. card (pixels b)) bs))"
    using assms(2) by (induction bs) (auto simp: card_pixels)
  also have "\<dots> = int (\<Sum>p\<in>{p. D p}. cover_count bs p)"
    using sum_cover_count [OF assms(3) sub] by simp
  also have "(\<Sum>p\<in>{p. D p}. cover_count bs p) = (\<Sum>p\<in>{p. D p}. 1)"
    using assms(1) by (intro sum.cong) (auto simp: exact_cover_def)
  also have "int (\<Sum>p\<in>{p. D p}. 1) = int (card {p. D p})" by simp
  finally show ?thesis .
qed

lemma domain_pixels: "{p. in_domain (h, w) p} = {0..<w} \<times> {0..<h}"
  by (auto simp: in_domain_def)

lemma card_domain: "0 \<le> h \<Longrightarrow> 0 \<le> w \<Longrightarrow> int (card {p. in_domain (h, w) p}) = h * w"
  by (simp add: domain_pixels)

lemma finite_domain [simp]: "finite {p. in_domain shape p}"
  by (cases shape) (simp add: domain_pixels)

subsection \<open>Products of interval lists\<close>

text \<open>
  Core grids and subdivisions are products of two interval lists, so a pixel's cover count is
  the product of two one-dimensional counts.
\<close>

definition ivs_count :: "(int \<times> int) list \<Rightarrow> int \<Rightarrow> nat" where
  "ivs_count ivs t = length (filter (\<lambda>(a, b). a \<le> t \<and> t < b) ivs)"

definition row_boxes :: "int \<times> int \<Rightarrow> (int \<times> int) list \<Rightarrow> bbox list" where
  "row_boxes r cols =
     map (\<lambda>c. \<lparr>bx0 = fst c, by0 = fst r, bx1 = snd c, by1 = snd r\<rparr>) cols"

definition grid_boxes :: "(int \<times> int) list \<Rightarrow> (int \<times> int) list \<Rightarrow> bbox list" where
  "grid_boxes rows cols = concat (map (\<lambda>r. row_boxes r cols) rows)"

lemma ivs_count_simps [simp]:
  "ivs_count [] t = 0"
  "ivs_count (i # is) t = (if fst i \<le> t \<and> t < snd i then 1 else 0) + ivs_count is t"
  "ivs_count (is @ js) t = ivs_count is t + ivs_count js t"
  by (simp_all add: ivs_count_def case_prod_beta)

lemma cover_count_row:
  "cover_count (row_boxes r cols) p =
     (if fst r \<le> snd p \<and> snd p < snd r then ivs_count cols (fst p) else 0)"
  by (induction cols) (auto simp: row_boxes_def in_box_def)

lemma cover_count_grid:
  "cover_count (grid_boxes rows cols) p = ivs_count rows (snd p) * ivs_count cols (fst p)"
  by (induction rows) (auto simp: grid_boxes_def cover_count_row)

lemma grid_boxes_ok:
  assumes "\<forall>r \<in> set rows. fst r < snd r" "\<forall>c \<in> set cols. fst c < snd c"
  shows "\<forall>b \<in> set (grid_boxes rows cols). bbox_ok b"
  using assms by (auto simp: grid_boxes_def row_boxes_def bbox_ok_def)

definition step_ivs :: "int \<Rightarrow> int \<Rightarrow> int \<Rightarrow> (int \<times> int) list" where
  "step_ivs lo hi step = map (\<lambda>a. (a, min (a + step) hi)) (pyrange lo hi step)"

lemma step_ivs_ok: "0 < step \<Longrightarrow> i \<in> set (step_ivs lo hi step) \<Longrightarrow> fst i < snd i"
  by (auto simp: step_ivs_def pyrange_mem)

lemma step_start_unique:
  fixes a t lo step :: int
  assumes "step dvd a - lo" "a \<le> t" "t < a + step"
  shows "a = t - (t - lo) mod step"
proof -
  have "(t - lo) mod step = ((t - a) + (a - lo)) mod step" by simp
  also have "\<dots> = (t - a) mod step"
    using assms(1) by (metis add.right_neutral dvd_eq_mod_eq_0 mod_add_right_eq)
  also have "\<dots> = t - a" using assms(2,3) by simp
  finally show ?thesis by simp
qed

lemma step_ivs_count:
  assumes "0 < step"
  shows "ivs_count (step_ivs lo hi step) t = (if lo \<le> t \<and> t < hi then 1 else 0)"
proof -
  let ?P = "\<lambda>a. a \<le> t \<and> t < min (a + step) hi"
  have "ivs_count (step_ivs lo hi step) t = length (filter ?P (pyrange lo hi step))"
    by (simp add: ivs_count_def step_ivs_def filter_map o_def)
  also have "\<dots> = card {a \<in> set (pyrange lo hi step). ?P a}"
    using distinct_card [OF distinct_filter [OF pyrange_distinct [OF assms]], of ?P lo hi]
    by simp
  also have "{a \<in> set (pyrange lo hi step). ?P a} =
      (if lo \<le> t \<and> t < hi then {t - (t - lo) mod step} else {})"
  proof (cases "lo \<le> t \<and> t < hi")
    case True
    let ?a = "t - (t - lo) mod step"
    have "?a - lo = (t - lo) - (t - lo) mod step" by simp
    then have "step dvd ?a - lo" by (simp only: dvd_minus_mod)
    moreover have "t < ?a + step" "?a \<le> t"
      using assms by simp_all
    moreover from this True have "?a < hi" by linarith
    moreover have "(t - lo) mod step \<le> t - lo"
      using True assms by (simp add: zmod_le_nonneg_dividend)
    ultimately have "?a \<in> set (pyrange lo hi step)" "?P ?a"
      using True assms by (simp_all add: pyrange_mem)
    moreover have "a = ?a" if "a \<in> set (pyrange lo hi step)" "?P a" for a
      using that assms by (intro step_start_unique) (auto simp: pyrange_mem)
    ultimately have "{a \<in> set (pyrange lo hi step). ?P a} = {?a}" by blast
    then show ?thesis using True by simp
  next
    case False
    then show ?thesis using assms by (auto simp: pyrange_mem)
  qed
  finally show ?thesis by simp
qed

text \<open>The core grid with the default stride is the product of the two stepped axes.\<close>

lemma core_grid_boxes_grid:
  assumes "0 < core_size"
  shows "core_grid_boxes (h, w) core_size None =
         Inr (grid_boxes (step_ivs 0 h core_size) (step_ivs 0 w core_size))"
proof -
  let ?box = "\<lambda>y x. \<lparr>bx0 = x, by0 = y, bx1 = min (x + core_size) w, by1 = min (y + core_size) h\<rparr>"
  have "mapE (\<lambda>x. mk_bbox x y
           (if x + core_size > w then min (x + core_size) w else x + core_size)
           (if y + core_size > h then min (y + core_size) h else y + core_size))
         (pyrange 0 w core_size) = Inr (map (?box y) (pyrange 0 w core_size))"
    if "y \<in> set (pyrange 0 h core_size)" for y
    using that assms by (intro mapE_Inr) (auto simp: pyrange_mem mk_bbox_def)
  then have "mapE (\<lambda>y. mapE (\<lambda>x. mk_bbox x y
           (if x + core_size > w then min (x + core_size) w else x + core_size)
           (if y + core_size > h then min (y + core_size) h else y + core_size))
         (pyrange 0 w core_size)) (pyrange 0 h core_size) =
       Inr (map (\<lambda>y. map (?box y) (pyrange 0 w core_size)) (pyrange 0 h core_size))"
    by (rule mapE_Inr)
  then show ?thesis
    using assms
    by (simp add: core_grid_boxes_def grid_boxes_def row_boxes_def step_ivs_def o_def)
qed

lemma core_grid_cover:
  assumes "0 < core_size" "core_grid_boxes shape core_size None = Inr bs"
  shows "exact_cover bs (in_domain shape)" "\<forall>b \<in> set bs. bbox_ok b"
proof -
  obtain h w where sh: "shape = (h, w)" by (cases shape)
  with assms have bs: "bs = grid_boxes (step_ivs 0 h core_size) (step_ivs 0 w core_size)"
    by (simp add: core_grid_boxes_grid)
  show "exact_cover bs (in_domain shape)"
    by (auto simp: exact_cover_def bs sh cover_count_grid step_ivs_count [OF assms(1)]
        in_domain_def)
  show "\<forall>b \<in> set bs. bbox_ok b"
    unfolding bs using step_ivs_ok [OF assms(1)] by (intro grid_boxes_ok) auto
qed

subsection \<open>Read regions\<close>

definition dom_box :: "int \<times> int \<Rightarrow> bbox" where
  "dom_box shape = \<lparr>bx0 = 0, by0 = 0, bx1 = snd shape, by1 = fst shape\<rparr>"

definition halo_nonneg :: "halo_spec \<Rightarrow> bool" where
  "halo_nonneg h \<longleftrightarrow> 0 \<le> hleft h \<and> 0 \<le> htop h \<and> 0 \<le> hright h \<and> 0 \<le> hbottom h"

lemma in_box_dom_box [simp]: "in_box p (dom_box shape) \<longleftrightarrow> in_domain shape p"
  by (simp add: in_box_def dom_box_def in_domain_def)

lemma pixels_dom_box: "pixels (dom_box shape) = {p. in_domain shape p}"
  by (simp add: pixels_def)

lemma contains_trans: "contains a b \<Longrightarrow> contains b c \<Longrightarrow> contains a c"
  by (simp add: contains_def)

lemma contains_in_box: "contains a b \<Longrightarrow> in_box p b \<Longrightarrow> in_box p a"
  by (auto simp: contains_def in_box_def)

lemma uniform_halo_Inr:
  "uniform_halo px = Inr h \<longleftrightarrow>
     0 \<le> px \<and> h = \<lparr>hleft = px, htop = px, hright = px, hbottom = px\<rparr>"
  by (auto simp: uniform_halo_def)

lemma halo_nonneg_uniform: "uniform_halo px = Inr h \<Longrightarrow> halo_nonneg h"
  by (auto simp: uniform_halo_Inr halo_nonneg_def)

lemma halo_max_uniform: "uniform_halo px = Inr h \<Longrightarrow> halo_max h = px"
  by (auto simp: uniform_halo_Inr halo_max_def)

lemma halo_max_nonneg: "halo_nonneg h \<Longrightarrow> 0 \<le> halo_max h"
  by (auto simp: halo_nonneg_def halo_max_def)

text \<open>
  A core inside the domain has a read region: it contains the core, stays inside the domain,
  and every pixel of the domain within the halo of a core pixel is in it.
\<close>

lemma read_bbox_for_core:
  assumes "bbox_ok core" "contains (dom_box (h, w)) core" "halo_nonneg halo"
  shows "\<exists>r. read_bbox_for core halo w h = Inr r \<and> bbox_ok r \<and> contains r core \<and>
             contains (dom_box (h, w)) r \<and>
             r = \<lparr>bx0 = max 0 (bx0 core - hleft halo), by0 = max 0 (by0 core - htop halo),
                  bx1 = min w (bx1 core + hright halo), by1 = min h (by1 core + hbottom halo)\<rparr>"
  using assms
  by (auto simp: read_bbox_for_def mk_bbox_def bbox_ok_def contains_def dom_box_def
      halo_nonneg_def)

lemma read_bbox_for_within:
  assumes "read_bbox_for core halo w h = Inr r" "in_box p core" "in_domain (h, w) q"
    and "fst p - hleft halo \<le> fst q" "fst q \<le> fst p + hright halo"
    and "snd p - htop halo \<le> snd q" "snd q \<le> snd p + hbottom halo"
  shows "in_box q r"
  using assms by (auto simp: read_bbox_for_def mk_bbox_Inr in_box_def in_domain_def)

lemma halo_actual_nonneg: "contains read core \<Longrightarrow> halo_nonneg (halo_actual core read)"
  by (simp add: contains_def halo_nonneg_def halo_actual_def)

lemma exact_cover_in_domain:
  assumes "exact_cover bs (in_domain shape)" "b \<in> set bs" "bbox_ok b"
  shows "contains (dom_box shape) b"
proof -
  have "pixels b \<subseteq> pixels (dom_box shape)"
  proof
    fix p assume "p \<in> pixels b"
    with assms(2) have "0 < cover_count bs p" by (auto simp: cover_count_pos pixels_def)
    moreover have "cover_count bs p = (if in_domain shape p then 1 else 0)"
      using assms(1) unfolding exact_cover_def by blast
    ultimately show "p \<in> pixels (dom_box shape)" by (simp add: pixels_def split: if_splits)
  qed
  with assms(3) show ?thesis by (simp add: contains_pixels)
qed

lemma exact_cover_inside:
  assumes "exact_cover bs (\<lambda>p. in_box p c)" "b \<in> set bs" "bbox_ok b"
  shows "contains c b"
proof -
  have "pixels b \<subseteq> pixels c"
  proof
    fix p assume "p \<in> pixels b"
    with assms(2) have "0 < cover_count bs p" by (auto simp: cover_count_pos pixels_def)
    moreover have "cover_count bs p = (if in_box p c then 1 else 0)"
      using assms(1) unfolding exact_cover_def by blast
    ultimately show "p \<in> pixels c" by (simp add: pixels_def split: if_splits)
  qed
  with assms(3) show ?thesis by (simp add: contains_pixels)
qed

end
