(* ===== verification/CoreHalo.thy ===== *)
theory CoreHalo
  imports Geometry
begin

text \<open>
  Model of \<open>streaming/core_halo.py\<close>: tile requests (a trusted core and its read region), the
  plan of a layout, refinement by subdivision or by a larger halo, the sequential scheduler
  and the budgeted choice of a core size.  The legacy scheduler of this file keeps its own
  \<open>subdivide_request\<close>; the pipeline subdivides through \<open>partition_core\<close> of the ownership tree.
\<close>

record tile_request =
  core_bbox :: bbox
  read_bbox :: bbox
  tr_halo :: halo_spec
  tile_id :: string

definition core_size_of :: "tile_request \<Rightarrow> int \<times> int" where
  "core_size_of r = (height (core_bbox r), width (core_bbox r))"

definition read_size_of :: "tile_request \<Rightarrow> int \<times> int" where
  "read_size_of r = (height (read_bbox r), width (read_bbox r))"

datatype refine_action = IncreaseHalo | Subdivide

record refinement_request =
  rr_tile_id :: string
  rr_action :: refine_action
  extra_halo_px :: int
  subdivision :: int

text \<open>
  The action is a string in the source; \<open>parse_action\<close> is the membership test of
  \<open>__post_init__\<close>, and \<open>mk_refinement\<close> the whole constructor.
\<close>

definition parse_action :: "string \<Rightarrow> refine_action res" where
  "parse_action a =
     (if a = ''increase_halo'' then Inr IncreaseHalo
      else if a = ''subdivide'' then Inr Subdivide
      else Inl (ValueError ''unknown refinement action''))"

definition mk_refinement ::
    "string \<Rightarrow> string \<Rightarrow> int \<Rightarrow> int \<Rightarrow> refinement_request res" where
  "mk_refinement tid action extra sub =
     ebind (parse_action action) (\<lambda>a.
     if a = IncreaseHalo \<and> extra \<le> 0
       then Inl (ValueError ''increase_halo refinement needs extra_halo_px > 0'')
     else if a = Subdivide \<and> sub < 2
       then Inl (ValueError ''subdivide refinement needs subdivision >= 2'')
     else Inr \<lparr>rr_tile_id = tid, rr_action = a, extra_halo_px = extra, subdivision = sub\<rparr>)"

definition refinement_ok :: "refinement_request \<Rightarrow> bool" where
  "refinement_ok r \<longleftrightarrow>
     (rr_action r = IncreaseHalo \<longrightarrow> 0 < extra_halo_px r) \<and>
     (rr_action r = Subdivide \<longrightarrow> 2 \<le> subdivision r)"

subsection \<open>Planning\<close>

definition request_of :: "string \<Rightarrow> int \<times> int \<Rightarrow> halo_spec \<Rightarrow> nat \<times> bbox \<Rightarrow> tile_request res" where
  "request_of prefix shape halo ic =
     ebind (read_bbox_for (snd ic) halo (snd shape) (fst shape)) (\<lambda>read.
       Inr \<lparr>core_bbox = snd ic, read_bbox = read, tr_halo = halo_actual (snd ic) read,
            tile_id = prefix @ ''_'' @ str_of_nat (fst ic)\<rparr>)"

definition plan_tile_requests ::
    "int \<times> int \<Rightarrow> int \<Rightarrow> int + halo_spec \<Rightarrow> int option \<Rightarrow> string \<Rightarrow> tile_request list res" where
  "plan_tile_requests shape core_size halo_px core_stride prefix =
     ebind (case halo_px of Inl px \<Rightarrow> uniform_halo px | Inr h \<Rightarrow> Inr h) (\<lambda>halo.
     ebind (core_grid_boxes shape core_size core_stride) (\<lambda>cores.
       mapE (request_of prefix shape halo) (enumerate 0 cores)))"

subsection \<open>The legacy subdivision of a request\<close>

definition sub_core :: "bbox \<Rightarrow> int \<Rightarrow> int \<Rightarrow> int \<Rightarrow> int \<Rightarrow> bbox res" where
  "sub_core core sub_w sub_h y0 x0 =
     mk_bbox x0 y0 (min (x0 + sub_w) (bx1 core)) (min (y0 + sub_h) (by1 core))"

definition sub_request :: "tile_request \<Rightarrow> nat \<times> bbox \<Rightarrow> tile_request res" where
  "sub_request r ic =
     ebind (uniform_halo (halo_max (tr_halo r))) (\<lambda>extra.
     ebind (read_bbox_for (snd ic) extra
              (max (bx1 (read_bbox r)) (bx1 (snd ic)))
              (max (by1 (read_bbox r)) (by1 (snd ic)))) (\<lambda>read.
       Inr \<lparr>core_bbox = snd ic, read_bbox = read, tr_halo = halo_actual (snd ic) read,
            tile_id = tile_id r @ ''_s'' @ str_of_nat (fst ic)\<rparr>))"

definition subdivide_request :: "tile_request \<Rightarrow> int \<Rightarrow> tile_request list res" where
  "subdivide_request r sub =
     (let core = core_bbox r;
          sub_h = max 1 (height core div sub);
          sub_w = max 1 (width core div sub) in
      ebind (mapE (\<lambda>y0. mapE (sub_core core sub_w sub_h y0)
                          (pyrange (bx0 core) (bx1 core) sub_w))
                  (pyrange (by0 core) (by1 core) sub_h)) (\<lambda>rows.
        mapE (sub_request r)
          (enumerate 0 (filter (\<lambda>b. \<not> (width b \<le> 0 \<or> height b \<le> 0)) (concat rows)))))"

subsection \<open>The scheduler\<close>

record tile_scheduler =
  ts_requests :: "tile_request list"
  ts_domain :: "(int \<times> int) option"
  ts_pending :: "tile_request list"

definition new_scheduler :: "tile_request list \<Rightarrow> (int \<times> int) option \<Rightarrow> tile_scheduler" where
  "new_scheduler reqs dmn = \<lparr>ts_requests = reqs, ts_domain = dmn, ts_pending = reqs\<rparr>"

definition scheduler_next :: "tile_scheduler \<Rightarrow> (tile_request \<times> tile_scheduler) res" where
  "scheduler_next s =
     (case ts_pending s of
        [] \<Rightarrow> Inl StopIteration
      | r # rest \<Rightarrow> Inr (r, s\<lparr>ts_pending := rest\<rparr>))"

definition enqueue :: "tile_scheduler \<Rightarrow> tile_request list \<Rightarrow> tile_scheduler" where
  "enqueue s reqs = s\<lparr>ts_pending := ts_pending s @ reqs\<rparr>"

text \<open>
  \<open>clip_w, clip_h = self.domain\<close>: the first component of the domain is the clip width.
\<close>

definition grow_request ::
    "(int \<times> int) option \<Rightarrow> tile_request \<Rightarrow> int \<Rightarrow> tile_request res" where
  "grow_request dmn r extra =
     ebind (uniform_halo (halo_max (tr_halo r) + extra)) (\<lambda>grown.
     let clip = (case dmn of
           Some d \<Rightarrow> d
         | None \<Rightarrow> (max (bx1 (read_bbox r)) (bx1 (core_bbox r)),
                    max (by1 (read_bbox r)) (by1 (core_bbox r)))) in
     ebind (read_bbox_for (core_bbox r) grown (fst clip) (snd clip)) (\<lambda>read.
       Inr \<lparr>core_bbox = core_bbox r, read_bbox = read,
            tr_halo = halo_actual (core_bbox r) read, tile_id = tile_id r\<rparr>))"

definition enqueue_refinement ::
    "tile_scheduler \<Rightarrow> tile_request \<Rightarrow> refinement_request \<Rightarrow>
     (tile_request list \<times> tile_scheduler) res" where
  "enqueue_refinement s r ref =
     ebind (case rr_action ref of
              Subdivide \<Rightarrow> subdivide_request r (subdivision ref)
            | IncreaseHalo \<Rightarrow>
                ebind (grow_request (ts_domain s) r (extra_halo_px ref)) (\<lambda>g. Inr [g]))
       (\<lambda>refined. Inr (refined, enqueue s refined))"

subsection \<open>Overhead and budgeted planning\<close>

definition tiling_overhead :: "tile_request list \<Rightarrow> overhead_stats res" where
  "tiling_overhead reqs = halo_overhead_stats (map core_bbox reqs) (map read_bbox reqs)"

definition best_core_size :: "int \<Rightarrow> rat \<Rightarrow> int \<Rightarrow> int \<Rightarrow> int \<Rightarrow> int \<Rightarrow> int" where
  "best_core_size budget bpp halo_px min_core max_core batch =
     foldl (\<lambda>best core.
         let read = core + 2 * halo_px in
         if bpp * of_int read * of_int read * of_int batch \<le> of_int budget then core else best)
       min_core (pyrange min_core (max_core + 1) 8)"

definition plan_tiling ::
    "int \<times> int \<Rightarrow> int \<Rightarrow> rat \<Rightarrow> int \<Rightarrow> int \<Rightarrow> int \<Rightarrow> int \<Rightarrow> tile_request list res" where
  "plan_tiling shape budget bpp halo_px min_core max_core batch =
     (if budget \<le> 0 then Inl (ValueError ''memory_budget_bytes must be positive'')
      else if min_core \<le> 0 \<or> max_core < min_core
        then Inl (ValueError ''invalid core size bounds'')
      else let best = best_core_size budget bpp halo_px min_core max_core batch;
               h = fst shape; w = snd shape in
      if best \<ge> min h w then
        ebind (uniform_halo 0) (\<lambda>z.
          plan_tile_requests shape (max (min h w) min_core) (Inr z) None ''tile'')
      else
        ebind (uniform_halo halo_px) (\<lambda>hs.
          plan_tile_requests shape best (Inr hs) None ''tile''))"

subsection \<open>Planning is an exact cover with readable context\<close>

definition request_ok :: "int \<times> int \<Rightarrow> tile_request \<Rightarrow> bool" where
  "request_ok shape r \<longleftrightarrow>
     bbox_ok (core_bbox r) \<and> bbox_ok (read_bbox r) \<and>
     contains (read_bbox r) (core_bbox r) \<and> contains (dom_box shape) (read_bbox r) \<and>
     tr_halo r = halo_actual (core_bbox r) (read_bbox r)"

lemma request_of_core: "request_of prefix shape halo ic = Inr r \<Longrightarrow> core_bbox r = snd ic"
  by (auto simp: request_of_def ebind_eq_Inr)

lemma request_of_ok:
  assumes "bbox_ok (snd ic)" "contains (dom_box shape) (snd ic)" "halo_nonneg halo"
  shows "\<exists>r. request_of prefix shape halo ic = Inr r \<and> request_ok shape r \<and>
             core_bbox r = snd ic \<and> tile_id r = prefix @ ''_'' @ str_of_nat (fst ic)"
  using read_bbox_for_core [of "snd ic" "fst shape" "snd shape" halo] assms
  by (auto simp: request_of_def request_ok_def)

lemma mapE_request_cores:
  "mapE (request_of prefix shape halo) ics = Inr rs \<Longrightarrow> map core_bbox rs = map snd ics"
  by (induction ics arbitrary: rs) (auto simp: ebind_eq_Inr request_of_core)

lemma mapE_request_ids:
  "mapE (request_of prefix shape halo) ics = Inr rs \<Longrightarrow>
     map tile_id rs = map (\<lambda>ic. prefix @ ''_'' @ str_of_nat (fst ic)) ics"
  by (induction ics arbitrary: rs) (auto simp: ebind_eq_Inr request_of_def)

lemma plan_total:
  assumes "0 < core_size" "halo_nonneg halo"
  shows "\<exists>rs. plan_tile_requests shape core_size (Inr halo) None prefix = Inr rs \<and>
           (\<forall>r\<in>set rs. request_ok shape r) \<and> exact_cover (map core_bbox rs) (in_domain shape)"
proof -
  obtain cores where cores: "core_grid_boxes shape core_size None = Inr cores"
    using core_grid_boxes_grid [OF assms(1)] by (cases shape) blast
  note cov = core_grid_cover [OF assms(1) cores]
  have "\<exists>rs. mapE (request_of prefix shape halo) (enumerate 0 cores) = Inr rs \<and>
      (\<forall>r\<in>set rs. request_ok shape r)"
  proof (rule mapE_total)
    fix ic assume "ic \<in> set (enumerate 0 cores)"
    then have "snd ic \<in> set cores"
      by (metis enumerate_eq_zip prod.collapse set_zip_rightD)
    then show "\<exists>r. request_of prefix shape halo ic = Inr r \<and> request_ok shape r"
      using request_of_ok [of ic shape halo prefix] cov assms(2)
        exact_cover_in_domain [OF cov(1)] by blast
  qed
  then obtain rs where rs: "mapE (request_of prefix shape halo) (enumerate 0 cores) = Inr rs"
      "\<forall>r\<in>set rs. request_ok shape r" by blast
  then have "map core_bbox rs = cores" by (simp add: mapE_request_cores)
  with rs cov(1) cores show ?thesis by (simp add: plan_tile_requests_def)
qed

lemma plan_ids_distinct:
  assumes "plan_tile_requests shape core_size halo stride prefix = Inr rs"
  shows "distinct (map tile_id rs)"
proof -
  obtain h cores where "mapE (request_of prefix shape h) (enumerate 0 cores) = Inr rs"
    using assms by (auto simp: plan_tile_requests_def ebind_eq_Inr)
  then have "map tile_id rs =
      map (\<lambda>n. prefix @ ''_'' @ str_of_nat n) (map fst (enumerate 0 cores))"
    unfolding map_map o_def by (rule mapE_request_ids)
  then have "map tile_id rs = map (\<lambda>n. prefix @ ''_'' @ str_of_nat n) [0..<length cores]"
    by simp
  then show ?thesis by (simp add: distinct_map inj_on_def str_of_nat_inj)
qed


lemma request_ok_clip:
  assumes "request_ok (h, w) r"
  shows "0 \<le> bx0 (read_bbox r)" "bx1 (read_bbox r) \<le> w" "0 \<le> by0 (read_bbox r)"
    "by1 (read_bbox r) \<le> h" "halo_nonneg (tr_halo r)"
  using assms halo_actual_nonneg [of "read_bbox r" "core_bbox r"]
  by (auto simp: request_ok_def contains_def dom_box_def)

subsection \<open>Subdivision of a request\<close>

lemma sub_core_row:
  assumes "0 < sub_w" "0 < sub_h" "y0 \<in> set (pyrange (by0 c) (by1 c) sub_h)"
  shows "mapE (sub_core c sub_w sub_h y0) (pyrange (bx0 c) (bx1 c) sub_w) =
    Inr (row_boxes (y0, min (y0 + sub_h) (by1 c)) (step_ivs (bx0 c) (bx1 c) sub_w))"
proof -
  have "mapE (sub_core c sub_w sub_h y0) (pyrange (bx0 c) (bx1 c) sub_w) =
    Inr (map (\<lambda>x0. \<lparr>bx0 = x0, by0 = y0, bx1 = min (x0 + sub_w) (bx1 c),
                    by1 = min (y0 + sub_h) (by1 c)\<rparr>) (pyrange (bx0 c) (bx1 c) sub_w))"
    using assms by (intro mapE_Inr) (auto simp: sub_core_def mk_bbox_def pyrange_mem)
  then show ?thesis by (simp add: row_boxes_def step_ivs_def o_def)
qed

lemma sub_core_grid:
  assumes "0 < sub_w" "0 < sub_h"
  shows "ebind (mapE (\<lambda>y0. mapE (sub_core c sub_w sub_h y0) (pyrange (bx0 c) (bx1 c) sub_w))
                  (pyrange (by0 c) (by1 c) sub_h)) (\<lambda>rows. Inr (concat rows)) =
    Inr (grid_boxes (step_ivs (by0 c) (by1 c) sub_h) (step_ivs (bx0 c) (bx1 c) sub_w))"
proof -
  have "mapE (\<lambda>y0. mapE (sub_core c sub_w sub_h y0) (pyrange (bx0 c) (bx1 c) sub_w))
          (pyrange (by0 c) (by1 c) sub_h) =
      Inr (map (\<lambda>y0. row_boxes (y0, min (y0 + sub_h) (by1 c)) (step_ivs (bx0 c) (bx1 c) sub_w))
          (pyrange (by0 c) (by1 c) sub_h))"
    using sub_core_row [OF assms] by (rule mapE_Inr)
  then show ?thesis by (simp add: grid_boxes_def step_ivs_def o_def)
qed

lemma step_grid_cover:
  assumes "0 < sub_w" "0 < sub_h"
  shows "exact_cover (grid_boxes (step_ivs (by0 c) (by1 c) sub_h) (step_ivs (bx0 c) (bx1 c) sub_w))
           (\<lambda>p. in_box p c)"
    "\<forall>b \<in> set (grid_boxes (step_ivs (by0 c) (by1 c) sub_h) (step_ivs (bx0 c) (bx1 c) sub_w)).
       bbox_ok b"
proof -
  show "exact_cover (grid_boxes (step_ivs (by0 c) (by1 c) sub_h) (step_ivs (bx0 c) (bx1 c) sub_w))
           (\<lambda>p. in_box p c)"
    using assms by (auto simp: exact_cover_def cover_count_grid step_ivs_count in_box_def)
  show "\<forall>b \<in> set (grid_boxes (step_ivs (by0 c) (by1 c) sub_h) (step_ivs (bx0 c) (bx1 c) sub_w)).
       bbox_ok b"
    by (rule grid_boxes_ok) (use step_ivs_ok assms in blast)+
qed

lemma sub_request_total:
  assumes "request_ok (h, w) r" "bbox_ok b" "contains (core_bbox r) b"
  shows "\<exists>q. sub_request r (i, b) = Inr q \<and> request_ok (h, w) q \<and> core_bbox q = b"
proof -
  let ?m = "halo_max (tr_halo r)"
  let ?w = "max (bx1 (read_bbox r)) (bx1 b)" and ?h = "max (by1 (read_bbox r)) (by1 b)"
  note clip = request_ok_clip [OF assms(1)]
  have in_read: "contains (read_bbox r) b"
    using assms by (auto simp: request_ok_def intro: contains_trans)
  have "0 \<le> ?m" using clip(5) by (rule halo_max_nonneg)
  then obtain u where u: "uniform_halo ?m = Inr u" by (auto simp: uniform_halo_def)
  have "contains (dom_box (?h, ?w)) b"
    using in_read clip by (auto simp: contains_def dom_box_def)
  from read_bbox_for_core [OF assms(2) this halo_nonneg_uniform [OF u]]
  obtain q where q: "read_bbox_for b u ?w ?h = Inr q" "bbox_ok q" "contains q b"
      "contains (dom_box (?h, ?w)) q" by blast
  have "?w \<le> w" "?h \<le> h" using in_read clip by (auto simp: contains_def)
  with q(4) have "contains (dom_box (h, w)) q" by (auto simp: contains_def dom_box_def)
  with q u assms(2) show ?thesis by (simp add: sub_request_def request_ok_def)
qed

lemma mapE_sub_cores:
  "mapE (sub_request r) ics = Inr rs \<Longrightarrow> map core_bbox rs = map snd ics"
  by (induction ics arbitrary: rs) (auto simp: ebind_eq_Inr sub_request_def)

subsection \<open>Properties\<close>

definition fits_budget :: "int \<Rightarrow> rat \<Rightarrow> int \<Rightarrow> int \<Rightarrow> int \<Rightarrow> bool" where
  "fits_budget budget bpp halo_px batch core \<longleftrightarrow>
     bpp * of_int (core + 2 * halo_px) * of_int (core + 2 * halo_px) * of_int batch
       \<le> of_int budget"

lemma best_core_size_last:
  "best_core_size budget bpp halo_px min_core max_core batch =
     last (min_core # filter (fits_budget budget bpp halo_px batch)
       (pyrange min_core (max_core + 1) 8))"
  by (simp only: best_core_size_def fits_budget_def [abs_def] Let_def foldl_last_match)

lemma plan_read_context:
  assumes plan: "plan_tile_requests shape core_size (Inr halo) stride prefix = Inr rs"
    and "r \<in> set rs" "in_box p (core_bbox r)" "in_domain shape q"
    and "fst p - hleft halo \<le> fst q" "fst q \<le> fst p + hright halo"
    and "snd p - htop halo \<le> snd q" "snd q \<le> snd p + hbottom halo"
  shows "in_box q (read_bbox r)"
proof -
  obtain ics where "mapE (request_of prefix shape halo) ics = Inr rs"
    using plan by (auto simp: plan_tile_requests_def ebind_eq_Inr)
  from mapE_mem [OF this assms(2)] obtain ic where "request_of prefix shape halo ic = Inr r"
    by blast
  then have "read_bbox_for (core_bbox r) halo (snd shape) (fst shape) = Inr (read_bbox r)"
    by (auto simp: request_of_def ebind_eq_Inr)
  from read_bbox_for_within [OF this assms(3)] assms(4-) show ?thesis by simp
qed

lemma plan_uniform:
  "plan_tile_requests shape core_size (Inl px) stride prefix =
     ebind (uniform_halo px) (\<lambda>hs. plan_tile_requests shape core_size (Inr hs) stride prefix)"
  by (cases "uniform_halo px") (simp_all add: plan_tile_requests_def)

text \<open>C12: Planning a layout always succeeds for a positive core size and a nonnegative halo, and
  the cores are an exact cover: every pixel of the layout is owned by exactly one core, the core
  areas add up to the layout's pixel count, tile ids are distinct, and each read region contains
  its core, stays inside the layout and holds every layout pixel within the halo of a core
  pixel.\<close>

theorem plan_exact_cover:
  assumes "0 < core_size" "0 \<le> halo_px" "0 \<le> h" "0 \<le> w"
  shows "\<exists>rs. plan_tile_requests (h, w) core_size (Inl halo_px) None prefix = Inr rs \<and>
    exact_cover (map core_bbox rs) (in_domain (h, w)) \<and>
    sum_list (map (\<lambda>r. area (core_bbox r)) rs) = h * w \<and>
    distinct (map tile_id rs) \<and> list_all (request_ok (h, w)) rs \<and>
    (\<forall>r p q. r \<in> set rs \<longrightarrow> in_box p (core_bbox r) \<longrightarrow> in_domain (h, w) q \<longrightarrow>
      \<bar>fst p - fst q\<bar> \<le> halo_px \<longrightarrow> \<bar>snd p - snd q\<bar> \<le> halo_px \<longrightarrow> in_box q (read_bbox r))"
proof -
  obtain hs where hs: "uniform_halo halo_px = Inr hs"
    using assms(2) by (simp add: uniform_halo_def)
  from plan_total [OF assms(1) halo_nonneg_uniform [OF hs]]
  obtain rs where rs: "plan_tile_requests (h, w) core_size (Inr hs) None prefix = Inr rs"
      "\<forall>r\<in>set rs. request_ok (h, w) r" "exact_cover (map core_bbox rs) (in_domain (h, w))"
    by blast
  have "sum_list (map area (map core_bbox rs)) = int (card {p. in_domain (h, w) p})"
    using rs(2) by (intro exact_cover_area [OF rs(3)]) (auto simp: request_ok_def)
  then have sum: "sum_list (map (\<lambda>r. area (core_bbox r)) rs) = h * w"
    using assms(3,4) by (simp add: card_domain o_def)
  have ctx: "in_box q (read_bbox r)"
    if "r \<in> set rs" "in_box p (core_bbox r)" "in_domain (h, w) q"
      "\<bar>fst p - fst q\<bar> \<le> halo_px" "\<bar>snd p - snd q\<bar> \<le> halo_px" for r p q
    using plan_read_context [OF rs(1) that(1-3)] that(4,5) hs by (auto simp: uniform_halo_Inr)
  show ?thesis
    using rs sum ctx hs plan_ids_distinct [OF rs(1)]
    by (auto simp: plan_uniform list_all_iff)
qed

theorem plan_exact_cover_witness:
  "\<exists>rs. plan_tile_requests (5, 7) 4 (Inl 2) None ''tile'' = Inr rs \<and>
    exact_cover (map core_bbox rs) (in_domain (5, 7)) \<and>
    sum_list (map (\<lambda>r. area (core_bbox r)) rs) = 35"
  using plan_exact_cover [of 4 2 5 7 "''tile''"] by auto

text \<open>C13: Splitting a planned request into smaller cores conserves ownership: the sub-cores are an
  exact cover of the parent core, each comes with a read region that contains it, and nothing
  escapes the layout.\<close>

theorem subdivide_exact:
  assumes "request_ok (h, w) r" "2 \<le> sub"
  shows "\<exists>rs. subdivide_request r sub = Inr rs \<and>
    exact_cover (map core_bbox rs) (\<lambda>p. in_box p (core_bbox r)) \<and> list_all (request_ok (h, w)) rs"
proof -
  let ?c = "core_bbox r"
  define sw sh where "sw = max 1 (width ?c div sub)" and "sh = max 1 (height ?c div sub)"
  have pos: "0 < sw" "0 < sh" by (simp_all add: sw_def sh_def)
  define g where "g = grid_boxes (step_ivs (by0 ?c) (by1 ?c) sh) (step_ivs (bx0 ?c) (bx1 ?c) sw)"
  note cov = step_grid_cover [OF pos, of ?c, folded g_def]
  have keep: "filter (\<lambda>b. \<not> (width b \<le> 0 \<or> height b \<le> 0)) g = g"
    using cov(2) by (intro filter_True) (auto simp: bbox_ok_def width_def height_def)
  have "\<exists>qs. mapE (sub_request r) (enumerate 0 g) = Inr qs \<and> (\<forall>q\<in>set qs. request_ok (h, w) q)"
  proof (rule mapE_total)
    fix ic assume "ic \<in> set (enumerate 0 g)"
    then have "snd ic \<in> set g" by (metis enumerate_eq_zip prod.collapse set_zip_rightD)
    then show "\<exists>y. sub_request r ic = Inr y \<and> request_ok (h, w) y"
      using sub_request_total [OF assms(1), of "snd ic" "fst ic"] cov(2)
        exact_cover_inside [OF cov(1)] by auto
  qed
  then obtain qs where qs: "mapE (sub_request r) (enumerate 0 g) = Inr qs"
      "\<forall>q\<in>set qs. request_ok (h, w) q" by blast
  have "subdivide_request r sub = Inr qs"
    using sub_core_grid [OF pos, of ?c] qs(1) keep
    by (auto simp: subdivide_request_def Let_def ebind_eq_Inr
        simp flip: sw_def sh_def g_def)
  with qs cov(1) mapE_sub_cores [OF qs(1)] show ?thesis by (auto simp: list_all_iff)
qed

theorem subdivide_exact_witness:
  "\<exists>rs. subdivide_request \<lparr>core_bbox = \<lparr>bx0 = 0, by0 = 0, bx1 = 5, by1 = 3\<rparr>,
      read_bbox = \<lparr>bx0 = 0, by0 = 0, bx1 = 7, by1 = 3\<rparr>,
      tr_halo = \<lparr>hleft = 0, htop = 0, hright = 2, hbottom = 0\<rparr>, tile_id = ''t''\<rparr> 2 = Inr rs \<and>
    exact_cover (map core_bbox rs) (\<lambda>p. in_box p \<lparr>bx0 = 0, by0 = 0, bx1 = 5, by1 = 3\<rparr>)"
  using subdivide_exact [of 3 7 "\<lparr>core_bbox = \<lparr>bx0 = 0, by0 = 0, bx1 = 5, by1 = 3\<rparr>,
      read_bbox = \<lparr>bx0 = 0, by0 = 0, bx1 = 7, by1 = 3\<rparr>,
      tr_halo = \<lparr>hleft = 0, htop = 0, hright = 2, hbottom = 0\<rparr>, tile_id = ''t''\<rparr>" 2]
  by (auto simp: request_ok_def bbox_ok_def contains_def dom_box_def halo_actual_def)

text \<open>When some candidate core size fits the memory budget, the planner picks the largest
  candidate that fits: the chosen size fits, and no fitting candidate is larger.\<close>

theorem best_core_size_optimal:
  assumes "c \<in> set (pyrange min_core (max_core + 1) 8)" "fits_budget budget bpp halo_px batch c"
  shows "fits_budget budget bpp halo_px batch
           (best_core_size budget bpp halo_px min_core max_core batch) \<and>
         c \<le> best_core_size budget bpp halo_px min_core max_core batch \<and>
         best_core_size budget bpp halo_px min_core max_core batch \<le> max_core"
  using last_filter_max [OF pyrange_sorted assms(1), of "fits_budget budget bpp halo_px batch"
      min_core] assms(2)
  by (auto simp: best_core_size_last pyrange_mem)

text \<open>Growing a halo through the scheduler, with the clip bounds given as (width, height), keeps
  the core and the tile id and re-reads a region that contains the previous one and stays in the
  layout.\<close>

theorem grow_request_monotone:
  assumes "request_ok (h, w) r" "0 < extra"
  shows "\<exists>g. grow_request (Some (w, h)) r extra = Inr g \<and> request_ok (h, w) g \<and>
    core_bbox g = core_bbox r \<and> tile_id g = tile_id r \<and>
    contains (read_bbox g) (read_bbox r)"
proof -
  let ?m = "halo_max (tr_halo r)"
  note clip = request_ok_clip [OF assms(1)]
  have core: "bbox_ok (core_bbox r)" "contains (dom_box (h, w)) (core_bbox r)"
    "tr_halo r = halo_actual (core_bbox r) (read_bbox r)"
    using assms(1) by (auto simp: request_ok_def intro: contains_trans)
  obtain u where u: "uniform_halo (?m + extra) = Inr u"
    using halo_max_nonneg [OF clip(5)] assms(2) by (simp add: uniform_halo_def)
  from read_bbox_for_core [OF core(1,2) halo_nonneg_uniform [OF u]]
  obtain q where q: "read_bbox_for (core_bbox r) u w h = Inr q" "bbox_ok q"
      "contains q (core_bbox r)" "contains (dom_box (h, w)) q"
      "q = \<lparr>bx0 = max 0 (bx0 (core_bbox r) - hleft u), by0 = max 0 (by0 (core_bbox r) - htop u),
            bx1 = min w (bx1 (core_bbox r) + hright u), by1 = min h (by1 (core_bbox r) + hbottom u)\<rparr>"
    by blast
  have "hleft u = ?m + extra" "htop u = ?m + extra" "hright u = ?m + extra" "hbottom u = ?m + extra"
    using u by (auto simp: uniform_halo_Inr)
  moreover have "bx0 (core_bbox r) - bx0 (read_bbox r) \<le> ?m" "by0 (core_bbox r) - by0 (read_bbox r) \<le> ?m"
    "bx1 (read_bbox r) - bx1 (core_bbox r) \<le> ?m" "by1 (read_bbox r) - by1 (core_bbox r) \<le> ?m"
    by (simp_all add: core(3) halo_max_def halo_actual_def)
  ultimately have "contains q (read_bbox r)"
    using clip assms(2) by (simp add: q(5) contains_def)
  with q u core(1) show ?thesis by (simp add: grow_request_def request_ok_def)
qed

theorem grow_request_monotone_witness:
  "\<exists>g. grow_request (Some (7, 3)) \<lparr>core_bbox = \<lparr>bx0 = 2, by0 = 0, bx1 = 5, by1 = 3\<rparr>,
      read_bbox = \<lparr>bx0 = 1, by0 = 0, bx1 = 6, by1 = 3\<rparr>,
      tr_halo = \<lparr>hleft = 1, htop = 0, hright = 1, hbottom = 0\<rparr>, tile_id = ''t''\<rparr> 4 = Inr g \<and>
    request_ok (3, 7) g"
  using grow_request_monotone [of 3 7 "\<lparr>core_bbox = \<lparr>bx0 = 2, by0 = 0, bx1 = 5, by1 = 3\<rparr>,
      read_bbox = \<lparr>bx0 = 1, by0 = 0, bx1 = 6, by1 = 3\<rparr>,
      tr_halo = \<lparr>hleft = 1, htop = 0, hright = 1, hbottom = 0\<rparr>, tile_id = ''t''\<rparr>" 4]
  by (auto simp: request_ok_def bbox_ok_def contains_def dom_box_def halo_actual_def)

text \<open>The scheduler's \<open>domain\<close> is documented as \<open>(H, W)\<close> but unpacked as (width, height): on a
  layout that is wider than tall, growing a correctly planned request with the documented domain
  raises, because the core lies past the swapped bound.\<close>

theorem grow_request_domain_swapped:
  "\<exists>r. request_ok (4, 8) r \<and>
     grow_request (Some (4, 8)) r 1 = Inl (ValueError ''degenerate bbox'')"
  by (rule exI [of _ "\<lparr>core_bbox = \<lparr>bx0 = 6, by0 = 0, bx1 = 8, by1 = 2\<rparr>,
      read_bbox = \<lparr>bx0 = 5, by0 = 0, bx1 = 8, by1 = 3\<rparr>,
      tr_halo = \<lparr>hleft = 1, htop = 0, hright = 0, hbottom = 1\<rparr>, tile_id = ''t''\<rparr>"])
    (simp add: request_ok_def bbox_ok_def contains_def dom_box_def halo_actual_def grow_request_def
      halo_max_def uniform_halo_def read_bbox_for_def mk_bbox_def)

lemma zero_halo_plan:
  assumes "0 < core_size" "uniform_halo 0 = Inr z"
    and "plan_tile_requests (h, w) core_size (Inr z) None prefix = Inr rs" "r \<in> set rs"
  shows "halo_max (tr_halo r) = 0"
proof -
  have z: "z = \<lparr>hleft = 0, htop = 0, hright = 0, hbottom = 0\<rparr>" "halo_nonneg z"
    using assms(2) by (auto simp: uniform_halo_Inr halo_nonneg_def)
  from plan_total [OF assms(1) z(2), of "(h, w)" prefix] assms(3,4)
  have ok: "request_ok (h, w) r" by auto
  obtain ics where "mapE (request_of prefix (h, w) z) ics = Inr rs"
    using assms(3) by (auto simp: plan_tile_requests_def ebind_eq_Inr)
  from mapE_mem [OF this assms(4)]
  have "read_bbox_for (core_bbox r) z w h = Inr (read_bbox r)"
    by (auto simp: request_of_def ebind_eq_Inr)
  with ok z(1) show ?thesis
    by (auto simp: request_ok_def contains_def dom_box_def read_bbox_for_def mk_bbox_Inr
        halo_actual_def halo_max_def)
qed

text \<open>The planner's small-layout shortcut drops every halo as soon as the chosen core reaches the
  shorter side, also when the layout is longer than one core: several tiles are then planned
  with no context at all, whatever halo the caller asked for.\<close>

theorem plan_tiling_elongated_has_no_context:
  assumes "0 < budget" "0 < min_core" "min_core \<le> max_core" "min_core \<le> h" "h < w"
    and "h \<le> best_core_size budget bpp halo_px min_core max_core batch"
  shows "\<exists>rs. plan_tiling (h, w) budget bpp halo_px min_core max_core batch = Inr rs \<and>
    2 \<le> length rs \<and> list_all (\<lambda>r. halo_max (tr_halo r) = 0) rs"
proof -
  obtain z where z: "uniform_halo 0 = Inr z" by (simp add: uniform_halo_def)
  have pos: "0 < h" using assms by simp
  from plan_total [OF pos halo_nonneg_uniform [OF z]]
  obtain rs where rs: "plan_tile_requests (h, w) h (Inr z) None ''tile'' = Inr rs"
      "exact_cover (map core_bbox rs) (in_domain (h, w))" by blast
  have "plan_tiling (h, w) budget bpp halo_px min_core max_core batch = Inr rs"
    using assms z rs(1) by (simp add: plan_tiling_def)
  moreover have "list_all (\<lambda>r. halo_max (tr_halo r) = 0) rs"
    using zero_halo_plan [OF pos z rs(1)] by (simp add: list_all_iff)
  moreover have "2 \<le> length rs"
  proof -
    have "map core_bbox rs = grid_boxes (step_ivs 0 h h) (step_ivs 0 w h)"
      using rs(1) core_grid_boxes_grid [OF pos, of h w] mapE_request_cores
      by (auto simp: plan_tile_requests_def)
    then have "length rs = length (grid_boxes (step_ivs 0 h h) (step_ivs 0 w h))"
      by (metis length_map)
    also have "\<dots> = length (step_ivs 0 h h) * length (step_ivs 0 w h)"
      by (simp add: grid_boxes_def row_boxes_def length_concat o_def sum_list_triv)
    also have "length (step_ivs 0 h h) = 1"
      using pos int_div_pos_eq [of "h + h - 1" h 1 "h - 1"]
      by (simp add: step_ivs_def pyrange_def)
    finally have "length rs = length (step_ivs 0 w h)" by simp
    moreover have "2 \<le> length (step_ivs 0 w h)"
      using pos assms(5) int_le_div_iff [OF pos, of 2 "w + h - 1"]
      by (simp add: step_ivs_def pyrange_def)
    ultimately show ?thesis by simp
  qed
  ultimately show ?thesis by blast
qed

theorem plan_tiling_elongated_has_no_context_witness:
  "\<exists>rs. plan_tiling (32, 100) 1000000 4 8 32 64 1 = Inr rs \<and>
    2 \<le> length rs \<and> list_all (\<lambda>r. halo_max (tr_halo r) = 0) rs"
  by (rule plan_tiling_elongated_has_no_context)
    (simp_all add: best_core_size_def pyrange_def upt_rec)

end
