(* ===== verification/Ownership.thy ===== *)
theory Ownership
  imports Geometry
begin

text \<open>
  Model of \<open>streaming/ownership.py\<close>: the leaf ownership tree that says which leaf owns which
  physical area now.  \<open>_leaves\<close> and \<open>_children\<close> are maps, the set \<open>_final\<close> is the list of its
  members in insertion order.  \<open>subdivide\<close> can raise after it has begun to write, so it returns
  the tree it leaves behind beside its result; every other operation raises before it writes.
\<close>

datatype disposition = TerminalActive | TerminalExactSkip | TerminalVerifySkip

definition parse_disposition :: "string \<Rightarrow> disposition res" where
  "parse_disposition s =
     (if s = ''ACTIVE'' then Inr TerminalActive
      else if s = ''EXACT_OUTPUT_SKIP'' then Inr TerminalExactSkip
      else if s = ''VERIFICATION_ONLY_SKIP'' then Inr TerminalVerifySkip
      else Inl (ValueError ''unknown terminal disposition''))"

record ownership_leaf =
  leaf_id :: string
  leaf_core :: bbox
  parent_id :: "string option"
  forward_seen :: bool
  terminal :: "disposition option"

record ownership_tree =
  leaves :: "string \<rightharpoonup> ownership_leaf"
  children :: "string \<rightharpoonup> string list"
  final :: "string list"

definition empty_tree :: ownership_tree where
  "empty_tree = \<lparr>leaves = Map.empty, children = Map.empty, final = []\<rparr>"

subsection \<open>Splitting a core\<close>

fun axis_from :: "int \<Rightarrow> int \<Rightarrow> int \<Rightarrow> int list \<Rightarrow> (int \<times> int) list" where
  "axis_from edge base rem [] = []"
| "axis_from edge base rem (i # is) =
     (let nxt = edge + base + (if i < rem then 1 else 0)
      in (edge, nxt) # axis_from nxt base rem is)"

definition split_axis :: "int \<Rightarrow> int \<Rightarrow> int \<Rightarrow> (int \<times> int) list" where
  "split_axis lo hi parts =
     (let span = hi - lo in axis_from lo (span div parts) (span mod parts) (pyrange 0 parts 1))"

definition partition_core :: "bbox \<Rightarrow> int \<Rightarrow> bbox list res" where
  "partition_core parent sub =
     (if sub < 2 then Inl (ValueError ''subdivision must be >= 2'')
      else let xs = split_axis (bx0 parent) (bx1 parent) sub;
               ys = split_axis (by0 parent) (by1 parent) sub in
      mapE (\<lambda>(r, c). mk_bbox (fst c) (fst r) (snd c) (snd r))
        (filter (\<lambda>(r, c). snd c > fst c \<and> snd r > fst r) (List.product ys xs)))"

subsection \<open>Operations of the tree\<close>

definition add_root :: "ownership_tree \<Rightarrow> string \<Rightarrow> bbox \<Rightarrow> ownership_tree res" where
  "add_root t lid core =
     (if leaves t lid \<noteq> None then Inl (ValueError ''leaf already exists'')
      else Inr (t\<lparr>leaves := (leaves t)(lid \<mapsto>
                   \<lparr>leaf_id = lid, leaf_core = core, parent_id = None,
                    forward_seen = False, terminal = None\<rparr>),
                  final := final t @ [lid]\<rparr>))"

definition get_leaf :: "ownership_tree \<Rightarrow> string \<Rightarrow> ownership_leaf res" where
  "get_leaf t lid = (case leaves t lid of None \<Rightarrow> Inl (KeyError lid) | Some l \<Rightarrow> Inr l)"

definition children_of :: "ownership_tree \<Rightarrow> string \<Rightarrow> string list" where
  "children_of t lid = (case children t lid of None \<Rightarrow> [] | Some cs \<Rightarrow> cs)"

definition is_final :: "ownership_tree \<Rightarrow> string \<Rightarrow> bool" where
  "is_final t lid \<longleftrightarrow> lid \<in> set (final t)"

definition final_leaves :: "ownership_tree \<Rightarrow> ownership_leaf list res" where
  "final_leaves t = mapE (get_leaf t) (final t)"

definition check_child ::
    "bbox \<Rightarrow> bbox list \<times> int \<Rightarrow> string \<times> bbox \<Rightarrow> (bbox list \<times> int) res" where
  "check_child parent st child =
     (let core = snd child; seen = fst st; total = snd st in
      if bx0 core < bx0 parent \<or> by0 core < by0 parent \<or>
         bx1 core > bx1 parent \<or> by1 core > by1 parent
        then Inl (ValueError ''child core escapes the parent core'')
      else if core \<in> set seen then Inl (ValueError ''duplicate child core in partition'')
      else Inr (core # seen, total + area core))"

definition check_partition :: "bbox \<Rightarrow> (string \<times> bbox) list \<Rightarrow> unit res" where
  "check_partition parent cs =
     (if cs = [] then Inl (ValueError ''subdivision produced no children'')
      else ebind (foldE (check_child parent) ([], 0) cs) (\<lambda>st.
        if snd st \<noteq> area parent then Inl (ValueError ''subdivision is not area-conserving'')
        else Inr ()))"

text \<open>The loop of \<open>subdivide\<close> that installs the children, one at a time.\<close>

fun install_children ::
    "string \<Rightarrow> bool \<Rightarrow> (string \<times> bbox) list \<Rightarrow> ownership_tree \<Rightarrow>
     ownership_leaf list res \<times> ownership_tree" where
  "install_children pid fwd [] t = (Inr [], t)"
| "install_children pid fwd ((cid, core) # cs) t =
     (if leaves t cid \<noteq> None then (Inl (ValueError ''leaf already exists''), t)
      else let leaf = \<lparr>leaf_id = cid, leaf_core = core, parent_id = Some pid,
                       forward_seen = fwd, terminal = None\<rparr>;
               t1 = t\<lparr>leaves := (leaves t)(cid \<mapsto> leaf), final := final t @ [cid]\<rparr>;
               rest = install_children pid fwd cs t1 in
      (ebind (fst rest) (\<lambda>ls. Inr (leaf # ls)), snd rest))"

definition subdivide ::
    "ownership_tree \<Rightarrow> string \<Rightarrow> (string \<times> bbox) list \<Rightarrow>
     ownership_leaf list res \<times> ownership_tree" where
  "subdivide t pid cs =
     (case leaves t pid of
        None \<Rightarrow> (Inl (KeyError pid), t)
      | Some parent \<Rightarrow>
          if pid \<notin> set (final t) then (Inl (ValueError ''leaf is not a final leaf''), t)
          else (case check_partition (leaf_core parent) cs of
              Inl e \<Rightarrow> (Inl e, t)
            | Inr _ \<Rightarrow>
                let r = install_children pid (forward_seen parent) cs
                          (t\<lparr>final := remove1 pid (final t)\<rparr>) in
                case fst r of
                  Inl e \<Rightarrow> (Inl e, snd r)
                | Inr ls \<Rightarrow>
                    (Inr ls, (snd r)\<lparr>children :=
                       (children (snd r))(pid \<mapsto> map leaf_id ls)\<rparr>)))"

definition mark_forward :: "ownership_tree \<Rightarrow> string \<Rightarrow> ownership_tree res" where
  "mark_forward t lid =
     ebind (get_leaf t lid) (\<lambda>l.
       Inr (t\<lparr>leaves := (leaves t)(lid \<mapsto> l\<lparr>forward_seen := True\<rparr>)\<rparr>))"

definition set_terminal :: "ownership_tree \<Rightarrow> string \<Rightarrow> string \<Rightarrow> ownership_tree res" where
  "set_terminal t lid disp =
     ebind (parse_disposition disp) (\<lambda>d.
     ebind (get_leaf t lid) (\<lambda>l.
       if terminal l \<noteq> None then Inl (ValueError ''leaf already has terminal disposition'')
       else Inr (t\<lparr>leaves := (leaves t)(lid \<mapsto> l\<lparr>terminal := Some d\<rparr>)\<rparr>)))"

subsection \<open>The terminal coverage ledger\<close>

record pixel_counts =
  pc_active :: int
  pc_exact :: int
  pc_verify :: int

definition bump_counts :: "pixel_counts \<Rightarrow> disposition \<Rightarrow> int \<Rightarrow> pixel_counts" where
  "bump_counts c d a =
     (case d of
        TerminalActive \<Rightarrow> c\<lparr>pc_active := pc_active c + a\<rparr>
      | TerminalExactSkip \<Rightarrow> c\<lparr>pc_exact := pc_exact c + a\<rparr>
      | TerminalVerifySkip \<Rightarrow> c\<lparr>pc_verify := pc_verify c + a\<rparr>)"

definition count_leaf :: "ownership_tree \<Rightarrow> pixel_counts \<Rightarrow> string \<Rightarrow> pixel_counts res" where
  "count_leaf t c lid =
     ebind (get_leaf t lid) (\<lambda>l.
       case terminal l of
         None \<Rightarrow> Inl (ValueError ''final leaf has no terminal disposition'')
       | Some d \<Rightarrow> Inr (bump_counts c d (area (leaf_core l))))"

definition terminal_pixel_counts :: "ownership_tree \<Rightarrow> pixel_counts res" where
  "terminal_pixel_counts t =
     foldE (count_leaf t) \<lparr>pc_active = 0, pc_exact = 0, pc_verify = 0\<rparr> (final t)"

definition counts_total :: "pixel_counts \<Rightarrow> int" where
  "counts_total c = pc_active c + pc_exact c + pc_verify c"

definition verify_total_coverage :: "ownership_tree \<Rightarrow> int \<Rightarrow> pixel_counts res" where
  "verify_total_coverage t full =
     ebind (terminal_pixel_counts t) (\<lambda>c.
       if counts_total c \<noteq> full
       then Inl (ValueError ''terminal coverage ledger does not partition the chip'')
       else Inr c)"

subsection \<open>Splitting is exact\<close>

lemma axis_from_count:
  assumes "0 \<le> base"
  shows "ivs_count (axis_from e base rem is) t =
    (if e \<le> t \<and> t < e + (\<Sum>i\<leftarrow>is. base + (if i < rem then 1 else 0)) then 1 else 0)"
  using assms
proof (induction "is" arbitrary: e)
  case (Cons i "is")
  have "0 \<le> (\<Sum>i\<leftarrow>is. base + (if i < rem then 1 else 0))"
    using assms by (intro sum_list_nonneg) auto
  then show ?case using Cons by (auto simp: Let_def algebra_simps)
qed simp

lemma sum_split_steps:
  "(\<Sum>i\<leftarrow>map int [0..<n]. base + (if i < rem then 1 else 0)) =
     int n * base + max 0 (min rem (int n))"
  by (induction n) (auto simp: algebra_simps)

lemma split_axis_count:
  assumes "0 < parts" "lo \<le> hi"
  shows "ivs_count (split_axis lo hi parts) t = (if lo \<le> t \<and> t < hi then 1 else 0)"
proof -
  let ?b = "(hi - lo) div parts" and ?r = "(hi - lo) mod parts"
  have rng: "pyrange 0 parts 1 = map int [0..<nat parts]" by (simp add: pyrange_def)
  have b: "0 \<le> ?b" using assms by (simp add: pos_imp_zdiv_nonneg_iff)
  have r: "max 0 (min ?r (int (nat parts))) = ?r" using assms(1)
    by (simp add: min_def) (metis less_imp_le pos_mod_bound)
  have "lo + (\<Sum>i\<leftarrow>map int [0..<nat parts]. ?b + (if i < ?r then 1 else 0)) = hi"
    unfolding sum_split_steps r using assms(1) by simp
  then show ?thesis
    by (simp only: split_axis_def Let_def rng axis_from_count [OF b])
qed

lemma filter_nonempty_count:
  "ivs_count (filter (\<lambda>c. fst c < snd c) is) t = ivs_count is t"
  by (induction "is") auto

lemma filter_product_grid:
  "map (\<lambda>(r, c). \<lparr>bx0 = fst c, by0 = fst r, bx1 = snd c, by1 = snd r\<rparr>)
     (filter (\<lambda>(r, c). snd c > fst c \<and> snd r > fst r) (List.product ys xs)) =
   grid_boxes (filter (\<lambda>c. fst c < snd c) ys) (filter (\<lambda>c. fst c < snd c) xs)"
  by (induction ys)
    (auto simp: grid_boxes_def row_boxes_def filter_map o_def case_prod_beta)

lemma partition_core_grid:
  assumes "2 \<le> sub"
  shows "partition_core p sub = Inr (grid_boxes
    (filter (\<lambda>c. fst c < snd c) (split_axis (by0 p) (by1 p) sub))
    (filter (\<lambda>c. fst c < snd c) (split_axis (bx0 p) (bx1 p) sub)))"
proof -
  have "mapE (\<lambda>(r, c). mk_bbox (fst c) (fst r) (snd c) (snd r))
      (filter (\<lambda>(r, c). snd c > fst c \<and> snd r > fst r) (List.product ys xs)) =
    Inr (map (\<lambda>(r, c). \<lparr>bx0 = fst c, by0 = fst r, bx1 = snd c, by1 = snd r\<rparr>)
      (filter (\<lambda>(r, c). snd c > fst c \<and> snd r > fst r) (List.product ys xs)))" for ys xs
    by (intro mapE_Inr) (auto simp: mk_bbox_def)
  with assms show ?thesis by (simp add: partition_core_def filter_product_grid Let_def)
qed

lemma partition_core_cover:
  assumes "2 \<le> sub" "bbox_ok p"
  shows "\<exists>bs. partition_core p sub = Inr bs \<and> exact_cover bs (\<lambda>q. in_box q p) \<and>
    (\<forall>b\<in>set bs. bbox_ok b)"
proof -
  let ?ne = "filter (\<lambda>c. fst c < snd c)"
  let ?bs = "grid_boxes (?ne (split_axis (by0 p) (by1 p) sub)) (?ne (split_axis (bx0 p) (bx1 p) sub))"
  have "exact_cover ?bs (\<lambda>q. in_box q p)"
    using assms
    by (auto simp: exact_cover_def cover_count_grid filter_nonempty_count split_axis_count
        bbox_ok_def in_box_def)
  moreover have "\<forall>b\<in>set ?bs. bbox_ok b" by (rule grid_boxes_ok) auto
  ultimately show ?thesis using partition_core_grid [OF assms(1)] by blast
qed

subsection \<open>The ownership invariant\<close>

text \<open>
  \<open>tree_ok\<close>: the final list has no duplicates and names known leaves, and every leaf carries its
  own id and a nondegenerate core.  \<open>owned t p\<close> counts the final leaves that own pixel \<open>p\<close>.
\<close>

definition tree_ok :: "ownership_tree \<Rightarrow> bool" where
  "tree_ok t \<longleftrightarrow>
     distinct (final t) \<and> set (final t) \<subseteq> dom (leaves t) \<and>
     (\<forall>i l. leaves t i = Some l \<longrightarrow> leaf_id l = i \<and> bbox_ok (leaf_core l))"

definition core_of :: "ownership_tree \<Rightarrow> string \<Rightarrow> bbox" where
  "core_of t i = leaf_core (the (leaves t i))"

definition final_cores :: "ownership_tree \<Rightarrow> bbox list" where
  "final_cores t = map (core_of t) (final t)"

definition owned :: "ownership_tree \<Rightarrow> pixel \<Rightarrow> nat" where
  "owned t p = cover_count (final_cores t) p"

lemma tree_ok_empty [simp]: "tree_ok empty_tree"
  by (simp add: tree_ok_def empty_tree_def)

lemma owned_empty [simp]: "owned empty_tree p = 0"
  by (simp add: owned_def final_cores_def empty_tree_def)

lemma tree_okD:
  assumes "tree_ok t"
  shows "distinct (final t)" "i \<in> set (final t) \<Longrightarrow> \<exists>l. leaves t i = Some l"
    "leaves t i = Some l \<Longrightarrow> leaf_id l = i" "leaves t i = Some l \<Longrightarrow> bbox_ok (leaf_core l)"
  using assms by (auto simp: tree_ok_def)

lemma core_of_upd [simp]:
  "core_of (t\<lparr>final := f\<rparr>) i = core_of t i"
  "core_of (t\<lparr>children := c\<rparr>) i = core_of t i"
  by (simp_all add: core_of_def)

lemma add_root_effect:
  assumes "add_root t i core = Inr t'" "tree_ok t" "bbox_ok core"
  shows "tree_ok t'" "owned t' p = owned t p + (if in_box p core then 1 else 0)"
    "final t' = final t @ [i]" "leaves t i = None"
proof -
  have new: "leaves t i = None" and t': "final t' = final t @ [i]"
    "leaves t' = (leaves t)(i \<mapsto> \<lparr>leaf_id = i, leaf_core = core, parent_id = None,
       forward_seen = False, terminal = None\<rparr>)"
    using assms(1) by (auto simp: add_root_def split: if_splits)
  then have fresh: "i \<notin> set (final t)" using assms(2) by (auto simp: tree_ok_def)
  show "leaves t i = None" "final t' = final t @ [i]" by fact+
  show "tree_ok t'" using assms(2,3) fresh t' by (auto simp: tree_ok_def)
  have same: "map (core_of t') (final t) = map (core_of t) (final t)"
    using fresh by (auto simp: core_of_def t')
  have "core_of t' i = core" by (simp add: core_of_def t')
  then show "owned t' p = owned t p + (if in_box p core then 1 else 0)"
    by (simp add: owned_def final_cores_def t'(1) same)
qed

lemma leaf_update_effect:
  assumes "tree_ok t" "leaves t i = Some l" "leaf_core l' = leaf_core l" "leaf_id l' = leaf_id l"
  shows "tree_ok (t\<lparr>leaves := (leaves t)(i \<mapsto> l')\<rparr>)"
    "owned (t\<lparr>leaves := (leaves t)(i \<mapsto> l')\<rparr>) = owned t"
proof -
  have "core_of (t\<lparr>leaves := (leaves t)(i \<mapsto> l')\<rparr>) = core_of t"
    using assms(2,3) by (auto simp: core_of_def fun_eq_iff)
  then show "owned (t\<lparr>leaves := (leaves t)(i \<mapsto> l')\<rparr>) = owned t"
    by (simp add: owned_def [abs_def] final_cores_def)
  show "tree_ok (t\<lparr>leaves := (leaves t)(i \<mapsto> l')\<rparr>)"
    using assms by (auto simp: tree_ok_def)
qed

lemma mark_forward_effect:
  assumes "mark_forward t i = Inr t'" "tree_ok t"
  shows "tree_ok t'" "owned t' = owned t" "final t' = final t"
  using assms leaf_update_effect [OF assms(2)]
  by (auto simp: mark_forward_def get_leaf_def ebind_eq_Inr split: option.splits)

lemma set_terminal_effect:
  assumes "set_terminal t i d = Inr t'" "tree_ok t"
  shows "tree_ok t'" "owned t' = owned t" "final t' = final t"
  using assms leaf_update_effect [OF assms(2)]
  by (auto simp: set_terminal_def get_leaf_def ebind_eq_Inr split: option.splits if_splits)

lemma check_child_total:
  assumes "foldE (check_child p) st cs = Inr st'"
  shows "snd st' = snd st + (\<Sum>c\<leftarrow>cs. area (snd c)) \<and>
    (\<forall>c\<in>set cs. contains p (snd c)) \<and> distinct (map snd cs) \<and>
    (\<forall>c\<in>set cs. snd c \<notin> set (fst st))"
  using assms
proof (induction cs arbitrary: st)
  case (Cons c cs)
  from Cons.prems obtain st1 where st1: "check_child p st c = Inr st1"
      "foldE (check_child p) st1 cs = Inr st'"
    by (auto simp: ebind_eq_Inr)
  from st1(1) have "st1 = (snd c # fst st, snd st + area (snd c))" "contains p (snd c)"
      "snd c \<notin> set (fst st)"
    by (auto simp: check_child_def contains_def Let_def split: if_splits)
  with Cons.IH [OF st1(2)] show ?case by auto
qed simp

lemma check_partition_sound:
  assumes "check_partition p cs = Inr u"
  shows "cs \<noteq> []" "(\<Sum>c\<leftarrow>cs. area (snd c)) = area p" "\<forall>c\<in>set cs. contains p (snd c)"
    "distinct (map snd cs)"
proof -
  from assms obtain st where st: "cs \<noteq> []" "foldE (check_child p) ([], 0) cs = Inr st"
      "snd st = area p"
    by (auto simp: check_partition_def ebind_eq_Inr split: if_splits)
  from check_child_total [OF st(2)] st(1,3)
  show "cs \<noteq> []" "(\<Sum>c\<leftarrow>cs. area (snd c)) = area p" "\<forall>c\<in>set cs. contains p (snd c)"
    "distinct (map snd cs)" by auto
qed

subsection \<open>Subdividing\<close>

lemma install_children_effect:
  assumes "install_children pid fwd cs t = (Inr ls, t')" "tree_ok t"
    "\<forall>c\<in>set cs. bbox_ok (snd c)"
  shows "tree_ok t' \<and> (\<forall>p. owned t' p = owned t p + cover_count (map snd cs) p) \<and>
    final t' = final t @ map fst cs \<and> map leaf_id ls = map fst cs \<and>
    (\<forall>i. leaves t i \<noteq> None \<longrightarrow> leaves t' i = leaves t i) \<and>
    (\<forall>i\<in>set (map fst cs). leaves t i = None) \<and>
    (\<forall>l\<in>set ls. forward_seen l = fwd \<and> parent_id l = Some pid \<and> terminal l = None \<and>
       leaves t' (leaf_id l) = Some l) \<and> children t' = children t"
  using assms
proof (induction cs arbitrary: t ls)
  case (Cons c cs)
  obtain cid core where c: "c = (cid, core)" by (cases c)
  define leaf where "leaf = \<lparr>leaf_id = cid, leaf_core = core, parent_id = Some pid,
                       forward_seen = fwd, terminal = None :: disposition option\<rparr>"
  define t1 where "t1 = t\<lparr>leaves := (leaves t)(cid \<mapsto> leaf), final := final t @ [cid]\<rparr>"
  have new: "leaves t cid = None"
    using Cons.prems(1) by (auto simp: c split: if_splits)
  from Cons.prems(1) new obtain ls1 where
    rest: "install_children pid fwd cs t1 = (Inr ls1, t')" and ls: "ls = leaf # ls1"
    by (cases "install_children pid fwd cs t1")
      (auto simp: c Let_def ebind_eq_Inr simp flip: leaf_def t1_def)
  have fresh: "cid \<notin> set (final t)" using new Cons.prems(2) by (auto simp: tree_ok_def)
  have ok1: "tree_ok t1"
    using Cons.prems(2,3) fresh by (auto simp: tree_ok_def t1_def leaf_def c)
  have same: "map (core_of t1) (final t) = map (core_of t) (final t)"
    using fresh by (auto simp: core_of_def t1_def)
  have "core_of t1 cid = core" by (simp add: core_of_def t1_def leaf_def)
  then have own1: "owned t1 p = owned t p + (if in_box p core then 1 else 0)" for p
    by (simp add: owned_def final_cores_def same) (simp add: t1_def final_cores_def same [symmetric])
  have in1: "leaves t1 cid = Some leaf" "i \<noteq> cid \<Longrightarrow> leaves t1 i = leaves t i" for i
    by (simp_all add: t1_def)
  from Cons.IH [OF rest ok1] Cons.prems(3)
  have IH: "tree_ok t'" "\<forall>p. owned t' p = owned t1 p + cover_count (map snd cs) p"
    "final t' = final t1 @ map fst cs" "map leaf_id ls1 = map fst cs"
    "\<forall>i. leaves t1 i \<noteq> None \<longrightarrow> leaves t' i = leaves t1 i"
    "\<forall>i\<in>set (map fst cs). leaves t1 i = None"
    "\<forall>l\<in>set ls1. forward_seen l = fwd \<and> parent_id l = Some pid \<and> terminal l = None \<and>
       leaves t' (leaf_id l) = Some l" "children t' = children t1"
    by auto
  have "leaves t i = None" if "i \<in> set (map fst cs)" for i
    using IH(6) that in1 new by (cases "i = cid") auto
  moreover have "leaves t' i = leaves t i" if "leaves t i \<noteq> None" for i
    using IH(5) in1(2) [of i] new that by (cases "i = cid") auto
  moreover have "leaves t' cid = Some leaf" using IH(5) in1(1) by auto
  ultimately show ?case
    using IH own1 new by (auto simp: c ls leaf_def t1_def)
qed auto

lemma cover_count_map_remove1:
  "i \<in> set xs \<Longrightarrow> cover_count (map f xs) p =
     (if in_box p (f i) then 1 else 0) + cover_count (map f (remove1 i xs)) p"
  by (induction xs) auto

lemma owned_remove:
  assumes "i \<in> set (final t)"
  shows "owned t p =
    (if in_box p (core_of t i) then 1 else 0) + owned (t\<lparr>final := remove1 i (final t)\<rparr>) p"
  using cover_count_map_remove1 [OF assms, of "core_of t" p]
  by (simp add: owned_def final_cores_def cong: map_cong)

lemma subdivide_effect:
  assumes "subdivide t pid cs = (Inr ls, t')" "tree_ok t" "\<forall>c\<in>set cs. bbox_ok (snd c)"
  obtains parent where "leaves t pid = Some parent" "pid \<in> set (final t)"
    "check_partition (leaf_core parent) cs = Inr ()" "tree_ok t'"
    "\<forall>p. owned t' p + (if in_box p (leaf_core parent) then 1 else 0) =
           owned t p + cover_count (map snd cs) p"
    "final t' = remove1 pid (final t) @ map fst cs" "map leaf_id ls = map fst cs"
    "\<forall>l\<in>set ls. forward_seen l = forward_seen parent \<and> terminal l = None \<and>
       leaves t' (leaf_id l) = Some l"
    "\<forall>i. leaves t i \<noteq> None \<longrightarrow> leaves t' i = leaves t i"
    "children t' = (children t)(pid \<mapsto> map fst cs)"
    "\<forall>i\<in>set (map fst cs). leaves t i = None"
proof -
  obtain parent where parent: "leaves t pid = Some parent" "pid \<in> set (final t)"
      "check_partition (leaf_core parent) cs = Inr ()"
    using assms(1) by (auto simp: subdivide_def split: option.splits if_splits sum.splits)
  define t0 where "t0 = t\<lparr>final := remove1 pid (final t)\<rparr>"
  have ok0: "tree_ok t0"
    using assms(2) set_remove1_subset by (fastforce simp: tree_ok_def t0_def)
  obtain r t2 where inst: "install_children pid (forward_seen parent) cs t0 = (r, t2)"
    by fastforce
  with assms(1) parent have t2: "r = Inr ls"
      "t' = t2\<lparr>children := (children t2)(pid \<mapsto> map leaf_id ls)\<rparr>"
    by (auto simp: subdivide_def Let_def simp flip: t0_def split: sum.splits)
  from install_children_effect [OF inst [unfolded t2(1)] ok0 assms(3)]
  have eff: "tree_ok t2" "\<forall>p. owned t2 p = owned t0 p + cover_count (map snd cs) p"
    "final t2 = final t0 @ map fst cs" "map leaf_id ls = map fst cs"
    "\<forall>i. leaves t0 i \<noteq> None \<longrightarrow> leaves t2 i = leaves t0 i"
    "\<forall>i\<in>set (map fst cs). leaves t0 i = None"
    "\<forall>l\<in>set ls. forward_seen l = forward_seen parent \<and> parent_id l = Some pid \<and>
       terminal l = None \<and> leaves t2 (leaf_id l) = Some l" "children t2 = children t0"
    by auto
  have own: "owned t' p = owned t2 p" for p
    by (simp add: t2(2) owned_def final_cores_def cong: map_cong)
  have "core_of t pid = leaf_core parent" by (simp add: core_of_def parent(1))
  then have "owned t p = (if in_box p (leaf_core parent) then 1 else 0) + owned t0 p" for p
    using owned_remove [OF parent(2), of p] by (simp add: t0_def)
  with own eff(2) have "\<forall>p. owned t' p + (if in_box p (leaf_core parent) then 1 else 0) =
           owned t p + cover_count (map snd cs) p" by simp
  moreover have "tree_ok t'" using eff(1) by (simp add: t2(2) tree_ok_def)
  ultimately show thesis
    using parent eff by (intro that [of parent]) (simp_all add: t2(2) t0_def)
qed

text \<open>A true partition of the parent passes the check of \<open>subdivide\<close>.\<close>

lemma exact_cover_distinct:
  assumes "exact_cover bs D" "\<forall>b\<in>set bs. bbox_ok b"
  shows "distinct bs"
proof (rule ccontr)
  assume "\<not> distinct bs"
  then obtain b xs ys zs where bs: "bs = xs @ [b] @ ys @ [b] @ zs" using not_distinct_decomp by blast
  have "in_box (bx0 b, by0 b) b" using assms(2) by (auto simp: bs in_box_def bbox_ok_def)
  then have "2 \<le> cover_count bs (bx0 b, by0 b)" by (simp add: bs)
  moreover have "cover_count bs (bx0 b, by0 b) \<le> 1" using assms(1) by (simp add: exact_cover_def)
  ultimately show False by simp
qed

lemma check_child_accepts:
  assumes "\<forall>c\<in>set cs. contains p (snd c)" "distinct (map snd cs)"
    "\<forall>c\<in>set cs. snd c \<notin> set (fst st)"
  shows "\<exists>st'. foldE (check_child p) st cs = Inr st'"
  using assms
proof (induction cs arbitrary: st)
  case (Cons c cs)
  then have "check_child p st c = Inr (snd c # fst st, snd st + area (snd c))"
    by (auto simp: check_child_def contains_def Let_def)
  moreover have "\<exists>st'. foldE (check_child p) (snd c # fst st, snd st + area (snd c)) cs = Inr st'"
    using Cons.prems by (intro Cons.IH) (auto simp: image_iff)
  ultimately show ?case by simp
qed simp

lemma check_partition_complete:
  assumes "exact_cover (map snd cs) (\<lambda>q. in_box q p)" "\<forall>c\<in>set cs. bbox_ok (snd c)" "bbox_ok p"
  shows "check_partition p cs = Inr ()"
proof -
  have ok: "\<forall>b\<in>set (map snd cs). bbox_ok b" using assms(2) by auto
  have inside: "\<forall>c\<in>set cs. contains p (snd c)"
    using exact_cover_inside [OF assms(1)] assms(2) by auto
  have "sum_list (map area (map snd cs)) = int (card {q. in_box q p})"
    using exact_cover_area [OF assms(1) ok] finite_pixels [of p] by (simp add: pixels_def)
  then have sum: "(\<Sum>c\<leftarrow>cs. area (snd c)) = area p"
    using card_pixels [OF assms(3)] by (simp add: o_def pixels_def)
  have "cs \<noteq> []" using sum area_pos [OF assms(3)] by auto
  moreover obtain st where st: "foldE (check_child p) ([], 0) cs = Inr st"
    using check_child_accepts [OF inside exact_cover_distinct [OF assms(1) ok], of "([], 0)"] by auto
  moreover have "snd st = area p" using check_child_total [OF st] sum by simp
  ultimately show ?thesis by (simp add: check_partition_def)
qed

lemma install_children_total:
  assumes "distinct (map fst cs)" "\<forall>i\<in>set (map fst cs). leaves t i = None"
  shows "\<exists>ls t'. install_children pid fwd cs t = (Inr ls, t')"
  using assms
proof (induction cs arbitrary: t)
  case (Cons c cs)
  obtain cid core where c: "c = (cid, core)" by (cases c)
  define t1 where "t1 = t\<lparr>leaves := (leaves t)(cid \<mapsto> \<lparr>leaf_id = cid, leaf_core = core,
    parent_id = Some pid, forward_seen = fwd, terminal = None\<rparr>), final := final t @ [cid]\<rparr>"
  have "\<exists>ls t'. install_children pid fwd cs t1 = (Inr ls, t')"
    using Cons.prems by (intro Cons.IH) (auto simp: t1_def c)
  then show ?case using Cons.prems by (auto simp: c Let_def simp flip: t1_def)
qed simp

lemma subdivide_total:
  assumes "leaves t pid = Some parent" "pid \<in> set (final t)"
    "check_partition (leaf_core parent) cs = Inr ()"
    "distinct (map fst cs)" "\<forall>i\<in>set (map fst cs). leaves t i = None"
  shows "\<exists>ls t'. subdivide t pid cs = (Inr ls, t')"
proof -
  have "\<forall>i\<in>set (map fst cs). leaves (t\<lparr>final := remove1 pid (final t)\<rparr>) i = None"
    using assms(5) by simp
  from install_children_total [OF assms(4) this, of pid "forward_seen parent"]
  obtain ls t2 where "install_children pid (forward_seen parent) cs
      (t\<lparr>final := remove1 pid (final t)\<rparr>) = (Inr ls, t2)" by blast
  with assms(1-3) show ?thesis by (simp add: subdivide_def)
qed

lemma count_leaf_fold:
  assumes "foldE (count_leaf t) c is = Inr c'"
  shows "counts_total c' = counts_total c + (\<Sum>i\<leftarrow>is. area (core_of t i)) \<and>
    (\<forall>i\<in>set is. \<exists>l. leaves t i = Some l \<and> terminal l \<noteq> None)"
  using assms
proof (induction "is" arbitrary: c)
  case (Cons i "is")
  from Cons.prems obtain c1 where c1: "count_leaf t c i = Inr c1" "foldE (count_leaf t) c1 is = Inr c'"
    by (auto simp: ebind_eq_Inr)
  from c1(1) obtain l d where l: "leaves t i = Some l" "terminal l = Some d"
      "c1 = bump_counts c d (area (leaf_core l))"
    by (auto simp: count_leaf_def get_leaf_def ebind_eq_Inr split: option.splits)
  then have "counts_total c1 = counts_total c + area (core_of t i)"
    by (simp add: counts_total_def bump_counts_def core_of_def split: disposition.splits)
  with Cons.IH [OF c1(2)] l show ?case by auto
qed simp

lemma count_leaf_fold_total:
  assumes "\<forall>i\<in>set is. \<exists>l. leaves t i = Some l \<and> terminal l \<noteq> None"
  shows "\<exists>c'. foldE (count_leaf t) c is = Inr c'"
  using assms
proof (induction "is" arbitrary: c)
  case (Cons i "is")
  then obtain l d where "leaves t i = Some l" "terminal l = Some d" by auto
  then have "count_leaf t c i = Inr (bump_counts c d (area (leaf_core l)))"
    by (simp add: count_leaf_def get_leaf_def)
  with Cons show ?case by simp
qed simp

lemma total_coverage_iff:
  assumes "tree_ok t" "0 \<le> h" "0 \<le> w"
    and "exact_cover (final_cores t) (in_domain (h, w))"
  shows "(\<exists>c. verify_total_coverage t (h * w) = Inr c) \<longleftrightarrow>
    list_all (\<lambda>i. \<exists>l d. leaves t i = Some l \<and> terminal l = Some d) (final t)"
proof
  assume "\<exists>c. verify_total_coverage t (h * w) = Inr c"
  then obtain c where "terminal_pixel_counts t = Inr c"
    by (auto simp: verify_total_coverage_def ebind_eq_Inr)
  from count_leaf_fold [OF this [unfolded terminal_pixel_counts_def]]
  show "list_all (\<lambda>i. \<exists>l d. leaves t i = Some l \<and> terminal l = Some d) (final t)"
    by (auto simp: list_all_iff)
next
  assume "list_all (\<lambda>i. \<exists>l d. leaves t i = Some l \<and> terminal l = Some d) (final t)"
  then have "\<forall>i\<in>set (final t). \<exists>l. leaves t i = Some l \<and> terminal l \<noteq> None"
    by (auto simp: list_all_iff)
  from count_leaf_fold_total [OF this] obtain c where c: "terminal_pixel_counts t = Inr c"
    unfolding terminal_pixel_counts_def by blast
  have ok: "\<forall>b\<in>set (final_cores t). bbox_ok b"
    using tree_okD(2,4) [OF assms(1)] by (force simp: final_cores_def core_of_def)
  have "sum_list (map area (final_cores t)) = h * w"
    using exact_cover_area [OF assms(4) ok] card_domain [OF assms(2,3)] by simp
  moreover have "counts_total c = (\<Sum>i\<leftarrow>final t. area (core_of t i))"
    using count_leaf_fold [OF c [unfolded terminal_pixel_counts_def]]
    by (simp add: counts_total_def)
  ultimately have "counts_total c = h * w"
    by (simp add: final_cores_def o_def)
  with c show "\<exists>c. verify_total_coverage t (h * w) = Inr c"
    by (simp add: verify_total_coverage_def)
qed

subsection \<open>Properties\<close>

text \<open>Splitting a core \<open>subdivision\<close> ways in each axis succeeds for every nondegenerate core, also
  when a side is shorter than the subdivision or not divisible by it, and is area-conserving:
  every pixel of the parent lies in exactly one child, no child escapes the parent, and the child
  areas add up to the parent's.\<close>

theorem partition_core_exact:
  assumes "2 \<le> sub" "bbox_ok parent"
  shows "\<exists>bs. partition_core parent sub = Inr bs \<and> exact_cover bs (\<lambda>q. in_box q parent) \<and>
    list_all (\<lambda>b. bbox_ok b \<and> contains parent b) bs \<and> sum_list (map area bs) = area parent"
proof -
  from partition_core_cover [OF assms] obtain bs where bs: "partition_core parent sub = Inr bs"
      "exact_cover bs (\<lambda>q. in_box q parent)" "\<forall>b\<in>set bs. bbox_ok b" by blast
  have "sum_list (map area bs) = int (card {q. in_box q parent})"
    using exact_cover_area [OF bs(2,3)] finite_pixels [of parent] by (simp add: pixels_def)
  then have "sum_list (map area bs) = area parent"
    using card_pixels [OF assms(2)] by (simp add: pixels_def)
  with bs exact_cover_inside [OF bs(2)] show ?thesis by (auto simp: list_all_iff)
qed

theorem partition_core_exact_witness:
  "\<exists>bs. partition_core \<lparr>bx0 = 3, by0 = 0, bx1 = 4, by1 = 7\<rparr> 3 = Inr bs \<and>
     sum_list (map area bs) = 7"
  using partition_core_exact [of 3 "\<lparr>bx0 = 3, by0 = 0, bx1 = 4, by1 = 7\<rparr>"]
  by (auto simp: bbox_ok_def area_def width_def height_def)

text \<open>C25: Subdividing a final leaf along a true partition of its core, with fresh child ids, always
  succeeds and moves no ownership: every pixel of the chip has exactly as many final owners as
  before, the parent stops being final, every child inherits whether the parent ever ran the
  forward model, and no other leaf changes.\<close>

theorem subdivide_conserves_ownership:
  assumes "tree_ok t" "leaves t pid = Some parent" "is_final t pid"
    and "exact_cover (map snd cs) (\<lambda>q. in_box q (leaf_core parent))"
    and "list_all (\<lambda>c. bbox_ok (snd c) \<and> leaves t (fst c) = None) cs" "distinct (map fst cs)"
  shows "\<exists>ls t'. subdivide t pid cs = (Inr ls, t') \<and> tree_ok t' \<and> owned t' = owned t \<and>
    \<not> is_final t' pid \<and> map leaf_id ls = map fst cs \<and>
    list_all (\<lambda>l. forward_seen l = forward_seen parent \<and> is_final t' (leaf_id l)) ls \<and>
    (\<forall>i. leaves t i \<noteq> None \<longrightarrow> leaves t' i = leaves t i)"
proof -
  have fin: "pid \<in> set (final t)" using assms(3) by (simp add: is_final_def)
  have ok: "\<forall>c\<in>set cs. bbox_ok (snd c)" "\<forall>i\<in>set (map fst cs). leaves t i = None"
    using assms(5) by (auto simp: list_all_iff)
  have chk: "check_partition (leaf_core parent) cs = Inr ()"
    using assms(4) ok(1) tree_okD(4) [OF assms(1,2)] by (rule check_partition_complete)
  from subdivide_total [OF assms(2) fin chk assms(6) ok(2)]
  obtain ls t' where sub: "subdivide t pid cs = (Inr ls, t')" by blast
  from subdivide_effect [OF sub assms(1) ok(1)] assms(2) obtain
    eff: "tree_ok t'"
    "\<forall>p. owned t' p + (if in_box p (leaf_core parent) then 1 else 0) =
           owned t p + cover_count (map snd cs) p"
    "final t' = remove1 pid (final t) @ map fst cs" "map leaf_id ls = map fst cs"
    "\<forall>l\<in>set ls. forward_seen l = forward_seen parent"
    "\<forall>i. leaves t i \<noteq> None \<longrightarrow> leaves t' i = leaves t i"
    by (metis option.sel)
  have "owned t' = owned t"
  proof
    fix p
    have "cover_count (map snd cs) p = (if in_box p (leaf_core parent) then 1 else 0)"
      using assms(4) unfolding exact_cover_def by blast
    with eff(2) show "owned t' p = owned t p" by (metis add_right_cancel)
  qed
  moreover have "pid \<notin> set (final t')"
    using eff(3) tree_okD(1) [OF assms(1)] ok(2) assms(2) by auto
  moreover have "leaf_id l \<in> set (final t')" if "l \<in> set ls" for l
    using that eff(3,4) by (metis Un_iff image_eqI list.set_map set_append)
  ultimately show ?thesis
    using sub eff by (auto simp: list_all_iff is_final_def)
qed

theorem subdivide_conserves_ownership_witness:
  "\<exists>t t' ls. add_root empty_tree ''p'' \<lparr>bx0 = 0, by0 = 0, bx1 = 2, by1 = 1\<rparr> = Inr t \<and>
     subdivide t ''p'' [(''p#q0'', \<lparr>bx0 = 0, by0 = 0, bx1 = 1, by1 = 1\<rparr>),
                       (''p#q1'', \<lparr>bx0 = 1, by0 = 0, bx1 = 2, by1 = 1\<rparr>)] = (Inr ls, t') \<and>
     owned t' = owned t"
proof -
  let ?p = "\<lparr>bx0 = 0, by0 = 0, bx1 = 2, by1 = 1\<rparr>"
  let ?cs = "[(''p#q0'', \<lparr>bx0 = 0, by0 = 0, bx1 = 1, by1 = 1\<rparr>),
              (''p#q1'', \<lparr>bx0 = 1, by0 = 0, bx1 = 2, by1 = 1\<rparr>)]"
  let ?leaf = "\<lparr>leaf_id = ''p'', leaf_core = ?p, parent_id = None, forward_seen = False,
                terminal = None\<rparr>"
  define t where "t = \<lparr>leaves = [''p'' \<mapsto> ?leaf], children = Map.empty, final = [''p'']\<rparr>"
  have root: "add_root empty_tree ''p'' ?p = Inr t"
    by (simp add: add_root_def empty_tree_def t_def)
  have cover: "exact_cover (map snd ?cs) (\<lambda>q. in_box q (leaf_core ?leaf))"
    by (auto simp: exact_cover_def in_box_def)
  have "tree_ok t" by (auto simp: tree_ok_def t_def bbox_ok_def)
  moreover have "leaves t ''p'' = Some ?leaf" "is_final t ''p''"
    by (simp_all add: t_def is_final_def)
  moreover have "list_all (\<lambda>c. bbox_ok (snd c) \<and> leaves t (fst c) = None) ?cs"
    "distinct (map fst ?cs)" by (simp_all add: t_def bbox_ok_def)
  ultimately show ?thesis
    using subdivide_conserves_ownership [OF _ _ _ cover] root by blast
qed



text \<open>\<open>subdivide\<close> is not atomic and its partition check does not check disjointness.  Two children
  that overlap in a pixel and leave another pixel of the parent uncovered pass the check, because
  only the sum of the areas and the equality of whole boxes are compared; and when a child id is
  already taken, the call raises after the parent has been retired, so its area is left with no
  final owner.\<close>

theorem subdivide_gaps:
  "(\<exists>p a b. check_partition p [(''a'', a), (''b'', b)] = Inr () \<and>
      cover_count [a, b] (0, 0) = 2 \<and> in_box (1, 1) p \<and> cover_count [a, b] (1, 1) = 0) \<and>
   (\<exists>t e t'. tree_ok t \<and> owned t (0, 0) = 1 \<and>
      subdivide t ''p'' [(''p'', \<lparr>bx0 = 0, by0 = 0, bx1 = 1, by1 = 1\<rparr>)] = (Inl e, t') \<and>
      owned t' (0, 0) = 0)"
proof
  let ?p = "\<lparr>bx0 = 0, by0 = 0, bx1 = 2, by1 = 2\<rparr>"
  let ?a = "\<lparr>bx0 = 0, by0 = 0, bx1 = 2, by1 = 1\<rparr>"
  let ?b = "\<lparr>bx0 = 0, by0 = 0, bx1 = 1, by1 = 2\<rparr>"
  have "check_partition ?p [(''a'', ?a), (''b'', ?b)] = Inr ()"
    by (simp add: check_partition_def check_child_def area_def width_def height_def)
  then show "\<exists>p a b. check_partition p [(''a'', a), (''b'', b)] = Inr () \<and>
      cover_count [a, b] (0, 0) = 2 \<and> in_box (1, 1) p \<and> cover_count [a, b] (1, 1) = 0"
    by (intro exI [of _ ?p] exI [of _ ?a] exI [of _ ?b]) (simp add: in_box_def)
next
  let ?p = "\<lparr>bx0 = 0, by0 = 0, bx1 = 1, by1 = 1\<rparr>"
  let ?leaf = "\<lparr>leaf_id = ''p'', leaf_core = ?p, parent_id = None, forward_seen = False,
                terminal = None\<rparr>"
  define t where "t = \<lparr>leaves = [''p'' \<mapsto> ?leaf], children = Map.empty, final = [''p'']\<rparr>"
  have "tree_ok t" "owned t (0, 0) = 1"
    by (auto simp: tree_ok_def t_def bbox_ok_def owned_def final_cores_def core_of_def in_box_def)
  moreover have "subdivide t ''p'' [(''p'', ?p)] =
      (Inl (ValueError ''leaf already exists''), t\<lparr>final := []\<rparr>)"
    by (simp add: subdivide_def t_def check_partition_def check_child_def area_def width_def
        height_def)
  ultimately show "\<exists>t e t'. tree_ok t \<and> owned t (0, 0) = 1 \<and>
      subdivide t ''p'' [(''p'', ?p)] = (Inl e, t') \<and> owned t' (0, 0) = 0"
    by (intro exI [of _ t] exI) (auto simp: owned_def final_cores_def)
qed

end
