(* ===== verification/WorkAccounting.thy ===== *)
theory WorkAccounting
  imports Geometry
begin

text \<open>
  Model of \<open>streaming/work_accounting.py\<close>: the historical work ledger.  \<open>_forward_union\<close> keeps the
  maximal forwarded cores, \<open>_unique_forward_pixels\<close> their area; the dict \<open>_tile_areas\<close> and the set
  \<open>_screened_tiles\<close> are lists in insertion order.  One \<open>definition\<close> per recorder, and \<open>wa_step\<close> for
  a run of recorder calls.  The specification side is the set of pixels under the forwarded cores.
\<close>

record work_accounting =
  full_chip_pixels :: int
  reused_work_units :: int
  rigorous_work_units :: int
  forward_simulator_calls :: int
  forward_simulator_input_pixels :: int
  read_window_calls :: int
  read_window_pixels :: int
  screen_queries :: int
  process_points_skipped :: int
  tiles_skipped :: int
  tiles_refined :: int
  tiles_screened_out :: int
  dense_allocation_events :: int
  n_subdivisions :: int
  forward_union :: "bbox list"
  unique_forward_pixels :: int
  tile_areas :: "(string \<times> int) list"
  screened_tiles :: "string list"

definition new_accounting :: "int \<Rightarrow> work_accounting" where
  "new_accounting full =
     \<lparr>full_chip_pixels = full, reused_work_units = 0, rigorous_work_units = 0,
      forward_simulator_calls = 0, forward_simulator_input_pixels = 0, read_window_calls = 0,
      read_window_pixels = 0, screen_queries = 0, process_points_skipped = 0, tiles_skipped = 0,
      tiles_refined = 0, tiles_screened_out = 0, dense_allocation_events = 0,
      n_subdivisions = 0, forward_union = [], unique_forward_pixels = 0, tile_areas = [],
      screened_tiles = []\<rparr>"

definition wa_contains :: "bbox \<Rightarrow> bbox \<Rightarrow> bool" where
  "wa_contains outer inner \<longleftrightarrow>
     bx0 outer \<le> bx0 inner \<and> by0 outer \<le> by0 inner \<and>
     bx1 outer \<ge> bx1 inner \<and> by1 outer \<ge> by1 inner"

subsection \<open>The recorders\<close>

definition drop_cover :: "work_accounting \<Rightarrow> bbox \<Rightarrow> work_accounting" where
  "drop_cover a cover =
     a\<lparr>unique_forward_pixels := unique_forward_pixels a - area cover,
       forward_union := remove1 cover (forward_union a)\<rparr>"

definition record_forward_core :: "work_accounting \<Rightarrow> bbox \<Rightarrow> work_accounting" where
  "record_forward_core a core =
     (if list_ex (\<lambda>cover. wa_contains cover core) (forward_union a) then a
      else let absorbed = filter (\<lambda>cover. wa_contains core cover) (forward_union a);
               a1 = foldl drop_cover a absorbed in
           a1\<lparr>forward_union := forward_union a1 @ [core],
              unique_forward_pixels := unique_forward_pixels a1 + area core\<rparr>)"

definition pre_forward_avoided_pixels :: "work_accounting \<Rightarrow> int" where
  "pre_forward_avoided_pixels a =
     (if full_chip_pixels a \<le> 0 then 0
      else max 0 (full_chip_pixels a - unique_forward_pixels a))"

definition active_pixels :: "work_accounting \<Rightarrow> int" where
  "active_pixels a = unique_forward_pixels a"

definition screened_out_pixels :: "work_accounting \<Rightarrow> int" where
  "screened_out_pixels a = pre_forward_avoided_pixels a"

definition record_active_core :: "work_accounting \<Rightarrow> string \<Rightarrow> bbox \<Rightarrow> work_accounting" where
  "record_active_core a tid core =
     (if tid \<notin> set (map fst (tile_areas a)) \<and> tid \<notin> set (screened_tiles a)
      then a\<lparr>tile_areas := tile_areas a @ [(tid, area core)]\<rparr> else a)"

definition record_read_window :: "work_accounting \<Rightarrow> int \<Rightarrow> work_accounting" where
  "record_read_window a px =
     a\<lparr>read_window_calls := read_window_calls a + 1,
       read_window_pixels := read_window_pixels a + px\<rparr>"

definition record_forward :: "work_accounting \<Rightarrow> int \<Rightarrow> work_accounting" where
  "record_forward a input_pixels =
     a\<lparr>forward_simulator_calls := forward_simulator_calls a + 1,
       forward_simulator_input_pixels := forward_simulator_input_pixels a + input_pixels\<rparr>"

definition record_screen_query :: "work_accounting \<Rightarrow> work_accounting" where
  "record_screen_query a = a\<lparr>screen_queries := screen_queries a + 1\<rparr>"

definition record_tile ::
    "work_accounting \<Rightarrow> string \<Rightarrow> bbox \<Rightarrow> bool \<Rightarrow> work_accounting" where
  "record_tile a tid core simulator_called =
     (let a1 = record_active_core a tid core in
      if simulator_called then record_forward_core (record_forward a1 (area core)) core else a1)"

definition record_screened_out :: "work_accounting \<Rightarrow> string \<Rightarrow> int \<Rightarrow> work_accounting" where
  "record_screened_out a tid ar =
     (if tid \<in> set (map fst (tile_areas a)) \<or> tid \<in> set (screened_tiles a) then a
      else a\<lparr>screened_tiles := screened_tiles a @ [tid],
             tiles_skipped := tiles_skipped a + 1,
             tiles_screened_out := tiles_screened_out a + 1\<rparr>)"

definition record_subdivision :: "work_accounting \<Rightarrow> bbox \<Rightarrow> work_accounting" where
  "record_subdivision a parent = a\<lparr>n_subdivisions := n_subdivisions a + 1\<rparr>"

definition record_refinement ::
    "work_accounting \<Rightarrow> string \<Rightarrow> string \<Rightarrow> int \<Rightarrow> work_accounting" where
  "record_refinement a old_id new_id ar =
     a\<lparr>tiles_refined := tiles_refined a + 1, reused_work_units := reused_work_units a + ar\<rparr>"

definition record_dense_allocation :: "work_accounting \<Rightarrow> int \<Rightarrow> work_accounting" where
  "record_dense_allocation a px = a\<lparr>dense_allocation_events := dense_allocation_events a + 1\<rparr>"

subsection \<open>Derived quantities\<close>

definition n_tiles :: "work_accounting \<Rightarrow> nat" where
  "n_tiles a = length (tile_areas a) + length (screened_tiles a)"

definition active_fraction :: "work_accounting \<Rightarrow> rat" where
  "active_fraction a =
     (if full_chip_pixels a \<le> 0 then 0
      else of_int (unique_forward_pixels a) / of_int (full_chip_pixels a))"

definition screened_fraction :: "work_accounting \<Rightarrow> rat" where
  "screened_fraction a =
     (if full_chip_pixels a \<le> 0 then 0
      else of_int (pre_forward_avoided_pixels a) / of_int (full_chip_pixels a))"

definition avoided_pct :: "work_accounting \<Rightarrow> rat" where
  "avoided_pct a = 100 * screened_fraction a"

definition read_amplification :: "work_accounting \<Rightarrow> rat" where
  "read_amplification a =
     (if unique_forward_pixels a \<le> 0 then 0
      else of_int (read_window_pixels a) / of_int (unique_forward_pixels a))"

definition accounted_pct :: "work_accounting \<Rightarrow> rat" where
  "accounted_pct a =
     (if full_chip_pixels a > 0
      then 100 * of_int (unique_forward_pixels a + pre_forward_avoided_pixels a) /
        of_int (full_chip_pixels a)
      else 0)"

subsection \<open>Runs of recorder calls\<close>

datatype wa_event =
    EvForwardCore bbox
  | EvActiveCore string bbox
  | EvReadWindow int
  | EvForward int
  | EvScreenQuery
  | EvTile string bbox bool
  | EvScreenedOut string int
  | EvSubdivision bbox
  | EvRefinement string string int
  | EvDenseAllocation int

primrec wa_step :: "work_accounting \<Rightarrow> wa_event \<Rightarrow> work_accounting" where
  "wa_step a (EvForwardCore b) = record_forward_core a b"
| "wa_step a (EvActiveCore i b) = record_active_core a i b"
| "wa_step a (EvReadWindow n) = record_read_window a n"
| "wa_step a (EvForward n) = record_forward a n"
| "wa_step a EvScreenQuery = record_screen_query a"
| "wa_step a (EvTile i b s) = record_tile a i b s"
| "wa_step a (EvScreenedOut i n) = record_screened_out a i n"
| "wa_step a (EvSubdivision b) = record_subdivision a b"
| "wa_step a (EvRefinement i j n) = record_refinement a i j n"
| "wa_step a (EvDenseAllocation n) = record_dense_allocation a n"

definition wa_run :: "work_accounting \<Rightarrow> wa_event list \<Rightarrow> work_accounting" where
  "wa_run = foldl wa_step"

text \<open>The cores an event sends through the forward model, and the tile it settles.\<close>

primrec forwarded :: "wa_event \<Rightarrow> bbox list" where
  "forwarded (EvForwardCore b) = [b]"
| "forwarded (EvActiveCore i b) = []"
| "forwarded (EvReadWindow n) = []"
| "forwarded (EvForward n) = []"
| "forwarded EvScreenQuery = []"
| "forwarded (EvTile i b s) = (if s then [b] else [])"
| "forwarded (EvScreenedOut i n) = []"
| "forwarded (EvSubdivision b) = []"
| "forwarded (EvRefinement i j n) = []"
| "forwarded (EvDenseAllocation n) = []"

definition forwarded_cores :: "wa_event list \<Rightarrow> bbox list" where
  "forwarded_cores es = concat (map forwarded es)"

definition forwarded_pixels :: "bbox list \<Rightarrow> pixel set" where
  "forwarded_pixels bs = \<Union> (pixels ` set bs)"

text \<open>Nested or disjoint, the promise of the callers.\<close>

definition boxes_disjoint :: "bbox \<Rightarrow> bbox \<Rightarrow> bool" where
  "boxes_disjoint a b \<longleftrightarrow> bx1 a \<le> bx0 b \<or> bx1 b \<le> bx0 a \<or> by1 a \<le> by0 b \<or> by1 b \<le> by0 a"

definition nested_or_disjoint :: "bbox \<Rightarrow> bbox \<Rightarrow> bool" where
  "nested_or_disjoint a b \<longleftrightarrow> wa_contains a b \<or> wa_contains b a \<or> boxes_disjoint a b"

definition laminar :: "bbox list \<Rightarrow> bool" where
  "laminar bs \<longleftrightarrow> list_all (\<lambda>a. list_all (nested_or_disjoint a) bs) bs"

lemma wa_contains_contains: "wa_contains = contains"
  by (intro ext) (simp add: wa_contains_def contains_def)

lemma boxes_disjoint_pixels: "boxes_disjoint a b \<Longrightarrow> pixels a \<inter> pixels b = {}"
  by (auto simp: boxes_disjoint_def pixels_def in_box_def)

lemma forwarded_pixels_simps [simp]:
  "forwarded_pixels [] = {}"
  "forwarded_pixels (b # bs) = pixels b \<union> forwarded_pixels bs"
  "forwarded_pixels (as @ bs) = forwarded_pixels as \<union> forwarded_pixels bs"
  by (auto simp: forwarded_pixels_def)

lemma finite_forwarded_pixels [simp]: "finite (forwarded_pixels bs)"
  by (simp add: forwarded_pixels_def)

subsection \<open>The union invariant\<close>

text \<open>\<open>fu_ok a bs\<close>: the union list of \<open>a\<close> is a pairwise disjoint selection of the forwarded cores
  \<open>bs\<close> with the same pixels, and the pixel counter is its area.\<close>

definition fu_ok :: "work_accounting \<Rightarrow> bbox list \<Rightarrow> bool" where
  "fu_ok a bs \<longleftrightarrow>
     set (forward_union a) \<subseteq> set bs \<and> distinct (forward_union a) \<and>
     (\<forall>b\<in>set (forward_union a). \<forall>c\<in>set (forward_union a). b \<noteq> c \<longrightarrow> pixels b \<inter> pixels c = {}) \<and>
     forwarded_pixels (forward_union a) = forwarded_pixels bs \<and>
     unique_forward_pixels a = (\<Sum>b\<leftarrow>forward_union a. area b)"

lemma fu_ok_card:
  assumes "fu_ok a bs" "\<forall>b\<in>set bs. bbox_ok b"
  shows "unique_forward_pixels a = int (card (forwarded_pixels bs))"
proof -
  let ?U = "forward_union a"
  have "card (\<Union> (pixels ` set ?U)) = (\<Sum>b\<in>set ?U. card (pixels b))"
    using assms(1) by (intro card_UN_disjoint) (auto simp: fu_ok_def)
  then have "int (card (forwarded_pixels ?U)) = (\<Sum>b\<in>set ?U. int (card (pixels b)))"
    by (simp add: forwarded_pixels_def)
  also have "\<dots> = (\<Sum>b\<in>set ?U. area b)"
    using assms by (intro sum.cong) (auto simp: fu_ok_def card_pixels)
  also have "\<dots> = (\<Sum>b\<leftarrow>?U. area b)"
    using assms(1) by (simp add: fu_ok_def sum_list_distinct_conv_sum_set)
  finally show ?thesis using assms(1) by (simp add: fu_ok_def)
qed

lemma drop_cover_fold:
  "distinct xs \<Longrightarrow> set xs \<subseteq> set (forward_union a) \<Longrightarrow> distinct (forward_union a) \<Longrightarrow>
   foldl drop_cover a xs = a\<lparr>unique_forward_pixels := unique_forward_pixels a - (\<Sum>b\<leftarrow>xs. area b),
     forward_union := filter (\<lambda>b. b \<notin> set xs) (forward_union a)\<rparr>"
proof (induction xs arbitrary: a)
  case (Cons x xs)
  have "foldl drop_cover a (x # xs) = foldl drop_cover (drop_cover a x) xs" by simp
  also have "\<dots> = (drop_cover a x)
      \<lparr>unique_forward_pixels := unique_forward_pixels (drop_cover a x) - (\<Sum>b\<leftarrow>xs. area b),
       forward_union := filter (\<lambda>b. b \<notin> set xs) (forward_union (drop_cover a x))\<rparr>"
    using Cons.prems by (intro Cons.IH) (auto simp: drop_cover_def)
  also have "\<dots> = a\<lparr>unique_forward_pixels := unique_forward_pixels a - (\<Sum>b\<leftarrow>x # xs. area b),
       forward_union := filter (\<lambda>b. b \<notin> set (x # xs)) (forward_union a)\<rparr>"
    using Cons.prems(3)
    by (simp add: drop_cover_def distinct_remove1_removeAll removeAll_filter_not_eq conj_commute)
      (auto intro!: work_accounting.equality filter_cong)
  finally show ?case .
qed simp

lemma record_forward_core_effect:
  "record_forward_core a b =
     (if list_ex (\<lambda>c. contains c b) (forward_union a) then a
      else a\<lparr>forward_union := filter (\<lambda>c. \<not> contains b c) (forward_union a) @ [b],
             unique_forward_pixels := unique_forward_pixels a -
               (\<Sum>c\<leftarrow>filter (contains b) (forward_union a). area c) + area b\<rparr>)"
  if "distinct (forward_union a)"
proof -
  let ?xs = "filter (\<lambda>cover. contains b cover) (forward_union a)"
  have "foldl drop_cover a ?xs =
      a\<lparr>unique_forward_pixels := unique_forward_pixels a - (\<Sum>b\<leftarrow>?xs. area b),
        forward_union := filter (\<lambda>c. c \<notin> set ?xs) (forward_union a)\<rparr>"
    using that by (intro drop_cover_fold) auto
  moreover have "filter (\<lambda>c. c \<notin> set ?xs) (forward_union a) =
      filter (\<lambda>c. \<not> contains b c) (forward_union a)"
    by (intro filter_cong) auto
  ultimately show ?thesis
    by (simp add: record_forward_core_def wa_contains_contains Let_def)
qed

lemma record_forward_core_ok:
  assumes "fu_ok a bs" "\<forall>c\<in>set bs. nested_or_disjoint c b"
  shows "fu_ok (record_forward_core a b) (bs @ [b])"
proof (cases "list_ex (\<lambda>c. contains c b) (forward_union a)")
  case True
  then obtain c where c: "c \<in> set (forward_union a)" "contains c b" by (auto simp: list_ex_iff)
  then have "pixels b \<subseteq> forwarded_pixels (forward_union a)"
    by (auto simp: forwarded_pixels_def pixels_def intro: contains_in_box)
  with True assms(1) show ?thesis
    by (auto simp: fu_ok_def record_forward_core_effect)
next
  case False
  let ?U = "forward_union a"
  let ?keep = "filter (\<lambda>c. \<not> contains b c) ?U"
  have dist: "distinct ?U" using assms(1) by (simp add: fu_ok_def)
  have disj: "pixels c \<inter> pixels b = {}" if "c \<in> set ?keep" for c
  proof -
    have "c \<in> set bs" using that assms(1) by (auto simp: fu_ok_def)
    then have "nested_or_disjoint c b" using assms(2) by blast
    then show ?thesis using that False boxes_disjoint_pixels
      by (auto simp: nested_or_disjoint_def wa_contains_contains list_ex_iff)
  qed
  have "b \<notin> set ?keep" by (auto simp: contains_def)
  have split: "forwarded_pixels ?U = forwarded_pixels (filter (contains b) ?U) \<union> forwarded_pixels ?keep"
    by (auto simp: forwarded_pixels_def)
  have "forwarded_pixels (filter (contains b) ?U) \<subseteq> pixels b"
    by (auto simp: forwarded_pixels_def pixels_def intro: contains_in_box)
  then have pix: "forwarded_pixels (?keep @ [b]) = forwarded_pixels (bs @ [b])"
    using split assms(1) by (auto simp: fu_ok_def)
  have "(\<Sum>c\<leftarrow>?U. area c) = (\<Sum>c\<leftarrow>filter (contains b) ?U. area c) + (\<Sum>c\<leftarrow>?keep. area c)"
    by (rule sum_list_filter_split)
  then show ?thesis
    using False assms(1) dist disj pix \<open>b \<notin> set ?keep\<close>
    by (auto simp: fu_ok_def record_forward_core_effect)
qed

lemma record_other_union [simp]:
  "forward_union (record_active_core a i b) = forward_union a"
  "unique_forward_pixels (record_active_core a i b) = unique_forward_pixels a"
  "forward_union (record_screened_out a i n) = forward_union a"
  "unique_forward_pixels (record_screened_out a i n) = unique_forward_pixels a"
  "forward_union (record_forward a n) = forward_union a"
  "unique_forward_pixels (record_forward a n) = unique_forward_pixels a"
  by (simp_all add: record_active_core_def record_screened_out_def record_forward_def)

lemma fu_ok_cong:
  "forward_union a' = forward_union a \<Longrightarrow> unique_forward_pixels a' = unique_forward_pixels a \<Longrightarrow>
   fu_ok a' bs = fu_ok a bs"
  by (simp add: fu_ok_def)

lemma wa_step_ok:
  assumes "fu_ok a bs" "\<forall>c\<in>set bs. \<forall>b\<in>set (forwarded e). nested_or_disjoint c b"
  shows "fu_ok (wa_step a e) (bs @ forwarded e)"
proof (cases e)
  case (EvForwardCore b)
  with assms show ?thesis by (simp add: record_forward_core_ok)
next
  case (EvTile i b s)
  have "fu_ok (record_forward (record_active_core a i b) (area b)) bs"
    using assms(1) by (simp add: fu_ok_def)
  moreover have "fu_ok (record_active_core a i b) bs" using assms(1) by (simp add: fu_ok_def)
  ultimately show ?thesis
    using EvTile assms(2) by (simp add: record_tile_def Let_def record_forward_core_ok)
qed (use assms(1) in \<open>simp_all add: fu_ok_def record_read_window_def record_screen_query_def
      record_subdivision_def record_refinement_def record_dense_allocation_def\<close>)

lemma laminar_append:
  "laminar (as @ bs) \<Longrightarrow> \<forall>a\<in>set as. \<forall>b\<in>set bs. nested_or_disjoint a b"
  by (auto simp: laminar_def list_all_iff)

lemma wa_run_union:
  assumes "laminar (forwarded_cores es)"
  shows "fu_ok (wa_run (new_accounting full) es) (forwarded_cores es)"
  using assms
proof (induction es rule: rev_induct)
  case Nil
  then show ?case by (simp add: wa_run_def forwarded_cores_def fu_ok_def new_accounting_def)
next
  case (snoc e es)
  have split: "forwarded_cores (es @ [e]) = forwarded_cores es @ forwarded e"
    by (simp add: forwarded_cores_def)
  then have "laminar (forwarded_cores es)"
    using snoc.prems by (simp add: laminar_def list_all_iff)
  from wa_step_ok [OF snoc.IH [OF this]] laminar_append [OF snoc.prems [unfolded split]]
  show ?case by (simp add: split wa_run_def)
qed

lemma wa_run_full: "full_chip_pixels (wa_run a es) = full_chip_pixels a"
proof (induction es rule: rev_induct)
  case (snoc e es)
  have drop: "full_chip_pixels (foldl drop_cover c xs) = full_chip_pixels c" for c xs
    by (induction xs arbitrary: c) (simp_all add: drop_cover_def)
  then have "full_chip_pixels (record_forward_core c b) = full_chip_pixels c" for c b
    by (simp add: record_forward_core_def Let_def)
  then have "full_chip_pixels (wa_step c e) = full_chip_pixels c" for c
    by (cases e) (simp_all add: record_tile_def Let_def record_active_core_def record_forward_def
        record_read_window_def record_screen_query_def record_screened_out_def
        record_subdivision_def record_refinement_def record_dense_allocation_def)
  with snoc show ?case by (simp add: wa_run_def)
qed (simp add: wa_run_def)

subsection \<open>Tiles are settled once\<close>

primrec settled :: "wa_event \<Rightarrow> string list" where
  "settled (EvForwardCore b) = []"
| "settled (EvActiveCore i b) = [i]"
| "settled (EvReadWindow n) = []"
| "settled (EvForward n) = []"
| "settled EvScreenQuery = []"
| "settled (EvTile i b s) = [i]"
| "settled (EvScreenedOut i n) = [i]"
| "settled (EvSubdivision b) = []"
| "settled (EvRefinement i j n) = []"
| "settled (EvDenseAllocation n) = []"

definition tiles_ok :: "work_accounting \<Rightarrow> string set \<Rightarrow> bool" where
  "tiles_ok a ids \<longleftrightarrow>
     distinct (map fst (tile_areas a) @ screened_tiles a) \<and>
     set (map fst (tile_areas a) @ screened_tiles a) = ids \<and>
     tiles_screened_out a = int (length (screened_tiles a)) \<and>
     tiles_skipped a = int (length (screened_tiles a))"

lemma record_forward_core_tiles [simp]:
  "tiles_ok (record_forward_core a b) ids = tiles_ok a ids"
proof -
  have "tiles_ok (foldl drop_cover c xs) ids = tiles_ok c ids" for c xs
    by (induction xs arbitrary: c) (simp_all add: drop_cover_def tiles_ok_def)
  then show ?thesis by (simp add: record_forward_core_def Let_def) (simp add: tiles_ok_def)
qed

lemma record_active_core_tiles:
  "tiles_ok a ids \<Longrightarrow> tiles_ok (record_active_core a i b) (insert i ids)"
  by (auto simp: record_active_core_def tiles_ok_def)

lemma wa_step_tiles: "tiles_ok a ids \<Longrightarrow> tiles_ok (wa_step a e) (set (settled e) \<union> ids)"
proof (cases e)
  case (EvTile i b s)
  moreover assume "tiles_ok a ids"
  ultimately show ?thesis using record_active_core_tiles [of a ids i b]
    by (simp add: record_tile_def Let_def) (simp add: tiles_ok_def record_forward_def)
next
  case (EvScreenedOut i n)
  moreover assume "tiles_ok a ids"
  ultimately show ?thesis by (auto simp: record_screened_out_def tiles_ok_def)
qed (simp_all add: record_active_core_tiles, simp_all add: tiles_ok_def record_read_window_def
     record_forward_def record_screen_query_def record_subdivision_def record_refinement_def
     record_dense_allocation_def)

lemma wa_run_tiles:
  "tiles_ok (wa_run (new_accounting full) es) (set (concat (map settled es)))"
proof (induction es rule: rev_induct)
  case Nil
  show ?case by (simp add: wa_run_def tiles_ok_def new_accounting_def)
next
  case (snoc e es)
  from wa_step_tiles [OF this, of e] show ?case by (simp add: wa_run_def Un_commute)
qed

subsection \<open>Properties\<close>

text \<open>The historical work ledger is exact.  Over any run of recorder calls whose forwarded cores
  are nested or disjoint and lie in the chip, in any order and with any repetition,
  \<open>unique_forward_pixels\<close> is the number of pixels under at least one forwarded core (a re-run
  after a refinement and a parent forwarded before or after its children count once), the avoided
  pixels are exactly the others, and the two add up to the chip.\<close>

theorem forward_ledger_exact:
  assumes "0 \<le> h" "0 \<le> w" "laminar (forwarded_cores es)"
    and "list_all (\<lambda>b. bbox_ok b \<and> contains (dom_box (h, w)) b) (forwarded_cores es)"
  shows "let a = wa_run (new_accounting (h * w)) es in
    unique_forward_pixels a = int (card (forwarded_pixels (forwarded_cores es))) \<and>
    pre_forward_avoided_pixels a =
      int (card ({p. in_domain (h, w) p} - forwarded_pixels (forwarded_cores es))) \<and>
    unique_forward_pixels a + pre_forward_avoided_pixels a = h * w"
proof -
  let ?F = "forwarded_pixels (forwarded_cores es)" and ?D = "{p. in_domain (h, w) p}"
  let ?a = "wa_run (new_accounting (h * w)) es"
  have ok: "\<forall>b\<in>set (forwarded_cores es). bbox_ok b" using assms(4) by (simp add: list_all_iff)
  have u: "unique_forward_pixels ?a = int (card ?F)"
    by (rule fu_ok_card [OF wa_run_union [OF assms(3)] ok])
  have "?F \<subseteq> pixels (dom_box (h, w))"
    using assms(4) by (auto simp: forwarded_pixels_def list_all_iff pixels_def
        simp del: in_box_dom_box intro: contains_in_box)
  then have sub: "?F \<subseteq> ?D" by (simp only: pixels_dom_box)
  then have "card (?D - ?F) = card ?D - card ?F" "card ?F \<le> card ?D"
    by (simp_all add: card_Diff_subset card_mono)
  moreover have "int (card ?D) = h * w" using assms(1,2) by (rule card_domain)
  ultimately have "int (card (?D - ?F)) = h * w - int (card ?F)" "int (card ?F) \<le> h * w"
    by linarith+
  moreover have "full_chip_pixels ?a = h * w" by (simp add: wa_run_full new_accounting_def)
  ultimately show ?thesis
    using u by (auto simp: pre_forward_avoided_pixels_def Let_def)
qed

theorem forward_ledger_exact_witness:
  "let p = \<lparr>bx0 = 0, by0 = 0, bx1 = 2, by1 = 2\<rparr>;
       c = \<lparr>bx0 = 0, by0 = 0, bx1 = 1, by1 = 1\<rparr>;
       a = wa_run (new_accounting (2 * 4))
             [EvForwardCore c, EvTile ''t'' p True, EvScreenQuery, EvForwardCore c] in
   unique_forward_pixels a = 4 \<and> unique_forward_pixels a + pre_forward_avoided_pixels a = 2 * 4"
proof -
  let ?p = "\<lparr>bx0 = 0, by0 = 0, bx1 = 2, by1 = 2\<rparr>"
  let ?c = "\<lparr>bx0 = 0, by0 = 0, bx1 = 1, by1 = 1\<rparr>"
  let ?es = "[EvForwardCore ?c, EvTile ''t'' ?p True, EvScreenQuery, EvForwardCore ?c]"
  have "forwarded_cores ?es = [?c, ?p, ?c]" by (simp add: forwarded_cores_def)
  moreover have "laminar [?c, ?p, ?c]"
    by (simp add: laminar_def nested_or_disjoint_def wa_contains_def)
  moreover have "list_all (\<lambda>b. bbox_ok b \<and> contains (dom_box (2, 4)) b) [?c, ?p, ?c]"
    by (simp add: bbox_ok_def contains_def dom_box_def)
  ultimately have "unique_forward_pixels (wa_run (new_accounting (2 * 4)) ?es) +
      pre_forward_avoided_pixels (wa_run (new_accounting (2 * 4)) ?es) = 2 * 4"
    using forward_ledger_exact [of 2 4 ?es] by (simp add: Let_def)
  moreover have "unique_forward_pixels (wa_run (new_accounting (2 * 4)) ?es) = 4"
    by (simp add: wa_run_def record_tile_def record_forward_core_def new_accounting_def
        record_forward_def record_active_core_def drop_cover_def record_screen_query_def
        wa_contains_def area_def width_def height_def)
  ultimately show ?thesis by (simp add: Let_def)
qed

text \<open>Every tile is settled once.  After any run of recorder calls the active and the screened
  tiles are disjoint and without duplicates, together they are exactly the tile ids the run has
  recorded, \<open>n_tiles\<close> is their number, and both skip counters equal the number of screened tiles:
  the first disposition of a tile wins and later ones are ignored.\<close>

theorem tiles_settled_once:
  "let a = wa_run (new_accounting full) es in
   distinct (map fst (tile_areas a) @ screened_tiles a) \<and>
   set (map fst (tile_areas a) @ screened_tiles a) = set (concat (map settled es)) \<and>
   n_tiles a = card (set (concat (map settled es))) \<and>
   tiles_screened_out a = int (length (screened_tiles a)) \<and>
   tiles_skipped a = int (length (screened_tiles a))"
proof -
  let ?a = "wa_run (new_accounting full) es"
  have ok: "tiles_ok ?a (set (concat (map settled es)))" by (rule wa_run_tiles)
  then have "n_tiles ?a = card (set (map fst (tile_areas ?a) @ screened_tiles ?a))"
    unfolding tiles_ok_def by (metis distinct_card length_append length_map n_tiles_def)
  with ok show ?thesis by (simp only: tiles_ok_def Let_def simp_thms)
qed

end
