(* ===== verification/Tensor.thy ===== *)
theory Tensor
  imports Prelude
begin

text \<open>
  Two-dimensional tensors as lists of rows, with what the modelled code uses of them: Python's
  slicing (negative bounds count from the end, bounds beyond the end are clamped), constant
  fills, slice assignment, elementwise subtraction with broadcasting, and the absolute sum and
  maximum.  Tensor elements are the floats of the source, modelled by \<open>rat\<close>; masks and flags use
  the same functions at type \<open>bool\<close>.
\<close>

type_synonym 'a grid = "'a list list"
type_synonym tensor = "rat grid"

definition rows :: "'a grid \<Rightarrow> int" where
  "rows t = int (length t)"

definition cols :: "'a grid \<Rightarrow> int" where
  "cols t = (case t of [] \<Rightarrow> 0 | r # _ \<Rightarrow> int (length r))"

definition t_shape :: "'a grid \<Rightarrow> int \<times> int" where
  "t_shape t = (rows t, cols t)"

definition t_ok :: "'a grid \<Rightarrow> bool" where
  "t_ok t \<longleftrightarrow> list_all (\<lambda>r. int (length r) = cols t) t"

definition t_get :: "'a grid \<Rightarrow> int \<Rightarrow> int \<Rightarrow> 'a" where
  "t_get t y x = t ! nat y ! nat x"

definition t_build :: "int \<Rightarrow> int \<Rightarrow> (int \<Rightarrow> int \<Rightarrow> 'a) \<Rightarrow> 'a grid" where
  "t_build h w f = map (\<lambda>y. map (\<lambda>x. f (int y) (int x)) [0..<nat w]) [0..<nat h]"

definition t_full :: "int \<Rightarrow> int \<Rightarrow> 'a \<Rightarrow> 'a grid" where
  "t_full h w v = t_build h w (\<lambda>_ _. v)"

subsection \<open>Slices\<close>

definition norm_idx :: "int \<Rightarrow> int \<Rightarrow> int" where
  "norm_idx n i = (if i < 0 then max 0 (i + n) else min i n)"

definition py_slice :: "int \<Rightarrow> int \<Rightarrow> 'a list \<Rightarrow> 'a list" where
  "py_slice lo hi xs =
     (let n = int (length xs); l = norm_idx n lo; h = norm_idx n hi in
      take (nat (h - l)) (drop (nat l) xs))"

definition t_slice :: "'a grid \<Rightarrow> int \<Rightarrow> int \<Rightarrow> int \<Rightarrow> int \<Rightarrow> 'a grid" where
  "t_slice t y0 y1 x0 x1 = map (py_slice x0 x1) (py_slice y0 y1 t)"

text \<open>\<open>t[y0:y1, x0:x1] = c\<close>; the shapes must agree.\<close>

definition t_put :: "'a grid \<Rightarrow> int \<Rightarrow> int \<Rightarrow> int \<Rightarrow> int \<Rightarrow> 'a grid \<Rightarrow> 'a grid res" where
  "t_put t y0 y1 x0 x1 c =
     (let ly = norm_idx (rows t) y0; hy = norm_idx (rows t) y1;
          lx = norm_idx (cols t) x0; hx = norm_idx (cols t) x1 in
      if max 0 (hy - ly) \<noteq> rows c \<or> max 0 (hx - lx) \<noteq> cols c
      then Inl (ValueError ''could not broadcast input array into shape'')
      else Inr (t_build (rows t) (cols t) (\<lambda>y x.
        if ly \<le> y \<and> y < hy \<and> lx \<le> x \<and> x < hx then t_get c (y - ly) (x - lx)
        else t_get t y x)))"

text \<open>\<open>t[y0:y1, x0:x1] = v\<close> for a scalar.\<close>

definition t_fill :: "'a grid \<Rightarrow> int \<Rightarrow> int \<Rightarrow> int \<Rightarrow> int \<Rightarrow> 'a \<Rightarrow> 'a grid" where
  "t_fill t y0 y1 x0 x1 v =
     (let ly = norm_idx (rows t) y0; hy = norm_idx (rows t) y1;
          lx = norm_idx (cols t) x0; hx = norm_idx (cols t) x1 in
      t_build (rows t) (cols t) (\<lambda>y x.
        if ly \<le> y \<and> y < hy \<and> lx \<le> x \<and> x < hx then v else t_get t y x))"

lemma norm_idx_in [simp]: "0 \<le> i \<Longrightarrow> i \<le> n \<Longrightarrow> norm_idx n i = i"
  by (simp add: norm_idx_def)

lemma norm_idx_bounds: "0 \<le> n \<Longrightarrow> 0 \<le> norm_idx n i \<and> norm_idx n i \<le> n"
  by (simp add: norm_idx_def)

lemma rows_nonneg [simp]: "0 \<le> rows t"
  by (simp add: rows_def)

lemma cols_nonneg [simp]: "0 \<le> cols t"
  by (simp add: cols_def split: list.splits)

lemma rows_build [simp]: "rows (t_build h w f) = max 0 h"
  by (simp add: rows_def t_build_def)

lemma cols_build [simp]: "0 < h \<Longrightarrow> cols (t_build h w f) = max 0 w"
  by (simp add: cols_def t_build_def upt_rec [of 0 "nat h"])

lemma t_ok_build [simp]: "t_ok (t_build h w f)"
  by (cases "0 < h") (auto simp: t_ok_def list_all_iff, auto simp: t_build_def)

lemma t_get_build [simp]:
  "0 \<le> y \<Longrightarrow> y < h \<Longrightarrow> 0 \<le> x \<Longrightarrow> x < w \<Longrightarrow> t_get (t_build h w f) y x = f y x"
  by (simp add: t_get_def t_build_def)

lemma t_okD: "t_ok t \<Longrightarrow> r \<in> set t \<Longrightarrow> int (length r) = cols t"
  by (simp add: t_ok_def list_all_iff)

lemma t_ext:
  assumes "t_ok a" "t_ok b" "rows a = rows b" "cols a = cols b"
    and "\<And>y x. 0 \<le> y \<Longrightarrow> y < rows a \<Longrightarrow> 0 \<le> x \<Longrightarrow> x < cols a \<Longrightarrow> t_get a y x = t_get b y x"
  shows "a = b"
proof (rule nth_equalityI)
  show len: "length a = length b" using assms(3) by (simp add: rows_def)
  fix i assume i: "i < length a"
  have la: "int (length (a ! i)) = cols a" and lb: "int (length (b ! i)) = cols a"
    using t_okD [OF assms(1)] t_okD [OF assms(2)] i len assms(4) by simp_all
  show "a ! i = b ! i"
  proof (rule nth_equalityI)
    show "length (a ! i) = length (b ! i)" using la lb by linarith
    fix j assume "j < length (a ! i)"
    then show "a ! i ! j = b ! i ! j"
      using assms(5) [of "int i" "int j"] i la by (simp add: t_get_def rows_def)
  qed
qed

lemma py_slice_length:
  "0 \<le> lo \<Longrightarrow> lo \<le> hi \<Longrightarrow> hi \<le> int (length xs) \<Longrightarrow> int (length (py_slice lo hi xs)) = hi - lo"
  by (simp add: py_slice_def)

lemma py_slice_nth:
  "0 \<le> lo \<Longrightarrow> hi \<le> int (length xs) \<Longrightarrow> 0 \<le> i \<Longrightarrow> i < hi - lo \<Longrightarrow>
   py_slice lo hi xs ! nat i = xs ! nat (i + lo)"
  by (simp add: py_slice_def nat_add_distrib add.commute)

lemma py_slice_sub: "set (py_slice lo hi xs) \<subseteq> set xs"
  unfolding py_slice_def Let_def by (meson order.trans set_drop_subset set_take_subset)

lemma rows_slice:
  "0 \<le> y0 \<Longrightarrow> y0 \<le> y1 \<Longrightarrow> y1 \<le> rows t \<Longrightarrow> rows (t_slice t y0 y1 x0 x1) = y1 - y0"
  using py_slice_length [of y0 y1 t] by (simp add: rows_def t_slice_def)

lemma t_slice_row_length:
  assumes "t_ok t" "0 \<le> x0" "x0 \<le> x1" "x1 \<le> cols t" "r \<in> set (t_slice t y0 y1 x0 x1)"
  shows "int (length r) = x1 - x0"
proof -
  obtain s where s: "s \<in> set (py_slice y0 y1 t)" "r = py_slice x0 x1 s"
    using assms(5) by (auto simp: t_slice_def)
  then have "int (length s) = cols t" using py_slice_sub t_okD [OF assms(1)] by (metis subsetD)
  with s assms show ?thesis by (simp add: py_slice_length)
qed

lemma cols_slice:
  assumes "t_ok t" "0 \<le> y0" "y0 < y1" "y1 \<le> rows t" "0 \<le> x0" "x0 \<le> x1" "x1 \<le> cols t"
  shows "cols (t_slice t y0 y1 x0 x1) = x1 - x0"
proof -
  have "0 < rows (t_slice t y0 y1 x0 x1)" using assms by (simp add: rows_slice)
  then obtain r rs where r: "t_slice t y0 y1 x0 x1 = r # rs"
    by (cases "t_slice t y0 y1 x0 x1") (auto simp: rows_def)
  then have "int (length r) = x1 - x0"
    using t_slice_row_length [OF assms(1,5-7)] by (metis list.set_intros(1))
  with r show ?thesis by (simp add: cols_def)
qed

lemma t_ok_slice:
  assumes "t_ok t" "0 \<le> y0" "y0 < y1" "y1 \<le> rows t" "0 \<le> x0" "x0 \<le> x1" "x1 \<le> cols t"
  shows "t_ok (t_slice t y0 y1 x0 x1)"
  using t_slice_row_length [OF assms(1,5-7)] cols_slice [OF assms]
  unfolding t_ok_def list_all_iff by simp

lemma t_get_slice:
  assumes "t_ok t" "0 \<le> y0" "y1 \<le> rows t" "0 \<le> x0" "x1 \<le> cols t"
    "0 \<le> y" "y < y1 - y0" "0 \<le> x" "x < x1 - x0"
  shows "t_get (t_slice t y0 y1 x0 x1) y x = t_get t (y + y0) (x + x0)"
proof -
  have len: "nat y < length (py_slice y0 y1 t)"
    using py_slice_length [of y0 y1 t] assms by (simp add: rows_def)
  have row: "py_slice y0 y1 t ! nat y = t ! nat (y + y0)"
    using assms by (intro py_slice_nth) (simp_all add: rows_def)
  have "nat (y + y0) < length t" using assms by (simp add: rows_def)
  then have "int (length (t ! nat (y + y0))) = cols t" using t_okD [OF assms(1)] by simp
  then have "py_slice x0 x1 (t ! nat (y + y0)) ! nat x = t ! nat (y + y0) ! nat (x + x0)"
    using assms by (intro py_slice_nth) simp_all
  with len row show ?thesis by (simp add: t_get_def t_slice_def)
qed

lemma t_put_Inr:
  assumes "0 \<le> y0" "y0 < y1" "y1 \<le> rows t" "0 \<le> x0" "x0 < x1" "x1 \<le> cols t"
  shows "t_put t y0 y1 x0 x1 c =
    (if t_shape c = (y1 - y0, x1 - x0)
     then Inr (t_build (rows t) (cols t) (\<lambda>y x.
        if y0 \<le> y \<and> y < y1 \<and> x0 \<le> x \<and> x < x1 then t_get c (y - y0) (x - x0) else t_get t y x))
     else Inl (ValueError ''could not broadcast input array into shape''))"
  using assms by (auto simp: t_put_def Let_def t_shape_def)

subsection \<open>Elementwise arithmetic and reductions\<close>

definition bcast_dim :: "int \<Rightarrow> int \<Rightarrow> int option" where
  "bcast_dim m n = (if m = n then Some m else if m = 1 then Some n else if n = 1 then Some m
                    else None)"

definition t_sub :: "tensor \<Rightarrow> tensor \<Rightarrow> tensor res" where
  "t_sub a b =
     (case (bcast_dim (rows a) (rows b), bcast_dim (cols a) (cols b)) of
        (Some h, Some w) \<Rightarrow>
          Inr (t_build h w (\<lambda>y x.
            t_get a (if rows a = 1 then 0 else y) (if cols a = 1 then 0 else x) -
            t_get b (if rows b = 1 then 0 else y) (if cols b = 1 then 0 else x)))
      | _ \<Rightarrow> Inl (RuntimeError ''the sizes of the tensors must match''))"

definition t_abs :: "tensor \<Rightarrow> tensor" where
  "t_abs t = map (map abs) t"

definition t_max :: "tensor \<Rightarrow> rat res" where
  "t_max t = (case concat t of [] \<Rightarrow> Inl (RuntimeError ''max of an empty tensor'')
              | v # vs \<Rightarrow> Inr (foldl max v vs))"

definition t_sum :: "tensor \<Rightarrow> rat" where
  "t_sum t = sum_list (map sum_list t)"

lemma foldl_max_le: "(foldl max v vs \<le> b) = (v \<le> b \<and> list_all (\<lambda>x. x \<le> b) vs)"
  for v b :: "'a :: linorder"
  by (induction vs arbitrary: v) auto

lemma t_max_le: "t_max t = Inr m \<Longrightarrow> (m \<le> b) = list_all (list_all (\<lambda>x. x \<le> b)) t"
proof -
  assume "t_max t = Inr m"
  then obtain v vs where "concat t = v # vs" "m = foldl max v vs"
    by (auto simp: t_max_def split: list.splits)
  then have "(m \<le> b) = list_all (\<lambda>x. x \<le> b) (concat t)" by (simp add: foldl_max_le)
  also have "\<dots> = list_all (list_all (\<lambda>x. x \<le> b)) t" by (induction t) auto
  finally show ?thesis .
qed

end
