(* ===== verification/HaloPolicy.thy ===== *)
theory HaloPolicy
  imports Tensor
begin

text \<open>
  Model of \<open>streaming/halo_policy.py\<close>: halo requirements and how they combine, the fixed, the
  physical and the kernel-tail policy, the kernel tail mass, and the empirical sweep.  The node
  of a context is its optical radius, the model its \<open>RECEPTIVE_FIELD_PX\<close> attribute; the forward
  function of the sweep is a parameter.  Reasons keep their fixed text, without the interpolated
  numbers.  The locale \<open>halo_policy\<close> is the protocol the pipeline relies on.
\<close>

definition DEFAULT_HALO_PX :: int where
  "DEFAULT_HALO_PX = 128"

definition HALO_ROUND_PX :: int where
  "HALO_ROUND_PX = 8"

datatype halo_status =
  HFixed | HPhysicsEstimated | HEmpiricallyStable | HCertifiedSufficient | HInconclusive

record halo_requirement =
  halo_px :: int
  hr_provenance :: string
  error_bound :: "rat option"
  hr_certified :: bool
  hr_reason :: string
  hr_status :: halo_status

definition mk_requirement ::
    "int \<Rightarrow> string \<Rightarrow> rat option \<Rightarrow> bool \<Rightarrow> string \<Rightarrow> halo_status \<Rightarrow> halo_requirement res" where
  "mk_requirement px prov bnd cert reason st =
     (if px < 0 then Inl (ValueError ''halo_px must be nonnegative'')
      else if st = HCertifiedSufficient \<and> bnd = None
        then Inl (ValueError ''CERTIFIED_SUFFICIENT requires an error_bound'')
      else Inr \<lparr>halo_px = px, hr_provenance = prov, error_bound = bnd, hr_certified = cert,
                hr_reason = reason, hr_status = st\<rparr>)"

definition join_with :: "string \<Rightarrow> string list \<Rightarrow> string" where
  "join_with sep ss = (case ss of [] \<Rightarrow> [] | s # rest \<Rightarrow> s @ concat (map (\<lambda>r. sep @ r) rest))"

definition combine_status :: "halo_requirement list \<Rightarrow> halo_status \<times> bool" where
  "combine_status live =
     (if list_ex (\<lambda>r. hr_status r = HInconclusive) live then (HInconclusive, False)
      else if list_all (\<lambda>r. hr_status r = HCertifiedSufficient) live
        then (HCertifiedSufficient, list_all hr_certified live)
      else (HPhysicsEstimated, False))"

definition combine_requirements :: "halo_requirement option list \<Rightarrow> halo_requirement res" where
  "combine_requirements reqs =
     (let live = map the (filter (\<lambda>r. r \<noteq> None) reqs) in
      if live = [] then Inl (ValueError ''combine_requirements needs at least one requirement'')
      else
        let halo = Max (set (map halo_px live));
            provenance = join_with ''+'' (map hr_provenance live);
            bounds = map the (filter (\<lambda>b. b \<noteq> None) (map error_bound live));
            bnd = (if bounds \<noteq> [] then Some (Max (set bounds)) else None);
            sc = combine_status live;
            reason = join_with ''; '' (map hr_reason live) in
        mk_requirement halo provenance bnd (snd sc) reason (fst sc))"

record halo_context =
  pixel_nm :: rat
  tile_core_px :: int
  ctx_node :: "rat option"
  ctx_model :: "int option option"
  ctx_kernel :: "tensor option"

definition round_up :: "int \<Rightarrow> int" where
  "round_up px = ((px + HALO_ROUND_PX - 1) div HALO_ROUND_PX) * HALO_ROUND_PX"

subsection \<open>The policies\<close>

definition legacy_policy :: "int \<Rightarrow> int res" where
  "legacy_policy px = (if px < 0 then Inl (ValueError ''halo_px must be nonnegative'') else Inr px)"

definition legacy_required :: "int \<Rightarrow> halo_context \<Rightarrow> halo_requirement res" where
  "legacy_required px ctx =
     mk_requirement (min px (max (tile_core_px ctx - 1) 0)) ''legacy_fixed'' None False
       ''fixed legacy halo (backward compatibility)'' HFixed"

definition physical_policy :: "int \<Rightarrow> int" where
  "physical_policy round_up_to = max 1 round_up_to"

definition physical_required :: "int \<Rightarrow> halo_context \<Rightarrow> halo_requirement res" where
  "physical_required rnd ctx =
     (let px0 = 0;
          px1 = (case ctx_node ctx of
                   Some radius \<Rightarrow>
                     if pixel_nm ctx > 0 then max px0 \<lceil>radius / pixel_nm ctx\<rceil> else px0
                 | None \<Rightarrow> px0);
          px2 = (case ctx_model ctx of
                   Some rf \<Rightarrow> max px1 (case rf of None \<Rightarrow> 0 | Some v \<Rightarrow> v)
                 | None \<Rightarrow> px1);
          halo = (if rnd > 1 then round_up px2 else px2) in
      mk_requirement (min halo (max (tile_core_px ctx - 1) 0)) ''physical_interaction'' None False
        ''max(optical interaction radius, model receptive field)'' HPhysicsEstimated)"

definition masked_sum :: "tensor \<Rightarrow> bool grid \<Rightarrow> rat" where
  "masked_sum k keep =
     (\<Sum>y\<leftarrow>map int [0..<nat (rows k)]. \<Sum>x\<leftarrow>map int [0..<nat (cols k)].
        if t_get keep y x then 0 else t_get k y x)"

definition kernel_tail_mass :: "tensor \<Rightarrow> int \<Rightarrow> rat" where
  "kernel_tail_mass kern hpx =
     (let k = t_abs kern; total = t_sum k in
      if total \<le> 0 then 0
      else
        let cy = rows k div 2; cx = cols k div 2;
            y0 = max 0 (cy - hpx); y1 = min (rows k) (cy + hpx + 1);
            x0 = max 0 (cx - hpx); x1 = min (cols k) (cx + hpx + 1);
            keep = t_fill (t_full (rows k) (cols k) False) y0 y1 x0 x1 True in
        masked_sum k keep / total)"

definition tail_policy :: "rat \<Rightarrow> bool \<Rightarrow> (rat \<times> bool) res" where
  "tail_policy tolerance trusted =
     (if tolerance \<le> 0 then Inl (ValueError ''tolerance must be positive'')
      else Inr (tolerance, trusted))"

definition tail_required :: "rat \<times> bool \<Rightarrow> halo_context \<Rightarrow> halo_requirement res" where
  "tail_required pol ctx =
     (case ctx_kernel ctx of
        None \<Rightarrow> mk_requirement DEFAULT_HALO_PX ''kernel_tail'' None False
                  ''no kernel sample available; fell back to legacy default'' HInconclusive
      | Some kern \<Rightarrow>
          let k = t_abs kern; total = t_sum k in
          if total \<le> 0 then
            mk_requirement DEFAULT_HALO_PX ''kernel_tail'' None False
              ''degenerate (all-zero) kernel sample'' HInconclusive
          else
            let max_r = min (rows k) (cols k) div 2 in
            case find (\<lambda>h. kernel_tail_mass k h \<le> fst pol) (pyrange 0 (max_r + 1) 1) of
              None \<Rightarrow>
                mk_requirement (round_up max_r) ''kernel_tail'' (Some (kernel_tail_mass k max_r))
                  False ''kernel tail still exceeds tolerance at the largest sampled radius''
                  HInconclusive
            | Some best_h \<Rightarrow>
                mk_requirement (min (round_up best_h) (max (tile_core_px ctx - 1) 0)) ''kernel_tail''
                  (if snd pol then Some (fst pol) else None) (snd pol)
                  ''smallest sampled radius with kernel tail mass <= tolerance''
                  (if snd pol then HCertifiedSufficient else HPhysicsEstimated))"

subsection \<open>The empirical sweep\<close>

definition sweep_core ::
    "(tensor \<Rightarrow> tensor) \<Rightarrow> int \<times> int \<times> int \<times> int \<Rightarrow> tensor \<Rightarrow> int \<Rightarrow> tensor" where
  "sweep_core forward_fn bb full_context halo =
     (case bb of (x0, y0, x1, y1) \<Rightarrow>
        let core_h = y1 - y0; core_w = x1 - x0;
            tile = t_slice full_context (max 0 (y0 - halo)) (y1 + halo) (max 0 (x0 - halo)) (x1 + halo);
            out = forward_fn tile;
            oy = y0 - max 0 (y0 - halo);
            ox = x0 - max 0 (x0 - halo) in
        t_slice out oy (oy + core_h) ox (ox + core_w))"

definition discrepancy :: "tensor \<Rightarrow> tensor \<Rightarrow> rat res" where
  "discrepancy out reference = ebind (t_sub out reference) (\<lambda>d. t_max (t_abs d))"

definition stable_step ::
    "tensor \<Rightarrow> rat \<Rightarrow> int option \<Rightarrow> int \<times> tensor \<Rightarrow> int option res" where
  "stable_step reference tolerance stable_from ho =
     ebind (discrepancy (snd ho) reference) (\<lambda>disc.
       Inr (if disc \<le> tolerance \<and> stable_from = None then Some (fst ho)
            else if disc > tolerance then None else stable_from))"

definition sweep_candidates :: "int list \<Rightarrow> int list" where
  "sweep_candidates cands = sort (remdups (filter (\<lambda>h. h \<ge> 0) cands))"

definition estimate_minimum_halo ::
    "(tensor \<Rightarrow> tensor) \<Rightarrow> int \<times> int \<times> int \<times> int \<Rightarrow> tensor \<Rightarrow> int list \<Rightarrow> rat \<Rightarrow>
     halo_requirement res" where
  "estimate_minimum_halo forward_fn bb full_context candidate_halos tolerance =
     (let candidates = sweep_candidates candidate_halos in
      if candidates = [] then Inl (ValueError ''need at least one candidate halo'')
      else
        let core_errs = map (\<lambda>h. (h, sweep_core forward_fn bb full_context h)) candidates;
            reference_h = fst (last core_errs); reference = snd (last core_errs) in
        ebind (foldE (stable_step reference tolerance) None (butlast core_errs)) (\<lambda>stable_from.
          case stable_from of
            None \<Rightarrow> mk_requirement reference_h ''empirical_sweep'' None False
                      ''core discrepancy never stabilised under tolerance'' HInconclusive
          | Some h \<Rightarrow> mk_requirement h ''empirical_sweep'' (Some tolerance) False
                      ''core discrepancy within tolerance for all larger halos''
                      HEmpiricallyStable))"

subsection \<open>The protocol\<close>

definition requirement_ok :: "halo_requirement \<Rightarrow> bool" where
  "requirement_ok r \<longleftrightarrow>
     0 \<le> halo_px r \<and> (hr_status r = HCertifiedSufficient \<longrightarrow> error_bound r \<noteq> None)"

lemma mk_requirement_Inr:
  "mk_requirement px prov bnd cert reason st = Inr r \<longleftrightarrow>
     0 \<le> px \<and> (st = HCertifiedSufficient \<longrightarrow> bnd \<noteq> None) \<and>
     r = \<lparr>halo_px = px, hr_provenance = prov, error_bound = bnd, hr_certified = cert,
          hr_reason = reason, hr_status = st\<rparr>"
  by (auto simp: mk_requirement_def)

lemma mk_requirement_ok: "mk_requirement px prov bnd cert reason st = Inr r \<Longrightarrow> requirement_ok r"
  by (auto simp: mk_requirement_Inr requirement_ok_def)

definition live_of :: "halo_requirement option list \<Rightarrow> halo_requirement list" where
  "live_of reqs = map the (filter (\<lambda>r. r \<noteq> None) reqs)"

definition bounds_of :: "halo_requirement list \<Rightarrow> rat list" where
  "bounds_of live = map the (filter (\<lambda>b. b \<noteq> None) (map error_bound live))"

lemma bounds_of_mem: "r \<in> set live \<Longrightarrow> error_bound r = Some b \<Longrightarrow> b \<in> set (bounds_of live)"
  unfolding bounds_of_def by (force simp: image_iff)

lemma bounds_of_Max:
  "r \<in> set live \<Longrightarrow> error_bound r = Some b \<Longrightarrow> bounds_of live \<noteq> [] \<and> b \<le> Max (set (bounds_of live))"
  using bounds_of_mem [of r live b] by (auto intro: Max_ge)

lemma combine_eq:
  assumes "live_of reqs \<noteq> []" "\<forall>r\<in>set (live_of reqs). requirement_ok r"
  defines "L \<equiv> live_of reqs"
  shows "combine_requirements reqs = Inr \<lparr>halo_px = Max (set (map halo_px L)),
    hr_provenance = join_with ''+'' (map hr_provenance L),
    error_bound = (if bounds_of L \<noteq> [] then Some (Max (set (bounds_of L))) else None),
    hr_certified = snd (combine_status L), hr_reason = join_with ''; '' (map hr_reason L),
    hr_status = fst (combine_status L)\<rparr>"
    and "0 \<le> Max (set (map halo_px L))"
    and "fst (combine_status L) = HCertifiedSufficient \<Longrightarrow> bounds_of L \<noteq> []"
proof -
  have "Max (set (map halo_px L)) \<in> set (map halo_px L)"
    unfolding L_def using assms(1) by (intro Max_in) auto
  then show halo: "0 \<le> Max (set (map halo_px L))"
    using assms(2) by (auto simp: requirement_ok_def L_def)
  show b: "bounds_of L \<noteq> []" if "fst (combine_status L) = HCertifiedSufficient"
  proof -
    obtain r where r: "r \<in> set L" using assms(1) by (cases L) (auto simp: L_def)
    moreover have "hr_status r = HCertifiedSufficient"
      using that r by (auto simp: combine_status_def list_all_iff split: if_splits)
    ultimately obtain b where "error_bound r = Some b"
      using assms(2) by (auto simp: requirement_ok_def L_def)
    with bounds_of_Max [OF r] show ?thesis by blast
  qed
  show "combine_requirements reqs = Inr \<lparr>halo_px = Max (set (map halo_px L)),
    hr_provenance = join_with ''+'' (map hr_provenance L),
    error_bound = (if bounds_of L \<noteq> [] then Some (Max (set (bounds_of L))) else None),
    hr_certified = snd (combine_status L), hr_reason = join_with ''; '' (map hr_reason L),
    hr_status = fst (combine_status L)\<rparr>"
    unfolding combine_requirements_def Let_def
    unfolding live_of_def [symmetric] bounds_of_def [symmetric] L_def [symmetric]
    using assms(1) halo b by (simp add: mk_requirement_Inr L_def)
qed

lemma combine_status_cases:
  assumes "L \<noteq> []"
  shows "snd (combine_status L) \<Longrightarrow> r \<in> set L \<Longrightarrow>
      hr_certified r \<and> hr_status r = HCertifiedSufficient"
    "fst (combine_status L) = HInconclusive \<longleftrightarrow> (\<exists>r\<in>set L. hr_status r = HInconclusive)"
    "fst (combine_status L) = HCertifiedSufficient \<longleftrightarrow>
       (\<forall>r\<in>set L. hr_status r = HCertifiedSufficient)"
  using assms
  by (auto simp: combine_status_def list_ex_iff list_all_iff split: if_splits)

locale halo_policy =
  fixes required_halo :: "halo_context \<Rightarrow> halo_requirement res"
  assumes required_ok: "required_halo ctx = Inr r \<Longrightarrow> requirement_ok r"
begin

lemma combined_with_plugins:
  assumes "required_halo ctx = Inr r" "\<forall>p\<in>set plugins. requirement_ok p"
  shows "\<exists>c. combine_requirements (map Some (r # plugins)) = Inr c \<and> requirement_ok c \<and>
    halo_px r \<le> halo_px c \<and> (\<forall>p\<in>set plugins. halo_px p \<le> halo_px c)"
proof -
  have live: "live_of (map Some (r # plugins)) = r # plugins"
    by (simp add: live_of_def comp_def filter_map)
  have ok: "\<forall>p\<in>set (r # plugins). requirement_ok p" using required_ok assms by auto
  note eq = combine_eq [of "map Some (r # plugins)", unfolded live, OF _ ok]
  then show ?thesis by (auto simp: requirement_ok_def)
qed

end

interpretation legacy: halo_policy "legacy_required px" for px
  by unfold_locales (auto simp: legacy_required_def dest: mk_requirement_ok)

interpretation physical: halo_policy "physical_required rnd" for rnd
  by unfold_locales (auto simp: physical_required_def Let_def dest: mk_requirement_ok)

interpretation tail: halo_policy "tail_required pol" for pol
  by unfold_locales (auto simp: tail_required_def Let_def split: option.splits if_splits
      dest: mk_requirement_ok)


subsection \<open>The kernel tail\<close>

lemma masked_sum_mono:
  assumes "\<forall>y x. 0 \<le> y \<longrightarrow> y < rows k \<longrightarrow> 0 \<le> x \<longrightarrow> x < cols k \<longrightarrow>
      0 \<le> t_get k y x \<and> (t_get keep y x \<longrightarrow> t_get keep' y x)"
  shows "masked_sum k keep' \<le> masked_sum k keep"
  unfolding masked_sum_def using assms by (intro sum_list_mono) auto

lemma t_abs_shape [simp]: "rows (t_abs k) = rows k" "cols (t_abs k) = cols k"
  by (auto simp: t_abs_def rows_def cols_def split: list.splits)

lemma t_abs_abs [simp]: "t_abs (t_abs k) = t_abs k"
  by (simp add: t_abs_def)

lemma t_abs_nonneg:
  assumes "t_ok k" "0 \<le> y" "y < rows k" "0 \<le> x" "x < cols k"
  shows "0 \<le> t_get (t_abs k) y x"
proof -
  have y: "nat y < length k" using assms by (simp add: rows_def)
  then have "int (length (k ! nat y)) = cols k" using t_okD [OF assms(1)] by simp
  with y assms show ?thesis by (simp add: t_get_def t_abs_def)
qed

text \<open>The pixels of the central box grow with the halo, so the tail shrinks.\<close>

definition keep_box :: "int \<Rightarrow> int \<Rightarrow> int \<Rightarrow> int \<Rightarrow> int \<Rightarrow> bool" where
  "keep_box h w hpx y x \<longleftrightarrow>
     max 0 (h div 2 - hpx) \<le> y \<and> y < min h (h div 2 + hpx + 1) \<and>
     max 0 (w div 2 - hpx) \<le> x \<and> x < min w (w div 2 + hpx + 1)"

lemma keep_box_fill:
  assumes "0 \<le> hpx" "0 \<le> y" "y < h" "0 \<le> x" "x < w"
  shows "t_get (t_fill (t_full h w False) (max 0 (h div 2 - hpx)) (min h (h div 2 + hpx + 1))
      (max 0 (w div 2 - hpx)) (min w (w div 2 + hpx + 1)) True) y x = keep_box h w hpx y x"
proof -
  have "0 < h" "0 < w" using assms by linarith+
  moreover have "norm_idx h (max 0 (h div 2 - hpx)) = max 0 (h div 2 - hpx)"
    "norm_idx w (max 0 (w div 2 - hpx)) = max 0 (w div 2 - hpx)"
    using \<open>0 < h\<close> \<open>0 < w\<close> assms(1) by (intro norm_idx_in; simp)+
  moreover have "norm_idx h (min h (h div 2 + hpx + 1)) = min h (h div 2 + hpx + 1)"
    "norm_idx w (min w (w div 2 + hpx + 1)) = min w (w div 2 + hpx + 1)"
    using \<open>0 < h\<close> \<open>0 < w\<close> assms(1) by (intro norm_idx_in; simp)+
  ultimately show ?thesis
    using assms by (simp add: t_fill_def t_full_def keep_box_def Let_def)
qed

lemma kernel_tail_antimono:
  assumes "t_ok k" "0 \<le> h1" "h1 \<le> h2"
  shows "kernel_tail_mass k h2 \<le> kernel_tail_mass k h1"
proof (cases "t_sum (t_abs k) \<le> 0")
  case True
  then show ?thesis by (simp add: kernel_tail_mass_def Let_def)
next
  case False
  have mono: "keep_box h w h1 y x \<Longrightarrow> keep_box h w h2 y x" for h w y x
    using assms(3) by (auto simp: keep_box_def)
  let ?keep = "\<lambda>h hpx. t_fill (t_full (rows k) (cols k) False)
     (max 0 (rows k div 2 - hpx)) (min (rows k) (rows k div 2 + hpx + 1))
     (max 0 (cols k div 2 - hpx)) (min (cols k) (cols k div 2 + hpx + 1)) True"
  have "masked_sum (t_abs k) (?keep h h2) \<le> masked_sum (t_abs k) (?keep h h1)" for h :: int
    using assms mono by (intro masked_sum_mono) (auto simp: keep_box_fill t_abs_nonneg)
  then show ?thesis using False
    by (simp add: kernel_tail_mass_def Let_def divide_right_mono)
qed

lemma round_up_ge: "px \<le> round_up px"
proof -
  have "(px + 8 - 1) div 8 * 8 = px + 8 - 1 - (px + 8 - 1) mod 8" by (simp add: minus_mod_eq_div_mult)
  moreover have "(px + 8 - 1) mod 8 < 8" by simp
  ultimately show ?thesis unfolding round_up_def HALO_ROUND_PX_def by linarith
qed

lemma find_Some_mem: "find P xs = Some x \<Longrightarrow> x \<in> set xs \<and> P x"
  by (induction xs) (auto split: if_splits)

subsection \<open>The sweep\<close>

lemma stable_fold:
  assumes "foldE (stable_step reference tol) None xs = Inr (Some h)"
  shows "\<exists>as bs. xs = as @ bs \<and> bs \<noteq> [] \<and> fst (hd bs) = h \<and>
    list_all (\<lambda>x. \<exists>d. discrepancy (snd x) reference = Inr d \<and> d \<le> tol) bs"
  using assms
proof (induction xs arbitrary: h rule: rev_induct)
  case (snoc x xs)
  from snoc.prems obtain st1 where fold: "foldE (stable_step reference tol) None xs = Inr st1"
      "stable_step reference tol st1 x = Inr (Some h)"
    by (auto simp: foldE_append ebind_eq_Inr)
  from fold(2) obtain d where "discrepancy (snd x) reference = Inr d"
      "Some h = (if d \<le> tol \<and> st1 = None then Some (fst x) else if d > tol then None else st1)"
    by (auto simp: stable_step_def ebind_eq_Inr)
  note st1 = fold(1) this
  then have d: "d \<le> tol" by (auto split: if_splits)
  show ?case
  proof (cases st1)
    case None
    then have "h = fst x" using d st1(3) by simp
    then show ?thesis using d st1(2) by (intro exI [of _ xs] exI [of _ "[x]"]) simp
  next
    case (Some h1)
    then have "h1 = h" using d st1(3) by simp
    from snoc.IH [OF st1(1) [unfolded Some this]] obtain as bs where
      "xs = as @ bs" "bs \<noteq> []" "fst (hd bs) = h"
      "list_all (\<lambda>x. \<exists>d. discrepancy (snd x) reference = Inr d \<and> d \<le> tol) bs" by blast
    then show ?thesis using d st1(2) by (intro exI [of _ as] exI [of _ "bs @ [x]"]) simp
  qed
qed simp

lemma sweep_candidates_props:
  "sorted (sweep_candidates cs)" "distinct (sweep_candidates cs)"
  "set (sweep_candidates cs) = {h \<in> set cs. 0 \<le> h}"
  by (simp_all add: sweep_candidates_def)

lemma sorted_snoc_below:
  fixes m :: int
  assumes "sorted (xs @ [m])" "distinct (xs @ [m])"
  shows "set xs = {i \<in> set (xs @ [m]). i < m}"
proof -
  have "i < m" if "i \<in> set xs" for i
    using assms that by (metis (no_types) distinct_append disjoint_iff list.set_intros(1)
        order_le_less sorted_append)
  then show ?thesis by auto
qed

lemma sorted_suffix_ge:
  fixes xs :: "int list"
  assumes "sorted (as @ bs)" "distinct (as @ bs)" "bs \<noteq> []" "x \<in> set (as @ bs)" "hd bs \<le> x"
  shows "x \<in> set bs"
  using assms by (cases bs) (auto simp: sorted_append)

subsection \<open>Properties\<close>

text \<open>C27: Combining halo requirements is conservative and total.  For any nonempty collection of
  well-formed requirements the combination succeeds, is well-formed, covers the halo of every
  participant and the error bound of every participant that has one; it is certified only when
  every participant is certified and sufficient, and one inconclusive participant is enough to
  make the answer inconclusive.\<close>

theorem combine_requirements_sound:
  assumes "live_of reqs \<noteq> []" "list_all requirement_ok (live_of reqs)"
  shows "\<exists>c. combine_requirements reqs = Inr c \<and> requirement_ok c \<and>
    list_all (\<lambda>r. halo_px r \<le> halo_px c \<and>
      (error_bound r = None \<or> (\<exists>b m. error_bound r = Some b \<and> error_bound c = Some m \<and> b \<le> m)))
      (live_of reqs) \<and>
    (hr_certified c \<longrightarrow>
       list_all (\<lambda>r. hr_certified r \<and> hr_status r = HCertifiedSufficient) (live_of reqs)) \<and>
    (hr_status c = HInconclusive \<longleftrightarrow> list_ex (\<lambda>r. hr_status r = HInconclusive) (live_of reqs))"
proof -
  have ok: "\<forall>r\<in>set (live_of reqs). requirement_ok r" using assms(2) by (simp add: list_all_iff)
  note eq = combine_eq [OF assms(1) ok] and st = combine_status_cases [OF assms(1)]
  define bm where "bm =
    (if bounds_of (live_of reqs) \<noteq> [] then Some (Max (set (bounds_of (live_of reqs)))) else None)"
  have bnd: "error_bound r = None \<or> (\<exists>b m. error_bound r = Some b \<and> bm = Some m \<and> b \<le> m)"
    if "r \<in> set (live_of reqs)" for r
    using bounds_of_Max [OF that] by (cases "error_bound r") (auto simp: bm_def)
  have suff: "fst (combine_status (live_of reqs)) = HCertifiedSufficient \<longrightarrow> bm \<noteq> None"
    using eq(3) by (simp add: bm_def)
  have mx: "halo_px r \<le> Max (set (map halo_px (live_of reqs)))" if "r \<in> set (live_of reqs)" for r
    using that by (intro Max_ge) auto
  obtain c where c: "combine_requirements reqs = Inr c" "halo_px c = Max (set (map halo_px (live_of reqs)))"
      "error_bound c = bm" "hr_certified c = snd (combine_status (live_of reqs))"
      "hr_status c = fst (combine_status (live_of reqs))"
    using eq(1) unfolding bm_def [symmetric] by simp
  have "requirement_ok c" using suff eq(2) by (simp add: requirement_ok_def c)
  moreover have "list_all (\<lambda>r. halo_px r \<le> halo_px c \<and> (error_bound r = None \<or>
      (\<exists>b m. error_bound r = Some b \<and> error_bound c = Some m \<and> b \<le> m))) (live_of reqs)"
    unfolding list_all_iff c(2,3) using mx bnd by blast
  moreover have "hr_certified c \<longrightarrow>
      list_all (\<lambda>r. hr_certified r \<and> hr_status r = HCertifiedSufficient) (live_of reqs)"
    unfolding list_all_iff c(4) using st(1) by blast
  moreover have "hr_status c = HInconclusive \<longleftrightarrow>
      list_ex (\<lambda>r. hr_status r = HInconclusive) (live_of reqs)"
    unfolding list_ex_iff c(5) by (rule st(2))
  ultimately show ?thesis using c(1) by blast
qed

theorem combine_requirements_sound_witness:
  "\<exists>a b c. combine_requirements [Some a, None, Some b] = Inr c \<and>
     hr_status c = HInconclusive \<and> halo_px c \<ge> 32"
proof -
  let ?a = "\<lparr>halo_px = 32, hr_provenance = ''a'', error_bound = Some 1, hr_certified = True,
             hr_reason = ''r'', hr_status = HCertifiedSufficient\<rparr>"
  let ?b = "\<lparr>halo_px = 8, hr_provenance = ''b'', error_bound = None, hr_certified = False,
             hr_reason = ''r'', hr_status = HInconclusive\<rparr>"
  have live: "live_of [Some ?a, None, Some ?b] = [?a, ?b]" by (simp add: live_of_def)
  from combine_requirements_sound [of "[Some ?a, None, Some ?b]", unfolded live]
  show ?thesis by (auto simp: requirement_ok_def)
qed

text \<open>What the kernel-tail policy certifies.  A certified answer carries the tolerance as its
  error bound, and the kernel mass that the answered halo leaves outside is within that bound,
  unless the answer was clamped to the core size: then it is one pixel less than the core.\<close>

theorem kernel_tail_certificate:
  assumes "ctx_kernel ctx = Some k" "t_ok k" "tail_policy tol trusted = Inr pol"
    and "tail_required pol ctx = Inr r" "hr_certified r"
  shows "hr_status r = HCertifiedSufficient \<and> error_bound r = Some tol \<and>
    (kernel_tail_mass k (halo_px r) \<le> tol \<or> halo_px r = max (tile_core_px ctx - 1) 0)"
proof -
  have pol: "pol = (tol, trusted)" using assms(3) by (simp add: tail_policy_def split: if_splits)
  obtain best where best: "find (\<lambda>h. kernel_tail_mass (t_abs k) h \<le> tol)
        (pyrange 0 (min (rows k) (cols k) div 2 + 1) 1) = Some best"
      and r: "mk_requirement (min (round_up best) (max (tile_core_px ctx - 1) 0)) ''kernel_tail''
        (if trusted then Some tol else None) trusted
        ''smallest sampled radius with kernel tail mass <= tolerance''
        (if trusted then HCertifiedSufficient else HPhysicsEstimated) = Inr r"
    using assms(1,4,5) by (auto simp: tail_required_def pol Let_def mk_requirement_Inr
        split: if_splits option.splits)
  from r assms(5) have r': "trusted" "halo_px r = min (round_up best) (max (tile_core_px ctx - 1) 0)"
      "hr_status r = HCertifiedSufficient" "error_bound r = Some tol"
    by (auto simp: mk_requirement_Inr)
  have "0 \<le> best" and tail: "kernel_tail_mass k best \<le> tol"
    using find_Some_mem [OF best] by (auto simp: pyrange_mem kernel_tail_mass_def)
  moreover have "kernel_tail_mass k (round_up best) \<le> kernel_tail_mass k best"
    using assms(2) \<open>0 \<le> best\<close> round_up_ge by (rule kernel_tail_antimono)
  ultimately show ?thesis using r' by (auto simp: min_def split: if_splits)
qed

theorem kernel_tail_certificate_witness:
  "\<exists>ctx pol r. tail_policy (1 / 10) True = Inr pol \<and> tail_required pol ctx = Inr r \<and>
     kernel_tail_mass [[0, 0, 0], [0, 2, 0], [0, 0, 0]] (halo_px r) \<le> 1 / 10"
proof -
  let ?k = "[[0, 0, 0], [0, 2, 0], [0, 0, 0]] :: tensor"
  let ?ctx = "\<lparr>pixel_nm = 1, tile_core_px = 64, ctx_node = None, ctx_model = None,
               ctx_kernel = Some ?k\<rparr>"
  let ?r = "\<lparr>halo_px = 0, hr_provenance = ''kernel_tail'', error_bound = Some (1 / 10),
             hr_certified = True, hr_reason = ''smallest sampled radius with kernel tail mass <= tolerance'',
             hr_status = HCertifiedSufficient\<rparr>"
  have req: "tail_required (1 / 10, True) ?ctx = Inr ?r" by code_simp
  have pol: "tail_policy (1 / 10) True = Inr (1 / 10, True)" by (simp add: tail_policy_def)
  have "t_ok ?k" by (simp add: t_ok_def cols_def)
  from kernel_tail_certificate [OF _ this pol req] have "kernel_tail_mass ?k (halo_px ?r) \<le> 1 / 10"
    by simp
  then show ?thesis using req pol by blast
qed

text \<open>The certificate of the kernel-tail policy survives the clamp to the core size although its
  premise does not: on a core of one pixel the policy answers halo zero for a kernel whose whole
  mass lies outside the centre, still certified sufficient with the tolerance as error bound, while
  the tail mass at that halo is one.\<close>

theorem kernel_tail_clamp_overclaims:
  "\<exists>ctx k r. ctx_kernel ctx = Some k \<and> tail_required (1 / 1000, True) ctx = Inr r \<and>
     hr_certified r \<and> hr_status r = HCertifiedSufficient \<and> error_bound r = Some (1 / 1000) \<and>
     kernel_tail_mass k (halo_px r) = 1"
proof -
  let ?k = "[[1, 0, 0], [0, 0, 0], [0, 0, 1]] :: tensor"
  let ?ctx = "\<lparr>pixel_nm = 1, tile_core_px = 1, ctx_node = None, ctx_model = None,
               ctx_kernel = Some ?k\<rparr>"
  let ?r = "\<lparr>halo_px = 0, hr_provenance = ''kernel_tail'', error_bound = Some (1 / 1000),
             hr_certified = True, hr_reason = ''smallest sampled radius with kernel tail mass <= tolerance'',
             hr_status = HCertifiedSufficient\<rparr>"
  have "tail_required (1 / 1000, True) ?ctx = Inr ?r" by code_simp
  moreover have "kernel_tail_mass ?k 0 = 1" by code_simp
  ultimately show ?thesis by (intro exI [of _ ?ctx] exI [of _ ?k] exI [of _ ?r]) simp
qed

text \<open>What the empirical sweep reports.  A stable answer is one of the nonnegative candidates,
  smaller than the reference candidate (the largest), and from it on every candidate below the
  reference reproduces the reference core within the tolerance; it is never marked certified.  An
  answer that is not stable is the reference halo, marked inconclusive.\<close>

theorem empirical_sweep_sound:
  assumes "estimate_minimum_halo f bb full cands tol = Inr r"
  shows "let ref_h = Max {h \<in> set cands. 0 \<le> h};
             core = sweep_core f bb full in
    halo_px r \<in> set cands \<and> 0 \<le> halo_px r \<and> \<not> hr_certified r \<and>
    (hr_status r = HEmpiricallyStable \<and> halo_px r < ref_h \<and>
       list_all (\<lambda>h. halo_px r \<le> h \<and> h < ref_h \<longrightarrow>
          (\<exists>d. discrepancy (core h) (core ref_h) = Inr d \<and> d \<le> tol)) cands \<or>
     hr_status r = HInconclusive \<and> halo_px r = ref_h)"
proof -
  let ?C = "sweep_candidates cands" and ?core = "sweep_core f bb full"
  let ?E = "map (\<lambda>h. (h, ?core h)) ?C"
  define ref_h where "ref_h = Max {h \<in> set cands. 0 \<le> h}"
  note props = sweep_candidates_props [of cands]
  have ne: "?C \<noteq> []" using assms by (auto simp: estimate_minimum_halo_def Let_def)
  have ref: "last ?C = ref_h"
    unfolding ref_h_def props(3) [symmetric] using ne props(1)
    by (intro Max_eqI [symmetric]) (auto intro: sorted_le_last)
  then have refmem: "ref_h \<in> set cands" "0 \<le> ref_h" using ne props(3) last_in_set [OF ne] by auto
  have last: "last ?E = (ref_h, ?core ref_h)" using ne ref by (simp add: last_map)
  obtain st where st: "foldE (stable_step (?core ref_h) tol) None (butlast ?E) = Inr st"
    and r: "case st of
        None \<Rightarrow> mk_requirement ref_h ''empirical_sweep'' None False
                  ''core discrepancy never stabilised under tolerance'' HInconclusive = Inr r
      | Some h \<Rightarrow> mk_requirement h ''empirical_sweep'' (Some tol) False
                  ''core discrepancy within tolerance for all larger halos'' HEmpiricallyStable = Inr r"
    using assms ne
    by (auto simp: estimate_minimum_halo_def Let_def last ebind_eq_Inr split: option.splits)
  show ?thesis
  proof (cases st)
    case None
    with r refmem show ?thesis by (auto simp: mk_requirement_Inr Let_def simp flip: ref_h_def)
  next
    case (Some h)
    from stable_fold [OF st [unfolded Some]] obtain as bs where
      split: "butlast ?E = as @ bs" "bs \<noteq> []" "fst (hd bs) = h" and
      ok: "list_all (\<lambda>x. \<exists>d. discrepancy (snd x) (?core ref_h) = Inr d \<and> d \<le> tol) bs" by blast
    have cut: "butlast ?C = map fst as @ map fst bs"
      using arg_cong [OF split(1), of "map fst"] by (simp add: map_butlast [symmetric] o_def)
    have C: "?C = (map fst as @ map fst bs) @ [ref_h]"
      using append_butlast_last_id [OF ne] cut ref by simp
    have below: "set (butlast ?C) = {i \<in> set ?C. i < ref_h}"
      using props(1,2) unfolding cut unfolding C by (rule sorted_snoc_below)
    have sub: "set bs \<subseteq> set ?E"     unfolding subset_iff using in_set_butlastD [of _ ?E] split(1) by (simp del: set_map)
    have hmem: "h \<in> set (butlast ?C)" using split(2,3) cut by (cases bs) auto
    have "\<exists>d. discrepancy (?core i) (?core ref_h) = Inr d \<and> d \<le> tol"
      if "i \<in> set cands" "h \<le> i" "i < ref_h" for i
    proof -
      have "0 \<le> i" using hmem below props(3) that(2) by auto
      then have mem: "i \<in> set (map fst as @ map fst bs)" using below cut props(3) that by auto
      have sd: "sorted (map fst as @ map fst bs)" "distinct (map fst as @ map fst bs)"
        using props(1,2) unfolding C by (simp_all add: sorted_append)
      have "map fst bs \<noteq> []" "hd (map fst bs) \<le> i" using split(2,3) that(2) by (simp_all add: hd_map)
      from sorted_suffix_ge [OF sd this(1) mem this(2)] have "i \<in> set (map fst bs)" .
      then obtain x where "x \<in> set bs" "fst x = i" by auto
      moreover from this sub have "snd x = ?core i" by auto
      ultimately show ?thesis using ok by (auto simp: list_all_iff)
    qed
    moreover have "h \<in> set cands" "0 \<le> h" "h < ref_h" using hmem below props(3) by auto
    ultimately show ?thesis using r Some
      by (auto simp: mk_requirement_Inr Let_def list_all_iff simp flip: ref_h_def)
  qed
qed

theorem empirical_sweep_sound_witness:
  "\<exists>r. estimate_minimum_halo (\<lambda>t. t) (1, 1, 2, 2) (t_full 3 3 1) [1, 0, 1] 0 = Inr r \<and>
     0 \<le> halo_px r \<and> halo_px r = 0"
proof -
  let ?r = "\<lparr>halo_px = 0, hr_provenance = ''empirical_sweep'', error_bound = Some 0,
    hr_certified = False, hr_reason = ''core discrepancy within tolerance for all larger halos'',
    hr_status = HEmpiricallyStable\<rparr>"
  have "estimate_minimum_halo (\<lambda>t. t) (1, 1, 2, 2) (t_full 3 3 1) [1, 0, 1] 0 = Inr ?r"
    by code_simp
  from empirical_sweep_sound [OF this] this show ?thesis by (auto simp: Let_def)
qed

end
