(* ===== verification/Screening.thy ===== *)
theory Screening
  imports CoreHalo
begin

text \<open>
  Model of \<open>streaming/screening.py\<close>: screening decisions, the facts a \<open>SCREENED_OUT\<close> decision
  adapts to, and the exact-empty-context policy.  A tile source may or may not have the run-query
  interface, so the policy takes it as an option; the first run it yields decides.  The locale
  \<open>screening_policy\<close> is the fail-closed contract the pipeline relies on: what a screened-out
  decision must say about the tile.
\<close>

datatype screen_status = ScreenActive | ScreenedOut | ScreenInconclusive

record screen_decision =
  sd_status :: screen_status
  sd_reason :: string
  sd_certified :: bool
  sd_fill :: "rat option"
  certifies_verifiers :: bool
  verification_upper_bound :: "rat option"
  sd_certificate_ref :: "string option"
  sd_metrics :: "(string \<times> rat) list"

definition mk_decision :: "screen_decision \<Rightarrow> screen_decision res" where
  "mk_decision d =
     (if sd_status d = ScreenedOut then
        (if \<not> sd_certified d then Inl (ValueError ''SCREENED_OUT requires a certified decision'')
         else if sd_fill d = None then Inl (ValueError ''SCREENED_OUT requires an exact fill_value'')
         else if certifies_verifiers d \<and> verification_upper_bound d = None
           then Inl (ValueError ''verifier-certified screening requires verification_upper_bound'')
         else Inr d)
      else Inr d)"

text \<open>A decision with the default fields.\<close>

definition plain_decision :: "screen_status \<Rightarrow> string \<Rightarrow> screen_decision" where
  "plain_decision st reason =
     \<lparr>sd_status = st, sd_reason = reason, sd_certified = False, sd_fill = None,
      certifies_verifiers = False, verification_upper_bound = None, sd_certificate_ref = None,
      sd_metrics = []\<rparr>"

definition deprecation_notice :: "screen_decision \<Rightarrow> string option" where
  "deprecation_notice d =
     (if certifies_verifiers d
      then Some (''deprecated blanket screen authority (certifies_verifiers) '' @
                 ''recorded but not honored; verifiers discharge facts themselves'')
      else None)"

record screen_fact =
  fact_kind :: string
  fact_ref :: "string option"
  fact_payload :: "(string \<times> rat) list"

record exact_output =
  eo_fill :: rat
  eo_ref :: "string option"

definition screen_decision_to_facts ::
    "screen_decision \<Rightarrow> (exact_output \<times> screen_fact list \<times> bool) res" where
  "screen_decision_to_facts d =
     (if sd_status d \<noteq> ScreenedOut
      then Inl (ValueError ''only SCREENED_OUT decisions adapt to exact-output facts'')
      else case sd_fill d of
        None \<Rightarrow> Inl (ValueError ''uncertified screening decision attempted to skip work'')
      | Some v \<Rightarrow>
          if \<not> sd_certified d
          then Inl (ValueError ''uncertified screening decision attempted to skip work'')
          else Inr (\<lparr>eo_fill = v, eo_ref = sd_certificate_ref d\<rparr>,
                    [\<lparr>fact_kind = ''EXACT_OUTPUT_SKIP'', fact_ref = sd_certificate_ref d,
                      fact_payload = sd_metrics d\<rparr>],
                    certifies_verifiers d))"

subsection \<open>The exact-empty-context policy\<close>

type_synonym run_query = "int \<times> int \<times> int \<times> int \<Rightarrow> (int \<times> int \<times> int) list"

record empty_context_policy =
  context_certified :: bool
  zero_response_certified :: bool
  ec_fill :: rat
  model_provenance :: string
  ec_certifies_verifiers :: bool
  ec_upper_bound :: "rat option"

definition str_of_int :: "int \<Rightarrow> string" where
  "str_of_int i = (if i < 0 then ''-'' @ str_of_nat (nat (- i)) else str_of_nat (nat i))"

definition screen_empty_context ::
    "empty_context_policy \<Rightarrow> run_query option \<Rightarrow> tile_request \<Rightarrow> screen_decision res" where
  "screen_empty_context pol source request =
     (if \<not> context_certified pol then
        mk_decision (plain_decision ScreenInconclusive
          ''context/halo is not certified for pre-forward screening'')
      else if \<not> zero_response_certified pol then
        mk_decision (plain_decision ScreenInconclusive
          ''zero-input trusted-core response is not certified'')
      else case source of
        None \<Rightarrow> mk_decision (plain_decision ScreenInconclusive
                  ''source has no exact run-query interface'')
      | Some iter_runs \<Rightarrow>
          let b = read_bbox request; runs = iter_runs (bx0 b, by0 b, bx1 b, by1 b) in
          if runs \<noteq> [] then
            mk_decision ((plain_decision ScreenActive
              ''physical geometry intersects certified read context'')
                \<lparr>sd_metrics := [(''screen_geometry_present'', 1)]\<rparr>)
          else
            mk_decision
              \<lparr>sd_status = ScreenedOut,
               sd_reason = ''certified empty exact-vector read context and certified '' @
                           ''constant zero-context response'',
               sd_certified = True, sd_fill = Some (ec_fill pol),
               certifies_verifiers = ec_certifies_verifiers pol,
               verification_upper_bound = ec_upper_bound pol,
               sd_certificate_ref = Some (''screen:exact-empty-context:'' @ model_provenance pol @
                 '':'' @ str_of_int (bx0 b) @ '','' @ str_of_int (by0 b) @ '','' @
                 str_of_int (bx1 b) @ '','' @ str_of_int (by1 b)),
               sd_metrics = [(''screen_geometry_present'', 0),
                             (''screened_core_pixels'', of_int (area (core_bbox request)))]\<rparr>)"

subsection \<open>The contract\<close>

text \<open>
  A policy is fail-closed when every decision it returns could be constructed, and a screened-out
  one carries a certificate and an exact fill.  Then the adapter never raises on it.
\<close>

locale screening_policy =
  fixes screen :: "'src \<Rightarrow> tile_request \<Rightarrow> screen_decision res"
  assumes constructed: "screen s r = Inr d \<Longrightarrow> mk_decision d = Inr d"
begin

lemma screened_out_adapts:
  assumes "screen s r = Inr d" "sd_status d = ScreenedOut"
  shows "\<exists>v. sd_fill d = Some v \<and> screen_decision_to_facts d =
    Inr (\<lparr>eo_fill = v, eo_ref = sd_certificate_ref d\<rparr>,
         [\<lparr>fact_kind = ''EXACT_OUTPUT_SKIP'', fact_ref = sd_certificate_ref d,
           fact_payload = sd_metrics d\<rparr>], certifies_verifiers d)"
  using constructed [OF assms(1)] assms(2)
  by (auto simp: mk_decision_def screen_decision_to_facts_def split: if_splits option.splits)

end

lemma mk_decision_idem: "mk_decision d = Inr d' \<Longrightarrow> d' = d \<and> mk_decision d' = Inr d'"
  by (auto simp: mk_decision_def split: if_splits)

interpretation empty_context: screening_policy "screen_empty_context pol" for pol
  by unfold_locales
    (auto simp: screen_empty_context_def Let_def split: if_splits option.splits
      dest: mk_decision_idem)

subsection \<open>Properties\<close>

text \<open>C28: The empty-context policy is fail-closed.  It screens a tile out only when the caller has
  certified both the context and the zero response, the source answers exact run queries, and the
  query over the whole read region (core and halo, not the core alone) returns no run; and then
  the decision adapts to an exact output with the declared fill, carrying the deprecated verifier
  authority only as a recorded flag.\<close>

theorem empty_context_fail_closed:
  assumes "screen_empty_context pol source r = Inr d" "sd_status d = ScreenedOut"
  shows "context_certified pol \<and> zero_response_certified pol \<and>
    (\<exists>iter_runs. source = Some iter_runs \<and>
       iter_runs (bx0 (read_bbox r), by0 (read_bbox r), bx1 (read_bbox r), by1 (read_bbox r)) = []) \<and>
    (\<exists>facts. screen_decision_to_facts d =
       Inr (\<lparr>eo_fill = ec_fill pol, eo_ref = sd_certificate_ref d\<rparr>, facts,
            ec_certifies_verifiers pol))"
proof -
  from empty_context.screened_out_adapts [OF assms] obtain v where v: "sd_fill d = Some v"
    "screen_decision_to_facts d =
      Inr (\<lparr>eo_fill = v, eo_ref = sd_certificate_ref d\<rparr>,
           [\<lparr>fact_kind = ''EXACT_OUTPUT_SKIP'', fact_ref = sd_certificate_ref d,
             fact_payload = sd_metrics d\<rparr>], certifies_verifiers d)" by blast
  from assms have "context_certified pol" "zero_response_certified pol"
    "\<exists>iter_runs. source = Some iter_runs \<and>
       iter_runs (bx0 (read_bbox r), by0 (read_bbox r), bx1 (read_bbox r), by1 (read_bbox r)) = []"
    "sd_fill d = Some (ec_fill pol)" "certifies_verifiers d = ec_certifies_verifiers pol"
    by (auto simp: screen_empty_context_def mk_decision_def plain_decision_def Let_def
        split: if_splits option.splits)
  then show ?thesis using v by simp
qed

theorem empty_context_fail_closed_witness:
  "\<exists>pol r d. screen_empty_context pol (Some (\<lambda>_. [])) r = Inr d \<and> sd_status d = ScreenedOut \<and>
     (\<exists>facts. screen_decision_to_facts d =
       Inr (\<lparr>eo_fill = 0, eo_ref = sd_certificate_ref d\<rparr>, facts, False))"
proof -
  let ?b = "\<lparr>bx0 = 0, by0 = 0, bx1 = 2, by1 = 2\<rparr>"
  let ?r = "\<lparr>core_bbox = ?b, read_bbox = ?b, tr_halo = halo_actual ?b ?b, tile_id = ''tile_0''\<rparr>"
  let ?pol = "\<lparr>context_certified = True, zero_response_certified = True, ec_fill = 0,
               model_provenance = ''m'', ec_certifies_verifiers = False, ec_upper_bound = None\<rparr>"
  obtain d where d: "screen_empty_context ?pol (Some (\<lambda>_. [])) ?r = Inr d" "sd_status d = ScreenedOut"
    by (simp add: screen_empty_context_def mk_decision_def)
  from empty_context_fail_closed [OF d] d show ?thesis by fastforce
qed

end
