(* ===== verification/TileVerification.thy ===== *)
theory TileVerification
  imports CoreHalo HaloPolicy Screening
    "HOL-Library.AList" "HOL-Library.List_Lexorder" "HOL-Library.Char_ord"
begin

text \<open>
  Model of \<open>streaming/verification.py\<close>: tile verdicts, the streaming reducer, verifier identities
  and sessions, the cross-verifier fold, the typed metric projection, the registry and the dummy
  verifier.  Python dicts are association lists (\<open>AList.update\<close> keeps the position of an existing
  key, as a dict does).  A plugin is a record of its capabilities; an optional method is an
  option, and each call passes the plugin's own state through.  \<open>x or y\<close> on floats takes \<open>y\<close> also
  when \<open>x\<close> is \<open>0.0\<close>; the model keeps that.
\<close>

datatype verdict = VPass | VFail | VInconclusive

datatype coverage = AllCovered | PartialCover | CoverInconclusive | CoverNA

datatype meta_value = MStr string | MNum rat | MBool bool | MNone

record verification_context =
  vc_pixel_nm :: rat
  vc_forward_model_id :: string
  vc_process_parameters :: "(string \<times> rat) list"
  vc_parameter_box :: "(string \<times> rat \<times> rat) list"
  vc_metric :: string
  vc_input_hash :: "string option"
  vc_model_hash :: "string option"
  vc_git_commit :: "string option"

record tile_context =
  tc_tile_id :: string
  tc_core :: bbox
  tc_read :: bbox
  tc_halo :: halo_spec
  tc_tensor :: "tensor option"
  tc_metadata :: "(string \<times> meta_value) list"

record tile_result =
  tv_tile_id :: string
  tv_core :: bbox
  tv_status :: verdict
  tv_upper :: "rat option"
  tv_lower :: "rat option"
  tv_halo_px :: int
  tv_halo_provenance :: string
  tv_certificate_ref :: "string option"
  tv_metrics :: "(string \<times> rat) list"
  tv_coverage :: coverage
  tv_root_brackets :: "(rat \<times> rat) list"
  tv_kappa_lower :: "rat option"
  tv_hessian_upper :: "rat option"
  tv_spatial_error :: "rat option"

definition tile_result_default :: "string \<Rightarrow> bbox \<Rightarrow> verdict \<Rightarrow> tile_result" where
  "tile_result_default tid core st =
     \<lparr>tv_tile_id = tid, tv_core = core, tv_status = st, tv_upper = None, tv_lower = None,
      tv_halo_px = 0, tv_halo_provenance = ''none'', tv_certificate_ref = None, tv_metrics = [],
      tv_coverage = CoverNA, tv_root_brackets = [], tv_kappa_lower = None,
      tv_hessian_upper = None, tv_spatial_error = None\<rparr>"

record error_parts =
  eb_process :: rat
  eb_spatial :: rat
  eb_halo :: rat
  eb_raster_bridge :: rat
  eb_other :: rat

record global_result =
  gr_status :: verdict
  gr_worst_upper :: "rat option"
  gr_worst_lower :: "rat option"
  gr_n_tiles :: nat
  gr_n_pass :: nat
  gr_n_fail :: nat
  gr_n_inconclusive :: nat
  gr_coverage :: coverage
  gr_halo_error_budget :: rat
  gr_error_budget :: error_parts
  gr_certificate_refs :: "string list"
  gr_metrics :: "(string \<times> rat) list"

subsection \<open>The reducer\<close>

record reducer =
  rd_budget :: error_parts
  rd_tolerance :: "rat option"
  rd_latest :: "(string \<times> tile_result) list"

definition new_reducer :: "rat \<Rightarrow> rat \<Rightarrow> rat \<Rightarrow> rat \<Rightarrow> rat option \<Rightarrow> reducer" where
  "new_reducer process spatial bridge other tol =
     \<lparr>rd_budget = \<lparr>eb_process = process, eb_spatial = spatial, eb_halo = 0,
                   eb_raster_bridge = bridge, eb_other = other\<rparr>,
      rd_tolerance = tol, rd_latest = []\<rparr>"

definition reducer_add :: "reducer \<Rightarrow> tile_result \<Rightarrow> reducer" where
  "reducer_add r res = r\<lparr>rd_latest := AList.update (tv_tile_id res) res (rd_latest r)\<rparr>"

definition reducer_retire :: "reducer \<Rightarrow> string \<Rightarrow> reducer" where
  "reducer_retire r tid = r\<lparr>rd_latest := AList.delete tid (rd_latest r)\<rparr>"

definition latest_results :: "reducer \<Rightarrow> tile_result list" where
  "latest_results r = map snd (rd_latest r)"

definition halo_step :: "rat \<Rightarrow> tile_result \<Rightarrow> rat" where
  "halo_step halo res =
     (case map_of (tv_metrics res) ''halo_error_bound'' of
        Some b \<Rightarrow> if tv_halo_provenance res \<noteq> ''none'' then max halo b else halo
      | None \<Rightarrow> halo)"

definition budget_sum :: "error_parts \<Rightarrow> rat" where
  "budget_sum b = eb_process b + eb_spatial b + eb_halo b + eb_raster_bridge b + eb_other b"

definition total_error :: "reducer \<Rightarrow> rat \<times> reducer" where
  "total_error r =
     (let halo = foldl halo_step 0 (latest_results r);
          r1 = r\<lparr>rd_budget := (rd_budget r)\<lparr>eb_halo := halo\<rparr>\<rparr> in
      (budget_sum (rd_budget r1), r1))"

text \<open>\<open>max(worst or float("-inf"), bound)\<close>: an accumulated zero counts as missing.\<close>

definition worst_step :: "rat option \<Rightarrow> rat option \<Rightarrow> rat option" where
  "worst_step worst bnd =
     (case bnd of None \<Rightarrow> worst
      | Some b \<Rightarrow> (case worst of
          None \<Rightarrow> Some b
        | Some w \<Rightarrow> if w = 0 then Some b else Some (max w b)))"

definition metric_step :: "(string \<times> rat) list \<Rightarrow> string \<times> rat \<Rightarrow> (string \<times> rat) list" where
  "metric_step ms kv =
     (let k = ''max_'' @ fst kv in
      AList.update k (case map_of ms k of None \<Rightarrow> snd kv | Some m \<Rightarrow> max m (snd kv)) ms)"

definition count_status :: "verdict \<Rightarrow> tile_result list \<Rightarrow> nat" where
  "count_status s rs = length (filter (\<lambda>r. tv_status r = s) rs)"

definition base_status :: "tile_result list \<Rightarrow> verdict" where
  "base_status rs =
     (if rs = [] then VInconclusive
      else if count_status VFail rs \<noteq> 0 then VFail
      else if count_status VInconclusive rs \<noteq> 0 then VInconclusive
      else VPass)"

definition global_coverage :: "tile_result list \<Rightarrow> coverage" where
  "global_coverage rs =
     (let components = length (filter (\<lambda>r. tv_coverage r \<noteq> CoverNA) rs);
          covered = length (filter (\<lambda>r. tv_coverage r = AllCovered) rs) in
      if components = 0 then CoverNA
      else if covered = components then AllCovered
      else if covered > 0 then PartialCover
      else CoverInconclusive)"

definition reducer_finalize :: "reducer \<Rightarrow> global_result \<times> reducer" where
  "reducer_finalize r =
     (let rs = latest_results r;
          coverage = global_coverage rs;
          status0 = base_status rs;
          status1 = (if status0 = VPass \<and> coverage = PartialCover then VInconclusive else status0);
          (total, r1) = total_error r;
          status2 = (if status1 = VPass \<and>
              (case rd_tolerance r of None \<Rightarrow> False | Some tol \<Rightarrow> total > tol)
            then VInconclusive else status1) in
      (\<lparr>gr_status = status2,
        gr_worst_upper = foldl worst_step None (map tv_upper rs),
        gr_worst_lower = foldl worst_step None (map tv_lower rs),
        gr_n_tiles = length rs, gr_n_pass = count_status VPass rs,
        gr_n_fail = count_status VFail rs, gr_n_inconclusive = count_status VInconclusive rs,
        gr_coverage = coverage, gr_halo_error_budget = eb_halo (rd_budget r1),
        gr_error_budget = rd_budget r1,
        gr_certificate_refs =
          map the (filter (\<lambda>c. c \<noteq> None \<and> c \<noteq> Some []) (map tv_certificate_ref rs)),
        gr_metrics = foldl metric_step [] (concat (map tv_metrics rs))\<rparr>, r1))"

subsection \<open>Identities and metrics\<close>

datatype verifier_identity =
  VerifierIdentity (vi_name: string) (vi_version: string) (vi_instance_key: string)

text \<open>\<open>@dataclass(order=True)\<close> compares the field tuples.\<close>

definition identity_key :: "verifier_identity \<Rightarrow> string list" where
  "identity_key i = [vi_name i, vi_version i, vi_instance_key i]"

lemma identity_key_inj: "identity_key i = identity_key j \<longleftrightarrow> i = j"
  by (cases i; cases j) (simp add: identity_key_def)

instantiation verifier_identity :: linorder
begin

definition less_eq_verifier_identity :: "verifier_identity \<Rightarrow> verifier_identity \<Rightarrow> bool" where
  "less_eq_verifier_identity i j \<longleftrightarrow> identity_key i \<le> identity_key j"

definition less_verifier_identity :: "verifier_identity \<Rightarrow> verifier_identity \<Rightarrow> bool" where
  "less_verifier_identity i j \<longleftrightarrow> identity_key i < identity_key j"

instance
proof
  fix i j k :: verifier_identity
  note defs = less_eq_verifier_identity_def less_verifier_identity_def
  show "i < j \<longleftrightarrow> i \<le> j \<and> \<not> j \<le> i" by (auto simp: defs)
  show "i \<le> i" by (simp add: defs)
  show "i \<le> j \<Longrightarrow> j \<le> k \<Longrightarrow> i \<le> k" by (auto simp: defs)
  show "i \<le> j \<Longrightarrow> j \<le> i \<Longrightarrow> i = j" by (metis defs(1) identity_key_inj order_antisym)
  show "i \<le> j \<or> j \<le> i" by (auto simp: defs)
qed

end

record metric_descriptor =
  md_quantity :: string
  md_unit :: "string option"
  md_tolerance :: "rat option"

definition owner_entries ::
    "(verifier_identity \<times> global_result) list \<Rightarrow> (verifier_identity \<times> metric_descriptor) list \<Rightarrow>
     string \<Rightarrow> string \<Rightarrow> (verifier_identity \<times> metric_descriptor) list" where
  "owner_entries results descriptors quantity unit =
     filter (\<lambda>(i, d). \<not> (md_quantity d \<noteq> quantity \<or> md_unit d \<noteq> Some unit) \<and>
                      map_of results i \<noteq> None) descriptors"

definition project_metric_bound ::
    "(verifier_identity \<times> global_result) list \<Rightarrow> (verifier_identity \<times> metric_descriptor) list \<Rightarrow>
     string \<Rightarrow> string \<Rightarrow> rat option res" where
  "project_metric_bound results descriptors quantity unit =
     (let owners = owner_entries results descriptors quantity unit;
          bounds = map the (filter (\<lambda>b. b \<noteq> None)
                     (map (\<lambda>(i, d). gr_worst_upper (the (map_of results i))) owners)) in
      if length owners > 1
      then Inl (ValueError ''the convenience projection requires exactly one owner'')
      else if bounds = [] then Inr None
      else Inr (Some (Max (set bounds))))"

record multi_summary =
  ms_status :: verdict
  ms_n_verifiers :: nat
  ms_n_pass :: nat
  ms_n_fail :: nat
  ms_n_inconclusive :: nat

definition fold_global :: "(verifier_identity \<times> global_result) list \<Rightarrow> multi_summary" where
  "fold_global results =
     (let st = map (\<lambda>(i, r). gr_status r) results;
          n_pass = length (filter (\<lambda>s. s = VPass) st);
          n_fail = length (filter (\<lambda>s. s = VFail) st);
          n_inc = length (filter (\<lambda>s. s = VInconclusive) st) in
      \<lparr>ms_status = (if n_fail \<noteq> 0 then VFail
                    else if n_inc \<noteq> 0 \<or> results = [] then VInconclusive else VPass),
       ms_n_verifiers = length results, ms_n_pass = n_pass, ms_n_fail = n_fail,
       ms_n_inconclusive = n_inc\<rparr>)"

subsection \<open>Plugins and sessions\<close>

record 'v plugin =
  vp_name :: string
  vp_version :: "string option"
  vp_instance_key :: "string option"
  vp_metric_descriptor :: "metric_descriptor option"
  vp_make_reducer :: "(verification_context \<Rightarrow> verifier_identity \<Rightarrow> reducer) option"
  vp_required_halo :: "'v \<Rightarrow> verification_context \<Rightarrow> halo_requirement option res"
  vp_prepare :: "'v \<Rightarrow> verification_context \<Rightarrow> 'v res"
  vp_verify_tile :: "'v \<Rightarrow> tile_context \<Rightarrow> (tile_result \<times> 'v) res"
  vp_refine :: "('v \<Rightarrow> string \<Rightarrow> (refinement_request option \<times> 'v) res) option"
  vp_accept_screen_facts ::
    "('v \<Rightarrow> tile_context \<Rightarrow> screen_fact list \<Rightarrow> (tile_result option \<times> 'v) res) option"
  vp_state :: 'v

record 'v session =
  ss_identity :: verifier_identity
  ss_plugin :: "'v plugin"
  ss_reducer :: reducer
  ss_descriptor :: "metric_descriptor option"

definition session_add :: "'v session \<Rightarrow> tile_result \<Rightarrow> 'v session" where
  "session_add s res = s\<lparr>ss_reducer := reducer_add (ss_reducer s) res\<rparr>"

definition session_retire :: "'v session \<Rightarrow> string \<Rightarrow> 'v session" where
  "session_retire s tid = s\<lparr>ss_reducer := reducer_retire (ss_reducer s) tid\<rparr>"

definition session_finalize :: "'v session \<Rightarrow> global_result" where
  "session_finalize s = fst (reducer_finalize (ss_reducer s))"

definition session_results :: "'v session \<Rightarrow> tile_result list" where
  "session_results s = latest_results (ss_reducer s)"

text \<open>Python's \<open>a or b\<close> on optional floats.\<close>

definition or_float :: "rat option \<Rightarrow> rat option \<Rightarrow> rat option" where
  "or_float a b = (case a of Some v \<Rightarrow> if v = 0 then b else Some v | None \<Rightarrow> b)"

definition make_verifier_session ::
    "'v plugin \<Rightarrow> verification_context \<Rightarrow> rat option \<Rightarrow> 'v session" where
  "make_verifier_session p ctx fallback_tolerance =
     (let identity = VerifierIdentity (vp_name p)
            (case vp_version p of None \<Rightarrow> ''0'' | Some v \<Rightarrow> v)
            (case vp_instance_key p of None \<Rightarrow> ''default'' | Some k \<Rightarrow> k);
          descriptor = vp_metric_descriptor p;
          red = (case vp_make_reducer p of
              Some factory \<Rightarrow> factory ctx identity
            | None \<Rightarrow> new_reducer 0 0 0 0
                (or_float (case descriptor of None \<Rightarrow> None | Some d \<Rightarrow> md_tolerance d)
                  fallback_tolerance)) in
      \<lparr>ss_identity = identity, ss_plugin = p, ss_reducer = red, ss_descriptor = descriptor\<rparr>)"

subsection \<open>The registry and the dummy verifier\<close>

type_synonym 'f registry = "(string \<times> 'f) list"

definition registry_register :: "'f registry \<Rightarrow> string \<Rightarrow> 'f \<Rightarrow> 'f registry res" where
  "registry_register reg name factory =
     (if map_of reg name \<noteq> None then Inl (ValueError ''verifier already registered'')
      else Inr (reg @ [(name, factory)]))"

definition registry_get :: "('k \<Rightarrow> 'p) registry \<Rightarrow> string \<Rightarrow> 'k \<Rightarrow> 'p res" where
  "registry_get reg name kwargs =
     (case map_of reg name of
        None \<Rightarrow> Inl (KeyError ''unknown verifier'')
      | Some factory \<Rightarrow> Inr (factory kwargs))"

definition registry_list :: "'f registry \<Rightarrow> string list" where
  "registry_list reg = sort (map fst reg)"

record dummy_state =
  dm_fail_tiles :: "string list"
  dm_inconclusive_tiles :: "string list"
  dm_halo_px :: int
  dm_prepared :: bool
  dm_inconclusive_seen :: "string list"

definition dummy_new :: "string list \<Rightarrow> string list \<Rightarrow> int \<Rightarrow> dummy_state" where
  "dummy_new fails incs px =
     \<lparr>dm_fail_tiles = fails, dm_inconclusive_tiles = incs, dm_halo_px = px,
      dm_prepared = False, dm_inconclusive_seen = []\<rparr>"

definition dummy_required_halo ::
    "dummy_state \<Rightarrow> verification_context \<Rightarrow> halo_requirement option res" where
  "dummy_required_halo s ctx =
     ebind (mk_requirement (dm_halo_px s) ''dummy_plugin'' None False
       ''dummy verifier requests a fixed 24 px context'' HFixed) (\<lambda>r. Inr (Some r))"

definition dummy_prepare :: "dummy_state \<Rightarrow> verification_context \<Rightarrow> dummy_state res" where
  "dummy_prepare s ctx = Inr (s\<lparr>dm_prepared := True, dm_inconclusive_seen := []\<rparr>)"

definition dummy_verify_tile ::
    "dummy_state \<Rightarrow> tile_context \<Rightarrow> (tile_result \<times> dummy_state) res" where
  "dummy_verify_tile s tile =
     (let tid = tc_tile_id tile;
          st = (if tid \<in> set (dm_fail_tiles s) then VFail
                else if tid \<in> set (dm_inconclusive_tiles s) then VInconclusive else VPass);
          s1 = (if st = VInconclusive
                then s\<lparr>dm_inconclusive_seen := List.insert tid (dm_inconclusive_seen s)\<rparr> else s) in
      Inr ((tile_result_default tid (tc_core tile) st)
             \<lparr>tv_upper := if st = VPass then Some 0 else None,
              tv_halo_px := hleft (tc_halo tile), tv_halo_provenance := ''dummy_plugin''\<rparr>, s1))"

definition dummy_refine ::
    "dummy_state \<Rightarrow> string \<Rightarrow> (refinement_request option \<times> dummy_state) res" where
  "dummy_refine s tid =
     ebind (mk_refinement tid ''increase_halo'' 8 2) (\<lambda>r. Inr (Some r, s))"

definition dummy_reduce :: "tile_result list \<Rightarrow> reducer" where
  "dummy_reduce results = foldl reducer_add (new_reducer 0 0 0 0 None) results"

definition dummy_plugin :: "dummy_state \<Rightarrow> dummy_state plugin" where
  "dummy_plugin s =
     \<lparr>vp_name = ''dummy'', vp_version = Some ''1.0'', vp_instance_key = None,
      vp_metric_descriptor = None, vp_make_reducer = None,
      vp_required_halo = dummy_required_halo, vp_prepare = dummy_prepare,
      vp_verify_tile = dummy_verify_tile, vp_refine = Some dummy_refine,
      vp_accept_screen_facts = None, vp_state = s\<rparr>"

subsection \<open>What the reducer keeps\<close>

text \<open>
  A run of a reducer is a sequence of \<open>add\<close> and \<open>retire\<close> calls; \<open>live_verdict\<close> is its meaning
  for one tile: the last verdict added and not retired since.
\<close>

datatype reducer_op = AddOp tile_result | RetireOp string

primrec reducer_op_step :: "reducer \<Rightarrow> reducer_op \<Rightarrow> reducer" where
  "reducer_op_step r (AddOp res) = reducer_add r res"
| "reducer_op_step r (RetireOp tid) = reducer_retire r tid"

definition reducer_run :: "reducer \<Rightarrow> reducer_op list \<Rightarrow> reducer" where
  "reducer_run r ops = foldl reducer_op_step r ops"

definition live_step :: "string \<Rightarrow> tile_result option \<Rightarrow> reducer_op \<Rightarrow> tile_result option" where
  "live_step tid v op =
     (case op of
        AddOp res \<Rightarrow> if tv_tile_id res = tid then Some res else v
      | RetireOp i \<Rightarrow> if i = tid then None else v)"

definition live_verdict :: "reducer_op list \<Rightarrow> string \<Rightarrow> tile_result option" where
  "live_verdict ops tid = foldl (live_step tid) None ops"

lemma live_verdict_snoc: "live_verdict (ops @ [op]) tid = live_step tid (live_verdict ops tid) op"
  by (simp add: live_verdict_def)

lemma reducer_run_latest:
  assumes "rd_latest r0 = []"
  shows "map_of (rd_latest (reducer_run r0 ops)) = live_verdict ops \<and>
    distinct (map fst (rd_latest (reducer_run r0 ops))) \<and>
    rd_tolerance (reducer_run r0 ops) = rd_tolerance r0 \<and>
    rd_budget (reducer_run r0 ops) = rd_budget r0"
proof (induction ops rule: rev_induct)
  case Nil
  show ?case by (auto simp: reducer_run_def live_verdict_def assms)
next
  case (snoc op ops)
  let ?r = "reducer_run r0 ops"
  have step: "reducer_run r0 (ops @ [op]) = reducer_op_step ?r op" by (simp add: reducer_run_def)
  show ?case
  proof (cases op)
    case (AddOp res)
    show ?thesis using snoc unfolding step unfolding AddOp
      by (auto simp: reducer_add_def update_conv' live_verdict_snoc live_step_def fun_eq_iff
          distinct_update)
  next
    case (RetireOp i)
    show ?thesis using snoc unfolding step unfolding RetireOp
      by (auto simp: reducer_retire_def delete_conv' live_verdict_snoc live_step_def
          fun_eq_iff distinct_delete)
  qed
qed

lemma reducer_run_mem:
  assumes "rd_latest r0 = []"
  shows "res \<in> set (latest_results (reducer_run r0 ops)) \<longleftrightarrow> (\<exists>i. live_verdict ops i = Some res)"
proof -
  let ?L = "rd_latest (reducer_run r0 ops)"
  have L: "map_of ?L = live_verdict ops" "distinct (map fst ?L)"
    using reducer_run_latest [OF assms, of ops] by simp_all
  have "res \<in> set (latest_results (reducer_run r0 ops)) \<longleftrightarrow> (\<exists>i. (i, res) \<in> set ?L)"
    by (force simp: latest_results_def)
  also have "\<dots> \<longleftrightarrow> (\<exists>i. live_verdict ops i = Some res)"
    by (simp add: map_of_eq_Some_iff [OF L(2), symmetric] L(1))
  finally show ?thesis .
qed

lemma count_status_0: "count_status s rs = 0 \<longleftrightarrow> (\<forall>r\<in>set rs. tv_status r \<noteq> s)"
  by (auto simp: count_status_def filter_empty_conv)

lemma base_status_cases:
  "base_status rs = VFail \<longleftrightarrow> (\<exists>r\<in>set rs. tv_status r = VFail)"
  "base_status rs = VPass \<longleftrightarrow> rs \<noteq> [] \<and> (\<forall>r\<in>set rs. tv_status r = VPass)"
proof -
  have "tv_status r = VPass \<longleftrightarrow> tv_status r \<noteq> VFail \<and> tv_status r \<noteq> VInconclusive" for r :: tile_result
    by (cases "tv_status r") auto
  then show "base_status rs = VFail \<longleftrightarrow> (\<exists>r\<in>set rs. tv_status r = VFail)"
    "base_status rs = VPass \<longleftrightarrow> rs \<noteq> [] \<and> (\<forall>r\<in>set rs. tv_status r = VPass)"
    by (auto simp: base_status_def count_status_0)
qed

lemma filter_length_lt:
  "(\<And>x. P x \<Longrightarrow> Q x) \<Longrightarrow>
   length (filter P xs) \<noteq> length (filter Q xs) \<longleftrightarrow> (\<exists>x\<in>set xs. Q x \<and> \<not> P x)"
proof (induction xs)
  case (Cons x xs)
  have "length (filter P xs) \<le> length (filter Q xs)"
    using Cons.prems by (induction xs) auto
  with Cons show ?case by auto
qed simp

lemma global_coverage_partial:
  "global_coverage rs = PartialCover \<longleftrightarrow>
     (\<exists>r\<in>set rs. tv_coverage r = AllCovered) \<and>
     (\<exists>r\<in>set rs. tv_coverage r \<noteq> AllCovered \<and> tv_coverage r \<noteq> CoverNA)"
proof -
  have "length (filter (\<lambda>r. tv_coverage r = AllCovered) rs) \<noteq>
        length (filter (\<lambda>r. tv_coverage r \<noteq> CoverNA) rs) \<longleftrightarrow>
    (\<exists>r\<in>set rs. tv_coverage r \<noteq> CoverNA \<and> tv_coverage r \<noteq> AllCovered)"
    by (rule filter_length_lt) simp
  then show ?thesis
    by (auto simp: global_coverage_def Let_def filter_empty_conv)
qed

lemma finalize_status:
  "gr_status (fst (reducer_finalize r)) = VFail \<longleftrightarrow> base_status (latest_results r) = VFail"
  "gr_status (fst (reducer_finalize r)) = VPass \<longleftrightarrow>
     base_status (latest_results r) = VPass \<and> global_coverage (latest_results r) \<noteq> PartialCover \<and>
     (rd_tolerance r = None \<or>
      (\<exists>tol. rd_tolerance r = Some tol \<and>
         budget_sum (gr_error_budget (fst (reducer_finalize r))) \<le> tol))"
  by (auto simp: reducer_finalize_def total_error_def Let_def not_less split: option.splits)

subsection \<open>Worst bounds\<close>

lemma worst_fold_nonneg:
  assumes "list_all (\<lambda>b. case b of None \<Rightarrow> True | Some v \<Rightarrow> 0 \<le> v) bs"
    and "case w of None \<Rightarrow> True | Some v \<Rightarrow> 0 \<le> v"
  shows "(\<forall>v. Some v \<in> set (w # bs) \<longrightarrow> (\<exists>m. foldl worst_step w bs = Some m \<and> v \<le> m)) \<and>
    foldl worst_step w bs \<in> set (w # bs)"
  using assms
proof (induction bs arbitrary: w)
  case (Cons b bs)
  have w': "case worst_step w b of None \<Rightarrow> True | Some v \<Rightarrow> 0 \<le> v"
    using Cons.prems by (auto simp: worst_step_def max_def split: option.splits)
  have dom: "\<exists>m. worst_step w b = Some m \<and> v \<le> m" if "Some v \<in> {w, b}" for v
    using that Cons.prems by (auto simp: worst_step_def max_def split: option.splits)
  have mem: "worst_step w b \<in> {w, b}"
    by (auto simp: worst_step_def max_def split: option.splits)
  note IH = Cons.IH [OF _ w']
  have IH1: "\<exists>m. foldl worst_step (worst_step w b) bs = Some m \<and> v \<le> m"
    if "Some v \<in> set (worst_step w b # bs)" for v
    using IH that Cons.prems(1) by auto
  have "\<exists>m. foldl worst_step w (b # bs) = Some m \<and> v \<le> m" if "Some v \<in> set (w # b # bs)" for v
  proof (cases "Some v \<in> set bs")
    case True
    then show ?thesis using IH1 by simp
  next
    case False
    with that dom obtain u where "worst_step w b = Some u" "v \<le> u" by auto
    with IH1 [of u] show ?thesis by (auto intro: order.trans)
  qed
  moreover have "foldl worst_step w (b # bs) \<in> set (w # b # bs)"
    using IH Cons.prems(1) mem by auto
  ultimately show ?case by blast
qed auto

subsection \<open>Properties\<close>



text \<open>The reported worst bound is a bound.  When no tile reports a negative upper bound, the
  worst upper bound of the result is attained by a tile and dominates the upper bound of every
  tile that reports one; it is absent only when no tile reports one.\<close>

theorem worst_upper_dominates:
  assumes "list_all (\<lambda>r. case tv_upper r of None \<Rightarrow> True | Some v \<Rightarrow> 0 \<le> v) (latest_results rd)"
  shows "let g = fst (reducer_finalize rd) in
    (gr_worst_upper g = None \<longleftrightarrow> list_all (\<lambda>r. tv_upper r = None) (latest_results rd)) \<and>
    (gr_worst_upper g = None \<or> gr_worst_upper g \<in> set (map tv_upper (latest_results rd))) \<and>
    list_all (\<lambda>r. case tv_upper r of None \<Rightarrow> True
      | Some v \<Rightarrow> (\<exists>m. gr_worst_upper g = Some m \<and> v \<le> m)) (latest_results rd)"
proof -
  let ?bs = "map tv_upper (latest_results rd)"
  let ?w = "foldl worst_step None ?bs"
  have "list_all (\<lambda>b. case b of None \<Rightarrow> True | Some v \<Rightarrow> 0 \<le> v) ?bs"
    using assms by (simp add: list_all_iff)
  from worst_fold_nonneg [OF this, of None]
  have dom: "\<And>v. Some v \<in> set ?bs \<Longrightarrow> \<exists>m. ?w = Some m \<and> v \<le> m" and mem: "?w = None \<or> ?w \<in> set ?bs"
    by auto
  have "list_all (\<lambda>r. case tv_upper r of None \<Rightarrow> True | Some v \<Rightarrow> (\<exists>m. ?w = Some m \<and> v \<le> m))
      (latest_results rd)"
    using dom by (force simp: list_all_iff split: option.splits)
  moreover have "?w = None \<longleftrightarrow> (\<forall>b\<in>set ?bs. b = None)"
    using dom mem by (metis not_None_eq)
  then have none: "?w = None \<longleftrightarrow> list_all (\<lambda>r. tv_upper r = None) (latest_results rd)"
    by (simp add: list_all_iff)
  moreover have gw: "gr_worst_upper (fst (reducer_finalize rd)) = ?w"
    by (simp add: reducer_finalize_def total_error_def Let_def)
  ultimately show ?thesis using mem none unfolding Let_def gw by blast
qed

theorem worst_upper_dominates_witness:
  "let b = \<lparr>bx0 = 0, by0 = 0, bx1 = 1, by1 = 1\<rparr>;
       rd = dummy_reduce [(tile_result_default ''t'' b VPass)\<lparr>tv_upper := Some 0\<rparr>,
                          (tile_result_default ''u'' b VPass)\<lparr>tv_upper := Some 2\<rparr>] in
   \<exists>m. gr_worst_upper (fst (reducer_finalize rd)) = Some m \<and> 2 \<le> m"
proof -
  let ?b = "\<lparr>bx0 = 0, by0 = 0, bx1 = 1, by1 = 1\<rparr>"
  let ?rd = "dummy_reduce [(tile_result_default ''t'' ?b VPass)\<lparr>tv_upper := Some 0\<rparr>,
                          (tile_result_default ''u'' ?b VPass)\<lparr>tv_upper := Some 2\<rparr>]"
  have "latest_results ?rd = [(tile_result_default ''t'' ?b VPass)\<lparr>tv_upper := Some 0\<rparr>,
                          (tile_result_default ''u'' ?b VPass)\<lparr>tv_upper := Some 2\<rparr>]"
    by (simp add: dummy_reduce_def latest_results_def reducer_add_def new_reducer_def
        tile_result_default_def)
  then show ?thesis using worst_upper_dominates [of ?rd] by (simp add: Let_def)
qed

text \<open>Two falsy-zero defects.  With an upper bound \<open>0.0\<close> followed by a negative one the reported
  worst upper bound is the negative one, below a bound that was reported; and a verifier that
  declares the tolerance \<open>0.0\<close> gets a reducer without tolerance when the caller has no fallback, so
  a run whose error total is positive passes.\<close>

theorem falsy_zero_defects:
  "(\<exists>rs g. g = fst (reducer_finalize (dummy_reduce rs)) \<and>
      Some 0 \<in> set (map tv_upper rs) \<and> gr_worst_upper g = Some (- 1)) \<and>
   (\<exists>p :: unit plugin. \<exists>ctx res g. vp_metric_descriptor p =
        Some \<lparr>md_quantity = ''epe'', md_unit = Some ''nm'', md_tolerance = Some 0\<rparr> \<and>
      vp_make_reducer p = None \<and>
      g = session_finalize (session_add (make_verifier_session p ctx None) res) \<and>
      gr_status g = VPass \<and> budget_sum (gr_error_budget g) = 5)"
proof
  let ?b = "\<lparr>bx0 = 0, by0 = 0, bx1 = 1, by1 = 1\<rparr>"
  let ?rs = "[(tile_result_default ''t'' ?b VPass)\<lparr>tv_upper := Some 0\<rparr>,
              (tile_result_default ''u'' ?b VPass)\<lparr>tv_upper := Some (- 1)\<rparr>]"
  have "gr_worst_upper (fst (reducer_finalize (dummy_reduce ?rs))) = Some (- 1)"
    by (simp add: dummy_reduce_def latest_results_def reducer_add_def new_reducer_def
        tile_result_default_def reducer_finalize_def total_error_def Let_def worst_step_def)
  then show "\<exists>rs g. g = fst (reducer_finalize (dummy_reduce rs)) \<and>
      Some 0 \<in> set (map tv_upper rs) \<and> gr_worst_upper g = Some (- 1)"
    by (intro exI [of _ ?rs]) simp
next
  let ?b = "\<lparr>bx0 = 0, by0 = 0, bx1 = 1, by1 = 1\<rparr>"
  define p :: "unit plugin" where "p = \<lparr>vp_name = ''v'', vp_version = None, vp_instance_key = None,
    vp_metric_descriptor = Some \<lparr>md_quantity = ''epe'', md_unit = Some ''nm'', md_tolerance = Some 0\<rparr>,
    vp_make_reducer = None, vp_required_halo = (\<lambda>_ _. Inr None), vp_prepare = (\<lambda>s _. Inr s),
    vp_verify_tile = (\<lambda>s t. Inr (tile_result_default (tc_tile_id t) (tc_core t) VPass, s)),
    vp_refine = None, vp_accept_screen_facts = None, vp_state = ()\<rparr>"
  define res where "res = (tile_result_default ''t'' ?b VPass)
    \<lparr>tv_halo_provenance := ''p'', tv_metrics := [(''halo_error_bound'', 5)]\<rparr>"
  have sess: "session_finalize (session_add (make_verifier_session p ctx None) res) =
      fst (reducer_finalize (reducer_add (new_reducer 0 0 0 0 None) res))" for ctx
    by (simp add: session_finalize_def session_add_def make_verifier_session_def p_def or_float_def
        Let_def)
  have res: "gr_status (fst (reducer_finalize (reducer_add (new_reducer 0 0 0 0 None) res))) = VPass"
    "budget_sum (gr_error_budget (fst (reducer_finalize (reducer_add (new_reducer 0 0 0 0 None) res)))) = 5"
    by (simp_all add: res_def reducer_add_def new_reducer_def tile_result_default_def
        reducer_finalize_def total_error_def Let_def latest_results_def halo_step_def
        budget_sum_def base_status_def count_status_def global_coverage_def)
  have p: "vp_metric_descriptor p =
      Some \<lparr>md_quantity = ''epe'', md_unit = Some ''nm'', md_tolerance = Some 0\<rparr>"
    "vp_make_reducer p = None" by (simp_all add: p_def)
  show "\<exists>p :: unit plugin. \<exists>ctx res g. vp_metric_descriptor p =
        Some \<lparr>md_quantity = ''epe'', md_unit = Some ''nm'', md_tolerance = Some 0\<rparr> \<and>
      vp_make_reducer p = None \<and>
      g = session_finalize (session_add (make_verifier_session p ctx None) res) \<and>
      gr_status g = VPass \<and> budget_sum (gr_error_budget g) = 5"
    by (intro exI conjI) (rule p(1), rule p(2), rule sess [symmetric], rule res(1), rule res(2))
qed

text \<open>The verifiers with a result whose descriptor claims the metric.\<close>

definition metric_owner ::
    "(verifier_identity \<times> metric_descriptor) list \<Rightarrow> (verifier_identity \<times> global_result) list \<Rightarrow>
     string \<Rightarrow> string \<Rightarrow> verifier_identity \<Rightarrow> bool" where
  "metric_owner descriptors results q u i \<longleftrightarrow>
     (\<exists>d r. map_of descriptors i = Some d \<and> md_quantity d = q \<and> md_unit d = Some u \<and>
        map_of results i = Some r)"

text \<open>The public metric projection never blends verifiers.  For a descriptor dict with distinct
  identities, it raises exactly when two verifiers with results own the metric, it yields a value
  only when exactly one does, and then that value is the worst upper bound of this owner.\<close>

theorem projection_unique_owner:
  assumes "distinct (map fst descriptors)" "owner = metric_owner descriptors results q u"
  shows "(case project_metric_bound results descriptors q u of
      Inl e \<Rightarrow> (\<exists>i j. i \<noteq> j \<and> owner i \<and> owner j)
    | Inr (Some b) \<Rightarrow> (\<exists>i r. owner i \<and> (\<forall>j. owner j \<longrightarrow> j = i) \<and> map_of results i = Some r \<and>
        gr_worst_upper r = Some b)
    | Inr None \<Rightarrow> (\<exists>i. \<forall>j. owner j \<longrightarrow> j = i \<and>
        (\<exists>r. map_of results j = Some r \<and> gr_worst_upper r = None)))"
proof -
  let ?O = "owner_entries results descriptors q u"
  have own: "owner i \<longleftrightarrow> i \<in> fst ` set ?O" for i
    unfolding assms(2) metric_owner_def owner_entries_def
    using assms(1) by (force simp: image_iff)
  have dist: "distinct (map fst ?O)"
    unfolding owner_entries_def using assms(1) by (rule distinct_map_filter)
  have "?O = [] \<or> (\<exists>i d. ?O = [(i, d)]) \<or> (\<exists>x y zs. ?O = x # y # zs)"
    by (cases ?O rule: remdups_adj.cases) auto
  then consider "?O = []" | i d where "?O = [(i, d)]" | x y zs where "?O = x # y # zs" by blast
  then show ?thesis
  proof cases
    case 1
    then have "project_metric_bound results descriptors q u = Inr None"
      by (simp add: project_metric_bound_def)
    then show ?thesis using own by (simp add: 1)
  next
    case 2
    then have "(i, d) \<in> set ?O" by (metis list.set_intros(1))
    then obtain r where r: "map_of results i = Some r" by (auto simp: owner_entries_def)
    have "project_metric_bound results descriptors q u = Inr (gr_worst_upper r)"
      by (cases "gr_worst_upper r") (simp_all add: project_metric_bound_def 2 r)
    then show ?thesis using own r by (cases "gr_worst_upper r") (auto simp: 2)
  next
    case 3
    then have "project_metric_bound results descriptors q u =
        Inl (ValueError ''the convenience projection requires exactly one owner'')"
      by (simp add: project_metric_bound_def)
    moreover have "fst x \<noteq> fst y" using dist by (simp add: 3)
    ultimately show ?thesis using own by (auto simp: 3)
  qed
qed

theorem projection_unique_owner_witness:
  "let i = VerifierIdentity ''a'' ''1'' ''default''; j = VerifierIdentity ''b'' ''1'' ''default'';
       d = \<lparr>md_quantity = ''epe'', md_unit = Some ''nm'', md_tolerance = None\<rparr>;
       g = fst (reducer_finalize (new_reducer 0 0 0 0 None)) in
   \<exists>e. project_metric_bound [(i, g), (j, g)] [(i, d), (j, d)] ''epe'' ''nm'' = Inl e"
proof -
  define i j where "i = VerifierIdentity ''a'' ''1'' ''default''" and "j = VerifierIdentity ''b'' ''1'' ''default''"
  define d where "d = \<lparr>md_quantity = ''epe'', md_unit = Some ''nm'', md_tolerance = None\<rparr>"
  define g where "g = fst (reducer_finalize (new_reducer 0 0 0 0 None))"
  define R D where "R = [(i, g), (j, g)]" and "D = [(i, d), (j, d)]"
  have ij: "i \<noteq> j" by (simp add: i_def j_def)
  then have dist: "distinct (map fst D)" by (simp add: D_def)
  have own: "metric_owner D R ''epe'' ''nm'' i" "metric_owner D R ''epe'' ''nm'' j"
    using ij by (simp_all add: metric_owner_def R_def D_def d_def)
  have "\<exists>e. project_metric_bound R D ''epe'' ''nm'' = Inl e"
  proof (cases "project_metric_bound R D ''epe'' ''nm''")
    case (Inr v)
    with projection_unique_owner [OF dist refl, of R "''epe''" "''nm''"] own ij have False
      by (cases v) auto
    then show ?thesis ..
  qed simp
  then show ?thesis by (simp add: i_def j_def d_def g_def R_def D_def Let_def)
qed

text \<open>The cross-verifier fold is a firewall: the summary passes exactly when there is a verifier
  and every verifier passed, it fails exactly when some verifier failed, and its three counts add
  up to the number of verifiers.\<close>

theorem fold_global_firewall:
  "(ms_status (fold_global results) = VPass \<longleftrightarrow>
      results \<noteq> [] \<and> list_all (\<lambda>(i, r). gr_status r = VPass) results) \<and>
   (ms_status (fold_global results) = VFail \<longleftrightarrow> list_ex (\<lambda>(i, r). gr_status r = VFail) results) \<and>
   ms_n_pass (fold_global results) + ms_n_fail (fold_global results) +
     ms_n_inconclusive (fold_global results) = ms_n_verifiers (fold_global results)"
proof -
  have three: "s = VPass \<longleftrightarrow> s \<noteq> VFail \<and> s \<noteq> VInconclusive" for s by (cases s) auto
  have "length (filter (\<lambda>s. s = VPass) st) + length (filter (\<lambda>s. s = VFail) st) +
      length (filter (\<lambda>s. s = VInconclusive) st) = length st" for st
    by (induction st) (auto simp: three)
  from this [of "map (\<lambda>(i, r). gr_status r) results"]
  have sum: "ms_n_pass (fold_global results) + ms_n_fail (fold_global results) +
     ms_n_inconclusive (fold_global results) = ms_n_verifiers (fold_global results)"
    by (simp add: fold_global_def Let_def)
  show ?thesis
    using sum by (force simp: fold_global_def Let_def filter_empty_conv list_all_iff list_ex_iff three)
qed

end
