(* ===== verification/TileSources.thy ===== *)
theory TileSources
  imports Geometry Tensor
begin

text \<open>
  Model of \<open>streaming/sources.py\<close>: windowed reads of a dense tensor (also memory-mapped), the
  grid-bucket index over layout boxes and the vector source that rasterizes only the boxes its
  query returns.  The locale \<open>tile_source\<close> states what a reader of windows relies on: every window
  inside the domain is the window of one dense raster.
\<close>

subsection \<open>Dense sources\<close>

definition tensor_source :: "tensor \<Rightarrow> tensor" where
  "tensor_source t = t"

definition tensor_read_window :: "tensor \<Rightarrow> bbox \<Rightarrow> tensor" where
  "tensor_read_window t b = t_slice t (by0 b) (by1 b) (bx0 b) (bx1 b)"

definition memmap_read_window :: "tensor \<Rightarrow> bbox \<Rightarrow> tensor" where
  "memmap_read_window m b = t_slice m (by0 b) (by1 b) (bx0 b) (bx1 b)"

subsection \<open>The bucket index\<close>

type_synonym lbox = "int \<times> int \<times> int \<times> int"

record layout_index =
  li_shape :: "int \<times> int"
  li_bucket :: int
  li_buckets :: "int \<times> int \<Rightarrow> lbox list"

definition n_buckets :: "int \<Rightarrow> int \<Rightarrow> int" where
  "n_buckets extent bucket = max 1 ((extent + bucket - 1) div bucket)"

text \<open>The buckets a box or a window visits along one axis.\<close>

definition bucket_range :: "int \<Rightarrow> int \<Rightarrow> int \<Rightarrow> int \<Rightarrow> int list" where
  "bucket_range lo hi bucket nb = pyrange (lo div bucket) (min ((hi - 1) div bucket) (nb - 1) + 1) 1"

definition bucket_keys :: "int \<times> int \<Rightarrow> int \<Rightarrow> lbox \<Rightarrow> (int \<times> int) list" where
  "bucket_keys shape bucket b =
     (case b of (x0, y0, x1, y1) \<Rightarrow>
        concat (map (\<lambda>by. map (\<lambda>bx. (bx, by))
            (bucket_range x0 x1 bucket (n_buckets (snd shape) bucket)))
          (bucket_range y0 y1 bucket (n_buckets (fst shape) bucket))))"

definition bucket_append :: "lbox \<Rightarrow> (int \<times> int \<Rightarrow> lbox list) \<Rightarrow> int \<times> int \<Rightarrow> (int \<times> int \<Rightarrow> lbox list)"
  where "bucket_append b m k = m(k := m k @ [b])"

definition index_box ::
    "int \<times> int \<Rightarrow> int \<Rightarrow> (int \<times> int \<Rightarrow> lbox list) \<Rightarrow> lbox \<Rightarrow> (int \<times> int \<Rightarrow> lbox list)" where
  "index_box shape bucket m b =
     (case b of (x0, y0, x1, y1) \<Rightarrow>
        if x1 \<le> x0 \<or> y1 \<le> y0 then m
        else foldl (bucket_append b) m (bucket_keys shape bucket b))"

definition build_index :: "lbox list \<Rightarrow> int \<times> int \<Rightarrow> int \<Rightarrow> layout_index" where
  "build_index boxes shape bucket0 =
     (let bucket = max 1 bucket0 in
      \<lparr>li_shape = shape, li_bucket = bucket,
       li_buckets = foldl (index_box shape bucket) (\<lambda>_. []) boxes\<rparr>)"

definition new_index :: "lbox list \<Rightarrow> int \<times> int \<Rightarrow> int \<Rightarrow> layout_index res" where
  "new_index boxes shape bucket =
     (if boxes = [] then Inl (ValueError ''SpatialLayoutIndex needs at least one layout box'')
      else Inr (build_index boxes shape bucket))"

definition clip_box :: "bbox \<Rightarrow> lbox \<Rightarrow> lbox" where
  "clip_box q b =
     (case b of (ix0, iy0, ix1, iy1) \<Rightarrow>
        (max ix0 (bx0 q), max iy0 (by0 q), min ix1 (bx1 q), min iy1 (by1 q)))"

definition lbox_nonempty :: "lbox \<Rightarrow> bool" where
  "lbox_nonempty b \<longleftrightarrow> (case b of (x0, y0, x1, y1) \<Rightarrow> x1 > x0 \<and> y1 > y0)"

definition query_box :: "bbox \<Rightarrow> lbox list \<times> lbox list \<Rightarrow> lbox \<Rightarrow> lbox list \<times> lbox list" where
  "query_box q st b =
     (if b \<in> set (fst st) then st
      else (b # fst st, if lbox_nonempty (clip_box q b) then snd st @ [clip_box q b] else snd st))"

definition index_query :: "layout_index \<Rightarrow> bbox \<Rightarrow> lbox list" where
  "index_query idx q =
     snd (foldl (\<lambda>st k. foldl (query_box q) st (li_buckets idx k)) ([], [])
       (bucket_keys (li_shape idx) (li_bucket idx) (bx0 q, by0 q, bx1 q, by1 q)))"

subsection \<open>The vector source\<close>

definition paint_box :: "bbox \<Rightarrow> rat \<Rightarrow> tensor \<Rightarrow> lbox \<Rightarrow> tensor" where
  "paint_box q fill w b =
     (case b of (x0, y0, x1, y1) \<Rightarrow>
        t_fill w (y0 - by0 q) (y1 - by0 q) (x0 - bx0 q) (x1 - bx0 q) fill)"

definition vector_read_window :: "layout_index \<Rightarrow> rat \<Rightarrow> rat \<Rightarrow> bbox \<Rightarrow> tensor" where
  "vector_read_window idx background fill q =
     foldl (paint_box q fill) (t_full (height q) (width q) background) (index_query idx q)"

subsection \<open>The contract of a source\<close>

locale tile_source =
  fixes src_shape :: "int \<times> int"
    and read_window :: "bbox \<Rightarrow> tensor"
    and dense :: tensor
  assumes dense_ok: "t_ok dense"
    and dense_rows: "rows dense = fst src_shape"
    and dense_cols: "0 < fst src_shape \<Longrightarrow> cols dense = snd src_shape"
    and window: "bbox_ok b \<Longrightarrow> contains (dom_box src_shape) b \<Longrightarrow>
      read_window b = t_slice dense (by0 b) (by1 b) (bx0 b) (bx1 b)"
begin

lemma window_bounds:
  assumes "bbox_ok b" "contains (dom_box src_shape) b"
  shows "0 \<le> by0 b" "by0 b < by1 b" "by1 b \<le> rows dense"
    "0 \<le> bx0 b" "bx0 b < bx1 b" "bx1 b \<le> cols dense"
  using assms dense_rows dense_cols by (auto simp: bbox_ok_def contains_def dom_box_def)

lemma window_shape:
  assumes "bbox_ok b" "contains (dom_box src_shape) b"
  shows "t_ok (read_window b)" "rows (read_window b) = height b" "cols (read_window b) = width b"
proof -
  note bb = window_bounds [OF assms]
  show "t_ok (read_window b)" unfolding window [OF assms]
    using bb by (intro t_ok_slice [OF dense_ok]) simp_all
  show "rows (read_window b) = height b" unfolding window [OF assms] height_def
    using bb by (intro rows_slice) simp_all
  show "cols (read_window b) = width b" unfolding window [OF assms] width_def
    using bb by (intro cols_slice [OF dense_ok]) simp_all
qed

lemma window_get:
  assumes "bbox_ok b" "contains (dom_box src_shape) b" "0 \<le> y" "y < height b" "0 \<le> x" "x < width b"
  shows "t_get (read_window b) y x = t_get dense (y + by0 b) (x + bx0 b)"
  unfolding window [OF assms(1,2)] using window_bounds [OF assms(1,2)] assms(3-)
  by (intro t_get_slice [OF dense_ok]) (simp_all add: height_def width_def)

text \<open>The core of a read window is the window of the core.\<close>

lemma core_of_window:
  assumes "bbox_ok r" "contains (dom_box src_shape) r" "bbox_ok c" "contains r c"
  shows "t_slice (read_window r) (by0 c - by0 r) (by0 c - by0 r + height c)
      (bx0 c - bx0 r) (bx0 c - bx0 r + width c) = read_window c"
    (is "?s = _")
proof (rule t_ext)
  have cin: "contains (dom_box src_shape) c" using assms(2,4) by (rule contains_trans)
  note sr = window_shape [OF assms(1,2)] and sc = window_shape [OF assms(3) cin]
  have b: "0 \<le> by0 c - by0 r" "by0 c - by0 r < by0 c - by0 r + height c"
    "by0 c - by0 r + height c \<le> rows (read_window r)" "0 \<le> bx0 c - bx0 r"
    "bx0 c - bx0 r \<le> bx0 c - bx0 r + width c" "bx0 c - bx0 r + width c \<le> cols (read_window r)"
    using assms(3,4) sr by (simp_all add: contains_def bbox_ok_def height_def width_def)
  show "t_ok ?s" using b by (intro t_ok_slice sr(1)) simp_all
  show rs: "rows ?s = rows (read_window c)" using b sc by (simp add: rows_slice)
  show cs: "cols ?s = cols (read_window c)" using b sc by (simp add: cols_slice [OF sr(1)])
  show "t_ok (read_window c)" by (rule sc(1))
  fix y x assume yx: "0 \<le> y" "y < rows ?s" "0 \<le> x" "x < cols ?s"
  then have lt: "y < height c" "x < width c" using rs cs sc by simp_all
  have "t_get ?s y x = t_get (read_window r) (y + (by0 c - by0 r)) (x + (bx0 c - bx0 r))"
    using b yx lt by (intro t_get_slice [OF sr(1)]) simp_all
  also have "\<dots> = t_get dense (y + (by0 c - by0 r) + by0 r) (x + (bx0 c - bx0 r) + bx0 r)"
    using b lt yx sr by (intro window_get assms(1,2)) simp_all
  also have "\<dots> = t_get (read_window c) y x"
    using window_get [OF assms(3) cin yx(1) lt(1) yx(3) lt(2)] by simp
  finally show "t_get ?s y x = t_get (read_window c) y x" .
qed

end

text \<open>A rectangular tensor is a source of itself.\<close>

interpretation dense_source: tile_source "(int h, int w)"
    "tensor_read_window (t_build (int h) (int w) f)" "t_build (int h) (int w) f" for h w f
  by unfold_locales (auto simp: tensor_read_window_def)

interpretation memmap_source: tile_source "(int h, int w)"
    "memmap_read_window (t_build (int h) (int w) f)" "t_build (int h) (int w) f" for h w f
  by unfold_locales (auto simp: memmap_read_window_def)

subsection \<open>The index visits every overlapping box\<close>

definition in_lbox :: "pixel \<Rightarrow> lbox \<Rightarrow> bool" where
  "in_lbox p b \<longleftrightarrow> (case b of (x0, y0, x1, y1) \<Rightarrow>
     x0 \<le> fst p \<and> fst p < x1 \<and> y0 \<le> snd p \<and> snd p < y1)"

lemma bucket_range_mem:
  "t \<in> set (bucket_range lo hi bk nb) \<longleftrightarrow> lo div bk \<le> t \<and> t \<le> (hi - 1) div bk \<and> t \<le> nb - 1"
  by (auto simp: bucket_range_def pyrange_mem)

lemma bucket_keys_mem:
  "(i, j) \<in> set (bucket_keys shape bk (x0, y0, x1, y1)) \<longleftrightarrow>
     i \<in> set (bucket_range x0 x1 bk (n_buckets (snd shape) bk)) \<and>
     j \<in> set (bucket_range y0 y1 bk (n_buckets (fst shape) bk))"
  by (auto simp: bucket_keys_def)

lemma bucket_append_fold:
  "set (foldl (bucket_append b) m ks k) = set (m k) \<union> (if k \<in> set ks then {b} else {})"
  by (induction ks arbitrary: m) (auto simp: bucket_append_def)

lemma index_fold_mem:
  "b \<in> set (foldl (index_box shape bk) m boxes k) \<longleftrightarrow>
     b \<in> set (m k) \<or> (b \<in> set boxes \<and> lbox_nonempty b \<and> k \<in> set (bucket_keys shape bk b))"
proof (induction boxes arbitrary: m)
  case (Cons c boxes)
  have "set (index_box shape bk m c k) =
      set (m k) \<union> (if lbox_nonempty c \<and> k \<in> set (bucket_keys shape bk c) then {c} else {})"
    by (cases c) (auto simp: index_box_def lbox_nonempty_def bucket_append_fold)
  with Cons.IH show ?case by (auto split: if_splits)
qed simp

lemma query_fold:
  "set (snd (foldl (query_box q) st bs)) = set (snd st) \<union>
     clip_box q ` {b \<in> set bs - set (fst st). lbox_nonempty (clip_box q b)}"
proof (induction bs arbitrary: st)
  case (Cons b bs)
  let ?P = "\<lambda>c. lbox_nonempty (clip_box q c)"
  show ?case
  proof (cases "b \<in> set (fst st)")
    case True
    then have "{c \<in> set (b # bs) - set (fst st). ?P c} = {c \<in> set bs - set (fst st). ?P c}" by auto
    with True show ?thesis unfolding foldl_Cons Cons.IH by (simp add: query_box_def)
  next
    case False
    then have "{c \<in> set (b # bs) - set (fst st). ?P c} =
        (if ?P b then {b} else {}) \<union> {c \<in> set bs - set (b # fst st). ?P c}" by auto
    with False show ?thesis unfolding foldl_Cons Cons.IH
      by (simp only: query_box_def fst_conv snd_conv if_False if_True image_Un) auto
  qed
qed simp

lemma foldl_foldl: "foldl (\<lambda>st k. foldl f st (g k)) s ks = foldl f s (concat (map g ks))"
  by (induction ks arbitrary: s) simp_all

lemma index_query_mem:
  "set (index_query idx q) =
     clip_box q ` {b. \<exists>k\<in>set (bucket_keys (li_shape idx) (li_bucket idx)
         (bx0 q, by0 q, bx1 q, by1 q)). b \<in> set (li_buckets idx k) \<and> lbox_nonempty (clip_box q b)}"
  unfolding index_query_def foldl_foldl query_fold by (auto intro!: arg_cong [of _ _ "image (clip_box q)"])

text \<open>A pixel's bucket is visited both when the box is indexed and when the window is queried.\<close>

lemma pixel_bucket:
  fixes v :: int
  assumes "0 < bk" "lo \<le> v" "v < hi" "v < extent"
  shows "v div bk \<in> set (bucket_range lo hi bk (n_buckets extent bk))"
proof -
  have "lo div bk \<le> v div bk" "v div bk \<le> (hi - 1) div bk"
    using assms(1-3) by (auto intro: zdiv_mono1)
  moreover have "v div bk * bk \<le> v"
    using assms(1) by (metis int_le_div_iff order_refl)
  then have "(v div bk + 1) * bk \<le> extent + bk - 1"
    using assms(4) by (simp add: algebra_simps)
  then have "v div bk + 1 \<le> (extent + bk - 1) div bk"
    using int_le_div_iff [OF assms(1)] by blast
  ultimately show ?thesis by (auto simp: bucket_range_mem n_buckets_def)
qed

lemma clip_pixel:
  "in_lbox p (clip_box q b) \<longleftrightarrow> in_lbox p b \<and> in_box p q"
  by (cases b) (auto simp: clip_box_def in_lbox_def in_box_def)

lemma lbox_nonempty_pixel: "lbox_nonempty b \<longleftrightarrow> (\<exists>p. in_lbox p b)"
proof (cases b)
  case (fields x0 y0 x1 y1)
  have "lbox_nonempty b \<Longrightarrow> in_lbox (x0, y0) b" by (simp add: fields lbox_nonempty_def in_lbox_def)
  then show ?thesis by (auto simp: fields lbox_nonempty_def in_lbox_def)
qed

lemma index_query_exact:
  assumes "contains (dom_box shape) q"
  shows "set (index_query (build_index boxes shape bk) q) =
    clip_box q ` {b \<in> set boxes. lbox_nonempty (clip_box q b)}"
proof -
  let ?bk = "max 1 bk" and ?qb = "(bx0 q, by0 q, bx1 q, by1 q)"
  have shared: "\<exists>k. k \<in> set (bucket_keys shape ?bk ?qb) \<and> lbox_nonempty b \<and>
      k \<in> set (bucket_keys shape ?bk b)" if clip: "lbox_nonempty (clip_box q b)" for b
  proof -
    obtain x0 y0 x1 y1 where b: "b = (x0, y0, x1, y1)" by (cases b)
    from clip obtain px py where p: "in_lbox (px, py) b" "in_box (px, py) q"
      by (auto simp: lbox_nonempty_pixel clip_pixel)
    have dm: "px < snd shape" "py < fst shape"
      using assms p(2) by (auto simp: contains_def dom_box_def in_box_def)
    let ?k = "(px div ?bk, py div ?bk)"
    have "?k \<in> set (bucket_keys shape ?bk b)" "?k \<in> set (bucket_keys shape ?bk ?qb)"
      unfolding b bucket_keys_mem using p dm
      by (auto simp: b in_lbox_def in_box_def intro!: pixel_bucket)
    moreover have "lbox_nonempty b" using p(1) lbox_nonempty_pixel by blast
    ultimately show ?thesis by blast
  qed
  have "{b. \<exists>k\<in>set (bucket_keys shape ?bk ?qb). (b \<in> set boxes \<and> lbox_nonempty b \<and>
      k \<in> set (bucket_keys shape ?bk b)) \<and> lbox_nonempty (clip_box q b)} =
    {b \<in> set boxes. lbox_nonempty (clip_box q b)}"
    using shared by blast
  then show ?thesis
    unfolding index_query_mem by (simp add: build_index_def Let_def index_fold_mem)
qed

subsection \<open>Rasterizing the query is rasterizing the layout\<close>

lemma paint_get:
  assumes "rows w = height q" "cols w = width q"
    and "list_all (\<lambda>b. \<forall>p. in_lbox p b \<longrightarrow> in_box p q) bs" "list_all lbox_nonempty bs"
    and "0 \<le> y" "y < height q" "0 \<le> x" "x < width q"
  shows "t_get (foldl (paint_box q fill) w bs) y x =
      (if list_ex (in_lbox (x + bx0 q, y + by0 q)) bs then fill else t_get w y x) \<and>
    rows (foldl (paint_box q fill) w bs) = height q \<and>
    cols (foldl (paint_box q fill) w bs) = width q"
  using assms(1-4)
proof (induction bs arbitrary: w)
  case (Cons b bs)
  obtain x0 y0 x1 y1 where b: "b = (x0, y0, x1, y1)" by (cases b)
  have ne: "x0 < x1" "y0 < y1" using Cons.prems(4) by (auto simp: b lbox_nonempty_def)
  have "in_lbox (x0, y0) b" "in_lbox (x1 - 1, y1 - 1) b"
    using ne by (auto simp: b in_lbox_def)
  then have "in_box (x0, y0) q" "in_box (x1 - 1, y1 - 1) q" using Cons.prems(3) by auto
  then have bnd: "0 \<le> x0 - bx0 q" "x1 - bx0 q \<le> width q" "0 \<le> y0 - by0 q" "y1 - by0 q \<le> height q"
    by (auto simp: in_box_def width_def height_def)
  have pos: "0 < height q" using assms(5,6) by simp
  have paint: "paint_box q fill w b = t_build (height q) (width q) (\<lambda>y x.
      if y0 - by0 q \<le> y \<and> y < y1 - by0 q \<and> x0 - bx0 q \<le> x \<and> x < x1 - bx0 q
      then fill else t_get w y x)"
    using bnd ne Cons.prems(1,2) by (simp add: paint_box_def b t_fill_def Let_def)
  have "rows (paint_box q fill w b) = height q" "cols (paint_box q fill w b) = width q"
    using assms(5-8) pos by (simp_all add: paint)
  moreover have "t_get (paint_box q fill w b) y x =
      (if in_lbox (x + bx0 q, y + by0 q) b then fill else t_get w y x)"
    unfolding paint using assms(5-8) by (auto simp: b in_lbox_def)
  ultimately show ?case using Cons.IH [of "paint_box q fill w b"] Cons.prems(3,4) by auto
qed simp

definition dense_raster :: "lbox list \<Rightarrow> int \<Rightarrow> int \<Rightarrow> rat \<Rightarrow> rat \<Rightarrow> tensor" where
  "dense_raster boxes h w background fill =
     t_build h w (\<lambda>y x. if list_ex (in_lbox (x, y)) boxes then fill else background)"

lemma vector_window:
  assumes "bbox_ok q" "contains (dom_box (h, w)) q"
  shows "vector_read_window (build_index boxes (h, w) bk) bg fill q =
    t_slice (dense_raster boxes h w bg fill) (by0 q) (by1 q) (bx0 q) (bx1 q)"
    (is "?v = ?s")
proof (rule t_ext)
  let ?Q = "index_query (build_index boxes (h, w) bk) q"
  let ?d = "dense_raster boxes h w bg fill"
  note Q = index_query_exact [OF assms(2), of boxes bk]
  have inside: "list_all (\<lambda>b. \<forall>p. in_lbox p b \<longrightarrow> in_box p q) ?Q" "list_all lbox_nonempty ?Q"
    unfolding list_all_iff Q by (auto simp: clip_pixel)
  have bq: "0 \<le> by0 q" "by0 q < by1 q" "by1 q \<le> h" "0 \<le> bx0 q" "bx0 q < bx1 q" "bx1 q \<le> w"
    using assms by (auto simp: bbox_ok_def contains_def dom_box_def)
  then have d: "t_ok ?d" "rows ?d = h" "cols ?d = w" by (simp_all add: dense_raster_def)
  have s: "rows ?s = height q" "cols ?s = width q" "t_ok ?s"
    using bq d by (simp_all add: rows_slice cols_slice t_ok_slice height_def width_def)
  have full: "rows (t_full (height q) (width q) bg) = height q"
    "cols (t_full (height q) (width q) bg) = width q"
    using bq by (simp_all add: t_full_def height_def width_def)
  note paint = paint_get [OF full inside, of _ _ fill]
  have v: "rows ?v = height q" "cols ?v = width q"
    using paint [of 0 0] bq by (simp_all add: vector_read_window_def height_def width_def)
  have "t_ok (foldl (paint_box q fill) (t_full (height q) (width q) bg) bs)" for bs
    by (induction bs rule: rev_induct)
      (auto simp: t_full_def paint_box_def t_fill_def Let_def split: prod.splits)
  then show "t_ok ?v" by (simp add: vector_read_window_def)
  show "t_ok ?s" "rows ?v = rows ?s" "cols ?v = cols ?s" using s v by simp_all
  fix y x assume yx: "0 \<le> y" "y < rows ?v" "0 \<le> x" "x < cols ?v"
  then have lt: "y < height q" "x < width q" using v by simp_all
  let ?p = "(x + bx0 q, y + by0 q)"
  have inq: "in_box ?p q" using yx lt by (auto simp: in_box_def height_def width_def)
  have "list_ex (in_lbox ?p) ?Q \<longleftrightarrow> list_ex (in_lbox ?p) boxes"
    unfolding list_ex_iff Q using inq lbox_nonempty_pixel by (auto simp: clip_pixel) blast
  moreover have "t_get ?v y x = (if list_ex (in_lbox ?p) ?Q then fill else bg)"
    using paint [OF yx(1) lt(1) yx(3) lt(2)] yx lt by (simp add: vector_read_window_def t_full_def)
  moreover have "t_get ?s y x = t_get ?d (y + by0 q) (x + bx0 q)"
    using bq d yx lt by (intro t_get_slice) (simp_all add: height_def width_def)
  moreover have "t_get ?d (y + by0 q) (x + bx0 q) = (if list_ex (in_lbox ?p) boxes then fill else bg)"
    unfolding dense_raster_def using bq yx lt
    by (subst t_get_build) (simp_all add: height_def width_def)
  ultimately show "t_get ?v y x = t_get ?s y x" by simp
qed

interpretation vector_source: tile_source "(int h, int w)"
    "vector_read_window (build_index boxes (int h, int w) bk) bg fill"
    "dense_raster boxes (int h) (int w) bg fill" for h w boxes bk bg fill
  by unfold_locales (simp_all add: dense_raster_def [of boxes] vector_window [unfolded dense_raster_def])

subsection \<open>Properties\<close>

text \<open>C30: The bucket index loses nothing.  For every bucket size and every window inside the domain,
  querying the index gives exactly the layout boxes that overlap the window, clipped to it, as a
  scan of all boxes would; and so the rasterized window is the window of the dense raster of the
  whole layout, pixel for pixel.\<close>

theorem vector_source_exact:
  assumes "bbox_ok q" "contains (dom_box (h, w)) q" "new_index boxes (h, w) bk = Inr idx"
  shows "set (index_query idx q) = set (filter lbox_nonempty (map (clip_box q) boxes)) \<and>
    vector_read_window idx bg fill q =
      t_slice (dense_raster boxes h w bg fill) (by0 q) (by1 q) (bx0 q) (bx1 q)"
proof -
  have idx: "idx = build_index boxes (h, w) bk" using assms(3) by (simp add: new_index_def split: if_splits)
  show ?thesis
    unfolding idx index_query_exact [OF assms(2)] vector_window [OF assms(1,2)] by auto
qed

theorem vector_source_exact_witness:
  "let boxes = [(- 1, 0, 2, 3), (3, 1, 9, 2)]; q = \<lparr>bx0 = 1, by0 = 1, bx1 = 4, by1 = 3\<rparr> in
   \<exists>idx. new_index boxes (4, 6) 2 = Inr idx \<and>
     vector_read_window idx 0 1 q = t_slice (dense_raster boxes 4 6 0 1) 1 3 1 4 \<and>
     t_slice (dense_raster boxes 4 6 0 1) 1 3 1 4 = [[1, 0, 1], [1, 0, 0]]"
proof -
  let ?boxes = "[(- 1, 0, 2, 3), (3, 1, 9, 2)]" and ?q = "\<lparr>bx0 = 1, by0 = 1, bx1 = 4, by1 = 3\<rparr>"
  have q: "bbox_ok ?q" "contains (dom_box (4, 6)) ?q"
    by (simp_all add: bbox_ok_def contains_def dom_box_def)
  have idx: "new_index ?boxes (4, 6) 2 = Inr (build_index ?boxes (4, 6) 2)"
    by (simp add: new_index_def)
  have "t_slice (dense_raster ?boxes 4 6 0 1) 1 3 1 4 = [[1, 0, 1], [1, 0, 0]]" by code_simp
  with vector_source_exact [OF q idx, of 0 1] idx show ?thesis by (simp add: Let_def)
qed

end
