(* ===== verification/TileSinks.thy ===== *)
theory TileSinks
  imports TileSources TileVerification "HOL-Library.Multiset"
begin

text \<open>
  Model of \<open>streaming/sinks.py\<close>: the tensor, the memory-mapped, the metric-only and the Manhattan
  sink.  An operation returns its result and the sink it leaves behind, because the duplicate
  check records the tile id before the shape is checked.  The sets \<open>_written\<close> are lists.  KLayout
  is its list of inserted integer boxes.  The locale \<open>tile_sink\<close> is the contract of a sink that
  materializes its output: what a write of a fresh core to an untouched region does.
\<close>

type_synonym meta = "(string \<times> meta_value) list"

subsection \<open>Tensor and memmap sinks\<close>

record tensor_sink =
  sk_shape :: "int \<times> int"
  sk_output :: tensor
  sk_written :: "string list"

definition new_tensor_sink :: "int \<times> int \<Rightarrow> tensor_sink" where
  "new_tensor_sink shape =
     \<lparr>sk_shape = shape, sk_output = t_full (fst shape) (snd shape) 0, sk_written = []\<rparr>"

definition tensor_write_core ::
    "tensor_sink \<Rightarrow> string \<Rightarrow> bbox \<Rightarrow> tensor \<Rightarrow> meta \<Rightarrow> unit res \<times> tensor_sink" where
  "tensor_write_core s tid b c md =
     (if tid \<in> set (sk_written s) then (Inl (ValueError ''duplicate core write''), s)
      else let s1 = s\<lparr>sk_written := tid # sk_written s\<rparr> in
      if t_shape c \<noteq> (height b, width b) then (Inl (ValueError ''core tensor shape != bbox''), s1)
      else case t_put (sk_output s) (by0 b) (by1 b) (bx0 b) (bx1 b) c of
        Inl e \<Rightarrow> (Inl e, s1)
      | Inr out \<Rightarrow> (Inr (), s1\<lparr>sk_output := out\<rparr>))"

definition tensor_record_certified ::
    "tensor_sink \<Rightarrow> string \<Rightarrow> bbox \<Rightarrow> rat option \<Rightarrow> meta \<Rightarrow> unit res \<times> tensor_sink" where
  "tensor_record_certified s tid b fill md =
     (case fill of
        None \<Rightarrow> (Inl (ValueError ''verification-only skip cannot be represented''), s)
      | Some v \<Rightarrow> tensor_write_core s tid b (t_full (height b) (width b) v) md)"

text \<open>The memmap sink has no shape check of its own: NumPy's assignment broadcasts or raises.\<close>

definition memmap_write_core ::
    "tensor_sink \<Rightarrow> string \<Rightarrow> bbox \<Rightarrow> tensor \<Rightarrow> meta \<Rightarrow> unit res \<times> tensor_sink" where
  "memmap_write_core s tid b c md =
     (if tid \<in> set (sk_written s) then (Inl (ValueError ''duplicate core write''), s)
      else let s1 = s\<lparr>sk_written := tid # sk_written s\<rparr>;
               n = rows (sk_output s); m = cols (sk_output s);
               bh = max 0 (norm_idx n (by1 b) - norm_idx n (by0 b));
               bw = max 0 (norm_idx m (bx1 b) - norm_idx m (bx0 b));
               c1 = (if (rows c = 1 \<or> rows c = bh) \<and> (cols c = 1 \<or> cols c = bw)
                     then t_build bh bw (\<lambda>y x. t_get c (if rows c = 1 then 0 else y)
                                                     (if cols c = 1 then 0 else x))
                     else c) in
      case t_put (sk_output s) (by0 b) (by1 b) (bx0 b) (bx1 b) c1 of
        Inl e \<Rightarrow> (Inl e, s1)
      | Inr out \<Rightarrow> (Inr (), s1\<lparr>sk_output := out\<rparr>))"

definition memmap_record_certified ::
    "tensor_sink \<Rightarrow> string \<Rightarrow> bbox \<Rightarrow> rat option \<Rightarrow> meta \<Rightarrow> unit res \<times> tensor_sink" where
  "memmap_record_certified s tid b fill md =
     (case fill of
        None \<Rightarrow> (Inl (ValueError ''verification-only skip cannot be represented''), s)
      | Some v \<Rightarrow> memmap_write_core s tid b (t_full (height b) (width b) v) md)"

subsection \<open>The metric-only sink\<close>

record metric_sink =
  mo_tiles :: "string list"
  mo_covered_pixels :: int
  mo_metrics :: "(string \<times> rat) list"
  mo_metadata :: "(string \<times> meta) list"
  mo_certified_records :: "(string \<times> string) list"
  mo_certified_pixels :: int

definition new_metric_sink :: metric_sink where
  "new_metric_sink =
     \<lparr>mo_tiles = [], mo_covered_pixels = 0, mo_metrics = [], mo_metadata = [],
      mo_certified_records = [], mo_certified_pixels = 0\<rparr>"

text \<open>\<open>isinstance(value, (int, float))\<close>; a \<open>bool\<close> is an \<open>int\<close>.\<close>

definition meta_number :: "meta_value \<Rightarrow> rat option" where
  "meta_number v = (case v of MNum q \<Rightarrow> Some q | MBool b \<Rightarrow> Some (if b then 1 else 0) | _ \<Rightarrow> None)"

definition meta_metric_step :: "(string \<times> rat) list \<Rightarrow> string \<times> meta_value \<Rightarrow> (string \<times> rat) list" where
  "meta_metric_step ms kv =
     (case meta_number (snd kv) of None \<Rightarrow> ms | Some q \<Rightarrow> metric_step ms (fst kv, q))"

definition metric_write_core ::
    "metric_sink \<Rightarrow> string \<Rightarrow> bbox \<Rightarrow> tensor \<Rightarrow> meta \<Rightarrow> unit res \<times> metric_sink" where
  "metric_write_core s tid b c md =
     (Inr (), s\<lparr>mo_tiles := mo_tiles s @ [tid],
                mo_covered_pixels := mo_covered_pixels s + area b,
                mo_metadata := AList.update tid md (mo_metadata s),
                mo_metrics := foldl meta_metric_step (mo_metrics s) md\<rparr>)"

definition setdefault :: "string \<Rightarrow> meta_value \<Rightarrow> meta \<Rightarrow> meta" where
  "setdefault k v md = (if map_of md k = None then md @ [(k, v)] else md)"

definition metric_record_certified ::
    "metric_sink \<Rightarrow> string \<Rightarrow> bbox \<Rightarrow> rat option \<Rightarrow> meta \<Rightarrow> unit res \<times> metric_sink" where
  "metric_record_certified s tid b fill md =
     (let disposition = (if fill \<noteq> None then ''EXACT_OUTPUT_SKIP'' else ''VERIFICATION_ONLY_SKIP'');
          m1 = setdefault ''screen_disposition'' (MStr disposition) md;
          m2 = (case fill of None \<Rightarrow> m1 | Some v \<Rightarrow> setdefault ''certified_exact_fill'' (MNum v) m1);
          s1 = snd (metric_write_core s tid b [] m2) in
      (Inr (), s1\<lparr>mo_certified_records := AList.update tid disposition (mo_certified_records s1),
                  mo_certified_pixels := mo_certified_pixels s1 + area b\<rparr>))"

definition metric_finalize :: "metric_sink \<Rightarrow> nat \<times> int \<times> (string \<times> rat) list" where
  "metric_finalize s = (length (mo_tiles s), mo_covered_pixels s, mo_metrics s)"

text \<open>\<open>covered_pixels(sink)\<close>: the attribute when there is one, else the number of written ids.\<close>

definition covered_pixels_metric :: "metric_sink \<Rightarrow> int" where
  "covered_pixels_metric s = mo_covered_pixels s"

definition covered_pixels_tensor :: "tensor_sink \<Rightarrow> int" where
  "covered_pixels_tensor s = int (length (sk_written s))"

subsection \<open>The Manhattan sink\<close>

definition runs_step :: "(int \<times> int) list \<times> int \<times> int \<Rightarrow> int \<Rightarrow> (int \<times> int) list \<times> int \<times> int" where
  "runs_step st i =
     (case st of (runs, start, prev) \<Rightarrow>
        if i = prev + 1 then (runs, start, i) else (runs @ [(start, prev + 1)], i, i))"

definition row_runs :: "rat list \<Rightarrow> (int \<times> int) list" where
  "row_runs row =
     (case map int (filter (\<lambda>i. row ! i \<noteq> 0) [0..<length row]) of
        [] \<Rightarrow> []
      | i # idx \<Rightarrow> (case foldl runs_step ([], i, i) idx of
          (runs, start, prev) \<Rightarrow> runs @ [(start, prev + 1)]))"

function dbu_down :: "int \<Rightarrow> rat \<Rightarrow> int \<times> rat" where
  "dbu_down ppd d = (if d > 10 then dbu_down (ppd * 10) (d / 10) else (ppd, d))"
  by pat_completeness auto

termination
proof (relation "measure (\<lambda>(ppd, d). nat \<lceil>d\<rceil>)")
  fix ppd :: int and d :: rat assume d: "d > 10"
  have "\<lceil>d / 10\<rceil> < \<lceil>d\<rceil>"
  proof -
    have "d / 10 \<le> d - 1" using d by simp
    then have "\<lceil>d / 10\<rceil> \<le> \<lceil>d - 1\<rceil>" by (rule ceiling_mono)
    then show ?thesis by simp
  qed
  moreover have "0 < \<lceil>d\<rceil>" using d by (simp add: zero_less_ceiling)
  ultimately show "((ppd * 10, d / 10), ppd, d) \<in> measure (\<lambda>(ppd, d). nat \<lceil>d\<rceil>)" by simp
qed simp

declare dbu_down.simps [simp del]

partial_function (option) dbu_up :: "int \<Rightarrow> rat \<Rightarrow> (int \<times> rat) option" where
  "dbu_up ppd d = (if d < 1 / 100 then dbu_up (ppd * 10) (d * 10) else Some (ppd, d))"

text \<open>\<open>(pixels_per_dbu, dbu_um)\<close>; \<open>None\<close> inside would be a loop that never ends.\<close>

definition dbu_for_pixel :: "rat \<Rightarrow> (int \<times> rat) option res" where
  "dbu_for_pixel px =
     (if px \<le> 0 then Inl (ValueError ''pixel_size_nm must be positive'')
      else case dbu_down 1 px of (ppd, d) \<Rightarrow>
        Inr (map_option (\<lambda>(p, d'). (p, d' / 1000)) (dbu_up ppd d)))"

record manhattan_sink =
  mh_shape :: "int \<times> int"
  mh_ppd :: int
  mh_dbu_um :: rat
  mh_shapes :: "lbox list"
  mh_written :: "string list"
  mh_n_rectangles :: nat

definition new_manhattan_sink :: "int \<times> int \<Rightarrow> rat \<Rightarrow> manhattan_sink option res" where
  "new_manhattan_sink shape pixel_size_nm =
     ebind (dbu_for_pixel pixel_size_nm) (\<lambda>r. Inr (map_option (\<lambda>(ppd, dbu).
       \<lparr>mh_shape = shape, mh_ppd = ppd, mh_dbu_um = dbu, mh_shapes = [], mh_written = [],
        mh_n_rectangles = 0\<rparr>) r))"

definition insert_box :: "manhattan_sink \<Rightarrow> int \<Rightarrow> int \<Rightarrow> int \<Rightarrow> int \<Rightarrow> manhattan_sink" where
  "insert_box s x0 y_start x1 y_end =
     (let ppd = mh_ppd s; h = fst (mh_shape s) in
      s\<lparr>mh_shapes := mh_shapes s @ [(x0 * ppd, (h - y_end) * ppd, x1 * ppd, (h - y_start) * ppd)],
        mh_n_rectangles := mh_n_rectangles s + 1\<rparr>)"

text \<open>One row of \<open>write_core\<close>: runs that ended are flushed, runs that begin are opened.\<close>

type_synonym open_runs = "((int \<times> int) \<times> int) list"

definition close_run ::
    "int \<Rightarrow> int \<Rightarrow> (int \<times> int) list \<Rightarrow> open_runs \<times> manhattan_sink \<Rightarrow> int \<times> int \<Rightarrow>
     open_runs \<times> manhattan_sink" where
  "close_run x0g y_end runs st key =
     (if key \<in> set runs then st
      else (AList.delete key (fst st),
            insert_box (snd st) (x0g + fst key) (the (map_of (fst st) key)) (x0g + snd key) y_end))"

definition open_run :: "int \<Rightarrow> open_runs \<Rightarrow> int \<times> int \<Rightarrow> open_runs" where
  "open_run y opn key = (if map_of opn key = None then opn @ [(key, y)] else opn)"

definition row_step ::
    "int \<Rightarrow> int \<Rightarrow> open_runs \<times> manhattan_sink \<Rightarrow> nat \<times> rat list \<Rightarrow> open_runs \<times> manhattan_sink" where
  "row_step x0g y0g st ir =
     (let y = y0g + int (fst ir); runs = row_runs (snd ir);
          st1 = foldl (close_run x0g y runs) st (map fst (fst st)) in
      (foldl (open_run y) (fst st1) runs, snd st1))"

definition flush_run :: "int \<Rightarrow> int \<Rightarrow> manhattan_sink \<Rightarrow> (int \<times> int) \<times> int \<Rightarrow> manhattan_sink" where
  "flush_run x0g y_end s kv = insert_box s (x0g + fst (fst kv)) (snd kv) (x0g + snd (fst kv)) y_end"

definition encode_core :: "manhattan_sink \<Rightarrow> bbox \<Rightarrow> tensor \<Rightarrow> manhattan_sink" where
  "encode_core s b c =
     (let st = foldl (row_step (bx0 b) (by0 b)) ([], s) (enumerate 0 c) in
      foldl (flush_run (bx0 b) (by0 b + rows c)) (snd st) (fst st))"

definition binary_tensor :: "tensor \<Rightarrow> bool" where
  "binary_tensor c \<longleftrightarrow> list_all (list_all (\<lambda>v. v = 0 \<or> v = 1)) c"

definition manhattan_write_core ::
    "manhattan_sink \<Rightarrow> string \<Rightarrow> bbox \<Rightarrow> tensor \<Rightarrow> meta \<Rightarrow> unit res \<times> manhattan_sink" where
  "manhattan_write_core s tid b c md =
     (if tid \<in> set (mh_written s) then (Inl (ValueError ''duplicate core write''), s)
      else let s1 = s\<lparr>mh_written := tid # mh_written s\<rparr> in
      if t_shape c \<noteq> (height b, width b) then (Inl (ValueError ''core tensor shape != bbox''), s1)
      else if \<not> binary_tensor c
        then (Inl (ValueError ''StreamingManhattanTileSink needs binarised cores''), s1)
      else (Inr (), encode_core s1 b c))"

definition manhattan_record_certified ::
    "manhattan_sink \<Rightarrow> string \<Rightarrow> bbox \<Rightarrow> rat option \<Rightarrow> meta \<Rightarrow> unit res \<times> manhattan_sink" where
  "manhattan_record_certified s tid b fill md =
     (if tid \<in> set (mh_written s) then (Inl (ValueError ''duplicate core write''), s)
      else let s1 = s\<lparr>mh_written := tid # mh_written s\<rparr> in
      case fill of
        None \<Rightarrow> (Inl (ValueError ''verification-only skip cannot be represented''), s1)
      | Some v \<Rightarrow>
          if v = 1 then (Inr (), insert_box s1 (bx0 b) (by0 b) (bx1 b) (by1 b))
          else if v \<noteq> 0 then (Inl (ValueError ''exact fill is not representable in a binary mask''), s1)
          else (Inr (), s1))"

subsection \<open>The contract of a materializing sink\<close>

text \<open>
  \<open>content s p\<close> is the output at pixel \<open>p\<close>.  A write of a fresh id, whose shape is the core's and
  whose values the sink accepts, to a region that is still zero, succeeds, sets the region and
  touches nothing else.
\<close>

text \<open>A list of core writes, stopping at the first exception.\<close>

fun write_all ::
    "('s \<Rightarrow> string \<Rightarrow> bbox \<Rightarrow> tensor \<Rightarrow> meta \<Rightarrow> unit res \<times> 's) \<Rightarrow> 's \<Rightarrow>
     (string \<times> bbox \<times> tensor \<times> meta) list \<Rightarrow> 's res" where
  "write_all wr s [] = Inr s"
| "write_all wr s ((tid, b, c, md) # ws) =
     (case wr s tid b c md of (Inl e, s') \<Rightarrow> Inl e | (Inr _, s') \<Rightarrow> write_all wr s' ws)"

definition write_boxes :: "(string \<times> bbox \<times> tensor \<times> meta) list \<Rightarrow> bbox list" where
  "write_boxes ws = map (\<lambda>w. fst (snd w)) ws"

lemma write_boxes_simps [simp]:
  "write_boxes [] = []"
  "write_boxes ((tid, b, c, md) # ws) = b # write_boxes ws"
  by (simp_all add: write_boxes_def)

lemma image_window:
  assumes "t_ok img" "rows img = fst shape" "cols img = snd shape" "bbox_ok b"
    "contains (dom_box shape) b"
  shows "t_ok (t_slice img (by0 b) (by1 b) (bx0 b) (bx1 b)) \<and>
    t_shape (t_slice img (by0 b) (by1 b) (bx0 b) (bx1 b)) = (height b, width b) \<and>
    (\<forall>p. in_box p b \<longrightarrow> t_get (t_slice img (by0 b) (by1 b) (bx0 b) (bx1 b)) (snd p - by0 b) (fst p - bx0 b) =
       t_get img (snd p) (fst p))"
proof -
  have bb: "0 \<le> by0 b" "by0 b < by1 b" "by1 b \<le> rows img" "0 \<le> bx0 b" "bx0 b < bx1 b" "bx1 b \<le> cols img"
    using assms(2-5) by (simp_all add: bbox_ok_def contains_def dom_box_def)
  then show ?thesis
    using assms(1) t_get_slice [OF assms(1), of "by0 b" "by1 b" "bx0 b" "bx1 b"]
    by (simp add: t_ok_slice rows_slice cols_slice height_def width_def t_shape_def in_box_def)
qed

locale tile_sink =
  fixes write_core :: "'s \<Rightarrow> string \<Rightarrow> bbox \<Rightarrow> tensor \<Rightarrow> meta \<Rightarrow> unit res \<times> 's"
    and fresh_sink :: 's
    and written :: "'s \<Rightarrow> string set"
    and content :: "'s \<Rightarrow> pixel \<Rightarrow> rat"
    and valid :: "'s \<Rightarrow> bool"
    and sink_shape :: "int \<times> int"
    and accepts :: "tensor \<Rightarrow> bool"
  assumes fresh: "valid fresh_sink" "written fresh_sink = {}"
    "in_domain sink_shape p \<Longrightarrow> content fresh_sink p = 0"
    and duplicate: "tid \<in> written s \<Longrightarrow> \<exists>e. write_core s tid b c md = (Inl e, s)"
    and write_fresh: "valid s \<Longrightarrow> tid \<notin> written s \<Longrightarrow> bbox_ok b \<Longrightarrow> contains (dom_box sink_shape) b \<Longrightarrow>
      t_ok c \<Longrightarrow> t_shape c = (height b, width b) \<Longrightarrow> accepts c \<Longrightarrow>
      \<forall>p. in_box p b \<longrightarrow> content s p = 0 \<Longrightarrow>
      \<exists>s'. write_core s tid b c md = (Inr (), s') \<and> valid s' \<and> written s' = insert tid (written s) \<and>
        (\<forall>p. in_domain sink_shape p \<longrightarrow> content s' p =
           (if in_box p b then t_get c (snd p - by0 b) (fst p - bx0 b) else content s p))"
begin

lemma write_all_content:
  assumes "valid s" "distinct (map fst ws)" "\<forall>w\<in>set ws. fst w \<notin> written s"
    and "\<forall>(tid, b, c, md)\<in>set ws. bbox_ok b \<and> contains (dom_box sink_shape) b \<and> t_ok c \<and>
           t_shape c = (height b, width b) \<and> accepts c"
    and "\<forall>p. cover_count (write_boxes ws) p \<le> 1"
    and "\<forall>p. 0 < cover_count (write_boxes ws) p \<longrightarrow> content s p = 0"
  shows "\<exists>s'. write_all write_core s ws = Inr s' \<and> valid s' \<and> written s' = written s \<union> set (map fst ws) \<and>
    (\<forall>p. in_domain sink_shape p \<longrightarrow> cover_count (write_boxes ws) p = 0 \<longrightarrow>
       content s' p = content s p) \<and>
    (\<forall>tid b c md p. (tid, b, c, md) \<in> set ws \<longrightarrow> in_box p b \<longrightarrow>
       content s' p = t_get c (snd p - by0 b) (fst p - bx0 b))"
  using assms
proof (induction ws arbitrary: s)
  case (Cons w ws)
  obtain tid b c md where w: "w = (tid, b, c, md)" by (cases w)
  have pre: "bbox_ok b" "contains (dom_box sink_shape) b" "t_ok c" "t_shape c = (height b, width b)"
    "accepts c" using Cons.prems(4) by (auto simp: w)
  have zero: "\<forall>p. in_box p b \<longrightarrow> content s p = 0" using Cons.prems(6) by (simp add: w)
  from write_fresh [OF Cons.prems(1) _ pre zero, of tid md] Cons.prems(3) obtain s1 where
    s1: "write_core s tid b c md = (Inr (), s1)" "valid s1" "written s1 = insert tid (written s)"
      "\<forall>p. in_domain sink_shape p \<longrightarrow> content s1 p =
         (if in_box p b then t_get c (snd p - by0 b) (fst p - bx0 b) else content s p)"
    by (auto simp: w)
  have dom: "in_domain sink_shape p" if "in_box p b'" "contains (dom_box sink_shape) b'" for p b'
    using that contains_in_box in_box_dom_box by blast
  have sep: "\<not> in_box p b" if "0 < cover_count (write_boxes ws) p" for p
  proof
    assume "in_box p b"
    with that have "2 \<le> cover_count (write_boxes (w # ws)) p" by (simp add: w)
    with Cons.prems(5) show False by (metis Suc_1 not_less_eq_eq)
  qed
  have "\<exists>s'. write_all write_core s1 ws = Inr s' \<and> valid s' \<and> written s' = written s1 \<union> set (map fst ws) \<and>
    (\<forall>p. in_domain sink_shape p \<longrightarrow> cover_count (write_boxes ws) p = 0 \<longrightarrow>
       content s' p = content s1 p) \<and>
    (\<forall>tid b c md p. (tid, b, c, md) \<in> set ws \<longrightarrow> in_box p b \<longrightarrow>
       content s' p = t_get c (snd p - by0 b) (fst p - bx0 b))"
  proof (rule Cons.IH [OF s1(2)])
    show "distinct (map fst ws)" "\<forall>w\<in>set ws. fst w \<notin> written s1"
      using Cons.prems(2,3) s1(3) by (auto simp: w)
    show "\<forall>(tid, b, c, md)\<in>set ws. bbox_ok b \<and> contains (dom_box sink_shape) b \<and> t_ok c \<and>
           t_shape c = (height b, width b) \<and> accepts c" using Cons.prems(4) by simp
    show "\<forall>p. cover_count (write_boxes ws) p \<le> 1"
      using Cons.prems(5) by (auto simp: w split: if_splits intro: le_SucI)
    show "\<forall>p. 0 < cover_count (write_boxes ws) p \<longrightarrow> content s1 p = 0"
    proof (intro allI impI)
      fix p assume p: "0 < cover_count (write_boxes ws) p"
      then obtain v where v: "v \<in> set ws" "in_box p (fst (snd v))"
        by (auto simp: cover_count_pos write_boxes_def)
      then have "contains (dom_box sink_shape) (fst (snd v))" using Cons.prems(4) by fastforce
      with v(2) have "in_domain sink_shape p" by (rule dom)
      moreover have "0 < cover_count (write_boxes (w # ws)) p" using p by (simp add: w)
      then have "content s p = 0" using Cons.prems(6) by blast
      ultimately show "content s1 p = 0" using s1(4) sep [OF p] by (cases p) auto
    qed
  qed
  then obtain s' where s': "write_all write_core s1 ws = Inr s'" "valid s'"
    "written s' = written s1 \<union> set (map fst ws)"
    "\<forall>p. in_domain sink_shape p \<longrightarrow> cover_count (write_boxes ws) p = 0 \<longrightarrow> content s' p = content s1 p"
    "\<forall>tid b c md p. (tid, b, c, md) \<in> set ws \<longrightarrow> in_box p b \<longrightarrow>
       content s' p = t_get c (snd p - by0 b) (fst p - bx0 b)" by blast
  have "content s' p = t_get c (snd p - by0 b) (fst p - bx0 b)" if p: "in_box p b" for p
  proof -
    have "cover_count (write_boxes ws) p = 0" using sep p by blast
    with s'(4) s1(4) dom [OF p pre(2)] p show ?thesis by (cases p) simp
  qed
  then show ?case using s' s1 by (auto simp: w split: if_splits)
qed simp

text \<open>The windows of one image, written over an exact cover of the domain, are the image.\<close>

lemma assembles:
  assumes "distinct (map fst ws)" "exact_cover (write_boxes ws) (in_domain sink_shape)"
    and "t_ok img" "rows img = fst sink_shape" "cols img = snd sink_shape"
    and "list_all (\<lambda>(tid, b, c, md). bbox_ok b \<and> c = t_slice img (by0 b) (by1 b) (bx0 b) (bx1 b)) ws"
    and "\<forall>w\<in>set ws. accepts (fst (snd (snd w)))"
  shows "\<exists>s. write_all write_core fresh_sink ws = Inr s \<and> valid s \<and>
    (\<forall>p. in_domain sink_shape p \<longrightarrow> content s p = t_get img (snd p) (fst p))"
proof -
  have core: "bbox_ok b \<and> contains (dom_box sink_shape) b \<and> t_ok c \<and> t_shape c = (height b, width b) \<and>
      (\<forall>p. in_box p b \<longrightarrow> t_get c (snd p - by0 b) (fst p - bx0 b) = t_get img (snd p) (fst p))"
    if "(tid, b, c, md) \<in> set ws" for tid b c md
  proof -
    have b: "bbox_ok b" and c: "c = t_slice img (by0 b) (by1 b) (bx0 b) (bx1 b)"
      using assms(6) that by (auto simp: list_all_iff)
    have "b \<in> set (write_boxes ws)" using that by (force simp: write_boxes_def)
    from exact_cover_in_domain [OF assms(2) this b] have dom: "contains (dom_box sink_shape) b" .
    from image_window [OF assms(3-5) b dom] b dom show ?thesis unfolding c by blast
  qed
  have pre: "\<forall>(tid, b, c, md)\<in>set ws. bbox_ok b \<and> contains (dom_box sink_shape) b \<and> t_ok c \<and>
      t_shape c = (height b, width b) \<and> accepts c"
    using core assms(7) by fastforce
  have once: "\<forall>p. cover_count (write_boxes ws) p \<le> 1"
    and inside: "\<forall>p. 0 < cover_count (write_boxes ws) p \<longrightarrow> content fresh_sink p = 0"
    using assms(2) fresh(3) unfolding exact_cover_def by auto
  have "\<forall>w\<in>set ws. fst w \<notin> written fresh_sink" by (simp add: fresh(2))
  from write_all_content [OF fresh(1) assms(1) this pre once inside] obtain s where
    s: "write_all write_core fresh_sink ws = Inr s" "valid s"
      "\<forall>tid b c md p. (tid, b, c, md) \<in> set ws \<longrightarrow> in_box p b \<longrightarrow>
         content s p = t_get c (snd p - by0 b) (fst p - bx0 b)" by blast
  have "content s p = t_get img (snd p) (fst p)" if "in_domain sink_shape p" for p
  proof -
    have "cover_count (write_boxes ws) p = 1" using assms(2) that unfolding exact_cover_def by presburger
    then have "0 < cover_count (write_boxes ws) p" by simp
    then obtain w where w: "w \<in> set ws" "in_box p (fst (snd w))"
      by (auto simp: cover_count_pos write_boxes_def)
    obtain tid b c md where "w = (tid, b, c, md)" by (cases w)
    with w have m: "(tid, b, c, md) \<in> set ws" "in_box p b" by simp_all
    then have "content s p = t_get c (snd p - by0 b) (fst p - bx0 b)" using s(3) by blast
    also have "\<dots> = t_get img (snd p) (fst p)" using core [OF m(1)] m(2) by blast
    finally show ?thesis .
  qed
  with s show ?thesis by blast
qed

end

subsection \<open>Tensor and memmap sinks meet it\<close>

definition tensor_valid :: "int \<times> int \<Rightarrow> tensor_sink \<Rightarrow> bool" where
  "tensor_valid shape s \<longleftrightarrow> t_ok (sk_output s) \<and> rows (sk_output s) = fst shape \<and>
     (0 < fst shape \<longrightarrow> cols (sk_output s) = snd shape)"

definition tensor_content :: "tensor_sink \<Rightarrow> pixel \<Rightarrow> rat" where
  "tensor_content s p = t_get (sk_output s) (snd p) (fst p)"

lemma in_dom_bounds:
  assumes "bbox_ok b" "contains (dom_box shape) b"
  shows "0 \<le> by0 b" "by0 b < by1 b" "by1 b \<le> fst shape" "0 \<le> bx0 b" "bx0 b < bx1 b" "bx1 b \<le> snd shape"
  using assms by (auto simp: bbox_ok_def contains_def dom_box_def)

lemma tensor_write_effect:
  assumes "tensor_valid shape s" "tid \<notin> set (sk_written s)" "bbox_ok b" "contains (dom_box shape) b"
    "t_ok c" "t_shape c = (height b, width b)"
  shows "\<exists>s'. tensor_write_core s tid b c md = (Inr (), s') \<and>
    memmap_write_core s tid b c md = (Inr (), s') \<and> tensor_valid shape s' \<and>
    set (sk_written s') = insert tid (set (sk_written s)) \<and>
    (\<forall>p. in_domain shape p \<longrightarrow> tensor_content s' p =
       (if in_box p b then t_get c (snd p - by0 b) (fst p - bx0 b) else tensor_content s p))"
proof -
  note bb = in_dom_bounds [OF assms(3,4)]
  have sh: "rows (sk_output s) = fst shape" "cols (sk_output s) = snd shape" "t_ok (sk_output s)"
    using assms(1) bb by (simp_all add: tensor_valid_def)
  define out where "out = t_build (fst shape) (snd shape) (\<lambda>y x.
    if by0 b \<le> y \<and> y < by1 b \<and> bx0 b \<le> x \<and> x < bx1 b then t_get c (y - by0 b) (x - bx0 b)
    else t_get (sk_output s) y x)"
  have put: "t_put (sk_output s) (by0 b) (by1 b) (bx0 b) (bx1 b) c = Inr out"
    using t_put_Inr [of "by0 b" "by1 b" "sk_output s" "bx0 b" "bx1 b" c] bb sh assms(6)
    by (simp add: out_def height_def width_def)
  have dims: "rows c = by1 b - by0 b" "cols c = bx1 b - bx0 b"
    using assms(6) by (simp_all add: t_shape_def height_def width_def)
  have first: "(if n = 1 then 0 else y) = y" if "0 \<le> y" "y < n" for n y :: int using that by auto
  have bc: "t_build (by1 b - by0 b) (bx1 b - bx0 b)
      (\<lambda>y x. t_get c (if rows c = 1 then 0 else y) (if cols c = 1 then 0 else x)) = c"
    using assms(5) dims bb by (intro t_ext) (simp_all add: first del: if_split)
  let ?s' = "s\<lparr>sk_written := tid # sk_written s, sk_output := out\<rparr>"
  have "tensor_write_core s tid b c md = (Inr (), ?s')"
    using assms(2,6) put by (simp add: tensor_write_core_def)
  moreover have "memmap_write_core s tid b c md = (Inr (), ?s')"
    using assms(2) put bb sh bc dims by (simp add: memmap_write_core_def Let_def)
  moreover have "tensor_valid shape ?s'" using bb by (simp add: tensor_valid_def out_def)
  moreover have "\<forall>p. in_domain shape p \<longrightarrow> tensor_content ?s' p =
       (if in_box p b then t_get c (snd p - by0 b) (fst p - bx0 b) else tensor_content s p)"
    by (auto simp: tensor_content_def out_def in_domain_def in_box_def)
  ultimately show ?thesis by auto
qed

lemma tensor_fresh:
  "tensor_valid (int h, int w) (new_tensor_sink (int h, int w))"
  "sk_written (new_tensor_sink shape) = []"
  "in_domain shape p \<Longrightarrow> tensor_content (new_tensor_sink shape) p = 0"
  by (auto simp: tensor_valid_def new_tensor_sink_def t_full_def tensor_content_def in_domain_def)

interpretation tensor_sink: tile_sink tensor_write_core "new_tensor_sink (int h, int w)"
    "\<lambda>s. set (sk_written s)" tensor_content "tensor_valid (int h, int w)" "(int h, int w)" "\<lambda>_. True"
  for h w
proof unfold_locales
  fix s tid b md and c :: tensor
  assume "tensor_valid (int h, int w) s" "tid \<notin> set (sk_written s)" "bbox_ok b"
    "contains (dom_box (int h, int w)) b" "t_ok c" "t_shape c = (height b, width b)"
  from tensor_write_effect [OF this, of md]
  show "\<exists>s'. tensor_write_core s tid b c md = (Inr (), s') \<and> tensor_valid (int h, int w) s' \<and>
      set (sk_written s') = insert tid (set (sk_written s)) \<and>
      (\<forall>p. in_domain (int h, int w) p \<longrightarrow> tensor_content s' p =
        (if in_box p b then t_get c (snd p - by0 b) (fst p - bx0 b) else tensor_content s p))"
    by blast
qed (auto simp: tensor_fresh tensor_write_core_def)

interpretation memmap_sink: tile_sink memmap_write_core "new_tensor_sink (int h, int w)"
    "\<lambda>s. set (sk_written s)" tensor_content "tensor_valid (int h, int w)" "(int h, int w)" "\<lambda>_. True"
  for h w
proof unfold_locales
  fix s tid b md and c :: tensor
  assume "tensor_valid (int h, int w) s" "tid \<notin> set (sk_written s)" "bbox_ok b"
    "contains (dom_box (int h, int w)) b" "t_ok c" "t_shape c = (height b, width b)"
  from tensor_write_effect [OF this, of md]
  show "\<exists>s'. memmap_write_core s tid b c md = (Inr (), s') \<and> tensor_valid (int h, int w) s' \<and>
      set (sk_written s') = insert tid (set (sk_written s)) \<and>
      (\<forall>p. in_domain (int h, int w) p \<longrightarrow> tensor_content s' p =
        (if in_box p b then t_get c (snd p - by0 b) (fst p - bx0 b) else tensor_content s p))"
    by blast
qed (auto simp: tensor_fresh memmap_write_core_def)

subsection \<open>Row runs\<close>

lemma runs_fold:
  assumes "sorted_wrt (<) (prev # idx)" "start \<le> prev"
    and "\<forall>r\<in>set runs. fst r < snd r"
    and "foldl runs_step (runs, start, prev) idx = (runs', start', prev')"
  shows "(\<forall>t. ivs_count (runs' @ [(start', prev' + 1)]) t =
      ivs_count (runs @ [(start, prev + 1)]) t + (if t \<in> set idx then 1 else 0)) \<and>
    (\<forall>r\<in>set (runs' @ [(start', prev' + 1)]). fst r < snd r)"
  using assms
proof (induction idx arbitrary: runs start prev)
  case Nil
  then show ?case by simp
next
  case (Cons i idx)
  have i: "prev < i" "sorted_wrt (<) (i # idx)" "i \<notin> set idx" using Cons.prems(1) by auto
  obtain runs1 start1 where step: "runs_step (runs, start, prev) i = (runs1, start1, i)"
      "start1 \<le> i" "\<forall>r\<in>set runs1. fst r < snd r"
      "\<forall>t. ivs_count (runs1 @ [(start1, i + 1)]) t =
         ivs_count (runs @ [(start, prev + 1)]) t + (if t = i then 1 else 0)"
  proof (cases "i = prev + 1")
    case True
    then show thesis using Cons.prems(2,3) by (intro that [of runs start]) (auto simp: runs_step_def)
  next
    case False
    then show thesis using Cons.prems(2,3) i(1)
      by (intro that [of "runs @ [(start, prev + 1)]" i]) (auto simp: runs_step_def)
  qed
  have "foldl runs_step (runs1, start1, i) idx = (runs', start', prev')"
    using Cons.prems(4) step(1) by simp
  from Cons.IH [OF i(2) step(2,3) this] step(4) i(3) show ?case by auto
qed

lemma row_runs_exact:
  "ivs_count (row_runs row) t = (if 0 \<le> t \<and> t < int (length row) \<and> row ! nat t \<noteq> 0 then 1 else 0)"
  "r \<in> set (row_runs row) \<Longrightarrow> fst r < snd r"
proof -
  let ?idx = "map int (filter (\<lambda>i. row ! i \<noteq> 0) [0..<length row])"
  have mem: "t \<in> set ?idx \<longleftrightarrow> 0 \<le> t \<and> t < int (length row) \<and> row ! nat t \<noteq> 0" for t
  proof
    assume "0 \<le> t \<and> t < int (length row) \<and> row ! nat t \<noteq> 0"
    then have "nat t \<in> set (filter (\<lambda>i. row ! i \<noteq> 0) [0..<length row])" "t = int (nat t)" by auto
    then show "t \<in> set ?idx" unfolding set_map by blast
  qed auto
  have sorted: "sorted_wrt (<) ?idx"
    by (simp add: sorted_wrt_map sorted_wrt_filter sorted_wrt_upt)
  have "(\<forall>t. ivs_count (row_runs row) t = (if t \<in> set ?idx then 1 else 0)) \<and>
      (\<forall>r\<in>set (row_runs row). fst r < snd r)"
  proof (cases ?idx)
    case Nil
    then show ?thesis by (simp add: row_runs_def)
  next
    case (Cons i idx)
    obtain runs' start' prev' where fold: "foldl runs_step ([], i, i) idx = (runs', start', prev')"
      by (cases "foldl runs_step ([], i, i) idx")
    from sorted Cons have si: "sorted_wrt (<) (i # idx)" by simp
    then have "i \<notin> set idx" by auto
    with runs_fold [OF si order_refl _ fold] show ?thesis
      unfolding row_runs_def Cons by (auto simp: fold)
  qed
  then show "ivs_count (row_runs row) t = (if 0 \<le> t \<and> t < int (length row) \<and> row ! nat t \<noteq> 0 then 1 else 0)"
    "r \<in> set (row_runs row) \<Longrightarrow> fst r < snd r" unfolding mem by blast+
qed

lemma ivs_count_mem: "i \<in> set is \<Longrightarrow> fst i \<le> t \<Longrightarrow> t < snd i \<Longrightarrow> 1 \<le> ivs_count is t"
  by (induction "is") auto

lemma row_runs_distinct: "distinct (row_runs row)"
proof (rule ccontr)
  assume "\<not> distinct (row_runs row)"
  then obtain r xs ys zs where d: "row_runs row = xs @ [r] @ ys @ [r] @ zs"
    using not_distinct_decomp by blast
  then have r: "r \<in> set (row_runs row)" by simp
  have split: "ivs_count (as @ bs) t = ivs_count as t + ivs_count bs t" for as bs t
    by (induction as) auto
  have "2 \<le> ivs_count (row_runs row) (fst r)"
    unfolding d split using row_runs_exact(2) [OF r] by simp
  then show False by (simp add: row_runs_exact(1) split: if_splits)
qed

subsection \<open>The run-length encoding covers each set pixel once\<close>

text \<open>A raster pixel is covered by an inserted box when its flipped square lies in it.\<close>

definition box_covers :: "manhattan_sink \<Rightarrow> pixel \<Rightarrow> lbox \<Rightarrow> bool" where
  "box_covers s p bx =
     (case bx of (l, b, r, t) \<Rightarrow>
        let ppd = mh_ppd s; h = fst (mh_shape s) in
        l \<le> fst p * ppd \<and> (fst p + 1) * ppd \<le> r \<and>
        b \<le> (h - snd p - 1) * ppd \<and> (h - snd p) * ppd \<le> t)"

definition mh_count :: "manhattan_sink \<Rightarrow> pixel \<Rightarrow> nat" where
  "mh_count s p = length (filter (box_covers s p) (mh_shapes s))"

lemma insert_box_same [simp]:
  "mh_shape (insert_box s a b c d) = mh_shape s" "mh_ppd (insert_box s a b c d) = mh_ppd s"
  "mh_written (insert_box s a b c d) = mh_written s" "mh_dbu_um (insert_box s a b c d) = mh_dbu_um s"
  by (simp_all add: insert_box_def Let_def)

lemma insert_box_count:
  assumes "0 < mh_ppd s"
  shows "mh_count (insert_box s x0 ys x1 ye) p =
    mh_count s p + (if x0 \<le> fst p \<and> fst p < x1 \<and> ys \<le> snd p \<and> snd p < ye then 1 else 0)"
proof -
  have cong: "box_covers (insert_box s x0 ys x1 ye) p = box_covers s p"
    by (simp add: box_covers_def fun_eq_iff)
  have "box_covers s p (x0 * mh_ppd s, (fst (mh_shape s) - ye) * mh_ppd s, x1 * mh_ppd s,
      (fst (mh_shape s) - ys) * mh_ppd s) \<longleftrightarrow> x0 \<le> fst p \<and> fst p < x1 \<and> ys \<le> snd p \<and> snd p < ye"
    using assms by (simp add: box_covers_def Let_def mult_le_cancel_right) linarith
  then show ?thesis
    by (simp add: mh_count_def cong) (simp add: insert_box_def Let_def)
qed

definition open_count :: "int \<Rightarrow> open_runs \<Rightarrow> pixel \<Rightarrow> nat" where
  "open_count x0g opn p =
     length (filter (\<lambda>(k, ys). x0g + fst k \<le> fst p \<and> fst p < x0g + snd k \<and> ys \<le> snd p) opn)"

lemma open_count_simps [simp]:
  "open_count x0g [] p = 0"
  "open_count x0g ((k, ys) # opn) p =
     (if x0g + fst k \<le> fst p \<and> fst p < x0g + snd k \<and> ys \<le> snd p then 1 else 0) + open_count x0g opn p"
  "open_count x0g (opn @ opn') p = open_count x0g opn p + open_count x0g opn' p"
  by (simp_all add: open_count_def)

lemma flush_count:
  assumes "0 < mh_ppd s"
  shows "mh_count (foldl (flush_run x0g ye) s opn) p =
      mh_count s p + (if snd p < ye then open_count x0g opn p else 0) \<and>
    mh_ppd (foldl (flush_run x0g ye) s opn) = mh_ppd s \<and>
    mh_shape (foldl (flush_run x0g ye) s opn) = mh_shape s \<and>
    mh_written (foldl (flush_run x0g ye) s opn) = mh_written s"
  using assms
proof (induction opn arbitrary: s)
  case (Cons o1 opn)
  have pos: "0 < mh_ppd (flush_run x0g ye s o1)" using Cons.prems by (simp add: flush_run_def)
  from Cons.IH [OF pos] show ?case
    using Cons.prems by (cases o1) (auto simp: flush_run_def insert_box_count)
qed simp

text \<open>The closing loop flushes exactly the open runs that the new row does not continue.\<close>

lemma close_fold:
  assumes "0 < mh_ppd s" "distinct (map fst opn)" "set (map fst pre) \<inter> set (map fst opn) = {}"
  shows "\<exists>s'. foldl (close_run x0g y runs) (pre @ opn, s) (map fst opn) =
      (pre @ filter (\<lambda>o1. fst o1 \<in> set runs) opn, s') \<and>
    s' = foldl (flush_run x0g y) s (filter (\<lambda>o1. fst o1 \<notin> set runs) opn)"
  using assms
proof (induction opn arbitrary: pre s)
  case (Cons o1 opn)
  obtain k ys where o1: "o1 = (k, ys)" by (cases o1)
  have kpre: "k \<notin> set (map fst pre)" using Cons.prems(3) by (auto simp: o1)
  show ?case
  proof (cases "k \<in> set runs")
    case True
    have "\<exists>s'. foldl (close_run x0g y runs) ((pre @ [o1]) @ opn, s) (map fst opn) =
      ((pre @ [o1]) @ filter (\<lambda>o1. fst o1 \<in> set runs) opn, s') \<and>
      s' = foldl (flush_run x0g y) s (filter (\<lambda>o1. fst o1 \<notin> set runs) opn)"
      using Cons.prems by (intro Cons.IH) (auto simp: o1)
    moreover have "close_run x0g y runs (pre @ o1 # opn, s) k = (pre @ o1 # opn, s)"
      using True by (simp add: close_run_def)
    ultimately show ?thesis using True by (simp add: o1)
  next
    case False
    have del: "AList.delete k (pre @ o1 # opn) = pre @ opn"
    proof -
      have "filter (\<lambda>(k', _). k \<noteq> k') xs = xs" if "k \<notin> set (map fst xs)" for xs :: open_runs
        using that by (induction xs) auto
      moreover have "k \<notin> set (map fst opn)" using Cons.prems(2) by (simp add: o1)
      ultimately show ?thesis using kpre by (simp add: o1 AList.delete_eq)
    qed
    have val: "map_of (pre @ o1 # opn) k = Some ys"
      using kpre by (simp add: o1 map_add_def map_of_append map_of_eq_None_iff [THEN iffD2]
          split: option.splits)
    let ?s1 = "insert_box s (x0g + fst k) ys (x0g + snd k) y"
    have "\<exists>s'. foldl (close_run x0g y runs) (pre @ opn, ?s1) (map fst opn) =
      (pre @ filter (\<lambda>o1. fst o1 \<in> set runs) opn, s') \<and>
      s' = foldl (flush_run x0g y) ?s1 (filter (\<lambda>o1. fst o1 \<notin> set runs) opn)"
      using Cons.prems by (intro Cons.IH) (auto simp: o1)
    moreover have "close_run x0g y runs (pre @ o1 # opn, s) k = (pre @ opn, ?s1)"
      using False del val by (simp add: close_run_def)
    moreover have "flush_run x0g y s (k, ys) = ?s1" by (simp add: flush_run_def)
    ultimately show ?thesis using False by (simp add: o1)
  qed
qed simp

lemma open_fold:
  assumes "distinct runs"
  shows "foldl (open_run y) opn runs = opn @ map (\<lambda>k. (k, y)) (filter (\<lambda>k. k \<notin> set (map fst opn)) runs)"
  using assms
proof (induction runs arbitrary: opn)
  case (Cons k runs)
  have none: "map_of opn k = None \<longleftrightarrow> k \<notin> set (map fst opn)" by (simp add: map_of_eq_None_iff)
  have "filter (\<lambda>j. j \<notin> set (map fst (opn @ [(k, y)]))) runs =
      filter (\<lambda>j. j \<notin> set (map fst opn)) runs"
    using Cons.prems by (intro filter_cong) auto
  with Cons show ?case by (simp add: open_run_def none)
qed simp

lemma open_count_keys:
  "distinct (map fst opn) \<Longrightarrow> \<forall>o1\<in>set opn. snd o1 \<le> snd p \<Longrightarrow>
   open_count x0g opn p = ivs_count (map fst opn) (fst p - x0g)"
  by (induction opn) (auto simp: algebra_simps)

lemma ivs_count_perm: "mset is = mset js \<Longrightarrow> ivs_count is t = ivs_count js t"
  unfolding ivs_count_def by (metis mset_filter size_mset)

lemma open_count_split:
  "open_count x0g opn p = open_count x0g (filter P opn) p + open_count x0g (filter (\<lambda>x. \<not> P x) opn) p"
  by (induction opn) auto

text \<open>
  \<open>enc_ok s0 x0g y0g c n st\<close>: after \<open>n\<close> rows, flushing the open runs at the next row would cover
  every set pixel of those rows once more than \<open>s0\<close> did, and no other pixel.
\<close>

definition enc_ok ::
    "manhattan_sink \<Rightarrow> int \<Rightarrow> int \<Rightarrow> tensor \<Rightarrow> nat \<Rightarrow> open_runs \<times> manhattan_sink \<Rightarrow> bool" where
  "enc_ok s0 x0g y0g c n st \<longleftrightarrow>
     distinct (map fst (fst st)) \<and> (\<forall>o1\<in>set (fst st). snd o1 < y0g + int n) \<and>
     mh_ppd (snd st) = mh_ppd s0 \<and> mh_shape (snd st) = mh_shape s0 \<and>
     mh_written (snd st) = mh_written s0 \<and>
     (\<forall>p. mh_count (snd st) p + (if snd p < y0g + int n then open_count x0g (fst st) p else 0) =
        mh_count s0 p +
        (if y0g \<le> snd p \<and> snd p < y0g + int n then
           ivs_count (row_runs (c ! nat (snd p - y0g))) (fst p - x0g) else 0))"

lemma row_step_ok:
  assumes "enc_ok s0 x0g y0g c n st" "0 < mh_ppd s0"
  shows "enc_ok s0 x0g y0g c (Suc n) (row_step x0g y0g st (n, c ! n))"
proof -
  obtain opn s where st: "st = (opn, s)" by (cases st)
  define y runs where "y = y0g + int n" and "runs = row_runs (c ! n)"
  note inv = assms(1) [unfolded enc_ok_def st fst_conv snd_conv]
  have ppd: "0 < mh_ppd s" using inv assms(2) by simp
  define keep drop where "keep = filter (\<lambda>o1. fst o1 \<in> set runs) opn"
    and "drop = filter (\<lambda>o1. fst o1 \<notin> set runs) opn"
  define s1 where "s1 = foldl (flush_run x0g y) s drop"
  define new where "new = map (\<lambda>k. (k, y)) (filter (\<lambda>k. k \<notin> set (map fst keep)) runs)"
  have dist: "distinct runs" unfolding runs_def by (rule row_runs_distinct)
  have "foldl (close_run x0g y runs) (opn, s) (map fst opn) = (keep, s1)"
    using close_fold [of s opn "[]" x0g y runs] ppd inv by (auto simp: keep_def drop_def s1_def)
  then have step: "row_step x0g y0g st (n, c ! n) = (keep @ new, s1)"
    by (simp add: row_step_def st Let_def new_def open_fold dist flip: y_def runs_def)
  note s1 = flush_count [OF ppd, of x0g y drop, folded s1_def]
  have keys: "mset (map fst (keep @ new)) = mset runs" "distinct (map fst (keep @ new))"
  proof -
    have "distinct (map fst keep)" using inv unfolding keep_def by (simp add: distinct_map_filter)
    then show d: "distinct (map fst (keep @ new))"
      using dist by (auto simp: new_def o_def)
    have "set (map fst (keep @ new)) = set runs" by (auto simp: keep_def new_def image_iff)
    then show "mset (map fst (keep @ new)) = mset runs" using d dist by (simp only: set_eq_iff_mset_eq_distinct)
  qed
  have ys: "\<forall>o1\<in>set (keep @ new). snd o1 \<le> y"
    using inv by (auto simp: keep_def new_def y_def less_imp_le)
  have new0: "open_count x0g new p = 0" if "snd p < y" for p
    using that unfolding new_def open_count_def by (auto simp: filter_empty_conv)
  have row: "open_count x0g (keep @ new) p = ivs_count runs (fst p - x0g)" if "snd p = y" for p
    using open_count_keys [OF keys(2), of p x0g] ys that ivs_count_perm [OF keys(1)] by simp
  have split: "open_count x0g opn p = open_count x0g keep p + open_count x0g drop p" for p
    unfolding keep_def drop_def by (rule open_count_split)
  have "mh_count s1 p + (if snd p < y0g + int (Suc n) then open_count x0g (keep @ new) p else 0) =
        mh_count s0 p +
        (if y0g \<le> snd p \<and> snd p < y0g + int (Suc n) then
           ivs_count (row_runs (c ! nat (snd p - y0g))) (fst p - x0g) else 0)" for p
  proof -
    have base: "mh_count s p + (if snd p < y then open_count x0g opn p else 0) = mh_count s0 p +
        (if y0g \<le> snd p \<and> snd p < y then
           ivs_count (row_runs (c ! nat (snd p - y0g))) (fst p - x0g) else 0)"
      using inv unfolding y_def by blast
    consider "snd p < y" | "snd p = y" | "y < snd p" by linarith
    then show ?thesis
    proof cases
      case 1
      then show ?thesis using base s1 split [of p] new0 [OF 1] by (simp add: y_def)
    next
      case 2
      have "nat (snd p - y0g) = n" using 2 by (simp add: y_def)
      then show ?thesis using 2 base s1 row [OF 2] by (simp add: y_def runs_def)
    next
      case 3
      then show ?thesis using base s1 by (simp add: y_def)
    qed
  qed
  moreover have "snd o1 < y0g + int (Suc n)" if "o1 \<in> set (keep @ new)" for o1
  proof -
    have "snd o1 \<le> y" using ys that by blast
    then show ?thesis by (simp add: y_def)
  qed
  then have "\<forall>o1\<in>set (keep @ new). snd o1 < y0g + int (Suc n)" by blast
  ultimately show ?thesis
    unfolding enc_ok_def step fst_conv snd_conv using keys(2) s1 inv by simp
qed

lemma encode_core_count:
  assumes "0 < mh_ppd s"
  shows "mh_count (encode_core s b c) p = mh_count s p +
      (if by0 b \<le> snd p \<and> snd p < by0 b + rows c then
         ivs_count (row_runs (c ! nat (snd p - by0 b))) (fst p - bx0 b) else 0)"
    and "mh_ppd (encode_core s b c) = mh_ppd s" "mh_shape (encode_core s b c) = mh_shape s"
      "mh_written (encode_core s b c) = mh_written s"
proof -
  have rows_ok: "enc_ok s (bx0 b) (by0 b) c (n + m)
      (foldl (row_step (bx0 b) (by0 b)) st (enumerate n (take m (drop n c))))"
    if "enc_ok s (bx0 b) (by0 b) c n st" "n + m \<le> length c" for n m st
    using that
  proof (induction m arbitrary: n st)
    case (Suc m)
    have "take (Suc m) (drop n c) = c ! n # take m (drop (Suc n) c)"
      using Suc.prems(2) by (simp add: take_Suc_conv_app_nth Cons_nth_drop_Suc [symmetric])
    with Suc.IH [OF row_step_ok [OF Suc.prems(1) assms]] Suc.prems(2) show ?case by simp
  qed simp
  let ?st = "foldl (row_step (bx0 b) (by0 b)) ([], s) (enumerate 0 c)"
  have "enc_ok s (bx0 b) (by0 b) c 0 ([], s)" by (simp add: enc_ok_def)
  from rows_ok [OF this, of "length c"] have fin: "enc_ok s (bx0 b) (by0 b) c (length c) ?st" by simp
  then have "0 < mh_ppd (snd ?st)" using assms by (simp add: enc_ok_def)
  note fl = flush_count [OF this, of "bx0 b" "by0 b + rows c" "fst ?st"]
  have enc: "encode_core s b c = foldl (flush_run (bx0 b) (by0 b + rows c)) (snd ?st) (fst ?st)"
    by (simp add: encode_core_def Let_def)
  have "\<forall>p. mh_count (snd ?st) p + (if snd p < by0 b + rows c then open_count (bx0 b) (fst ?st) p else 0) =
        mh_count s p + (if by0 b \<le> snd p \<and> snd p < by0 b + rows c then
           ivs_count (row_runs (c ! nat (snd p - by0 b))) (fst p - bx0 b) else 0)"
    using fin unfolding enc_ok_def rows_def by blast
  then show "mh_count (encode_core s b c) p = mh_count s p +
      (if by0 b \<le> snd p \<and> snd p < by0 b + rows c then
         ivs_count (row_runs (c ! nat (snd p - by0 b))) (fst p - bx0 b) else 0)"
    "mh_ppd (encode_core s b c) = mh_ppd s" "mh_shape (encode_core s b c) = mh_shape s"
    "mh_written (encode_core s b c) = mh_written s"
    unfolding enc using fl [of p] fin by (simp_all only: enc_ok_def)
qed

subsection \<open>The Manhattan sink meets the contract\<close>

definition manhattan_valid :: "int \<times> int \<Rightarrow> manhattan_sink \<Rightarrow> bool" where
  "manhattan_valid shape s \<longleftrightarrow> 0 < mh_ppd s \<and> mh_shape s = shape"

definition manhattan_content :: "manhattan_sink \<Rightarrow> pixel \<Rightarrow> rat" where
  "manhattan_content s p = (if list_ex (box_covers s p) (mh_shapes s) then 1 else 0)"

definition blank_manhattan :: "int \<times> int \<Rightarrow> int \<Rightarrow> rat \<Rightarrow> manhattan_sink" where
  "blank_manhattan shape ppd dbu =
     \<lparr>mh_shape = shape, mh_ppd = ppd, mh_dbu_um = dbu, mh_shapes = [], mh_written = [],
      mh_n_rectangles = 0\<rparr>"

lemma manhattan_content_count: "manhattan_content s p = (if mh_count s p = 0 then 0 else 1)"
  by (simp add: manhattan_content_def mh_count_def list_ex_iff filter_empty_conv)

lemma binary_get:
  assumes "binary_tensor c" "t_ok c" "0 \<le> y" "y < rows c" "0 \<le> x" "x < cols c"
  shows "t_get c y x = 0 \<or> t_get c y x = 1"
proof -
  have y: "nat y < length c" using assms(3,4) by (simp add: rows_def)
  then have "int (length (c ! nat y)) = cols c" using t_okD [OF assms(2)] by simp
  then have "nat x < length (c ! nat y)" using assms(5,6) by linarith
  then have "c ! nat y \<in> set c" "c ! nat y ! nat x \<in> set (c ! nat y)" using y by simp_all
  with assms(1) show ?thesis unfolding binary_tensor_def list_all_iff t_get_def by blast
qed

lemma binary_slice:
  assumes "binary_tensor t"
  shows "binary_tensor (t_slice t y0 y1 x0 x1)"
proof -
  have "v = 0 \<or> v = 1" if r: "r \<in> set (t_slice t y0 y1 x0 x1)" "v \<in> set r" for r v
  proof -
    obtain s where "s \<in> set (py_slice y0 y1 t)" "r = py_slice x0 x1 s"
      using r(1) by (auto simp: t_slice_def)
    then have "s \<in> set t" and "v \<in> set s"
      using subsetD [OF py_slice_sub, of s] subsetD [OF py_slice_sub, of v] r(2) by blast+
    then show ?thesis using assms unfolding binary_tensor_def list_all_iff by blast
  qed
  then show ?thesis unfolding binary_tensor_def list_all_iff by blast
qed

lemma manhattan_write_effect:
  assumes "0 < mh_ppd s" "tid \<notin> set (mh_written s)" "t_ok c" "t_shape c = (height b, width b)"
    "binary_tensor c" "bbox_ok b"
  shows "\<exists>s'. manhattan_write_core s tid b c md = (Inr (), s') \<and>
    mh_ppd s' = mh_ppd s \<and> mh_shape s' = mh_shape s \<and> mh_written s' = tid # mh_written s \<and>
    (\<forall>p. mh_count s' p = mh_count s p +
       (if in_box p b \<and> t_get c (snd p - by0 b) (fst p - bx0 b) = 1 then 1 else 0))"
proof -
  let ?s1 = "s\<lparr>mh_written := tid # mh_written s\<rparr>"
  let ?s' = "encode_core ?s1 b c"
  have dims: "rows c = height b" "cols c = width b" using assms(4) by (simp_all add: t_shape_def)
  have "mh_count ?s' p = mh_count s p +
     (if in_box p b \<and> t_get c (snd p - by0 b) (fst p - bx0 b) = 1 then 1 else 0)" for p
  proof -
    have base: "mh_count ?s1 p = mh_count s p" by (simp add: mh_count_def box_covers_def [abs_def])
    show ?thesis
    proof (cases "by0 b \<le> snd p \<and> snd p < by0 b + rows c")
      case True
      let ?y = "snd p - by0 b" and ?x = "fst p - bx0 b"
      have y: "nat ?y < length c" using True by (simp add: rows_def nat_less_iff)
      then have len: "int (length (c ! nat ?y)) = width b" using t_okD [OF assms(3)] dims by simp
      have "ivs_count (row_runs (c ! nat ?y)) ?x =
          (if in_box p b \<and> t_get c ?y ?x = 1 then 1 else 0)"
        using binary_get [OF assms(5,3), of ?y ?x] True dims
        by (auto simp: row_runs_exact(1) len t_get_def in_box_def width_def height_def)
      then show ?thesis using True encode_core_count(1) [of ?s1 b c p] assms(1) base by simp
    next
      case False
      then have "\<not> in_box p b" using dims by (auto simp: in_box_def height_def)
      then show ?thesis using False encode_core_count(1) [of ?s1 b c p] assms(1) base by auto
    qed
  qed
  moreover have "mh_ppd ?s' = mh_ppd s" "mh_shape ?s' = mh_shape s" "mh_written ?s' = tid # mh_written s"
    using encode_core_count(2-4) [of ?s1 b c] assms(1) by simp_all
  moreover have "manhattan_write_core s tid b c md = (Inr (), ?s')"
    using assms(2,4,5) by (simp add: manhattan_write_core_def)
  ultimately show ?thesis by blast
qed

interpretation manhattan_sink: tile_sink manhattan_write_core
    "blank_manhattan (int h, int w) (int (Suc k)) dbu" "\<lambda>s. set (mh_written s)" manhattan_content
    "manhattan_valid (int h, int w)" "(int h, int w)" binary_tensor
  for h w k dbu
proof unfold_locales
  fix s tid b md and c :: tensor
  assume v: "manhattan_valid (int h, int w) s" and tid: "tid \<notin> set (mh_written s)" and b: "bbox_ok b"
    and c: "t_ok c" "t_shape c = (height b, width b)" "binary_tensor c"
    and zero: "\<forall>p. in_box p b \<longrightarrow> manhattan_content s p = 0"
  from manhattan_write_effect [OF _ tid c b, of md] v obtain s' where
    s': "manhattan_write_core s tid b c md = (Inr (), s')" "mh_ppd s' = mh_ppd s"
      "mh_shape s' = mh_shape s" "mh_written s' = tid # mh_written s" and
    cnt: "\<forall>p. mh_count s' p = mh_count s p +
       (if in_box p b \<and> t_get c (snd p - by0 b) (fst p - bx0 b) = 1 then 1 else 0)"
    by (auto simp: manhattan_valid_def)
  have "manhattan_content s' p =
      (if in_box p b then t_get c (snd p - by0 b) (fst p - bx0 b) else manhattan_content s p)" for p
  proof (cases "in_box p b")
    case True
    then have "manhattan_content s p = 0" using zero by blast
    then have "mh_count s p = 0" by (simp add: manhattan_content_count split: if_splits)
    moreover have "t_get c (snd p - by0 b) (fst p - bx0 b) \<in> {0, 1}"
      using True c binary_get [OF c(3,1), of "snd p - by0 b" "fst p - bx0 b"]
      by (auto simp: t_shape_def in_box_def height_def width_def)
    ultimately show ?thesis using True spec [OF cnt, of p] by (auto simp: manhattan_content_count)
  next
    case False
    then show ?thesis using spec [OF cnt, of p] by (simp add: manhattan_content_count)
  qed
  moreover have "manhattan_valid (int h, int w) s'" using s' v by (simp add: manhattan_valid_def)
  ultimately show "\<exists>s'. manhattan_write_core s tid b c md = (Inr (), s') \<and>
      manhattan_valid (int h, int w) s' \<and> set (mh_written s') = insert tid (set (mh_written s)) \<and>
      (\<forall>p. in_domain (int h, int w) p \<longrightarrow> manhattan_content s' p =
        (if in_box p b then t_get c (snd p - by0 b) (fst p - bx0 b) else manhattan_content s p))"
    using s' by auto
qed (auto simp: manhattan_valid_def blank_manhattan_def manhattan_content_def manhattan_write_core_def)

subsection \<open>Choosing the database unit\<close>

lemma dbu_down_spec:
  assumes "0 < d" "0 < ppd" "dbu_down ppd d = (ppd', d')"
  shows "of_int ppd' * d' = of_int ppd * d \<and> 0 < d' \<and> d' \<le> 10 \<and> 0 < ppd' \<and>
    (if d \<le> 10 then ppd' = ppd \<and> d' = d else 1 < d')"
  using assms
proof (induction ppd d rule: dbu_down.induct)
  case (1 ppd d)
  show ?case
  proof (cases "d > 10")
    case True
    with 1 have "of_int ppd' * d' = of_int (ppd * 10) * (d / 10) \<and> 0 < d' \<and> d' \<le> 10 \<and> 0 < ppd' \<and>
        (if d / 10 \<le> 10 then ppd' = ppd * 10 \<and> d' = d / 10 else 1 < d')"
      by (simp add: dbu_down.simps [of ppd d])
    with True show ?thesis by (auto split: if_splits)
  next
    case False
    with 1 show ?thesis by (simp add: dbu_down.simps [of ppd d])
  qed
qed

lemma dbu_up_id: "1 / 100 \<le> d \<Longrightarrow> dbu_up ppd d = Some (ppd, d)"
  by (simp add: dbu_up.simps [of ppd d])

lemma dbu_up_total:
  assumes "0 < d" "1 / 100 \<le> d * 10 ^ n"
  shows "\<exists>k d'. dbu_up ppd d = Some (ppd * 10 ^ k, d') \<and> d' = d * 10 ^ k \<and> 1 / 100 \<le> d' \<and>
    (k = 0 \<longleftrightarrow> 1 / 100 \<le> d) \<and> (0 < k \<longrightarrow> d' < 1 / 10)"
  using assms
proof (induction n arbitrary: ppd d)
  case 0
  then show ?case by (intro exI [of _ 0] exI [of _ d]) (simp add: dbu_up_id)
next
  case (Suc n)
  show ?case
  proof (cases "d < 1 / 100")
    case True
    have "\<exists>k d'. dbu_up (ppd * 10) (d * 10) = Some (ppd * 10 * 10 ^ k, d') \<and> d' = d * 10 * 10 ^ k \<and>
        1 / 100 \<le> d' \<and> (k = 0 \<longleftrightarrow> 1 / 100 \<le> d * 10) \<and> (0 < k \<longrightarrow> d' < 1 / 10)"
      using Suc.prems by (intro Suc.IH) (simp_all add: mult_ac)
    then obtain k where k: "dbu_up (ppd * 10) (d * 10) = Some (ppd * 10 * 10 ^ k, d * 10 * 10 ^ k)"
      "1 / 100 \<le> d * 10 * 10 ^ k" "k = 0 \<longleftrightarrow> 1 / 100 \<le> d * 10" "0 < k \<longrightarrow> d * 10 * 10 ^ k < 1 / 10"
      by auto
    have "d * 10 ^ Suc k < 1 / 10" using k(3,4) True by (cases k) (simp_all add: mult_ac)
    moreover have "dbu_up ppd d = Some (ppd * 10 ^ Suc k, d * 10 ^ Suc k)"
      using k(1) True by (simp add: dbu_up.simps [of ppd d] mult_ac)
    moreover have "1 / 100 \<le> d * 10 ^ Suc k" using k(2) by (simp add: mult_ac)
    ultimately show ?thesis using True by (intro exI [of _ "Suc k"] exI [of _ "d * 10 ^ Suc k"]) simp
  next
    case False
    then show ?thesis by (intro exI [of _ 0] exI [of _ d]) (simp add: dbu_up_id)
  qed
qed

lemma power10_reaches: "0 < d \<Longrightarrow> \<exists>n. (1 / 100 :: rat) \<le> d * 10 ^ n"
proof -
  assume d: "0 < d"
  obtain n :: nat where n: "1 / (100 * d) < of_nat n" using reals_Archimedean2 by blast
  have "n < 10 ^ n"
  proof (induction n)
    case (Suc n)
    then show ?case unfolding power_Suc by linarith
  qed simp
  then have "(of_nat n :: rat) \<le> 10 ^ n" by (metis less_imp_le of_nat_le_iff of_nat_numeral of_nat_power)
  with n have "1 / (100 * d) \<le> 10 ^ n" by (meson less_imp_le order.trans)
  then have "1 / (100 * d) * d \<le> 10 ^ n * d" using d by (intro mult_right_mono) simp_all
  then show ?thesis using d by (intro exI [of _ n]) (simp add: mult.commute)
qed

subsection \<open>Properties\<close>

text \<open>A streamed core becomes Manhattan geometry exactly once.  Writing a rectangular binary core
  of the box's shape under a fresh id succeeds, and every pixel of the raster is covered by exactly
  one more rectangle than before when it is a set pixel of this core, and by as many as before
  otherwise: the run-length encoding with vertical merging neither loses, invents nor doubles a
  pixel, whatever the rows look like.  A used id, a wrong shape or a value other than 0 and 1 is an
  error that inserts nothing.\<close>

theorem manhattan_core_exact:
  assumes "0 < mh_ppd s" "t_ok c" "bbox_ok b" "manhattan_write_core s tid b c md = (r, s')"
  shows "(r = Inr () \<longleftrightarrow> tid \<notin> set (mh_written s) \<and> t_shape c = (height b, width b) \<and> binary_tensor c) \<and>
    (\<forall>p. mh_count s' p = mh_count s p +
       (if r = Inr () \<and> in_box p b \<and> t_get c (snd p - by0 b) (fst p - bx0 b) = 1 then 1 else 0))"
proof (cases "tid \<notin> set (mh_written s) \<and> t_shape c = (height b, width b) \<and> binary_tensor c")
  case True
  with manhattan_write_effect [OF assms(1) _ assms(2) _ _ assms(3), of tid md] assms(4)
  show ?thesis by auto
next
  case False
  then have "r \<noteq> Inr () \<and> (s' = s \<or> s' = s\<lparr>mh_written := tid # mh_written s\<rparr>)"
    using assms(4) by (auto simp: manhattan_write_core_def Let_def split: if_splits)
  moreover have "mh_count (s\<lparr>mh_written := tid # mh_written s\<rparr>) p = mh_count s p" for p
    by (simp add: mh_count_def box_covers_def [abs_def])
  ultimately show ?thesis using False by auto
qed

theorem manhattan_core_exact_witness:
  "let s = blank_manhattan (2, 3) 10 1; b = \<lparr>bx0 = 0, by0 = 0, bx1 = 3, by1 = 2\<rparr> in
   \<exists>s'. manhattan_write_core s ''t'' b [[1, 0, 1], [1, 1, 0]] [] = (Inr (), s') \<and>
     mh_count s' (1, 1) = 1 \<and> mh_count s' (1, 0) = 0"
proof -
  let ?s = "blank_manhattan (2, 3) 10 1" and ?b = "\<lparr>bx0 = 0, by0 = 0, bx1 = 3, by1 = 2\<rparr>"
  let ?c = "[[1, 0, 1], [1, 1, 0]] :: tensor"
  have c: "t_ok ?c" "t_shape ?c = (height ?b, width ?b)" "binary_tensor ?c"
    by (simp_all add: t_ok_def cols_def rows_def t_shape_def height_def width_def binary_tensor_def)
  obtain r s' where rs: "manhattan_write_core ?s ''t'' ?b ?c [] = (r, s')" by fastforce
  have "0 < mh_ppd ?s" "bbox_ok ?b" by (simp_all add: blank_manhattan_def bbox_ok_def)
  from manhattan_core_exact [OF this(1) c(1) this(2) rs]
  have res: "r = Inr ()" and cnt: "\<forall>p. mh_count s' p = mh_count ?s p +
      (if in_box p ?b \<and> t_get ?c (snd p - by0 ?b) (fst p - bx0 ?b) = 1 then 1 else 0)"
    using c by (auto simp: blank_manhattan_def)
  have "mh_count s' (1, 1) = 1" "mh_count s' (1, 0) = 0"
    using cnt by (simp_all add: in_box_def t_get_def mh_count_def blank_manhattan_def)
  then show ?thesis using rs res by (auto simp: Let_def)
qed

text \<open>The database unit of the Manhattan sink.  For every positive pixel size both scaling loops
  end; the pixels-per-unit factor is positive and the unit is between 0.01 and 10 nm.  For pixels of
  at least 0.01 nm the product of the two is the pixel size, so pixel edges land on integer units;
  for smaller pixels it is not, because both factors grow together, and the written geometry is
  larger than the mask.\<close>

theorem dbu_choice:
  assumes "0 < px"
  shows "\<exists>ppd dbu. dbu_for_pixel px = Inr (Some (ppd, dbu)) \<and> 0 < ppd \<and>
    1 / 100 \<le> 1000 * dbu \<and> 1000 * dbu \<le> 10 \<and>
    (if 1 / 100 \<le> px then of_int ppd * (1000 * dbu) = px else of_int ppd * (1000 * dbu) > px)"
proof -
  obtain ppd d where down: "dbu_down 1 px = (ppd, d)" by (cases "dbu_down 1 px")
  note dn = dbu_down_spec [OF assms zero_less_one down]
  then have d: "0 < d" by simp
  then obtain n where "1 / 100 \<le> d * 10 ^ n" using power10_reaches by blast
  from dbu_up_total [OF d this, of ppd] obtain k where
    up: "dbu_up ppd d = Some (ppd * 10 ^ k, d * 10 ^ k)" "1 / 100 \<le> d * 10 ^ k"
      "k = 0 \<longleftrightarrow> 1 / 100 \<le> d" "0 < k \<longrightarrow> d * 10 ^ k < 1 / 10" by blast
  have res: "dbu_for_pixel px = Inr (Some (ppd * 10 ^ k, d * 10 ^ k / 1000))"
    using assms by (simp add: dbu_for_pixel_def down up(1))
  show ?thesis
  proof (cases "1 / 100 \<le> px")
    case True
    then have "1 / 100 \<le> d" using dn by (auto split: if_splits)
    with up(3) have "k = 0" by simp
    with res dn True up(2) show ?thesis
      by (intro exI [of _ ppd] exI [of _ "d / 1000"]) (auto split: if_splits)
  next
    case False
    then have same: "ppd = 1" "d = px" using dn by (auto split: if_splits)
    then have "0 < k" using up(3) False by simp
    then have big: "(10 :: rat) ^ k > 1" by simp
    have "px < px * (10 ^ k * 10 ^ k)" using assms less_1_mult [OF big big] by simp
    then have "of_int (ppd * 10 ^ k) * (1000 * (d * 10 ^ k / 1000)) > px"
      by (simp add: same mult_ac)
    moreover have "d * 10 ^ k \<le> 10" using up(4) \<open>0 < k\<close> by simp
    ultimately show ?thesis using res up(2) False same
      by (intro exI [of _ "ppd * 10 ^ k"] exI [of _ "d * 10 ^ k / 1000"]) simp
  qed
qed

theorem dbu_choice_witness:
  "\<exists>ppd dbu. dbu_for_pixel (1 / 1000) = Inr (Some (ppd, dbu)) \<and>
     of_int ppd * (1000 * dbu) > (1 / 1000 :: rat)"
  using dbu_choice [of "1 / 1000"] by auto

text \<open>C34: Assembly is order-free and complete.  If distinctly named cores form an exact cover of the
  domain and each is written with its window of one image, in any order, no write fails and the
  tensor sink and the memmap sink hold exactly that image; for a binary image the rectangles of the
  Manhattan sink cover exactly its set pixels.\<close>

theorem sinks_assemble:
  assumes "distinct (map fst ws)" "exact_cover (write_boxes ws) (in_domain (int h, int w))"
    and "t_ok img" "rows img = int h" "0 < h" "cols img = int w" "0 < k"
    and "list_all (\<lambda>(tid, b, c, md). bbox_ok b \<and> c = t_slice img (by0 b) (by1 b) (bx0 b) (bx1 b)) ws"
  shows "(\<exists>s. write_all tensor_write_core (new_tensor_sink (int h, int w)) ws = Inr s \<and> sk_output s = img) \<and>
    (\<exists>s. write_all memmap_write_core (new_tensor_sink (int h, int w)) ws = Inr s \<and> sk_output s = img) \<and>
    (binary_tensor img \<longrightarrow>
      (\<exists>s. write_all manhattan_write_core (blank_manhattan (int h, int w) k dbu) ws = Inr s \<and>
        list_all (\<lambda>y. list_all (\<lambda>x. manhattan_content s (x, y) = t_get img y x)
          (pyrange 0 (int w) 1)) (pyrange 0 (int h) 1)))"
proof -
  have acc: "\<forall>v\<in>set ws. binary_tensor (fst (snd (snd v)))" if "binary_tensor img"
  proof
    fix v assume "v \<in> set ws"
    moreover obtain tid b c md where v: "v = (tid, b, c, md)" by (cases v)
    ultimately have "c = t_slice img (by0 b) (by1 b) (bx0 b) (bx1 b)"
      using assms(8) by (auto simp: list_all_iff)
    then show "binary_tensor (fst (snd (snd v)))" using binary_slice [OF that] by (simp add: v)
  qed
  have out: "sk_output s = img" if "tensor_valid (int h, int w) s"
    "\<forall>p. in_domain (int h, int w) p \<longrightarrow> tensor_content s p = t_get img (snd p) (fst p)" for s
    using that assms(3-6)
    by (intro t_ext) (auto simp: tensor_valid_def tensor_content_def in_domain_def)
  obtain j where k: "k = int (Suc j)" using assms(7) by (metis Suc_pred int_nat_eq less_imp_le zero_less_nat_eq)
  have shape: "rows img = fst (int h, int w)" "cols img = snd (int h, int w)" using assms(4,6) by simp_all
  note t = tensor_sink.assembles [OF assms(1,2,3) shape assms(8)]
    and m = memmap_sink.assembles [OF assms(1,2,3) shape assms(8)]
    and h = manhattan_sink.assembles [OF assms(1,2,3) shape assms(8), of j dbu, folded k]
  have "\<exists>s. write_all manhattan_write_core (blank_manhattan (int h, int w) k dbu) ws = Inr s \<and>
      list_all (\<lambda>y. list_all (\<lambda>x. manhattan_content s (x, y) = t_get img y x)
          (pyrange 0 (int w) 1)) (pyrange 0 (int h) 1)" if "binary_tensor img"
    using h [OF acc [OF that]] by (auto simp: list_all_iff pyrange_mem in_domain_def)
  then show ?thesis using t m out by blast
qed

theorem sinks_assemble_witness:
  "let ws = [(''b'', \<lparr>bx0 = 1, by0 = 0, bx1 = 2, by1 = 1\<rparr>, [[1]], []),
             (''a'', \<lparr>bx0 = 0, by0 = 0, bx1 = 1, by1 = 1\<rparr>, [[0]], [])] in
   (\<exists>s. write_all tensor_write_core (new_tensor_sink (1, 2)) ws = Inr s \<and> sk_output s = [[0, 1]]) \<and>
   (\<exists>s. write_all manhattan_write_core (blank_manhattan (1, 2) 10 1) ws = Inr s \<and>
      list_all (\<lambda>y. list_all (\<lambda>x. manhattan_content s (x, y) = t_get [[0, 1]] y x)
        (pyrange 0 2 1)) (pyrange 0 1 1))"
proof -
  define ws :: "(string \<times> bbox \<times> tensor \<times> meta) list" where
    "ws = [(''b'', \<lparr>bx0 = 1, by0 = 0, bx1 = 2, by1 = 1\<rparr>, [[1]], []),
           (''a'', \<lparr>bx0 = 0, by0 = 0, bx1 = 1, by1 = 1\<rparr>, [[0]], [])]"
  let ?img = "[[0, 1]] :: tensor"
  have 1: "distinct (map fst ws)" by (simp add: ws_def)
  have 2: "exact_cover (write_boxes ws) (in_domain (int 1, int 2))"
    by (auto simp: ws_def exact_cover_def in_box_def in_domain_def)
  have 3: "t_ok ?img" "rows ?img = int 1" "cols ?img = int 2" "binary_tensor ?img"
    by (simp_all add: t_ok_def cols_def rows_def binary_tensor_def)
  have 4: "list_all (\<lambda>(tid, b, c, md). bbox_ok b \<and> c = t_slice ?img (by0 b) (by1 b) (bx0 b) (bx1 b)) ws"
    by (simp add: ws_def bbox_ok_def t_slice_def py_slice_def norm_idx_def)
  from sinks_assemble [OF 1 2 3(1,2) _ 3(3) _ 4, of 10 1] 3(4)
  show ?thesis unfolding ws_def by (simp add: Let_def)
qed

text \<open>Three gaps in the audit surface of the sinks.  A write that raises for its shape still
  consumes the tile id, so the corrected write of the same core raises as a duplicate; the
  metric-only sink accepts the same core twice and then reports more covered pixels than the core
  has; and \<open>covered_pixels\<close> of a tensor sink is the number of written tiles, not of pixels.\<close>

theorem sink_audit_gaps:
  "(\<exists>s b bad good e s1 e2. tensor_write_core s ''t'' b bad [] = (Inl e, s1) \<and>
      t_shape good = (height b, width b) \<and> (\<exists>s'. tensor_write_core s ''t'' b good [] = (Inr (), s')) \<and>
      tensor_write_core s1 ''t'' b good [] = (Inl e2, s1)) \<and>
   (\<exists>b s1 s2. metric_write_core new_metric_sink ''t'' b [] [] = (Inr (), s1) \<and>
      metric_write_core s1 ''t'' b [] [] = (Inr (), s2) \<and> covered_pixels_metric s2 = 2 * area b \<and>
      area b = 4) \<and>
   (\<exists>b c s. tensor_write_core (new_tensor_sink (2, 2)) ''t'' b c [] = (Inr (), s) \<and>
      covered_pixels_tensor s = 1 \<and> area b = 4)"
proof -
  let ?s = "new_tensor_sink (2, 2)" and ?b = "\<lparr>bx0 = 0, by0 = 0, bx1 = 2, by1 = 2\<rparr>"
  let ?good = "[[1, 1], [1, 1]] :: tensor"
  have a: "area ?b = 4" by (simp add: area_def width_def height_def)
  have shape: "t_shape ?good = (height ?b, width ?b)"
    by (simp add: t_shape_def rows_def cols_def height_def width_def)
  have put: "t_put (sk_output ?s) 0 2 0 2 ?good = Inr ?good" by code_simp
  have ok: "tensor_write_core ?s ''t'' ?b ?good [] =
      (Inr (), ?s\<lparr>sk_written := [''t''], sk_output := ?good\<rparr>)"
    using shape put by (simp add: tensor_write_core_def Let_def) (simp add: new_tensor_sink_def)
  let ?s1 = "?s\<lparr>sk_written := [''t'']\<rparr>"
  have bad: "tensor_write_core ?s ''t'' ?b [[1]] [] = (Inl (ValueError ''core tensor shape != bbox''), ?s1)"
    by (simp add: tensor_write_core_def t_shape_def rows_def cols_def height_def width_def)
      (simp add: new_tensor_sink_def)
  have dup: "tensor_write_core ?s1 ''t'' ?b ?good [] = (Inl (ValueError ''duplicate core write''), ?s1)"
    by (simp add: tensor_write_core_def)
  have m: "metric_write_core new_metric_sink ''t'' ?b [] [] = (Inr (), snd (metric_write_core new_metric_sink ''t'' ?b [] []))"
    "covered_pixels_metric (snd (metric_write_core (snd (metric_write_core new_metric_sink ''t'' ?b [] [])) ''t'' ?b [] [])) = 2 * area ?b"
    by (simp_all add: metric_write_core_def covered_pixels_metric_def new_metric_sink_def)
  have m2: "metric_write_core s ''t'' ?b [] [] = (Inr (), snd (metric_write_core s ''t'' ?b [] []))" for s
    by (simp add: metric_write_core_def)
  show ?thesis
  proof (intro conjI)
    show "\<exists>s b bad good e s1 e2. tensor_write_core s ''t'' b bad [] = (Inl e, s1) \<and>
      t_shape good = (height b, width b) \<and> (\<exists>s'. tensor_write_core s ''t'' b good [] = (Inr (), s')) \<and>
      tensor_write_core s1 ''t'' b good [] = (Inl e2, s1)"
      using bad shape ok dup by blast
    show "\<exists>b s1 s2. metric_write_core new_metric_sink ''t'' b [] [] = (Inr (), s1) \<and>
      metric_write_core s1 ''t'' b [] [] = (Inr (), s2) \<and> covered_pixels_metric s2 = 2 * area b \<and>
      area b = 4"
      using m m2 a by blast
    show "\<exists>b c s. tensor_write_core (new_tensor_sink (2, 2)) ''t'' b c [] = (Inr (), s) \<and>
      covered_pixels_tensor s = 1 \<and> area b = 4"
      using ok a by (intro exI conjI) (assumption, simp add: covered_pixels_tensor_def, assumption)
  qed
qed

end
