(* ===== verification/Pipeline.thy ===== *)
theory Pipeline
  imports CoreHalo Ownership WorkAccounting HaloPolicy Screening TileVerification TileSources TileSinks
begin

text \<open>
  Model of \<open>streaming/pipeline.py\<close> and \<open>streaming/verify_layout.py\<close>: the per-tile loop with its
  explicit work stack (screen, read, forward, verify, refine or commit), micro-batching, and the
  closing ledger check.  The source, the sink, the forward model, the halo policy, the screening
  policy and the plugins are parameters, gathered in \<open>pipe_env\<close>; everything the loop updates is
  in \<open>pipe_state\<close>.  A run is a value of \<open>res\<close>: any exception of a collaborator aborts it.
\<close>

type_synonym 's write_fn = "'s \<Rightarrow> string \<Rightarrow> bbox \<Rightarrow> tensor \<Rightarrow> meta \<Rightarrow> unit res \<times> 's"
type_synonym 's certify_fn = "'s \<Rightarrow> string \<Rightarrow> bbox \<Rightarrow> rat option \<Rightarrow> meta \<Rightarrow> unit res \<times> 's"

record 's pipe_env =
  pe_shape :: "int \<times> int"
  pe_read :: "bbox \<Rightarrow> tensor"
  pe_source_meta :: "(bbox \<Rightarrow> string \<Rightarrow> bbox \<Rightarrow> meta) option"
  pe_forward :: "tensor \<Rightarrow> tensor"
  pe_policy :: "halo_context \<Rightarrow> halo_requirement res"
  pe_screen :: "(string \<times> (tile_request \<Rightarrow> screen_decision res)) option"
  pe_write :: "'s write_fn"
  pe_certify :: "'s certify_fn option"
  pe_core_size :: int
  pe_max_halo_px :: int
  pe_pixel_nm :: rat
  pe_max_requeues :: int
  pe_tolerance_nm :: "rat option"
  pe_batch_size :: int
  pe_batched_forward :: "(tensor list \<Rightarrow> tensor list) option"

record ('v, 's) pipe_state =
  ps_own :: ownership_tree
  ps_acc :: work_accounting
  ps_sink :: 's
  ps_sessions :: "'v session list"
  ps_n_tiles :: nat
  ps_n_requeued :: nat
  ps_forward_batches :: nat
  ps_batch :: "(tile_request \<times> tensor) list"
  ps_batch_shape :: "(int \<times> int) option"

definition batching :: "'s pipe_env \<Rightarrow> bool" where
  "batching env \<longleftrightarrow> pe_batch_size env > 1 \<and> pe_batched_forward env \<noteq> None"

text \<open>The call of a sink: an exception aborts the run.\<close>

definition sink_call :: "unit res \<times> 's \<Rightarrow> 's res" where
  "sink_call r = (case fst r of Inl e \<Rightarrow> Inl e | Inr _ \<Rightarrow> Inr (snd r))"

subsection \<open>Helpers of the loop\<close>

definition set_plugin_state :: "'v session \<Rightarrow> 'v \<Rightarrow> 'v session" where
  "set_plugin_state s v = s\<lparr>ss_plugin := (ss_plugin s)\<lparr>vp_state := v\<rparr>\<rparr>"

definition default_refinement ::
    "tile_request \<Rightarrow> 'v session \<Rightarrow> (refinement_request \<times> 'v session) res" where
  "default_refinement request s =
     (let fallback = mk_refinement (tile_id request) ''increase_halo''
            (max 8 (halo_max (tr_halo request))) 2 in
      case vp_refine (ss_plugin s) of
        Some refine \<Rightarrow>
          ebind (refine (vp_state (ss_plugin s)) (tile_id request)) (\<lambda>(advice, v).
            case advice of
              Some r \<Rightarrow> Inr (r, set_plugin_state s v)
            | None \<Rightarrow> ebind fallback (\<lambda>r. Inr (r, set_plugin_state s v)))
      | None \<Rightarrow> ebind fallback (\<lambda>r. Inr (r, s)))"

definition grown_request ::
    "tile_request \<Rightarrow> refinement_request \<Rightarrow> int \<times> int \<Rightarrow> tile_request res" where
  "grown_request request refinement dmn =
     (let max_px = max 1 (extra_halo_px refinement);
          current = halo_max (tr_halo request) in
      ebind (uniform_halo (current + max_px)) (\<lambda>grown.
      ebind (read_bbox_for (core_bbox request) grown (snd dmn) (fst dmn)) (\<lambda>read.
        Inr \<lparr>core_bbox = core_bbox request, read_bbox = read,
             tr_halo = halo_actual (core_bbox request) read, tile_id = tile_id request\<rparr>)))"

definition core_slice :: "tile_request \<Rightarrow> tensor \<Rightarrow> tensor" where
  "core_slice request result =
     (let y0 = by0 (core_bbox request) - by0 (read_bbox request);
          x0 = bx0 (core_bbox request) - bx0 (read_bbox request) in
      t_slice result y0 (y0 + height (core_bbox request)) x0 (x0 + width (core_bbox request)))"

definition status_str :: "verdict \<Rightarrow> string" where
  "status_str v = (case v of VPass \<Rightarrow> ''PASS'' | VFail \<Rightarrow> ''FAIL'' | VInconclusive \<Rightarrow> ''INCONCLUSIVE'')"

definition screen_status_str :: "screen_status \<Rightarrow> string" where
  "screen_status_str s = (case s of ScreenActive \<Rightarrow> ''ACTIVE'' | ScreenedOut \<Rightarrow> ''SCREENED_OUT''
                          | ScreenInconclusive \<Rightarrow> ''INCONCLUSIVE'')"

subsection \<open>Flushing a batch\<close>

definition flush_one ::
    "'s pipe_env \<Rightarrow> ('v, 's) pipe_state \<Rightarrow> (tile_request \<times> tensor) \<times> tensor \<Rightarrow>
     ('v, 's) pipe_state res" where
  "flush_one env st rt =
     (let r = fst (fst rt);
          acc = record_forward_core (record_forward (ps_acc st) (area (read_bbox r))) (core_bbox r) in
      ebind (mark_forward (ps_own st) (tile_id r)) (\<lambda>own1.
      ebind (set_terminal own1 (tile_id r) ''ACTIVE'') (\<lambda>own2.
      ebind (sink_call (pe_write env (ps_sink st) (tile_id r) (core_bbox r) (core_slice r (snd rt)) []))
        (\<lambda>sink. Inr (st\<lparr>ps_own := own2, ps_acc := acc, ps_sink := sink\<rparr>)))))"

definition flush_batch ::
    "'s pipe_env \<Rightarrow> ('v, 's) pipe_state \<Rightarrow> ('v, 's) pipe_state res" where
  "flush_batch env st =
     (if ps_batch st = [] then Inr st
      else case pe_batched_forward env of
        None \<Rightarrow> Inl (RuntimeError ''batch flush without a batched forward callable'')
      | Some bf \<Rightarrow>
          let outputs = bf (map snd (ps_batch st));
              st1 = st\<lparr>ps_forward_batches := ps_forward_batches st + 1\<rparr> in
          if length outputs \<noteq> length (ps_batch st)
          then Inl (ValueError ''batched_forward_fn must return B masks for a B-batch'')
          else ebind (foldE (flush_one env) st1 (zip (ps_batch st) outputs)) (\<lambda>st2.
            Inr (st2\<lparr>ps_n_tiles := ps_n_tiles st2 + length (ps_batch st),
                     ps_batch := [], ps_batch_shape := None\<rparr>)))"

subsection \<open>Screening a tile\<close>

fun discharge ::
    "tile_context \<Rightarrow> screen_fact list \<Rightarrow> 'v session list \<Rightarrow>
     (tile_result list option \<times> 'v session list) res" where
  "discharge ctx facts [] = Inr (Some [], [])"
| "discharge ctx facts (s # ss) =
     (case vp_accept_screen_facts (ss_plugin s) of
        None \<Rightarrow> Inr (None, s # ss)
      | Some accept \<Rightarrow>
          ebind (accept (vp_state (ss_plugin s)) ctx facts) (\<lambda>(verdict, v).
            let s1 = set_plugin_state s v in
            case verdict of
              None \<Rightarrow> Inr (None, s1 # ss)
            | Some res \<Rightarrow>
                if tv_status res \<noteq> VPass then Inr (None, s1 # ss)
                else ebind (discharge ctx facts ss) (\<lambda>(acc, ss1).
                  Inr (map_option (\<lambda>rs. res # rs) acc, s1 # ss1))))"

text \<open>\<open>Inl\<close> of the inner sum: the tile was discharged and committed; \<open>Inr\<close>: the metadata of the
  rejected screen, for the active path.\<close>

definition discharged_meta :: "string \<Rightarrow> screen_decision \<Rightarrow> bool \<Rightarrow> meta" where
  "discharged_meta pname d deprecated =
     (let m = foldl (\<lambda>m kv. AList.update (fst kv) (MNum (snd kv)) m)
        [(''screen_disposition'', MStr ''EXACT_OUTPUT_SKIP''),
         (''screening_status'', MStr ''SCREENED_OUT''),
         (''screening_policy'', MStr pname),
         (''screening_reason'', MStr (sd_reason d)),
         (''screening_certified'', MBool True),
         (''screening_certificate_ref'', (case sd_certificate_ref d of None \<Rightarrow> MNone | Some c \<Rightarrow> MStr c))]
        (sd_metrics d) in
      if deprecated
      then AList.update ''screen_authority'' (MStr ''deprecated-blanket-input-recorded-not-honored'') m
      else m)"

definition commit_screened ::
    "'s pipe_env \<Rightarrow> tile_request \<Rightarrow> rat \<Rightarrow> meta \<Rightarrow> ('v, 's) pipe_state \<Rightarrow>
     ('v, 's) pipe_state res" where
  "commit_screened env cur fill md st =
     ebind (sink_call (case pe_certify env of
              Some recorder \<Rightarrow> recorder (ps_sink st) (tile_id cur) (core_bbox cur) (Some fill) md
            | None \<Rightarrow> pe_write env (ps_sink st) (tile_id cur) (core_bbox cur)
                (t_full (height (core_bbox cur)) (width (core_bbox cur)) fill) md)) (\<lambda>sink.
     ebind (set_terminal (ps_own st) (tile_id cur) ''EXACT_OUTPUT_SKIP'') (\<lambda>own.
       Inr (st\<lparr>ps_sink := sink,
               ps_acc := record_screened_out (ps_acc st) (tile_id cur) (area (core_bbox cur)),
               ps_own := own, ps_n_tiles := ps_n_tiles st + 1\<rparr>)))"

definition screened_tile ::
    "'s pipe_env \<Rightarrow> string \<Rightarrow> screen_decision \<Rightarrow> tile_request \<Rightarrow> ('v, 's) pipe_state \<Rightarrow>
     (bool \<times> meta \<times> ('v, 's) pipe_state) res" where
  "screened_tile env pname d cur st =
     ebind (screen_decision_to_facts d) (\<lambda>(exact, facts, deprecated).
     let ctx = \<lparr>tc_tile_id = tile_id cur, tc_core = core_bbox cur, tc_read = read_bbox cur,
                tc_halo = tr_halo cur, tc_tensor = None,
                tc_metadata = [(''screening_status'', MStr (screen_status_str (sd_status d))),
                               (''screening_reason'', MStr (sd_reason d))]\<rparr> in
     ebind (discharge ctx facts (ps_sessions st)) (\<lambda>(accepted, ss).
       case accepted of
         Some verdicts \<Rightarrow>
           ebind (commit_screened env cur (eo_fill exact) (discharged_meta pname d deprecated)
                    (st\<lparr>ps_sessions := map2 session_add ss verdicts\<rparr>)) (\<lambda>st1.
             Inr (True, [], st1))
       | None \<Rightarrow>
           let m = [(''screening_status'', MStr ''SCREENED_OUT_NOT_DISCHARGED''),
                    (''screening_reason'', MStr (sd_reason d))] in
           Inr (False,
                if deprecated
                then m @ [(''screen_authority'', MStr ''deprecated-blanket-input-recorded-not-honored'')]
                else m,
                st\<lparr>ps_sessions := ss\<rparr>)))"

subsection \<open>Verifying a tile\<close>

fun verify_sessions ::
    "int \<Rightarrow> tile_context \<Rightarrow> tile_request \<Rightarrow> 'v session list \<Rightarrow> meta \<Rightarrow> refinement_request option \<Rightarrow>
     (meta \<times> refinement_request option \<times> 'v session list) res" where
  "verify_sessions left ctx cur [] md ref = Inr (md, ref, [])"
| "verify_sessions left ctx cur (s # ss) md ref =
     ebind (vp_verify_tile (ss_plugin s) (vp_state (ss_plugin s)) ctx) (\<lambda>(verdict, v).
     let s1 = session_add (set_plugin_state s v) verdict;
         name = vp_name (ss_plugin s);
         md1 = AList.update (name @ ''_status'') (MStr (status_str (tv_status verdict))) md in
     ebind (if tv_status verdict = VInconclusive \<and> ref = None then
              (if left > 0
               then ebind (default_refinement cur s1) (\<lambda>(r, s2). Inr (md1, Some r, s2))
               else Inr (AList.update (name @ ''_note'')
                           (MStr ''inconclusive; refinement budget exhausted'') md1, ref, s1))
            else Inr (md1, ref, s1)) (\<lambda>(md2, ref2, s2).
     ebind (verify_sessions left ctx cur ss md2 ref2) (\<lambda>(md3, ref3, ss3).
       Inr (md3, ref3, s2 # ss3))))"

subsection \<open>One iteration of the work stack\<close>

definition child_request ::
    "int \<times> int \<Rightarrow> halo_spec \<Rightarrow> string \<times> bbox \<Rightarrow> tile_request res" where
  "child_request shape halo c =
     ebind (read_bbox_for (snd c) halo (snd shape) (fst shape)) (\<lambda>read.
       Inr \<lparr>core_bbox = snd c, read_bbox = read, tr_halo = halo_actual (snd c) read,
            tile_id = fst c\<rparr>)"

definition child_id :: "string \<Rightarrow> nat \<Rightarrow> string" where
  "child_id parent index = parent @ ''#q'' @ str_of_nat index"

definition refine_tile ::
    "'s pipe_env \<Rightarrow> tile_request \<Rightarrow> refinement_request \<Rightarrow> ('v, 's) pipe_state \<Rightarrow>
     (('v, 's) pipe_state \<times> tile_request list) res" where
  "refine_tile env cur ref st0 =
     (let st = st0\<lparr>ps_n_requeued := ps_n_requeued st0 + 1,
                   ps_acc := record_refinement (ps_acc st0) (tile_id cur) (tile_id cur)
                               (area (core_bbox cur))\<rparr> in
      case rr_action ref of
        Subdivide \<Rightarrow>
          ebind (partition_core (core_bbox cur) (subdivision ref)) (\<lambda>boxes.
          let child_cores = map (\<lambda>(i, b). (child_id (tile_id cur) i, b)) (enumerate 0 boxes);
              sub = subdivide (ps_own st) (tile_id cur) child_cores in
          ebind (fst sub) (\<lambda>_.
          ebind (mapE (child_request (pe_shape env) (tr_halo cur)) child_cores) (\<lambda>children.
            Inr (st\<lparr>ps_own := snd sub,
                    ps_acc := record_subdivision (ps_acc st) (core_bbox cur),
                    ps_sessions := map (\<lambda>s. session_retire s (tile_id cur)) (ps_sessions st)\<rparr>,
                 children))))
      | IncreaseHalo \<Rightarrow>
          ebind (grown_request cur ref (pe_shape env)) (\<lambda>r. Inr (st, [r])))"

text \<open>The batched path: flush when the shape changes or the batch is full, then append.\<close>

definition batch_tile ::
    "'s pipe_env \<Rightarrow> tile_request \<Rightarrow> tensor \<Rightarrow> ('v, 's) pipe_state \<Rightarrow> ('v, 's) pipe_state res" where
  "batch_tile env cur tile st =
     (let shape = (height (read_bbox cur), width (read_bbox cur)) in
      ebind (if ps_batch st \<noteq> [] \<and> (Some shape \<noteq> ps_batch_shape st \<or>
                  int (length (ps_batch st)) \<ge> pe_batch_size env)
             then flush_batch env st else Inr st) (\<lambda>st1.
      let st2 = st1\<lparr>ps_batch := ps_batch st1 @ [(cur, tile)], ps_batch_shape := Some shape\<rparr> in
      if int (length (ps_batch st2)) \<ge> pe_batch_size env then flush_batch env st2 else Inr st2))"

text \<open>The end of the sequential path: commit the core, or refine and push.\<close>

definition conclude_tile ::
    "'s pipe_env \<Rightarrow> int \<Rightarrow> tile_request \<Rightarrow> tensor \<Rightarrow> meta \<Rightarrow> refinement_request option \<Rightarrow>
     ('v, 's) pipe_state \<Rightarrow> (('v, 's) pipe_state \<times> tile_request list \<times> int) res" where
  "conclude_tile env left cur result md ref st =
     (case ref of
        None \<Rightarrow>
          ebind (set_terminal (ps_own st) (tile_id cur) ''ACTIVE'') (\<lambda>own.
          ebind (sink_call (pe_write env (ps_sink st) (tile_id cur) (core_bbox cur)
                   (core_slice cur result) md)) (\<lambda>sink.
            Inr (st\<lparr>ps_own := own, ps_sink := sink, ps_n_tiles := ps_n_tiles st + 1\<rparr>, [], left)))
      | Some r \<Rightarrow>
          ebind (refine_tile env cur r st) (\<lambda>(st1, pushed). Inr (st1, pushed, left - 1)))"

definition forward_tile ::
    "'s pipe_env \<Rightarrow> int \<Rightarrow> tile_request \<Rightarrow> tensor \<Rightarrow> meta \<Rightarrow> meta \<Rightarrow> ('v, 's) pipe_state \<Rightarrow>
     (('v, 's) pipe_state \<times> tile_request list \<times> int) res" where
  "forward_tile env left cur tile source_meta rejected st =
     (let result = pe_forward env tile in
      ebind (mark_forward (ps_own st) (tile_id cur)) (\<lambda>own.
      let st1 = st\<lparr>ps_forward_batches := ps_forward_batches st + 1,
                   ps_acc := record_forward_core
                     (record_forward (ps_acc st) (area (read_bbox cur))) (core_bbox cur),
                   ps_own := own\<rparr>;
          ctx = \<lparr>tc_tile_id = tile_id cur, tc_core = core_bbox cur, tc_read = read_bbox cur,
                 tc_halo = tr_halo cur, tc_tensor = Some tile, tc_metadata = source_meta\<rparr> in
      ebind (verify_sessions left ctx cur (ps_sessions st1) rejected None) (\<lambda>(md, ref, ss).
        conclude_tile env left cur result md ref (st1\<lparr>ps_sessions := ss\<rparr>))))"

definition active_tile ::
    "'s pipe_env \<Rightarrow> int \<Rightarrow> tile_request \<Rightarrow> screen_decision option \<Rightarrow> meta \<Rightarrow>
     ('v, 's) pipe_state \<Rightarrow> (('v, 's) pipe_state \<times> tile_request list \<times> int) res" where
  "active_tile env left cur decision rejected st0 =
     (let tile = pe_read env (read_bbox cur);
          st = st0\<lparr>ps_acc := record_read_window
                     (record_active_core (ps_acc st0) (tile_id cur) (core_bbox cur))
                     (area (read_bbox cur))\<rparr>;
          meta0 = (case pe_source_meta env of None \<Rightarrow> []
                   | Some f \<Rightarrow> f (read_bbox cur) (tile_id cur) (core_bbox cur));
          source_meta = (case decision of None \<Rightarrow> meta0
            | Some d \<Rightarrow> AList.update ''screening_reason'' (MStr (sd_reason d))
                (AList.update ''screening_status'' (MStr (screen_status_str (sd_status d))) meta0)) in
      if batching env
      then ebind (batch_tile env cur tile st) (\<lambda>st1. Inr (st1, [], left))
      else forward_tile env left cur tile source_meta rejected st)"

definition process_tile ::
    "'s pipe_env \<Rightarrow> int \<Rightarrow> tile_request \<Rightarrow> ('v, 's) pipe_state \<Rightarrow>
     (('v, 's) pipe_state \<times> tile_request list \<times> int) res" where
  "process_tile env left cur st0 =
     (case pe_screen env of
        None \<Rightarrow> active_tile env left cur None [] st0
      | Some (pname, screen) \<Rightarrow>
          let st = st0\<lparr>ps_acc := record_screen_query (ps_acc st0)\<rparr> in
          ebind (screen cur) (\<lambda>d.
            if sd_status d = ScreenedOut then
              ebind (screened_tile env pname d cur st) (\<lambda>(settled, md, st1).
                if settled then Inr (st1, [], left)
                else active_tile env left cur (Some d) md st1)
            else active_tile env left cur (Some d) [] st))"

subsection \<open>The work stack of one base tile\<close>

lemma verify_sessions_budget:
  "verify_sessions left ctx cur ss md ref = Inr (md', ref', ss') \<Longrightarrow> ref' = None \<or> ref' = ref \<or> 0 < left"
proof (induction ss arbitrary: md ref md' ref' ss')
  case (Cons s ss)
  show ?case
  proof (cases "0 < left")
    case False
    from Cons.prems obtain md2 ref2 ss2 where
      "verify_sessions left ctx cur ss md2 ref2 = Inr (md', ref', ss2)" "ref2 = ref"
      using False by (auto simp: ebind_eq_Inr Let_def split: if_splits prod.splits)
    with Cons.IH show ?thesis by blast
  qed simp
qed simp

lemma active_tile_budget:
  assumes "active_tile env left cur d md st = Inr (st', pushed, left')"
  shows "pushed = [] \<and> left' = left \<or> 0 < left \<and> left' = left - 1"
proof (cases "batching env")
  case True
  with assms show ?thesis by (auto simp: active_tile_def Let_def ebind_eq_Inr)
next
  case False
  with assms show ?thesis
    by (auto simp: active_tile_def forward_tile_def conclude_tile_def Let_def ebind_eq_Inr
        split: option.splits prod.splits dest!: verify_sessions_budget)
qed

lemma process_tile_budget:
  assumes "process_tile env left cur st = Inr (st', pushed, left')"
  shows "pushed = [] \<and> left' = left \<or> 0 < left \<and> left' = left - 1"
  using assms
  by (auto simp: process_tile_def Let_def ebind_eq_Inr dest: active_tile_budget
      split: option.splits prod.splits if_splits)

text \<open>
  \<open>while pending\<close>: the stack is a list with its top first, so that what an iteration pushes, in
  order, lies reversed on top.  Every refinement consumes budget, which bounds the loop.
\<close>

function tile_loop ::
    "'s pipe_env \<Rightarrow> int \<Rightarrow> tile_request list \<Rightarrow> ('v, 's) pipe_state \<Rightarrow> ('v, 's) pipe_state res"
where
  "tile_loop env left [] st = Inr st"
| "tile_loop env left (cur # pending) st =
     (case process_tile env left cur st of
        Inl e \<Rightarrow> Inl e
      | Inr (st1, pushed, left1) \<Rightarrow> tile_loop env left1 (rev pushed @ pending) st1)"
  by pat_completeness auto

termination tile_loop
  by (relation "measures [\<lambda>(env, left, pending, st). nat left, \<lambda>(env, left, pending, st). length pending]")
    (auto dest!: process_tile_budget)

declare tile_loop.simps [simp del]

definition run_base ::
    "'s pipe_env \<Rightarrow> ('v, 's) pipe_state \<Rightarrow> tile_request \<Rightarrow> ('v, 's) pipe_state res" where
  "run_base env st base =
     ebind (add_root (ps_own st) (tile_id base) (core_bbox base)) (\<lambda>own.
       tile_loop env (pe_max_requeues env) [base] (st\<lparr>ps_own := own\<rparr>))"

subsection \<open>A run\<close>

datatype facade = SingleVerdict global_result | MultiVerdict multi_summary

record run_report =
  rp_n_tiles :: nat
  rp_n_requeued :: nat
  rp_forward_batches :: nat
  rp_halo :: halo_requirement
  rp_overhead :: overhead_stats
  rp_verification :: "facade option"
  rp_results :: "(verifier_identity \<times> global_result) list"
  rp_descriptors :: "(verifier_identity \<times> metric_descriptor option) list"
  rp_ownership :: ownership_tree
  rp_accounting :: work_accounting
  rp_terminal :: pixel_counts

definition run_context :: "rat \<Rightarrow> verification_context" where
  "run_context px =
     \<lparr>vc_pixel_nm = px, vc_forward_model_id = ''unknown'', vc_process_parameters = [],
      vc_parameter_box = [], vc_metric = ''epe'', vc_input_hash = None, vc_model_hash = None,
      vc_git_commit = None\<rparr>"

definition run_requirement ::
    "'s pipe_env \<Rightarrow> 'v plugin list \<Rightarrow> halo_requirement res" where
  "run_requirement env ps =
     ebind (mapE (\<lambda>p. vp_required_halo p (vp_state p) (run_context (pe_pixel_nm env))) ps) (\<lambda>reqs.
     ebind (pe_policy env \<lparr>pixel_nm = pe_pixel_nm env, tile_core_px = pe_core_size env,
                           ctx_node = None, ctx_model = None, ctx_kernel = None\<rparr>) (\<lambda>physical.
       if filter (\<lambda>r. r \<noteq> None) reqs \<noteq> []
       then combine_requirements (Some physical # filter (\<lambda>r. r \<noteq> None) reqs)
       else Inr physical))"

definition run_accounting ::
    "int \<times> int \<Rightarrow> work_accounting option \<Rightarrow> work_accounting res" where
  "run_accounting shape given =
     (let acc = (case given of None \<Rightarrow> new_accounting 0 | Some a \<Rightarrow> a);
          full = fst shape * snd shape in
      if full_chip_pixels acc = 0 then Inr (acc\<lparr>full_chip_pixels := full\<rparr>)
      else if full_chip_pixels acc \<noteq> full
        then Inl (ValueError ''WorkAccounting.full_chip_pixels does not match the source domain'')
      else Inr acc)"

definition prepare_session :: "rat \<Rightarrow> 'v session \<Rightarrow> 'v session res" where
  "prepare_session px s =
     ebind (vp_prepare (ss_plugin s) (vp_state (ss_plugin s)) (run_context px)) (\<lambda>v.
       Inr (set_plugin_state s v))"

text \<open>The dict comprehensions over the sessions: equal identities share one entry.\<close>

definition collect_results :: "'v session list \<Rightarrow> (verifier_identity \<times> global_result) list" where
  "collect_results ss = foldl (\<lambda>m s. AList.update (ss_identity s) (session_finalize s) m) [] ss"

definition collect_descriptors ::
    "'v session list \<Rightarrow> (verifier_identity \<times> metric_descriptor option) list" where
  "collect_descriptors ss = foldl (\<lambda>m s. AList.update (ss_identity s) (ss_descriptor s) m) [] ss"

definition run_verdict :: "'v session list \<Rightarrow> facade option" where
  "run_verdict ss =
     (if ss = [] then None
      else if length ss = 1 then Some (SingleVerdict (snd (hd (collect_results ss))))
      else Some (MultiVerdict (fold_global (collect_results ss))))"

definition initial_state ::
    "'s \<Rightarrow> 'v session list \<Rightarrow> work_accounting \<Rightarrow> ('v, 's) pipe_state" where
  "initial_state sink ss acc =
     \<lparr>ps_own = empty_tree, ps_acc = acc, ps_sink = sink, ps_sessions = ss, ps_n_tiles = 0,
      ps_n_requeued = 0, ps_forward_batches = 0, ps_batch = [], ps_batch_shape = None\<rparr>"

definition run_tiles ::
    "'s pipe_env \<Rightarrow> tile_request list \<Rightarrow> ('v, 's) pipe_state \<Rightarrow> ('v, 's) pipe_state res" where
  "run_tiles env bases st =
     ebind (foldE (run_base env) st bases) (\<lambda>st1.
       if batching env then flush_batch env st1 else Inr st1)"

definition report_of ::
    "('v, 's) pipe_state \<Rightarrow> halo_requirement \<Rightarrow> overhead_stats \<Rightarrow> pixel_counts \<Rightarrow> run_report" where
  "report_of st requirement overhead counts =
     \<lparr>rp_n_tiles = ps_n_tiles st, rp_n_requeued = ps_n_requeued st,
      rp_forward_batches = ps_forward_batches st, rp_halo = requirement,
      rp_overhead = overhead, rp_verification = run_verdict (ps_sessions st),
      rp_results = collect_results (ps_sessions st),
      rp_descriptors = collect_descriptors (ps_sessions st),
      rp_ownership = ps_own st, rp_accounting = ps_acc st, rp_terminal = counts\<rparr>"

definition run_streaming ::
    "'s pipe_env \<Rightarrow> 'v plugin list \<Rightarrow> work_accounting option \<Rightarrow> 's \<Rightarrow>
     (run_report \<times> 's) res" where
  "run_streaming env ps given sink =
     ebind (guard (batching env \<and> (ps \<noteq> [] \<or> pe_screen env \<noteq> None))
       (ValueError ''batched forward requires no verification plugins and no screening policy'')) (\<lambda>_.
     ebind (guard (pe_batch_size env < 1) (ValueError ''batch_size must be >= 1'')) (\<lambda>_.
     ebind (run_requirement env ps) (\<lambda>requirement.
     let halo = min (halo_px requirement) (pe_max_halo_px env) in
     ebind (guard (pe_tolerance_nm env \<noteq> None \<and> length ps > 1)
       (ValueError ''tolerance_nm is a single-verifier legacy convenience'')) (\<lambda>_.
     let ss0 = map (\<lambda>p. make_verifier_session p (run_context (pe_pixel_nm env)) (pe_tolerance_nm env)) ps in
     ebind (run_accounting (pe_shape env) given) (\<lambda>acc.
     ebind (mapE (prepare_session (pe_pixel_nm env)) ss0) (\<lambda>ss.
     ebind (plan_tile_requests (pe_shape env) (pe_core_size env) (Inl halo) None ''tile'') (\<lambda>bases.
     ebind (run_tiles env bases (initial_state sink ss acc)) (\<lambda>st.
     ebind (verify_total_coverage (ps_own st) (fst (pe_shape env) * snd (pe_shape env))) (\<lambda>terminal.
     ebind (tiling_overhead bases) (\<lambda>overhead.
       Inr (report_of st requirement overhead terminal, ps_sink st)))))))))))"

subsection \<open>\<open>verify_layout\<close>\<close>

record layout_result =
  lr_status :: verdict
  lr_epe_upper :: "rat option"
  lr_hausdorff_upper :: "rat option"
  lr_error_budget :: "error_parts option"
  lr_coverage :: coverage
  lr_inconclusive_tiles :: nat
  lr_total_tiles :: nat
  lr_model_provenance :: string
  lr_n_refinements :: nat
  lr_accounting :: work_accounting

definition live_descriptors ::
    "(verifier_identity \<times> metric_descriptor option) list \<Rightarrow>
     (verifier_identity \<times> metric_descriptor) list" where
  "live_descriptors ds = map (\<lambda>(i, d). (i, the d)) (filter (\<lambda>(i, d). d \<noteq> None) ds)"

definition layout_bound :: "run_report \<Rightarrow> string \<Rightarrow> rat option res" where
  "layout_bound rep quantity =
     (if rp_results rep = [] then Inr None
      else if live_descriptors (rp_descriptors rep) = [] then
        Inr (case rp_verification rep of Some (SingleVerdict v) \<Rightarrow> gr_worst_upper v | _ \<Rightarrow> None)
      else project_metric_bound (rp_results rep) (live_descriptors (rp_descriptors rep)) quantity ''nm'')"

definition verify_layout ::
    "metric_sink pipe_env \<Rightarrow> 'v plugin list \<Rightarrow> rat \<Rightarrow> layout_result res" where
  "verify_layout env ps tolerance =
     (let env1 = env\<lparr>pe_write := metric_write_core, pe_certify := Some metric_record_certified,
                     pe_tolerance_nm := (if length ps = 1 then Some tolerance else None),
                     pe_batch_size := 1, pe_batched_forward := None\<rparr> in
      ebind (run_streaming env1 ps (Some (new_accounting (fst (pe_shape env) * snd (pe_shape env))))
               new_metric_sink) (\<lambda>(rep, sink).
      ebind (layout_bound rep ''epe'') (\<lambda>epe.
      ebind (layout_bound rep ''hausdorff'') (\<lambda>hausdorff.
        Inr \<lparr>lr_status = (case rp_verification rep of None \<Rightarrow> VInconclusive
               | Some (SingleVerdict v) \<Rightarrow> gr_status v | Some (MultiVerdict m) \<Rightarrow> ms_status m),
             lr_epe_upper = epe, lr_hausdorff_upper = hausdorff,
             lr_error_budget = (case rp_verification rep of
               Some (SingleVerdict v) \<Rightarrow> Some (gr_error_budget v) | _ \<Rightarrow> None),
             lr_coverage = (case rp_verification rep of
               Some (SingleVerdict v) \<Rightarrow> gr_coverage v | _ \<Rightarrow> CoverInconclusive),
             lr_inconclusive_tiles = (case rp_verification rep of None \<Rightarrow> 0
               | Some (SingleVerdict v) \<Rightarrow> gr_n_inconclusive v
               | Some (MultiVerdict m) \<Rightarrow> ms_n_inconclusive m),
             lr_total_tiles = rp_n_tiles rep,
             lr_model_provenance = ''streaming/'' @ str_of_int (pe_core_size env) @ ''px/'' @
               str_of_int (halo_px (rp_halo rep)) @ ''px/screen='' @
               (case pe_screen env of None \<Rightarrow> ''none'' | Some (nm, _) \<Rightarrow> nm),
             lr_n_refinements = rp_n_requeued rep, lr_accounting = rp_accounting rep\<rparr>))))"

end
