(* ===== verification/PipelineLedger.thy ===== *)
theory PipelineLedger
  imports Pipeline
begin

text \<open>
  The ownership ledger of a run (\<open>streaming/pipeline.py\<close>): between the ownership tree, the tiles
  that are still outstanding (on the work stack or in the pending batch) and the commits the sink
  has accepted.  Every final leaf is exactly one of the two, its core is the tile's core, and it
  has a terminal disposition exactly when it has been committed.
\<close>

datatype sink_op =
    WriteOp (op_id: string) (op_box: bbox) (op_core: tensor) (op_meta: meta)
  | CertOp (op_id: string) (op_box: bbox) (op_fill: "rat option") (op_meta: meta)

definition apply_op :: "'s pipe_env \<Rightarrow> 's \<Rightarrow> sink_op \<Rightarrow> 's res" where
  "apply_op env s op = sink_call (case op of
       WriteOp tid b c md \<Rightarrow> pe_write env s tid b c md
     | CertOp tid b fill md \<Rightarrow> (case pe_certify env of
           Some recorder \<Rightarrow> recorder s tid b fill md
         | None \<Rightarrow> (Inl (TypeError ''not callable''), s)))"

definition sink_run :: "'s pipe_env \<Rightarrow> 's \<Rightarrow> sink_op list \<Rightarrow> 's res" where
  "sink_run env s ops = foldE (apply_op env) s ops"

definition open_leaf :: "ownership_tree \<Rightarrow> tile_request \<Rightarrow> bool" where
  "open_leaf own r \<longleftrightarrow>
     (\<exists>l. leaves own (tile_id r) = Some l \<and> leaf_core l = core_bbox r \<and> terminal l = None)"

definition closed_leaf :: "ownership_tree \<Rightarrow> sink_op \<Rightarrow> bool" where
  "closed_leaf own op \<longleftrightarrow>
     (\<exists>l. leaves own (op_id op) = Some l \<and> leaf_core l = op_box op \<and> terminal l \<noteq> None)"

definition ledger ::
    "ownership_tree \<Rightarrow> tile_request list \<Rightarrow> sink_op list \<Rightarrow> bbox list \<Rightarrow> bool" where
  "ledger own outs ops bases \<longleftrightarrow>
     tree_ok own \<and> mset (final own) = mset (map tile_id outs) + mset (map op_id ops) \<and>
     (\<forall>r\<in>set outs. open_leaf own r) \<and> (\<forall>op\<in>set ops. closed_leaf own op) \<and>
     (\<forall>p. owned own p = cover_count bases p)"

lemma ledgerD:
  assumes "ledger own outs ops bases"
  shows "tree_ok own" "mset (final own) = mset (map tile_id outs) + mset (map op_id ops)"
    "r \<in> set outs \<Longrightarrow> open_leaf own r" "op \<in> set ops \<Longrightarrow> closed_leaf own op"
    "owned own p = cover_count bases p"
  using assms unfolding ledger_def by blast+

lemma ledger_empty: "ledger empty_tree [] [] []"
  by (simp add: ledger_def) (simp add: empty_tree_def)

lemma ledger_perm: "ledger own outs ops bases \<Longrightarrow> mset outs' = mset outs \<Longrightarrow> ledger own outs' ops bases"
  unfolding ledger_def by (metis mset_map set_mset_mset)

lemma ledger_distinct:
  assumes "ledger own outs ops bases"
  shows "distinct (map tile_id outs @ map op_id ops)"
proof -
  have "mset (final own) = mset (map tile_id outs @ map op_id ops)"
    using ledgerD(2) [OF assms] by simp
  then show ?thesis using tree_okD(1) [OF ledgerD(1) [OF assms]] by (metis mset_eq_imp_distinct_iff)
qed

lemma ledger_final:
  assumes "ledger own outs ops bases"
  shows "set (final own) = tile_id ` set outs \<union> op_id ` set ops"
proof -
  have "mset (final own) = mset (map tile_id outs @ map op_id ops)"
    using ledgerD(2) [OF assms] by simp
  then have "set (final own) = set (map tile_id outs @ map op_id ops)" by (rule mset_eq_setD)
  then show ?thesis by simp
qed

text \<open>An update of one leaf that keeps its id and core.\<close>

lemma open_leaf_other:
  "tile_id r \<noteq> i \<Longrightarrow> open_leaf (own\<lparr>leaves := (leaves own)(i \<mapsto> l)\<rparr>) r \<longleftrightarrow> open_leaf own r"
  by (simp add: open_leaf_def)

lemma closed_leaf_other:
  "op_id op \<noteq> i \<Longrightarrow> closed_leaf (own\<lparr>leaves := (leaves own)(i \<mapsto> l)\<rparr>) op \<longleftrightarrow> closed_leaf own op"
  by (simp add: closed_leaf_def)

lemma ledger_mark:
  assumes "ledger own outs ops bases" "mark_forward own i = Inr own'"
  shows "ledger own' outs ops bases"
proof -
  obtain l where l: "leaves own i = Some l"
    "own' = own\<lparr>leaves := (leaves own)(i \<mapsto> l\<lparr>forward_seen := True\<rparr>)\<rparr>"
    using assms(2) by (auto simp: mark_forward_def get_leaf_def ebind_eq_Inr split: option.splits)
  have "open_leaf own' r" if "open_leaf own r" for r
    using that l(1) by (auto simp: open_leaf_def l(2))
  moreover have "closed_leaf own' op" if "closed_leaf own op" for op
    using that l(1) by (auto simp: closed_leaf_def l(2))
  ultimately show ?thesis
    using assms(1) mark_forward_effect [OF assms(2) ledgerD(1) [OF assms(1)]]
    unfolding ledger_def by metis
qed

lemma ledger_close:
  assumes led: "ledger own (r # outs) ops bases" and st: "set_terminal own (tile_id r) d = Inr own'"
    and op: "op_id op = tile_id r" "op_box op = core_bbox r"
  shows "ledger own' outs (ops @ [op]) bases"
proof -
  obtain l v where l: "leaves own (tile_id r) = Some l"
    "own' = own\<lparr>leaves := (leaves own)(tile_id r \<mapsto> l\<lparr>terminal := Some v\<rparr>)\<rparr>"
    using st by (auto simp: set_terminal_def get_leaf_def ebind_eq_Inr split: option.splits if_splits)
  have core: "leaf_core l = core_bbox r"
    using ledgerD(3) [OF led, of r] by (simp add: open_leaf_def l)
  have dist: "distinct (map tile_id (r # outs) @ map op_id ops)" using led by (rule ledger_distinct)
  have "open_leaf own' x" if "x \<in> set outs" for x
  proof -
    have "tile_id x \<noteq> tile_id r" using dist that by (force simp: image_iff)
    then show ?thesis using ledgerD(3) [OF led, of x] that by (simp add: l open_leaf_other)
  qed
  moreover have "closed_leaf own' x" if "x \<in> set ops" for x
  proof -
    have "op_id x \<noteq> tile_id r" using dist that by (force simp: image_iff)
    then show ?thesis using ledgerD(4) [OF led that] by (simp add: l closed_leaf_other)
  qed
  moreover have "closed_leaf own' op" using op core by (simp add: closed_leaf_def l)
  moreover have "mset (final own') = mset (map tile_id outs) + mset (map op_id (ops @ [op]))"
    using ledgerD(2) [OF led] set_terminal_effect(3) [OF st ledgerD(1) [OF led]] op(1) by simp
  ultimately show ?thesis
    using set_terminal_effect(1,2) [OF st ledgerD(1) [OF led]] ledgerD(5) [OF led]
    by (simp add: ledger_def)
qed

lemma ledger_root:
  assumes led: "ledger own outs ops bases" and root: "add_root own (tile_id r) (core_bbox r) = Inr own'"
    and ok: "bbox_ok (core_bbox r)"
  shows "ledger own' (r # outs) ops (bases @ [core_bbox r])"
proof -
  note eff = add_root_effect [OF root ledgerD(1) [OF led] ok]
  have own': "leaves own' = (leaves own)(tile_id r \<mapsto> \<lparr>leaf_id = tile_id r, leaf_core = core_bbox r,
      parent_id = None, forward_seen = False, terminal = None\<rparr>)"
    using root by (auto simp: add_root_def split: if_splits)
  have "open_leaf own' x" if "x \<in> set outs" for x
    using ledgerD(3) [OF led that] eff(4) by (auto simp: open_leaf_def own')
  moreover have "closed_leaf own' x" if "x \<in> set ops" for x
    using ledgerD(4) [OF led that] eff(4) by (auto simp: closed_leaf_def own')
  moreover have "open_leaf own' r" by (simp add: open_leaf_def own')
  moreover have "owned own' p = cover_count (bases @ [core_bbox r]) p" for p
    using eff(2) [of p] ledgerD(5) [OF led, of p] by simp
  ultimately show ?thesis
    using eff(1,3) ledgerD(2) [OF led] by (simp add: ledger_def)
qed

lemma install_children_leaf:
  assumes "install_children pid fwd cs t = (Inr ls, t')" "c \<in> set cs"
  shows "\<exists>l. leaves t' (fst c) = Some l \<and> leaf_core l = snd c \<and> terminal l = None"
  using assms
proof (induction cs arbitrary: t ls)
  case (Cons d cs)
  obtain cid core where d: "d = (cid, core)" by (cases d)
  define t1 where "t1 = t\<lparr>leaves := (leaves t)(cid \<mapsto> \<lparr>leaf_id = cid, leaf_core = core,
      parent_id = Some pid, forward_seen = fwd, terminal = None\<rparr>), final := final t @ [cid]\<rparr>"
  from Cons.prems(1) obtain ls1 where rest: "install_children pid fwd cs t1 = (Inr ls1, t')"
    by (cases "install_children pid fwd cs t1")
      (auto simp: d Let_def ebind_eq_Inr simp flip: t1_def split: if_splits)
  have keep: "leaves t' i = leaves s i" if "install_children pid fwd cs s = (Inr ks, t')"
    "leaves s i \<noteq> None" for s ks i
    using that
  proof (induction cs arbitrary: s ks)
    case (Cons e es)
    obtain eid ecore where e: "e = (eid, ecore)" by (cases e)
    define s1 where "s1 = s\<lparr>leaves := (leaves s)(eid \<mapsto> \<lparr>leaf_id = eid, leaf_core = ecore,
        parent_id = Some pid, forward_seen = fwd, terminal = None\<rparr>), final := final s @ [eid]\<rparr>"
    from Cons.prems(1) obtain ks1 where "install_children pid fwd es s1 = (Inr ks1, t')"
        "leaves s eid = None"
      by (cases "install_children pid fwd es s1")
        (auto simp: e Let_def ebind_eq_Inr simp flip: s1_def split: if_splits)
    with Cons.IH [of s1 ks1] Cons.prems(2) show ?case by (auto simp: s1_def split: if_splits)
  qed simp
  show ?case
  proof (cases "c \<in> set cs")
    case True
    then show ?thesis using Cons.IH [OF rest] by blast
  next
    case False
    with Cons.prems(2) have "c = (cid, core)" by (simp add: d)
    then show ?thesis using keep [OF rest, of cid] by (simp add: t1_def)
  qed
qed simp

lemma subdivide_leaf:
  assumes "subdivide t pid cs = (Inr ls, t')" "c \<in> set cs"
  shows "\<exists>l. leaves t' (fst c) = Some l \<and> leaf_core l = snd c \<and> terminal l = None"
proof -
  from assms(1) obtain fwd t0 t2 ks where "install_children pid fwd cs t0 = (Inr ks, t2)"
      "leaves t' = leaves t2"
    by (auto simp: subdivide_def Let_def split: option.splits if_splits sum.splits)
      (metis prod.collapse)
  with install_children_leaf [OF _ assms(2)] show ?thesis by metis
qed

lemma ledger_subdivide:
  assumes led: "ledger own (r # outs) ops bases"
    and part: "partition_core (core_bbox r) n = Inr boxes" and cs: "map snd cs = boxes"
    and sub: "subdivide own (tile_id r) cs = (Inr ls, own')"
    and kids: "map (\<lambda>k. (tile_id k, core_bbox k)) kids = cs"
  shows "ledger own' (kids @ outs) ops bases"
proof -
  have sub2: "2 \<le> n" using part by (simp add: partition_core_def split: if_splits)
  obtain l where l: "leaves own (tile_id r) = Some l" "leaf_core l = core_bbox r"
    using ledgerD(3) [OF led, of r] by (auto simp: open_leaf_def)
  then have ok: "bbox_ok (core_bbox r)" using tree_okD(4) [OF ledgerD(1) [OF led]] by metis
  from partition_core_cover [OF sub2 ok] part have cov: "exact_cover boxes (\<lambda>q. in_box q (core_bbox r))"
    "\<forall>b\<in>set boxes. bbox_ok b" by auto
  have cok: "\<forall>c\<in>set cs. bbox_ok (snd c)" using cov(2) unfolding cs [symmetric] set_map by blast
  from subdivide_effect [OF sub ledgerD(1) [OF led] cok] l obtain
    eff: "tree_ok own'"
      "\<forall>p. owned own' p + (if in_box p (core_bbox r) then 1 else 0) =
             owned own p + cover_count (map snd cs) p"
      "final own' = remove1 (tile_id r) (final own) @ map fst cs"
      "\<forall>i. leaves own i \<noteq> None \<longrightarrow> leaves own' i = leaves own i"
    by (metis option.inject)
  have "owned own' p = owned own p" for p
  proof -
    have "cover_count (map snd cs) p = (if in_box p (core_bbox r) then 1 else 0)"
      using cov(1) cs unfolding exact_cover_def by blast
    with eff(2) show ?thesis by (metis add_right_cancel)
  qed
  moreover have "open_leaf own' x" if "x \<in> set outs" for x
    using ledgerD(3) [OF led, of x] that eff(4) by (auto simp: open_leaf_def)
  moreover have "closed_leaf own' x" if "x \<in> set ops" for x
    using ledgerD(4) [OF led that] eff(4) by (auto simp: closed_leaf_def)
  moreover have "open_leaf own' k" if "k \<in> set kids" for k
  proof -
    have "(tile_id k, core_bbox k) \<in> set cs" using that kids by force
    from subdivide_leaf [OF sub this] show ?thesis by (simp add: open_leaf_def)
  qed
  moreover have "map fst cs = map tile_id kids" using kids by auto
  then have "mset (final own') = mset (map tile_id (kids @ outs)) + mset (map op_id ops)"
    using ledgerD(2) [OF led] eff(3) by simp
  ultimately show ?thesis using eff(1) ledgerD(5) [OF led] by (auto simp: ledger_def)
qed

text \<open>A ledger with nothing outstanding says that the commits partition the chip.\<close>

lemma ledger_settled:
  assumes led: "ledger own [] ops bases" and cov: "exact_cover bases (in_domain shape)"
  shows "exact_cover (map op_box ops) (in_domain shape)" "distinct (map op_id ops)"
    "set (final own) = op_id ` set ops"
proof -
  have core: "op_box op = core_of own (op_id op)" if "op \<in> set ops" for op
    using ledgerD(4) [OF led that] by (auto simp: closed_leaf_def core_of_def)
  have "mset (final_cores own) = image_mset (core_of own) (mset (map op_id ops))"
    using ledgerD(2) [OF led] by (simp add: final_cores_def)
  also have "\<dots> = mset (map op_box ops)"
    using core by (simp add: image_mset.compositionality o_def) (intro image_mset_cong, simp)
  finally have "mset (final_cores own) = mset (map op_box ops)" .
  then have "cover_count (map op_box ops) p = owned own p" for p
    unfolding owned_def cover_count_def by (metis mset_filter size_mset)
  then show "exact_cover (map op_box ops) (in_domain shape)"
    using cov ledgerD(5) [OF led] by (simp add: exact_cover_def)
  show "distinct (map op_id ops)" using ledger_distinct [OF led] by simp
  show "set (final own) = op_id ` set ops" using ledger_final [OF led] by simp
qed

subsection \<open>The invariant of a run\<close>

text \<open>
  \<open>context_ok shape h r\<close>: the read region holds every pixel of the layout within \<open>h\<close> of the core.
  Only tiles that were never split are known to have it: their ids hold no \<open>#\<close>.
\<close>

definition context_ok :: "int \<times> int \<Rightarrow> int \<Rightarrow> tile_request \<Rightarrow> bool" where
  "context_ok shape h r \<longleftrightarrow>
     bx0 (read_bbox r) \<le> max 0 (bx0 (core_bbox r) - h) \<and>
     by0 (read_bbox r) \<le> max 0 (by0 (core_bbox r) - h) \<and>
     min (snd shape) (bx1 (core_bbox r) + h) \<le> bx1 (read_bbox r) \<and>
     min (fst shape) (by1 (core_bbox r) + h) \<le> by1 (read_bbox r)"

definition split_id :: "string \<Rightarrow> bool" where
  "split_id i \<longleftrightarrow> CHR ''#'' \<in> set i"

definition req_good :: "int \<times> int \<Rightarrow> int \<Rightarrow> tile_request \<Rightarrow> bool" where
  "req_good shape h r \<longleftrightarrow> request_ok shape r \<and> (\<not> split_id (tile_id r) \<longrightarrow> context_ok shape h r)"

definition faithful_batch :: "'s pipe_env \<Rightarrow> bool" where
  "faithful_batch env \<longleftrightarrow>
     (\<forall>bf. pe_batched_forward env = Some bf \<longrightarrow> (\<forall>ts. bf ts = map (pe_forward env) ts))"

definition tile_output :: "'s pipe_env \<Rightarrow> tile_request \<Rightarrow> tensor" where
  "tile_output env r = core_slice r (pe_forward env (pe_read env (read_bbox r)))"

definition op_good :: "'s pipe_env \<Rightarrow> int \<Rightarrow> sink_op \<Rightarrow> bool" where
  "op_good env h op \<longleftrightarrow> (pe_screen env = None \<and> faithful_batch env \<longrightarrow>
     (\<exists>r md. req_good (pe_shape env) h r \<and>
        op = WriteOp (tile_id r) (core_bbox r) (tile_output env r) md))"

definition outstanding :: "tile_request list \<Rightarrow> ('v, 's) pipe_state \<Rightarrow> tile_request list" where
  "outstanding stack st = stack @ map fst (ps_batch st)"

definition pinv ::
    "'s pipe_env \<Rightarrow> int \<Rightarrow> 's \<Rightarrow> bbox list \<Rightarrow> tile_request list \<Rightarrow> sink_op list \<Rightarrow>
     ('v, 's) pipe_state \<Rightarrow> bool" where
  "pinv env h s0 bases stack ops st \<longleftrightarrow>
     ledger (ps_own st) (outstanding stack st) ops bases \<and>
     sink_run env s0 ops = Inr (ps_sink st) \<and> ps_n_tiles st = length ops \<and>
     (\<forall>r\<in>set (outstanding stack st). req_good (pe_shape env) h r) \<and>
     (\<forall>rt\<in>set (ps_batch st). snd rt = pe_read env (read_bbox (fst rt))) \<and>
     (\<forall>op\<in>set ops. op_good env h op) \<and>
     (ps_n_requeued st = 0 \<longrightarrow> (\<forall>i\<in>set (final (ps_own st)). \<not> split_id i))"

lemma sink_run_snoc: "sink_run env s0 (ops @ [op]) = ebind (sink_run env s0 ops) (\<lambda>s. apply_op env s op)"
proof -
  have "foldE (apply_op env) s [op] = apply_op env s op" for s
    by (cases "apply_op env s op") simp_all
  then show ?thesis by (simp add: sink_run_def foldE_append)
qed

lemma pinv_irrelevant [simp]:
  "pinv env h s0 bases stack ops (st\<lparr>ps_acc := a\<rparr>) = pinv env h s0 bases stack ops st"
  "pinv env h s0 bases stack ops (st\<lparr>ps_sessions := ss\<rparr>) = pinv env h s0 bases stack ops st"
  "pinv env h s0 bases stack ops (st\<lparr>ps_forward_batches := n\<rparr>) = pinv env h s0 bases stack ops st"
  "pinv env h s0 bases stack ops (st\<lparr>ps_batch_shape := sh\<rparr>) = pinv env h s0 bases stack ops st"
  by (simp_all add: pinv_def outstanding_def)

lemma pinv_mark:
  assumes "pinv env h s0 bases stack ops st" "mark_forward (ps_own st) i = Inr own"
  shows "pinv env h s0 bases stack ops (st\<lparr>ps_own := own\<rparr>)"
proof -
  have led: "ledger (ps_own st) (outstanding stack st) ops bases" using assms(1) by (simp add: pinv_def)
  have "final own = final (ps_own st)"
    using mark_forward_effect(3) [OF assms(2) ledgerD(1) [OF led]] .
  with ledger_mark [OF led assms(2)] assms(1) show ?thesis by (simp add: pinv_def outstanding_def)
qed

text \<open>Committing the tile on top of the stack.\<close>

lemma pinv_commit:
  assumes inv: "pinv env h s0 bases (cur # stack) ops st"
    and settle: "set_terminal (ps_own st) (tile_id cur) d = Inr own"
    and sink: "apply_op env (ps_sink st) op = Inr s"
    and op: "op_id op = tile_id cur" "op_box op = core_bbox cur" "op_good env h op"
  shows "pinv env h s0 bases stack (ops @ [op]) (st\<lparr>ps_own := own, ps_sink := s, ps_n_tiles := ps_n_tiles st + 1\<rparr>)"
proof -
  have led: "ledger (ps_own st) (cur # outstanding stack st) ops bases"
    using inv by (simp add: pinv_def outstanding_def)
  have fin: "final own = final (ps_own st)"
    using set_terminal_effect(3) [OF settle ledgerD(1) [OF led]] .
  have "sink_run env s0 (ops @ [op]) = Inr s" using inv sink by (simp add: sink_run_snoc pinv_def)
  with ledger_close [OF led settle op(1,2)] inv fin op(3) show ?thesis
    by (simp add: pinv_def outstanding_def)
qed

text \<open>Flushing the pending batch commits its tiles.\<close>

lemma flush_fold:
  assumes "foldE (flush_one env) st zs = Inr st'"
    and "ledger (ps_own st) (map (fst \<circ> fst) zs @ outs) ops bases"
    and "sink_run env s0 ops = Inr (ps_sink st)"
    and "\<forall>z\<in>set zs. pe_screen env = None \<and> faithful_batch env \<longrightarrow>
      req_good (pe_shape env) h (fst (fst z)) \<and> core_slice (fst (fst z)) (snd z) = tile_output env (fst (fst z))"
  shows "\<exists>ops'. length ops' = length zs \<and> ledger (ps_own st') outs (ops @ ops') bases \<and>
    sink_run env s0 (ops @ ops') = Inr (ps_sink st') \<and> (\<forall>op\<in>set ops'. op_good env h op) \<and>
    ps_n_tiles st' = ps_n_tiles st \<and> ps_n_requeued st' = ps_n_requeued st \<and>
    ps_batch st' = ps_batch st \<and> final (ps_own st') = final (ps_own st)"
  using assms
proof (induction zs arbitrary: st ops)
  case (Cons z zs)
  let ?r = "fst (fst z)"
  define op where "op = WriteOp (tile_id ?r) (core_bbox ?r) (core_slice ?r (snd z)) []"
  from Cons.prems(1) obtain st1 where
    one: "flush_one env st z = Inr st1" and rest: "foldE (flush_one env) st1 zs = Inr st'"
    by (auto simp: ebind_eq_Inr)
  from one obtain own1 own2 s where
    step: "mark_forward (ps_own st) (tile_id ?r) = Inr own1"
      "set_terminal own1 (tile_id ?r) ''ACTIVE'' = Inr own2"
      "apply_op env (ps_sink st) op = Inr s"
      "ps_own st1 = own2" "ps_sink st1 = s" "ps_n_tiles st1 = ps_n_tiles st"
      "ps_n_requeued st1 = ps_n_requeued st" "ps_batch st1 = ps_batch st"
    by (auto simp: ebind_eq_Inr flush_one_def Let_def apply_op_def op_def)
  have led: "ledger (ps_own st) (?r # map (fst \<circ> fst) zs @ outs) ops bases"
    using Cons.prems(2) by (simp add: o_def)
  note led1 = ledger_mark [OF led step(1)]
  have led2: "ledger own2 (map (fst \<circ> fst) zs @ outs) (ops @ [op]) bases"
    using ledger_close [OF led1 step(2), of op] by (simp add: op_def)
  have fin: "final own2 = final (ps_own st)"
    using set_terminal_effect(3) [OF step(2) ledgerD(1) [OF led1]]
      mark_forward_effect(3) [OF step(1) ledgerD(1) [OF led]] by simp
  have good: "op_good env h op" using Cons.prems(4) unfolding op_good_def op_def by force
  have run: "sink_run env s0 (ops @ [op]) = Inr (ps_sink st1)"
    using Cons.prems(3) step(3,5) by (simp add: sink_run_snoc)
  have led2': "ledger (ps_own st1) (map (fst \<circ> fst) zs @ outs) (ops @ [op]) bases"
    unfolding step(4) by (rule led2)
  have goods: "\<forall>z\<in>set zs. pe_screen env = None \<and> faithful_batch env \<longrightarrow>
      req_good (pe_shape env) h (fst (fst z)) \<and> core_slice (fst (fst z)) (snd z) = tile_output env (fst (fst z))"
    by (rule ballI, rule bspec [OF Cons.prems(4)]) simp
  obtain ops' where ops': "length ops' = length zs" "ledger (ps_own st') outs ((ops @ [op]) @ ops') bases"
    "sink_run env s0 ((ops @ [op]) @ ops') = Inr (ps_sink st')" "\<forall>op\<in>set ops'. op_good env h op"
    "ps_n_tiles st' = ps_n_tiles st1" "ps_n_requeued st' = ps_n_requeued st1"
    "ps_batch st' = ps_batch st1" "final (ps_own st') = final (ps_own st1)"
    using Cons.IH [OF rest led2' run goods] by blast
  then show ?case using step fin good by (intro exI [of _ "op # ops'"]) simp
qed simp

lemma pinv_flush:
  assumes inv: "pinv env h s0 bases stack ops st" and flush: "flush_batch env st = Inr st'"
  shows "\<exists>ops'. pinv env h s0 bases stack ops' st' \<and> ps_batch st' = [] \<and>
    ps_n_requeued st' = ps_n_requeued st"
proof (cases "ps_batch st = []")
  case True
  with flush inv show ?thesis by (auto simp: flush_batch_def)
next
  case False
  from flush False obtain bf st2 where
    bf: "pe_batched_forward env = Some bf" "length (bf (map snd (ps_batch st))) = length (ps_batch st)"
    and fold: "foldE (flush_one env) (st\<lparr>ps_forward_batches := ps_forward_batches st + 1\<rparr>)
      (zip (ps_batch st) (bf (map snd (ps_batch st)))) = Inr st2"
    and st': "st' = st2\<lparr>ps_n_tiles := ps_n_tiles st2 + length (ps_batch st), ps_batch := [],
      ps_batch_shape := None\<rparr>"
    by (auto simp: flush_batch_def Let_def ebind_eq_Inr split: option.splits if_splits)
  let ?zs = "zip (ps_batch st) (bf (map snd (ps_batch st)))"
  have fsts: "map fst ?zs = ps_batch st" using bf(2) by simp
  then have outs: "map (fst \<circ> fst) ?zs = map fst (ps_batch st)" by (metis map_map)
  have "mset (map (fst \<circ> fst) ?zs @ stack) = mset (outstanding stack st)"
    by (simp add: outs outstanding_def)
  then have led: "ledger (ps_own st) (map (fst \<circ> fst) ?zs @ stack) ops bases"
    using inv ledger_perm unfolding pinv_def by blast
  have goods: "req_good (pe_shape env) h (fst (fst z)) \<and>
      core_slice (fst (fst z)) (snd z) = tile_output env (fst (fst z))"
    if "z \<in> set ?zs" "faithful_batch env" for z
  proof -
    from that(1) obtain k where k: "k < length (ps_batch st)" "z = (ps_batch st ! k, bf (map snd (ps_batch st)) ! k)"
      using bf(2) by (auto simp: in_set_zip prod_eq_iff)
    have "bf (map snd (ps_batch st)) = map (pe_forward env) (map snd (ps_batch st))"
      using that(2) bf(1) by (auto simp: faithful_batch_def)
    then have z: "z = (ps_batch st ! k, pe_forward env (snd (ps_batch st ! k)))" using k by simp
    have m: "ps_batch st ! k \<in> set (ps_batch st)" using k(1) by simp
    then have "snd (ps_batch st ! k) = pe_read env (read_bbox (fst (ps_batch st ! k)))"
      using inv unfolding pinv_def by blast
    moreover have "fst (ps_batch st ! k) \<in> set (outstanding stack st)"
      using m by (auto simp: outstanding_def)
    then have "req_good (pe_shape env) h (fst (ps_batch st ! k))" using inv unfolding pinv_def by blast
    ultimately show ?thesis by (simp add: z tile_output_def)
  qed
  obtain ops' where ops': "length ops' = length ?zs" "ledger (ps_own st2) stack (ops @ ops') bases"
    "sink_run env s0 (ops @ ops') = Inr (ps_sink st2)" "\<forall>op\<in>set ops'. op_good env h op"
    "ps_n_tiles st2 = ps_n_tiles st" "ps_n_requeued st2 = ps_n_requeued st"
    "final (ps_own st2) = final (ps_own st)"
    using flush_fold [OF fold, of stack ops bases s0 h] led goods inv by (auto simp: pinv_def)
  have "pinv env h s0 bases stack (ops @ ops') st'"
    using ops' inv bf(2) unfolding pinv_def st' by (auto simp: outstanding_def)
  then show ?thesis using ops'(6) st' by auto
qed

subsection \<open>The steps of the loop keep it\<close>

lemma request_ok_shape:
  assumes "read_bbox_for core halo (snd shape) (fst shape) = Inr read" "bbox_ok core"
    "contains (dom_box shape) core" "halo_nonneg halo"
  shows "request_ok shape \<lparr>core_bbox = core, read_bbox = read, tr_halo = halo_actual core read, tile_id = i\<rparr>"
  using read_bbox_for_core [of core "fst shape" "snd shape" halo] assms by (auto simp: request_ok_def)

lemma request_ok_core: "request_ok shape r \<Longrightarrow> contains (dom_box shape) (core_bbox r)"
  by (auto simp: request_ok_def elim: contains_trans)

lemma grown_good:
  assumes good: "req_good shape h cur" and grown: "grown_request cur ref shape = Inr g"
  shows "req_good shape h g" "tile_id g = tile_id cur" "core_bbox g = core_bbox cur"
proof -
  from grown obtain hs read where hs: "uniform_halo (halo_max (tr_halo cur) + max 1 (extra_halo_px ref)) = Inr hs"
    and read: "read_bbox_for (core_bbox cur) hs (snd shape) (fst shape) = Inr read"
    and g: "g = \<lparr>core_bbox = core_bbox cur, read_bbox = read,
       tr_halo = halo_actual (core_bbox cur) read, tile_id = tile_id cur\<rparr>"
    by (auto simp: grown_request_def Let_def ebind_eq_Inr)
  show "tile_id g = tile_id cur" "core_bbox g = core_bbox cur" by (simp_all add: g)
  have ok: "request_ok shape cur" using good by (simp add: req_good_def)
  then have "request_ok shape g" unfolding g
    using request_ok_shape [OF read _ _ halo_nonneg_uniform [OF hs]] request_ok_core [OF ok]
    by (simp add: request_ok_def)
  moreover have "context_ok shape h g" if "context_ok shape h cur"
  proof -
    have r: "read = \<lparr>bx0 = max 0 (bx0 (core_bbox cur) - hleft hs), by0 = max 0 (by0 (core_bbox cur) - htop hs),
        bx1 = min (snd shape) (bx1 (core_bbox cur) + hright hs), by1 = min (fst shape) (by1 (core_bbox cur) + hbottom hs)\<rparr>"
      using read by (auto simp: read_bbox_for_def mk_bbox_Inr)
    have m: "hleft (tr_halo cur) \<le> halo_max (tr_halo cur)" "htop (tr_halo cur) \<le> halo_max (tr_halo cur)"
      "hright (tr_halo cur) \<le> halo_max (tr_halo cur)" "hbottom (tr_halo cur) \<le> halo_max (tr_halo cur)"
      by (auto simp: halo_max_def)
    have a: "tr_halo cur = halo_actual (core_bbox cur) (read_bbox cur)"
      and dom: "contains (dom_box shape) (read_bbox cur)"
      using ok by (auto simp: request_ok_def)
    show ?thesis
      using that m hs dom unfolding context_ok_def g r a
      by (auto simp: uniform_halo_Inr halo_actual_def contains_def dom_box_def)
  qed
  ultimately show "req_good shape h g" using good by (simp add: req_good_def g)
qed

lemma child_good:
  assumes "child_request shape (tr_halo cur) c = Inr k" "request_ok shape cur"
    "contains (core_bbox cur) (snd c)" "bbox_ok (snd c)"
  shows "request_ok shape k" "tile_id k = fst c" "core_bbox k = snd c"
proof -
  from assms(1) obtain read where read: "read_bbox_for (snd c) (tr_halo cur) (snd shape) (fst shape) = Inr read"
    and k: "k = \<lparr>core_bbox = snd c, read_bbox = read, tr_halo = halo_actual (snd c) read, tile_id = fst c\<rparr>"
    by (auto simp: child_request_def ebind_eq_Inr)
  have "halo_nonneg (tr_halo cur)"
    using assms(2) halo_actual_nonneg [of "read_bbox cur" "core_bbox cur"] by (simp add: request_ok_def)
  then show "request_ok shape k" unfolding k
    using request_ok_shape [OF read assms(4)] contains_trans [OF request_ok_core [OF assms(2)] assms(3)]
    by simp
  show "tile_id k = fst c" "core_bbox k = snd c" by (simp_all add: k)
qed

lemma refine_tile_requeued:
  "refine_tile env cur ref st = Inr (st', pushed) \<Longrightarrow> ps_n_requeued st' = ps_n_requeued st + 1"
  by (auto simp: refine_tile_def Let_def ebind_eq_Inr split: refine_action.splits)

lemma pinv_refine:
  assumes inv: "pinv env h s0 bases (cur # stack) ops st"
    and ref: "refine_tile env cur ref st = Inr (st', pushed)"
  shows "pinv env h s0 bases (rev pushed @ stack) ops st'"
proof -
  have led: "ledger (ps_own st) (cur # outstanding stack st) ops bases"
    and good: "req_good (pe_shape env) h cur"
    using inv by (simp_all add: pinv_def outstanding_def)
  show ?thesis
  proof (cases "rr_action ref")
    case IncreaseHalo
    with ref obtain g where g: "grown_request cur ref (pe_shape env) = Inr g" "pushed = [g]"
      and st': "ps_own st' = ps_own st" "ps_sink st' = ps_sink st" "ps_n_tiles st' = ps_n_tiles st"
        "ps_batch st' = ps_batch st" "ps_n_requeued st' = ps_n_requeued st + 1"
      by (auto simp: refine_tile_def Let_def ebind_eq_Inr)
    note gg = grown_good [OF good g(1)]
    have "ledger (ps_own st) (g # outstanding stack st) ops bases"
      using led gg(2,3) by (simp add: ledger_def open_leaf_def)
    with inv gg(1) st' g(2) show ?thesis by (simp add: pinv_def outstanding_def)
  next
    case Subdivide
    with ref obtain boxes cs ls where
      part: "partition_core (core_bbox cur) (subdivision ref) = Inr boxes"
      and cs: "cs = map (\<lambda>(i, b). (child_id (tile_id cur) i, b)) (enumerate 0 boxes)"
      and sub: "subdivide (ps_own st) (tile_id cur) cs = (Inr ls, ps_own st')"
      and kids: "mapE (child_request (pe_shape env) (tr_halo cur)) cs = Inr pushed"
      and st': "ps_sink st' = ps_sink st" "ps_n_tiles st' = ps_n_tiles st"
        "ps_batch st' = ps_batch st" "ps_n_requeued st' = ps_n_requeued st + 1"
      by (auto simp: refine_tile_def Let_def ebind_eq_Inr prod_eq_iff)
    have snds: "map snd cs = boxes" by (simp add: cs case_prod_beta o_def)
    have ok: "request_ok (pe_shape env) cur" using good by (simp add: req_good_def)
    then have cok: "bbox_ok (core_bbox cur)" by (simp add: request_ok_def)
    have "2 \<le> subdivision ref" using part by (simp add: partition_core_def split: if_splits)
    from partition_core_exact [OF this cok] part
    have inside: "bbox_ok b \<and> contains (core_bbox cur) b" if "b \<in> set boxes" for b
      using that by (auto simp: list_all_iff)
    have child: "request_ok (pe_shape env) k \<and> tile_id k = fst c \<and> core_bbox k = snd c"
      if "child_request (pe_shape env) (tr_halo cur) c = Inr k" "c \<in> set cs" for c k
    proof -
      have "snd c \<in> set boxes" using that(2) snds by (metis image_eqI list.set_map)
      then show ?thesis using child_good [OF that(1) ok] inside by blast
    qed
    have all2: "list_all2 (\<lambda>c k. child_request (pe_shape env) (tr_halo cur) c = Inr k) cs pushed"
      using kids by (simp add: mapE_eq_Inr_iff)
    have pairs: "map (\<lambda>k. (tile_id k, core_bbox k)) pushed = cs"
    proof (rule nth_equalityI)
      show "length (map (\<lambda>k. (tile_id k, core_bbox k)) pushed) = length cs"
        using all2 by (simp add: list_all2_lengthD)
      fix i assume "i < length (map (\<lambda>k. (tile_id k, core_bbox k)) pushed)"
      then have i: "i < length pushed" "i < length cs" using all2 by (simp_all add: list_all2_lengthD)
      then have "child_request (pe_shape env) (tr_halo cur) (cs ! i) = Inr (pushed ! i)"
        using all2 by (simp add: list_all2_conv_all_nth)
      from child [OF this nth_mem [OF i(2)]] i(1)
      show "map (\<lambda>k. (tile_id k, core_bbox k)) pushed ! i = cs ! i" by (simp add: prod_eq_iff)
    qed
    have goods: "req_good (pe_shape env) h k" if "k \<in> set pushed" for k
    proof -
      obtain c where c: "c \<in> set cs" "child_request (pe_shape env) (tr_halo cur) c = Inr k"
        using mapE_mem [OF kids \<open>k \<in> set pushed\<close>] by blast
      have "split_id (fst c)" using c(1) by (auto simp: cs child_id_def split_id_def)
      with child [OF c(2,1)] show ?thesis by (simp add: req_good_def)
    qed
    have "ledger (ps_own st') (pushed @ outstanding stack st) ops bases"
      by (rule ledger_subdivide [OF led part snds sub pairs])
    then have "ledger (ps_own st') (rev pushed @ outstanding stack st) ops bases"
      by (rule ledger_perm) simp
    with inv goods st' show ?thesis by (auto simp: pinv_def outstanding_def)
  qed
qed

definition spent :: "('v, 's) pipe_state \<Rightarrow> int \<Rightarrow> int" where
  "spent st left = int (ps_n_requeued st) + left"

lemma pinv_push_batch:
  assumes "pinv env h s0 bases (cur # stack) ops st"
  shows "pinv env h s0 bases stack ops
    (st\<lparr>ps_batch := ps_batch st @ [(cur, pe_read env (read_bbox cur))], ps_batch_shape := sh\<rparr>)"
proof -
  have "ledger (ps_own st) (stack @ map fst (ps_batch st) @ [cur]) ops bases"
    using assms ledger_perm [of "ps_own st" "outstanding (cur # stack) st" ops bases
      "stack @ map fst (ps_batch st) @ [cur]"] by (auto simp: pinv_def outstanding_def)
  with assms show ?thesis by (auto simp: pinv_def outstanding_def)
qed

lemma pinv_flush_if:
  assumes "pinv env h s0 bases stack ops st" "(if c then flush_batch env st else Inr st) = Inr st'"
  shows "\<exists>ops'. pinv env h s0 bases stack ops' st' \<and> ps_n_requeued st' = ps_n_requeued st"
  using assms pinv_flush by (fastforce split: if_splits)

lemma pinv_batch:
  assumes inv: "pinv env h s0 bases (cur # stack) ops st"
    and run: "batch_tile env cur (pe_read env (read_bbox cur)) st = Inr st'"
  shows "\<exists>ops'. pinv env h s0 bases stack ops' st' \<and> ps_n_requeued st' = ps_n_requeued st"
proof -
  let ?shape = "(height (read_bbox cur), width (read_bbox cur))"
  from run obtain st2 where
    st2: "(if ps_batch st \<noteq> [] \<and> (Some ?shape \<noteq> ps_batch_shape st \<or>
             pe_batch_size env \<le> int (length (ps_batch st)))
           then flush_batch env st else Inr st) = Inr st2"
    and st3: "(if pe_batch_size env \<le> int (length (ps_batch st2 @ [(cur, pe_read env (read_bbox cur))]))
           then flush_batch env (st2\<lparr>ps_batch := ps_batch st2 @ [(cur, pe_read env (read_bbox cur))],
                  ps_batch_shape := Some ?shape\<rparr>)
           else Inr (st2\<lparr>ps_batch := ps_batch st2 @ [(cur, pe_read env (read_bbox cur))],
                  ps_batch_shape := Some ?shape\<rparr>)) = Inr st'"
    by (auto simp: batch_tile_def Let_def ebind_eq_Inr)
  from pinv_flush_if [OF inv st2] obtain ops2 where
    "pinv env h s0 bases (cur # stack) ops2 st2" "ps_n_requeued st2 = ps_n_requeued st" by auto
  from pinv_flush_if [OF pinv_push_batch [OF this(1)] st3] this(2) show ?thesis by auto
qed

lemma pinv_conclude:
  assumes inv: "pinv env h s0 bases (cur # stack) ops st"
    and run: "conclude_tile env left cur (pe_forward env (pe_read env (read_bbox cur))) md ref st =
      Inr (st', pushed, left')"
  shows "\<exists>ops'. pinv env h s0 bases (rev pushed @ stack) ops' st' \<and> spent st' left' = spent st left"
proof (cases ref)
  case None
  define op where "op = WriteOp (tile_id cur) (core_bbox cur) (tile_output env cur) md"
  have good: "op_good env h op"
    using inv unfolding op_good_def op_def pinv_def outstanding_def by auto
  have ids: "op_id op = tile_id cur" "op_box op = core_bbox cur" by (simp_all add: op_def)
  from run None obtain own s where
    two: "set_terminal (ps_own st) (tile_id cur) ''ACTIVE'' = Inr own" "apply_op env (ps_sink st) op = Inr s"
    and st': "st' = st\<lparr>ps_own := own, ps_sink := s, ps_n_tiles := ps_n_tiles st + 1\<rparr>"
      "pushed = []" "left' = left"
    by (auto simp: conclude_tile_def ebind_eq_Inr apply_op_def op_def tile_output_def)
  from pinv_commit [OF inv two ids good] show ?thesis
    unfolding st' by (intro exI [of _ "ops @ [op]"]) (simp add: spent_def)
next
  case (Some r)
  from run Some have ref: "refine_tile env cur r st = Inr (st', pushed)" and left': "left' = left - 1"
    by (auto simp: conclude_tile_def ebind_eq_Inr)
  from pinv_refine [OF inv ref] refine_tile_requeued [OF ref] left' show ?thesis
    by (auto simp: spent_def)
qed

lemma forward_tile_Inr:
  assumes "forward_tile env left cur tile smd rejected st = Inr out"
  obtains own st2 md ref where "mark_forward (ps_own st) (tile_id cur) = Inr own"
    "conclude_tile env left cur (pe_forward env tile) md ref st2 = Inr out"
    "ps_own st2 = own" "ps_sink st2 = ps_sink st" "ps_n_tiles st2 = ps_n_tiles st"
    "ps_batch st2 = ps_batch st" "ps_n_requeued st2 = ps_n_requeued st"
proof -
  from assms obtain own where own: "mark_forward (ps_own st) (tile_id cur) = Inr own"
    unfolding forward_tile_def Let_def ebind_eq_Inr by blast
  from assms obtain v where "(case v of (md, ref, ss) \<Rightarrow>
      conclude_tile env left cur (pe_forward env tile) md ref
        (st\<lparr>ps_forward_batches := ps_forward_batches st + 1,
            ps_acc := record_forward_core
              (record_forward (ps_acc st) (area (read_bbox cur))) (core_bbox cur),
            ps_own := own, ps_sessions := ss\<rparr>)) = Inr out"
    unfolding forward_tile_def Let_def ebind_eq_Inr own by force
  then show thesis using own by (cases v) (auto intro!: that)
qed

lemma pinv_active:
  assumes inv: "pinv env h s0 bases (cur # stack) ops st"
    and act: "active_tile env left cur d md st = Inr (st', pushed, left')"
  shows "\<exists>ops'. pinv env h s0 bases (rev pushed @ stack) ops' st' \<and> spent st' left' = spent st left"
proof -
  define st1 where "st1 = st\<lparr>ps_acc := record_read_window
      (record_active_core (ps_acc st) (tile_id cur) (core_bbox cur)) (area (read_bbox cur))\<rparr>"
  have inv1: "pinv env h s0 bases (cur # stack) ops st1" and req1: "ps_n_requeued st1 = ps_n_requeued st"
    using inv by (simp_all add: st1_def)
  note act1 = act [unfolded active_tile_def Let_def, folded st1_def]
  show ?thesis
  proof (cases "batching env")
    case True
    with act1 have "batch_tile env cur (pe_read env (read_bbox cur)) st1 = Inr st'" "pushed = []" "left' = left"
      by (auto simp: ebind_eq_Inr)
    with pinv_batch [OF inv1 this(1)] req1 show ?thesis by (auto simp: spent_def)
  next
    case False
    with act1 obtain smd where "forward_tile env left cur (pe_read env (read_bbox cur)) smd md st1 =
        Inr (st', pushed, left')" by auto
    then obtain own md' ref st2 where
      mark: "mark_forward (ps_own st1) (tile_id cur) = Inr own"
      and rest: "conclude_tile env left cur (pe_forward env (pe_read env (read_bbox cur))) md' ref st2 =
        Inr (st', pushed, left')"
      and st2: "ps_own st2 = own" "ps_sink st2 = ps_sink st1" "ps_n_tiles st2 = ps_n_tiles st1"
        "ps_batch st2 = ps_batch st1" "ps_n_requeued st2 = ps_n_requeued st1"
      by (rule forward_tile_Inr)
    have "pinv env h s0 bases (cur # stack) ops st2"
      using pinv_mark [OF inv1 mark] st2 by (simp add: pinv_def outstanding_def)
    from pinv_conclude [OF this rest] st2(5) req1 show ?thesis by (simp add: spent_def)
  qed
qed

lemma screened_tile_Inr:
  assumes run: "screened_tile env pname d cur st = Inr (b, md, st')"
  obtains (rejected) ss where "\<not> b" "st' = st\<lparr>ps_sessions := ss\<rparr>"
  | (discharged) fill m ss where "b" "commit_screened env cur fill m (st\<lparr>ps_sessions := ss\<rparr>) = Inr st'"
proof -
  obtain exact facts dep where facts: "screen_decision_to_facts d = Inr (exact, facts, dep)"
    using run unfolding screened_tile_def ebind_eq_Inr by (metis prod_cases3)
  note run1 = run [unfolded screened_tile_def facts ebind_simps Let_def prod.case]
  from run1 obtain v where acc: "discharge \<lparr>tc_tile_id = tile_id cur, tc_core = core_bbox cur,
      tc_read = read_bbox cur, tc_halo = tr_halo cur, tc_tensor = None,
      tc_metadata = [(''screening_status'', MStr (screen_status_str (sd_status d))),
                     (''screening_reason'', MStr (sd_reason d))]\<rparr> facts (ps_sessions st) = Inr v"
    unfolding ebind_eq_Inr by blast
  note run2 = run1 [unfolded acc ebind_simps]
  show thesis
  proof (cases "fst v")
    case None
    with run2 have "\<not> b" "st' = st\<lparr>ps_sessions := snd v\<rparr>" by (cases v; auto)+
    then show thesis by (rule rejected)
  next
    case (Some verdicts)
    with run2 have "b" "commit_screened env cur (eo_fill exact) (discharged_meta pname d dep)
        (st\<lparr>ps_sessions := map2 session_add (snd v) verdicts\<rparr>) = Inr st'"
      by (cases v; auto simp: ebind_eq_Inr)+
    then show thesis by (rule discharged)
  qed
qed

lemma pinv_screened:
  assumes inv: "pinv env h s0 bases (cur # stack) ops st" and scr: "pe_screen env \<noteq> None"
    and run: "screened_tile env pname d cur st = Inr (b, md, st')"
  shows "ps_n_requeued st' = ps_n_requeued st \<and>
    (if b then \<exists>ops'. pinv env h s0 bases stack ops' st' else pinv env h s0 bases (cur # stack) ops st')"
  using run
proof (cases rule: screened_tile_Inr)
  case (rejected ss)
  with inv show ?thesis by simp
next
  case (discharged fill m ss)
  have vac: "op_good env h op" for op using scr unfolding op_good_def by blast
  let ?st = "st\<lparr>ps_sessions := ss\<rparr>"
  define op where "op = (case pe_certify env of
      Some recorder \<Rightarrow> CertOp (tile_id cur) (core_bbox cur) (Some fill) m
    | None \<Rightarrow> WriteOp (tile_id cur) (core_bbox cur)
        (t_full (height (core_bbox cur)) (width (core_bbox cur)) fill) m)"
  from discharged(2) obtain s own where
    two: "apply_op env (ps_sink ?st) op = Inr s" "set_terminal (ps_own ?st) (tile_id cur) ''EXACT_OUTPUT_SKIP'' = Inr own"
    and st': "ps_own st' = own" "ps_sink st' = s" "ps_n_tiles st' = ps_n_tiles st + 1"
        "ps_batch st' = ps_batch st" "ps_n_requeued st' = ps_n_requeued st"
    by (auto simp: commit_screened_def ebind_eq_Inr apply_op_def op_def split: option.splits)
  have ids: "op_id op = tile_id cur" "op_box op = core_bbox cur"
    by (simp_all add: op_def split: option.splits)
  have inv1: "pinv env h s0 bases (cur # stack) ops ?st" using inv by simp
  from pinv_commit [OF inv1 two(2,1) ids vac] st'
  have "pinv env h s0 bases stack (ops @ [op]) st'" by (simp add: pinv_def outstanding_def)
  with discharged(1) st' show ?thesis by auto
qed

lemma pinv_process:
  assumes inv: "pinv env h s0 bases (cur # stack) ops st"
    and run: "process_tile env left cur st = Inr (st', pushed, left')"
  shows "\<exists>ops'. pinv env h s0 bases (rev pushed @ stack) ops' st' \<and> spent st' left' = spent st left"
proof (cases "pe_screen env")
  case None
  with run have "active_tile env left cur None [] st = Inr (st', pushed, left')"
    by (simp add: process_tile_def)
  from pinv_active [OF inv this] show ?thesis .
next
  case (Some ps)
  define st1 where "st1 = st\<lparr>ps_acc := record_screen_query (ps_acc st)\<rparr>"
  have inv1: "pinv env h s0 bases (cur # stack) ops st1" and sp: "spent st1 left = spent st left"
    using inv by (simp_all add: st1_def spent_def)
  obtain pname screen where ps: "ps = (pname, screen)" by (cases ps)
  from run obtain d where rest: "(if sd_status d = ScreenedOut then
              ebind (screened_tile env pname d cur st1) (\<lambda>(setl, md, st1).
                if setl then Inr (st1, [], left)
                else active_tile env left cur (Some d) md st1)
            else active_tile env left cur (Some d) [] st1) = Inr (st', pushed, left')"
    by (auto simp: process_tile_def Some ps ebind_eq_Inr simp flip: st1_def)
  show ?thesis
  proof (cases "sd_status d = ScreenedOut")
    case False
    with rest have "active_tile env left cur (Some d) [] st1 = Inr (st', pushed, left')" by simp
    from pinv_active [OF inv1 this] sp show ?thesis by simp
  next
    case True
    with rest obtain setl md st2 where two: "screened_tile env pname d cur st1 = Inr (setl, md, st2)"
      and rest2: "(if setl then Inr (st2, [], left) else active_tile env left cur (Some d) md st2) =
         Inr (st', pushed, left')"
      by (auto simp: ebind_eq_Inr)
    from pinv_screened [OF inv1 _ two] Some
    have scr: "ps_n_requeued st2 = ps_n_requeued st1"
      "if setl then \<exists>ops'. pinv env h s0 bases stack ops' st2 else pinv env h s0 bases (cur # stack) ops st2"
      by auto
    show ?thesis
    proof (cases setl)
      case True
      with rest2 scr sp show ?thesis by (auto simp: spent_def)
    next
      case False
      with rest2 have "active_tile env left cur (Some d) md st2 = Inr (st', pushed, left')" by simp
      with pinv_active [of env h s0 bases cur stack ops st2] False scr sp show ?thesis
        by (auto simp: spent_def)
    qed
  qed
qed

lemma pinv_loop:
  assumes "tile_loop env left stack st = Inr st'" "pinv env h s0 bases stack ops st" "0 \<le> left"
  shows "\<exists>ops'. pinv env h s0 bases [] ops' st' \<and> int (ps_n_requeued st') \<le> spent st left"
  using assms
proof (induction env left stack st arbitrary: ops rule: tile_loop.induct)
  case (1 env left st)
  then show ?case by (auto simp: spent_def tile_loop.simps)
next
  case (2 env left cur pending st)
  from 2(2) obtain st1 pushed left1 where
    one: "process_tile env left cur st = Inr (st1, pushed, left1)"
    and rest: "tile_loop env left1 (rev pushed @ pending) st1 = Inr st'"
    by (auto simp: tile_loop.simps split: sum.splits prod.splits)
  have "0 \<le> left1" using process_tile_budget [OF one] 2(4) by auto
  moreover obtain ops1 where "pinv env h s0 bases (rev pushed @ pending) ops1 st1"
      "spent st1 left1 = spent st left"
    using pinv_process [OF 2(3) one] by blast
  ultimately show ?case using 2(1) [OF one refl refl rest] by auto
qed

text \<open>Without batching the pending batch stays as it is.\<close>

lemma refine_tile_batch:
  "refine_tile env cur ref st = Inr (st', pushed) \<Longrightarrow> ps_batch st' = ps_batch st"
  by (auto simp: refine_tile_def Let_def ebind_eq_Inr split: refine_action.splits)

lemma forward_tile_batch:
  assumes "forward_tile env left cur tile smd md st = Inr (st', pushed, left')"
  shows "ps_batch st' = ps_batch st"
proof -
  from assms obtain own md' ref st2 where "ps_batch st2 = ps_batch st"
    "conclude_tile env left cur (pe_forward env tile) md' ref st2 = Inr (st', pushed, left')"
    by (rule forward_tile_Inr) blast
  then show ?thesis
    by (auto simp: conclude_tile_def ebind_eq_Inr refine_tile_batch split: option.splits)
qed

lemma active_tile_batch:
  assumes "active_tile env left cur d md st = Inr (st', pushed, left')" "\<not> batching env"
  shows "ps_batch st' = ps_batch st"
  using assms by (auto simp: active_tile_def Let_def dest!: forward_tile_batch)

lemma commit_screened_batch:
  "commit_screened env cur fill md st = Inr st' \<Longrightarrow> ps_batch st' = ps_batch st"
  by (auto simp: commit_screened_def ebind_eq_Inr)

lemma screened_tile_batch:
  assumes "screened_tile env pname d cur st = Inr (b, md, st')"
  shows "ps_batch st' = ps_batch st"
  using assms by (cases rule: screened_tile_Inr) (auto dest: commit_screened_batch)

lemma process_tile_batch:
  assumes "process_tile env left cur st = Inr (st', pushed, left')" "\<not> batching env"
  shows "ps_batch st' = ps_batch st"
proof (cases "pe_screen env")
  case None
  with assms show ?thesis by (simp add: process_tile_def active_tile_batch)
next
  case (Some ps)
  with assms show ?thesis
    by (auto simp: process_tile_def Let_def ebind_eq_Inr split: prod.splits if_splits
        dest!: active_tile_batch screened_tile_batch)
qed

lemma tile_loop_batch:
  assumes "tile_loop env left stack st = Inr st'" "\<not> batching env"
  shows "ps_batch st' = ps_batch st"
  using assms
proof (induction env left stack st rule: tile_loop.induct)
  case (2 env left cur pending st)
  from 2(2) obtain st1 pushed left1 where
    one: "process_tile env left cur st = Inr (st1, pushed, left1)"
    and rest: "tile_loop env left1 (rev pushed @ pending) st1 = Inr st'"
    by (auto simp: tile_loop.simps split: sum.splits prod.splits)
  from 2(1) [OF one refl refl rest 2(3)] process_tile_batch [OF one 2(3)] show ?case by simp
qed (simp add: tile_loop.simps)

lemma batch_unused:
  assumes "foldE (run_base env) st rs = Inr st'" "\<not> batching env"
  shows "ps_batch st' = ps_batch st"
  using assms(1)
proof (induction rs arbitrary: st)
  case (Cons r rs)
  then obtain st1 where one: "run_base env st r = Inr st1" and rest: "foldE (run_base env) st1 rs = Inr st'"
    by (auto simp: ebind_eq_Inr)
  from one have "ps_batch st1 = ps_batch st"
    by (auto simp: run_base_def ebind_eq_Inr dest!: tile_loop_batch [OF _ assms(2)])
  with Cons.IH [OF rest] show ?case by simp
qed simp

lemma pinv_base:
  assumes inv: "pinv env h s0 bases [] ops st" and run: "run_base env st base = Inr st'"
    and good: "req_good (pe_shape env) h base" "\<not> split_id (tile_id base)" "0 \<le> pe_max_requeues env"
  shows "\<exists>ops'. pinv env h s0 (bases @ [core_bbox base]) [] ops' st' \<and>
    int (ps_n_requeued st') \<le> int (ps_n_requeued st) + pe_max_requeues env"
proof -
  from run obtain own where root: "add_root (ps_own st) (tile_id base) (core_bbox base) = Inr own"
    and loop: "tile_loop env (pe_max_requeues env) [base] (st\<lparr>ps_own := own\<rparr>) = Inr st'"
    by (auto simp: run_base_def ebind_eq_Inr)
  have led: "ledger (ps_own st) (outstanding [] st) ops bases" using inv by (simp add: pinv_def)
  have ok: "bbox_ok (core_bbox base)" using good(1) by (simp add: req_good_def request_ok_def)
  have "pinv env h s0 (bases @ [core_bbox base]) [base] ops (st\<lparr>ps_own := own\<rparr>)"
    using ledger_root [OF led root ok] inv good add_root_effect(3) [OF root ledgerD(1) [OF led] ok]
    by (simp add: pinv_def outstanding_def)
  from pinv_loop [OF loop this good(3)] show ?thesis by (auto simp: spent_def)
qed

lemma pinv_bases:
  assumes "foldE (run_base env) st rs = Inr st'" "pinv env h s0 bases [] ops st"
    and "\<forall>r\<in>set rs. req_good (pe_shape env) h r \<and> \<not> split_id (tile_id r)" "0 \<le> pe_max_requeues env"
  shows "\<exists>ops'. pinv env h s0 (bases @ map core_bbox rs) [] ops' st' \<and>
    int (ps_n_requeued st') \<le> int (ps_n_requeued st) + int (length rs) * pe_max_requeues env"
  using assms
proof (induction rs arbitrary: st bases ops)
  case (Cons r rs)
  from Cons.prems(1) obtain st1 where one: "run_base env st r = Inr st1"
      "foldE (run_base env) st1 rs = Inr st'"
    by (auto simp: ebind_eq_Inr)
  from pinv_base [OF Cons.prems(2) one(1)] Cons.prems(3,4) obtain ops1 where
    "pinv env h s0 (bases @ [core_bbox r]) [] ops1 st1"
    "int (ps_n_requeued st1) \<le> int (ps_n_requeued st) + pe_max_requeues env" by auto
  with Cons.IH [OF one(2) this(1)] Cons.prems(3,4) show ?case by (fastforce simp: algebra_simps)
qed auto

lemma plan_parts:
  assumes "plan_tile_requests shape core (Inl h) None ''tile'' = Inr rs"
  shows "0 \<le> h" "\<forall>r\<in>set rs. request_ok shape r" "exact_cover (map core_bbox rs) (in_domain shape)"
    "\<forall>r\<in>set rs. \<exists>k. tile_id r = ''tile'' @ ''_'' @ str_of_nat k \<and>
       read_bbox_for (core_bbox r) \<lparr>hleft = h, htop = h, hright = h, hbottom = h\<rparr> (snd shape) (fst shape) =
         Inr (read_bbox r)"
proof -
  from assms obtain hs where hs: "uniform_halo h = Inr hs"
    "plan_tile_requests shape core (Inr hs) None ''tile'' = Inr rs"
    by (auto simp: plan_uniform ebind_eq_Inr)
  then show "0 \<le> h" by (simp add: uniform_halo_Inr)
  from hs(2) obtain cores where cores: "core_grid_boxes shape core None = Inr cores"
    by (auto simp: plan_tile_requests_def ebind_eq_Inr)
  have pos: "0 < core" using cores by (simp add: core_grid_boxes_def Let_def split: if_splits)
  from plan_total [OF pos halo_nonneg_uniform [OF hs(1)], of shape "''tile''"] hs(2)
  show "\<forall>r\<in>set rs. request_ok shape r" "exact_cover (map core_bbox rs) (in_domain shape)" by auto
  obtain ics where "mapE (request_of ''tile'' shape hs) ics = Inr rs"
    using hs(2) by (auto simp: plan_tile_requests_def ebind_eq_Inr)
  note mem = mapE_mem [OF this]
  show "\<forall>r\<in>set rs. \<exists>k. tile_id r = ''tile'' @ ''_'' @ str_of_nat k \<and>
       read_bbox_for (core_bbox r) \<lparr>hleft = h, htop = h, hright = h, hbottom = h\<rparr> (snd shape) (fst shape) =
         Inr (read_bbox r)"
  proof
    fix r assume "r \<in> set rs"
    from mem [OF this] obtain ic where "request_of ''tile'' shape hs ic = Inr r" by blast
    then show "\<exists>k. tile_id r = ''tile'' @ ''_'' @ str_of_nat k \<and>
       read_bbox_for (core_bbox r) \<lparr>hleft = h, htop = h, hright = h, hbottom = h\<rparr> (snd shape) (fst shape) =
         Inr (read_bbox r)"
      using hs(1) by (auto simp: request_of_def ebind_eq_Inr uniform_halo_Inr)
  qed
qed

lemma plan_good:
  assumes "plan_tile_requests shape core (Inl h) None ''tile'' = Inr rs" "r \<in> set rs"
  shows "req_good shape h r" "\<not> split_id (tile_id r)"
proof -
  note parts = plan_parts [OF assms(1)]
  from parts(4) assms(2) obtain k where k: "tile_id r = ''tile'' @ ''_'' @ str_of_nat k"
    "read_bbox_for (core_bbox r) \<lparr>hleft = h, htop = h, hright = h, hbottom = h\<rparr> (snd shape) (fst shape) =
         Inr (read_bbox r)" by blast
  show "\<not> split_id (tile_id r)" using str_of_nat_digits [of k] by (auto simp: k(1) split_id_def)
  have "context_ok shape h r"
    using k(2) by (auto simp: read_bbox_for_def mk_bbox_Inr context_ok_def)
  then show "req_good shape h r" using parts(2) assms(2) by (simp add: req_good_def)
qed

text \<open>A run that returns: the commits partition the chip.\<close>

lemma run_streaming_Inr:
  assumes "run_streaming env ps given sink = Inr (rep, s')"
  obtains req ss acc rs st ov counts where
    "run_requirement env ps = Inr req"
    "plan_tile_requests (pe_shape env) (pe_core_size env) (Inl (min (halo_px req) (pe_max_halo_px env))) None ''tile'' = Inr rs"
    "mapE (prepare_session (pe_pixel_nm env))
       (map (\<lambda>p. make_verifier_session p (run_context (pe_pixel_nm env)) (pe_tolerance_nm env)) ps) = Inr ss"
    "run_tiles env rs (initial_state sink ss acc) = Inr st"
    "verify_total_coverage (ps_own st) (fst (pe_shape env) * snd (pe_shape env)) = Inr counts"
    "rep = report_of st req ov counts" "s' = ps_sink st"
  using assms unfolding run_streaming_def Let_def ebind_eq_Inr by blast

lemma streaming_ledger:
  assumes tiles: "run_tiles env rs (initial_state sink ss acc) = Inr st"
    and plan: "plan_tile_requests (pe_shape env) core (Inl h) None ''tile'' = Inr rs"
    and budget: "0 \<le> pe_max_requeues env"
  shows "\<exists>ops. pinv env h sink (map core_bbox rs) [] ops st \<and> ps_batch st = [] \<and>
    int (ps_n_requeued st) \<le> int (length rs) * pe_max_requeues env"
proof -
  have goods: "\<forall>r\<in>set rs. req_good (pe_shape env) h r \<and> \<not> split_id (tile_id r)"
    using plan_good [OF plan] by blast
  have init: "pinv env h sink [] [] [] (initial_state sink ss acc)"
    by (simp add: pinv_def initial_state_def outstanding_def ledger_empty sink_run_def)
      (simp add: empty_tree_def)
  from tiles obtain st1 where st1: "foldE (run_base env) (initial_state sink ss acc) rs = Inr st1"
    and st: "(if batching env then flush_batch env st1 else Inr st1) = Inr st"
    by (auto simp: run_tiles_def ebind_eq_Inr)
  from pinv_bases [OF st1 init goods budget] obtain ops where
    inv: "pinv env h sink (map core_bbox rs) [] ops st1"
      "int (ps_n_requeued st1) \<le> int (length rs) * pe_max_requeues env"
    by (auto simp: initial_state_def)
  show ?thesis
  proof (cases "batching env")
    case True
    with st pinv_flush [OF inv(1)] inv(2) show ?thesis by auto
  next
    case False
    with st inv batch_unused [OF st1] show ?thesis by (auto simp: initial_state_def)
  qed
qed

end
