(* ===== verification/PipelineTotal.thy ===== *)
theory PipelineTotal
  imports PipelineLedger
begin

text \<open>
  When a run of \<open>run_streaming\<close> returns (\<open>streaming/pipeline.py\<close>): with collaborators that do not
  raise, no step of the loop raises.  The one step that could, \<open>subdivide\<close>, needs fresh child ids;
  \<open>ids_fresh\<close> is the invariant on tile ids that provides them.
\<close>

subsection \<open>Collaborators that do not raise\<close>

definition plugin_total :: "'v plugin \<Rightarrow> bool" where
  "plugin_total p \<longleftrightarrow>
     (\<forall>v ctx. \<exists>q. vp_required_halo p v ctx = Inr q \<and> (\<forall>r. q = Some r \<longrightarrow> requirement_ok r)) \<and>
     (\<forall>v ctx. \<exists>v'. vp_prepare p v ctx = Inr v') \<and>
     (\<forall>v ctx. \<exists>r v'. vp_verify_tile p v ctx = Inr (r, v')) \<and>
     (\<forall>f. vp_refine p = Some f \<longrightarrow>
        (\<forall>v i. \<exists>a v'. f v i = Inr (a, v') \<and> (\<forall>r. a = Some r \<longrightarrow> refinement_ok r))) \<and>
     (\<forall>f. vp_accept_screen_facts p = Some f \<longrightarrow> (\<forall>v ctx facts. \<exists>a v'. f v ctx facts = Inr (a, v')))"

definition core_fits :: "bbox \<Rightarrow> tensor \<Rightarrow> bool" where
  "core_fits b c \<longleftrightarrow> t_ok c \<and> t_shape c = (height b, width b)"

text \<open>\<open>wr s\<close> are the tile ids the sink has accepted, \<open>valid\<close> its own invariant.\<close>

definition sink_total :: "'s pipe_env \<Rightarrow> ('s \<Rightarrow> string set) \<Rightarrow> ('s \<Rightarrow> bool) \<Rightarrow> bool" where
  "sink_total env wr valid \<longleftrightarrow>
     (\<forall>s tid b c md. valid s \<longrightarrow> tid \<notin> wr s \<longrightarrow> bbox_ok b \<longrightarrow> contains (dom_box (pe_shape env)) b \<longrightarrow>
        core_fits b c \<longrightarrow>
        (\<exists>s'. pe_write env s tid b c md = (Inr (), s') \<and> valid s' \<and> wr s' = insert tid (wr s))) \<and>
     (\<forall>rec s tid b v md. pe_certify env = Some rec \<longrightarrow> valid s \<longrightarrow> tid \<notin> wr s \<longrightarrow> bbox_ok b \<longrightarrow>
        contains (dom_box (pe_shape env)) b \<longrightarrow>
        (\<exists>s'. rec s tid b (Some v) md = (Inr (), s') \<and> valid s' \<and> wr s' = insert tid (wr s)))"

definition screen_total :: "'s pipe_env \<Rightarrow> bool" where
  "screen_total env \<longleftrightarrow>
     (\<forall>nm scr r. pe_screen env = Some (nm, scr) \<longrightarrow>
        (\<exists>d. scr r = Inr d \<and> (sd_status d = ScreenedOut \<longrightarrow> (\<exists>v. screen_decision_to_facts d = Inr v))))"

definition forward_total :: "'s pipe_env \<Rightarrow> bool" where
  "forward_total env \<longleftrightarrow> faithful_batch env \<and>
     (\<forall>r. request_ok (pe_shape env) r \<longrightarrow> core_fits (core_bbox r) (tile_output env r))"

subsection \<open>Child ids are fresh\<close>

definition leaf_ids :: "ownership_tree \<Rightarrow> string set" where
  "leaf_ids t = dom (leaves t)"

lemma leaf_ids_iff: "i \<in> leaf_ids t \<longleftrightarrow> leaves t i \<noteq> None"
  by (auto simp: leaf_ids_def)

lemma leaf_ids_upd [simp]:
  "leaf_ids (t\<lparr>final := f\<rparr>) = leaf_ids t" "leaf_ids (t\<lparr>children := c\<rparr>) = leaf_ids t"
  "leaf_ids (t\<lparr>leaves := (leaves t)(i \<mapsto> l)\<rparr>) = insert i (leaf_ids t)"
  by (auto simp: leaf_ids_def)

definition ids_fresh :: "ownership_tree \<Rightarrow> tile_request list \<Rightarrow> bool" where
  "ids_fresh own outs \<longleftrightarrow>
     (\<forall>r\<in>set outs. \<forall>i\<in>leaf_ids own. \<forall>s. i \<noteq> tile_id r @ CHR ''#'' # s)"

lemma ids_freshD: "ids_fresh own outs \<Longrightarrow> r \<in> set outs \<Longrightarrow> tile_id r @ CHR ''#'' # s \<notin> leaf_ids own"
  unfolding ids_fresh_def by blast

definition root_of :: "string \<Rightarrow> string" where
  "root_of i = takeWhile (\<lambda>c. c \<noteq> CHR ''#'') i"

lemma root_of_child [simp]: "root_of (i @ CHR ''#'' # s) = root_of i"
  by (induction i) (auto simp: root_of_def)

lemma root_of_unsplit: "\<not> split_id i \<Longrightarrow> root_of i = i"
  by (auto simp: root_of_def split_id_def takeWhile_eq_all_conv)

lemma child_id_hash: "child_id p k = p @ CHR ''#'' # (CHR ''q'' # str_of_nat k)"
  by (simp add: child_id_def)

lemma child_id_inj: "child_id p j = child_id p k \<longleftrightarrow> j = k"
  by (simp add: child_id_def str_of_nat_inj)

lemma no_hash_in_digits: "CHR ''#'' \<notin> set (str_of_nat k)"
  using str_of_nat_digits [of k] by auto

text \<open>The only prefixes of a child id that are followed by \<open>#\<close> are its parent and what the parent
  itself extends.\<close>

lemma child_id_prefix:
  assumes "child_id p k = p' @ CHR ''#'' # s"
  shows "p' = p \<or> (\<exists>t. p = p' @ CHR ''#'' # t)"
proof -
  from assms have "p @ CHR ''#'' # (CHR ''q'' # str_of_nat k) = p' @ CHR ''#'' # s"
    by (simp add: child_id_hash)
  then obtain us where us: "p = p' @ us \<and> us @ CHR ''#'' # CHR ''q'' # str_of_nat k = CHR ''#'' # s \<or>
      p @ us = p' \<and> CHR ''#'' # CHR ''q'' # str_of_nat k = us @ CHR ''#'' # s"
    unfolding append_eq_append_conv2 by blast
  then show ?thesis
  proof
    assume a: "p = p' @ us \<and> us @ CHR ''#'' # CHR ''q'' # str_of_nat k = CHR ''#'' # s"
    then show ?thesis by (cases us) simp_all
  next
    assume a: "p @ us = p' \<and> CHR ''#'' # CHR ''q'' # str_of_nat k = us @ CHR ''#'' # s"
    show ?thesis
    proof (cases us)
      case (Cons c cs)
      with a have "CHR ''q'' # str_of_nat k = cs @ CHR ''#'' # s" by simp
      then have "CHR ''#'' \<in> set (CHR ''q'' # str_of_nat k)" unfolding in_set_conv_decomp by blast
      then show ?thesis using no_hash_in_digits [of k] by simp
    qed (use a in simp)
  qed
qed

lemma ids_fresh_children:
  assumes fresh: "ids_fresh own (cur # outs)" and cur: "tile_id cur \<in> leaf_ids own"
    and out: "\<forall>r\<in>set outs. tile_id r \<in> leaf_ids own \<and> tile_id r \<noteq> tile_id cur"
    and dom: "leaf_ids own' \<subseteq> leaf_ids own \<union> range (child_id (tile_id cur))"
    and kids: "\<forall>k\<in>set kids. tile_id k \<in> range (child_id (tile_id cur))"
  shows "ids_fresh own' (kids @ outs)"
  unfolding ids_fresh_def
proof (intro ballI allI notI)
  fix r i s assume r: "r \<in> set (kids @ outs)" and i: "i \<in> leaf_ids own'"
    and eq: "i = tile_id r @ CHR ''#'' # s"
  have cur_no: "j \<noteq> tile_id cur @ CHR ''#'' # t" if "j \<in> leaf_ids own" for j t
    using fresh that by (simp add: ids_fresh_def)
  have out_no: "j \<noteq> tile_id x @ CHR ''#'' # t" if "x \<in> set outs" "j \<in> leaf_ids own" for x j t
    using fresh that by (simp add: ids_fresh_def)
  from i dom consider (old) "i \<in> leaf_ids own" | (new) k where "i = child_id (tile_id cur) k"
    by blast
  then show False
  proof cases
    case old
    show False
    proof (cases "r \<in> set outs")
      case True
      with out_no [OF True old] eq show False by blast
    next
      case False
      with r kids obtain j where "tile_id r = child_id (tile_id cur) j" by auto
      with eq have "i = tile_id cur @ CHR ''#'' # (CHR ''q'' # str_of_nat j @ CHR ''#'' # s)"
        by (simp add: child_id_hash)
      with cur_no [OF old] show False by blast
    qed
  next
    case new
    with eq have pre: "child_id (tile_id cur) k = tile_id r @ CHR ''#'' # s" by simp
    show False
    proof (cases "r \<in> set outs")
      case True
      from child_id_prefix [OF pre] show False
        using out True cur out_no [OF True cur] by blast
    next
      case False
      with r kids obtain j where j: "tile_id r = child_id (tile_id cur) j" by auto
      from child_id_prefix [OF pre] show False unfolding j
        by (auto simp: child_id_def)
    qed
  qed
qed

subsection \<open>Single steps do not raise\<close>

lemma open_leaf_dom: "open_leaf own r \<Longrightarrow> tile_id r \<in> leaf_ids own"
  by (auto simp: open_leaf_def leaf_ids_iff)

lemma mark_forward_total:
  assumes "open_leaf own r"
  shows "\<exists>own'. mark_forward own (tile_id r) = Inr own' \<and> leaf_ids own' = leaf_ids own \<and> open_leaf own' r"
  using assms by (auto simp: open_leaf_def mark_forward_def get_leaf_def leaf_ids_iff)

lemma set_terminal_total:
  assumes "open_leaf own r" "parse_disposition d = Inr v"
  shows "\<exists>own'. set_terminal own (tile_id r) d = Inr own' \<and> leaf_ids own' = leaf_ids own"
  using assms by (auto simp: open_leaf_def set_terminal_def get_leaf_def leaf_ids_iff)

lemma parse_known: "\<exists>v. parse_disposition ''ACTIVE'' = Inr v" "\<exists>v. parse_disposition ''EXACT_OUTPUT_SKIP'' = Inr v"
  by (simp_all add: parse_disposition_def)

lemma core_fits_full: "bbox_ok b \<Longrightarrow> core_fits b (t_full (height b) (width b) v)"
  by (auto simp: core_fits_def t_full_def t_shape_def bbox_ok_def height_def width_def)

lemma set_plugin_state_total [simp]:
  "plugin_total (ss_plugin (set_plugin_state s v)) = plugin_total (ss_plugin s)"
  "plugin_total (ss_plugin (session_add s res)) = plugin_total (ss_plugin s)"
  "plugin_total (ss_plugin (session_retire s i)) = plugin_total (ss_plugin s)"
  by (simp_all add: set_plugin_state_def session_add_def session_retire_def plugin_total_def)

lemma default_refinement_total:
  assumes "plugin_total (ss_plugin s)"
  shows "\<exists>r s'. default_refinement cur s = Inr (r, s') \<and> refinement_ok r \<and> plugin_total (ss_plugin s')"
proof -
  have fb: "\<exists>r. mk_refinement (tile_id cur) ''increase_halo'' (max 8 (halo_max (tr_halo cur))) 2 = Inr r \<and> refinement_ok r"
    by (auto simp: mk_refinement_def parse_action_def refinement_ok_def)
  show ?thesis
  proof (cases "vp_refine (ss_plugin s)")
    case None
    with fb assms show ?thesis by (auto simp: default_refinement_def)
  next
    case (Some f)
    with assms obtain a v' where a: "f (vp_state (ss_plugin s)) (tile_id cur) = Inr (a, v')"
      "\<forall>r. a = Some r \<longrightarrow> refinement_ok r" unfolding plugin_total_def by meson
    from fb Some a assms show ?thesis
      by (cases a) (auto simp: default_refinement_def)
  qed
qed

lemma verify_sessions_total:
  assumes "\<forall>s\<in>set ss. plugin_total (ss_plugin s)" "\<forall>r. ref = Some r \<longrightarrow> refinement_ok r"
  shows "\<exists>md' ref' ss'. verify_sessions left ctx cur ss md ref = Inr (md', ref', ss') \<and>
    (\<forall>s\<in>set ss'. plugin_total (ss_plugin s)) \<and> (\<forall>r. ref' = Some r \<longrightarrow> refinement_ok r)"
  using assms
proof (induction ss arbitrary: md ref)
  case (Cons s ss)
  then obtain res v where ver: "vp_verify_tile (ss_plugin s) (vp_state (ss_plugin s)) ctx = Inr (res, v)"
    unfolding plugin_total_def by (metis list.set_intros(1))
  define s1 where "s1 = session_add (set_plugin_state s v) res"
  define md1 where "md1 = AList.update (vp_name (ss_plugin s) @ ''_status'') (MStr (status_str (tv_status res))) md"
  have s1: "plugin_total (ss_plugin s1)" using Cons.prems by (simp add: s1_def)
  obtain md2 ref2 s2 where two: "(if tv_status res = VInconclusive \<and> ref = None then
        (if left > 0 then ebind (default_refinement cur s1) (\<lambda>(r, s2). Inr (md1, Some r, s2))
         else Inr (AList.update (vp_name (ss_plugin s) @ ''_note'')
                     (MStr ''inconclusive; refinement budget exhausted'') md1, ref, s1))
      else Inr (md1, ref, s1)) = Inr (md2, ref2, s2)"
    and s2: "plugin_total (ss_plugin s2)" "\<forall>r. ref2 = Some r \<longrightarrow> refinement_ok r"
    using default_refinement_total [OF s1, of cur] s1 Cons.prems(2)
    by (cases "tv_status res = VInconclusive \<and> ref = None"; cases "left > 0") auto
  from Cons.IH [OF _ s2(2), of md2] Cons.prems(1) obtain md3 ref3 ss3 where
    "verify_sessions left ctx cur ss md2 ref2 = Inr (md3, ref3, ss3)"
    "\<forall>s\<in>set ss3. plugin_total (ss_plugin s)" "\<forall>r. ref3 = Some r \<longrightarrow> refinement_ok r" by auto
  moreover have "verify_sessions left ctx cur (s # ss) md ref = Inr (md3, ref3, s2 # ss3)"
    unfolding verify_sessions.simps ver ebind_simps prod.case Let_def s1_def [symmetric] md1_def [symmetric] two
    by (simp add: calculation(1))
  ultimately show ?case using s2(1) by auto
qed auto

lemma discharge_total:
  assumes "\<forall>s\<in>set ss. plugin_total (ss_plugin s)"
  shows "\<exists>acc ss'. discharge ctx facts ss = Inr (acc, ss') \<and> (\<forall>s\<in>set ss'. plugin_total (ss_plugin s))"
  using assms
proof (induction ss)
  case (Cons s ss)
  show ?case
  proof (cases "vp_accept_screen_facts (ss_plugin s)")
    case None
    with Cons.prems show ?thesis by auto
  next
    case (Some f)
    have "plugin_total (ss_plugin s)" using Cons.prems by simp
    with Some obtain a v where f: "f (vp_state (ss_plugin s)) ctx facts = Inr (a, v)"
      unfolding plugin_total_def by meson
    from Cons obtain acc ss' where "discharge ctx facts ss = Inr (acc, ss')"
      "\<forall>s\<in>set ss'. plugin_total (ss_plugin s)" by auto
    with Some f Cons.prems show ?thesis by (cases a) (auto simp: Let_def)
  qed
qed auto

lemma install_children_dom:
  "install_children pid fwd cs t = (Inr ls, t') \<Longrightarrow> leaf_ids t' = leaf_ids t \<union> set (map fst cs)"
proof (induction cs arbitrary: t ls)
  case (Cons d cs)
  obtain cid core where d: "d = (cid, core)" by (cases d)
  define t1 where "t1 = t\<lparr>leaves := (leaves t)(cid \<mapsto> \<lparr>leaf_id = cid, leaf_core = core,
      parent_id = Some pid, forward_seen = fwd, terminal = None\<rparr>), final := final t @ [cid]\<rparr>"
  from Cons.prems obtain ls1 where rest: "install_children pid fwd cs t1 = (Inr ls1, t')"
    by (cases "install_children pid fwd cs t1")
      (auto simp: d Let_def ebind_eq_Inr simp flip: t1_def split: if_splits)
  from Cons.IH [OF rest] show ?case by (auto simp: t1_def d)
qed simp

lemma subdivide_dom:
  assumes "subdivide t pid cs = (Inr ls, t')"
  shows "leaf_ids t' = leaf_ids t \<union> set (map fst cs)"
proof -
  from assms obtain fwd t2 ks where "install_children pid fwd cs (t\<lparr>final := remove1 pid (final t)\<rparr>) = (Inr ks, t2)"
      "leaves t' = leaves t2"
    by (auto simp: subdivide_def Let_def split: option.splits if_splits sum.splits)
      (metis prod.collapse)
  from install_children_dom [OF this(1)] this(2) show ?thesis by (simp add: leaf_ids_def)
qed

subsection \<open>The invariant that keeps a run going\<close>

definition linv ::
    "'s pipe_env \<Rightarrow> ('s \<Rightarrow> string set) \<Rightarrow> ('s \<Rightarrow> bool) \<Rightarrow> tile_request list \<Rightarrow>
     ('v, 's) pipe_state \<Rightarrow> bool" where
  "linv env wr valid stack st \<longleftrightarrow>
     valid (ps_sink st) \<and> wr (ps_sink st) \<subseteq> leaf_ids (ps_own st) \<and>
     (\<forall>r\<in>set (outstanding stack st). tile_id r \<notin> wr (ps_sink st)) \<and>
     (\<forall>s\<in>set (ps_sessions st). plugin_total (ss_plugin s)) \<and>
     ids_fresh (ps_own st) (outstanding stack st)"

lemma ids_fresh_subset:
  assumes "ids_fresh own outs" "set outs' \<subseteq> set outs" "leaf_ids own' = leaf_ids own"
  shows "ids_fresh own' outs'"
proof (unfold ids_fresh_def, intro ballI allI)
  fix r i s assume "r \<in> set outs'" "i \<in> leaf_ids own'"
  then have "r \<in> set outs" "i \<in> leaf_ids own" using assms(2,3) by (simp_all add: subset_iff)
  then show "i \<noteq> tile_id r @ CHR ''#'' # s" using assms(1) by (simp add: ids_fresh_def)
qed

lemma pinv_open:
  assumes "pinv env h s0 bases (cur # stack) ops st"
  shows "open_leaf (ps_own st) cur" "request_ok (pe_shape env) cur" "bbox_ok (core_bbox cur)"
    "contains (dom_box (pe_shape env)) (core_bbox cur)"
    "\<forall>r\<in>set (outstanding stack st). open_leaf (ps_own st) r \<and> tile_id r \<noteq> tile_id cur"
proof -
  have led: "ledger (ps_own st) (cur # outstanding stack st) ops bases"
    and good: "req_good (pe_shape env) h cur"
    using assms by (simp_all add: pinv_def outstanding_def)
  show "open_leaf (ps_own st) cur" using ledgerD(3) [OF led] by simp
  show "request_ok (pe_shape env) cur" using good by (simp add: req_good_def)
  then show "bbox_ok (core_bbox cur)" "contains (dom_box (pe_shape env)) (core_bbox cur)"
    by (simp add: request_ok_def) (rule request_ok_core, fact)
  show "\<forall>r\<in>set (outstanding stack st). open_leaf (ps_own st) r \<and> tile_id r \<noteq> tile_id cur"
  proof
    fix r assume r: "r \<in> set (outstanding stack st)"
    then show "open_leaf (ps_own st) r \<and> tile_id r \<noteq> tile_id cur"
      using ledger_distinct [OF led] ledgerD(3) [OF led, of r] by (force simp: image_iff)
  qed
qed

lemma linv_commit:
  assumes inv: "pinv env h s0 bases (cur # stack) ops st" and lin: "linv env wr valid (cur # stack) st"
    and st': "ps_sink st' = s" "valid s" "wr s = insert (tile_id cur) (wr (ps_sink st))"
      "leaf_ids (ps_own st') = leaf_ids (ps_own st)" "ps_batch st' = ps_batch st"
      "\<forall>s\<in>set (ps_sessions st'). plugin_total (ss_plugin s)"
  shows "linv env wr valid stack st'"
proof -
  have out: "outstanding stack st' = outstanding stack st" using st'(5) by (simp add: outstanding_def)
  have "ids_fresh (ps_own st') (outstanding stack st')"
  proof (rule ids_fresh_subset)
    show "ids_fresh (ps_own st) (outstanding (cur # stack) st)" using lin by (simp add: linv_def)
    show "set (outstanding stack st') \<subseteq> set (outstanding (cur # stack) st)"
      unfolding out by (auto simp: outstanding_def)
  qed (fact st'(4))
  moreover have "tile_id cur \<in> leaf_ids (ps_own st)"
    using open_leaf_dom [OF pinv_open(1) [OF inv]] .
  ultimately show ?thesis
    using lin st' pinv_open(5) [OF inv] unfolding linv_def out by (auto simp: outstanding_def)
qed

lemma write_total:
  assumes "sink_total env wr valid" "linv env wr valid (cur # stack) st"
    "bbox_ok (core_bbox cur)" "contains (dom_box (pe_shape env)) (core_bbox cur)" "core_fits (core_bbox cur) c"
  shows "\<exists>s'. sink_call (pe_write env (ps_sink st) (tile_id cur) (core_bbox cur) c md) = Inr s' \<and>
    valid s' \<and> wr s' = insert (tile_id cur) (wr (ps_sink st))"
proof -
  have "valid (ps_sink st)" "tile_id cur \<notin> wr (ps_sink st)"
    using assms(2) by (auto simp: linv_def outstanding_def)
  with assms(1,3-5) obtain s' where "pe_write env (ps_sink st) (tile_id cur) (core_bbox cur) c md = (Inr (), s')"
    "valid s'" "wr s' = insert (tile_id cur) (wr (ps_sink st))" unfolding sink_total_def by meson
  then show ?thesis by (simp add: sink_call_def)
qed

lemma certify_total:
  assumes "sink_total env wr valid" "linv env wr valid (cur # stack) st" "pe_certify env = Some recorder"
    "bbox_ok (core_bbox cur)" "contains (dom_box (pe_shape env)) (core_bbox cur)"
  shows "\<exists>s'. sink_call (recorder (ps_sink st) (tile_id cur) (core_bbox cur) (Some v) md) = Inr s' \<and>
    valid s' \<and> wr s' = insert (tile_id cur) (wr (ps_sink st))"
proof -
  have "valid (ps_sink st)" "tile_id cur \<notin> wr (ps_sink st)"
    using assms(2) by (auto simp: linv_def outstanding_def)
  with assms(1,3-5) obtain s' where "recorder (ps_sink st) (tile_id cur) (core_bbox cur) (Some v) md = (Inr (), s')"
    "valid s'" "wr s' = insert (tile_id cur) (wr (ps_sink st))" unfolding sink_total_def by meson
  then show ?thesis by (simp add: sink_call_def)
qed

lemma refine_total:
  assumes inv: "pinv env h s0 bases (cur # stack) ops st" and lin: "linv env wr valid (cur # stack) st"
    and ok: "refinement_ok ref"
  shows "\<exists>st' pushed. refine_tile env cur ref st = Inr (st', pushed) \<and> linv env wr valid (rev pushed @ stack) st'"
proof (cases "rr_action ref")
  case IncreaseHalo
  note o = pinv_open [OF inv]
  have hn: "0 \<le> halo_max (tr_halo cur)"
    using o(2) by (intro halo_max_nonneg) (auto simp: request_ok_def intro: halo_actual_nonneg)
  then obtain hs where hs: "uniform_halo (halo_max (tr_halo cur) + max 1 (extra_halo_px ref)) = Inr hs"
    by (auto simp: uniform_halo_Inr)
  from read_bbox_for_core [of "core_bbox cur" "fst (pe_shape env)" "snd (pe_shape env)" hs]
    o(3,4) halo_nonneg_uniform [OF hs]
  obtain read where read: "read_bbox_for (core_bbox cur) hs (snd (pe_shape env)) (fst (pe_shape env)) = Inr read"
    by auto
  then obtain g where g: "grown_request cur ref (pe_shape env) = Inr g" "tile_id g = tile_id cur"
    using hs by (simp add: grown_request_def Let_def)
  define st1 where "st1 = st\<lparr>ps_n_requeued := ps_n_requeued st + 1,
      ps_acc := record_refinement (ps_acc st) (tile_id cur) (tile_id cur) (area (core_bbox cur))\<rparr>"
  have "refine_tile env cur ref st = Inr (st1, [g])"
    using IncreaseHalo g(1) by (simp add: refine_tile_def Let_def st1_def)
  moreover have "linv env wr valid (g # stack) st1"
    using lin g(2) by (simp add: linv_def outstanding_def ids_fresh_def st1_def)
  ultimately show ?thesis by auto
next
  case Subdivide
  note o = pinv_open [OF inv]
  have two: "2 \<le> subdivision ref" using ok Subdivide by (simp add: refinement_ok_def)
  from partition_core_cover [OF two o(3)] obtain boxes where
    boxes: "partition_core (core_bbox cur) (subdivision ref) = Inr boxes"
      "exact_cover boxes (\<lambda>q. in_box q (core_bbox cur))" "\<forall>b\<in>set boxes. bbox_ok b" by blast
  define cs where "cs = map (\<lambda>(i, b). (child_id (tile_id cur) i, b)) (enumerate 0 boxes)"
  have snds: "map snd cs = boxes" by (simp add: cs_def case_prod_beta o_def)
  have fsts: "map fst cs = map (child_id (tile_id cur)) [0..<length boxes]"
  proof -
    have "map fst cs = map (child_id (tile_id cur)) (map fst (enumerate 0 boxes))"
      by (simp add: cs_def case_prod_beta o_def del: map_fst_enumerate)
    then show ?thesis by simp
  qed
  obtain l where l: "leaves (ps_own st) (tile_id cur) = Some l" "leaf_core l = core_bbox cur"
    using o(1) by (auto simp: open_leaf_def)
  have tree: "tree_ok (ps_own st)" and fin: "tile_id cur \<in> set (final (ps_own st))"
    using inv ledger_final by (auto simp: pinv_def outstanding_def dest: ledgerD(1) ledger_final)
  have bok: "\<forall>c\<in>set cs. bbox_ok (snd c)" using boxes(3) unfolding snds [symmetric] set_map by blast
  have chk: "check_partition (leaf_core l) cs = Inr ()"
    using boxes(2) bok o(3) unfolding l(2) by (intro check_partition_complete) (simp_all add: snds)
  have dist: "distinct (map fst cs)" unfolding fsts by (auto simp: distinct_map inj_on_def child_id_inj)
  have new: "leaves (ps_own st) i = None" if "i \<in> set (map fst cs)" for i
  proof (rule ccontr)
    assume "leaves (ps_own st) i \<noteq> None"
    then have "i \<in> leaf_ids (ps_own st)" by (simp add: leaf_ids_iff)
    moreover obtain k where "i = child_id (tile_id cur) k"
      using \<open>i \<in> set (map fst cs)\<close> unfolding fsts by auto
    moreover have "ids_fresh (ps_own st) (cur # outstanding stack st)"
      using lin by (simp add: linv_def outstanding_def)
    ultimately show False using ids_freshD [of "ps_own st" "cur # outstanding stack st" cur]
      by (simp add: child_id_hash)
  qed
  from subdivide_total [OF l(1) fin chk dist] new obtain ls own' where
    sub: "subdivide (ps_own st) (tile_id cur) cs = (Inr ls, own')" by blast
  have "\<exists>kids. mapE (child_request (pe_shape env) (tr_halo cur)) cs = Inr kids \<and>
      (\<forall>k\<in>set kids. tile_id k \<in> range (child_id (tile_id cur)))"
  proof (rule mapE_total)
    fix c assume c: "c \<in> set cs"
    then have "snd c \<in> set boxes" using snds by (metis image_eqI list.set_map)
    with exact_cover_inside [OF boxes(2)] boxes(3) have b: "bbox_ok (snd c)" "contains (core_bbox cur) (snd c)" by auto
    have hn: "halo_nonneg (tr_halo cur)"
      using o(2) by (auto simp: request_ok_def intro: halo_actual_nonneg)
    obtain read where "read_bbox_for (snd c) (tr_halo cur) (snd (pe_shape env)) (fst (pe_shape env)) = Inr read"
      using read_bbox_for_core [of "snd c" "fst (pe_shape env)" "snd (pe_shape env)" "tr_halo cur"]
        contains_trans [OF o(4) b(2)] b(1) hn by auto
    moreover have "fst c \<in> range (child_id (tile_id cur))"
      using c by (auto simp: cs_def)
    ultimately show "\<exists>k. child_request (pe_shape env) (tr_halo cur) c = Inr k \<and> tile_id k \<in> range (child_id (tile_id cur))"
      by (simp add: child_request_def)
  qed
  then obtain kids where kids: "mapE (child_request (pe_shape env) (tr_halo cur)) cs = Inr kids"
    "\<forall>k\<in>set kids. tile_id k \<in> range (child_id (tile_id cur))" by blast
  have kid_ids: "map tile_id kids = map fst cs"
    using kids(1) by (rule mapE_map) (auto simp: child_request_def ebind_eq_Inr)
  define st1 where "st1 = st\<lparr>ps_n_requeued := ps_n_requeued st + 1,
      ps_acc := record_subdivision (record_refinement (ps_acc st) (tile_id cur) (tile_id cur) (area (core_bbox cur))) (core_bbox cur),
      ps_own := own', ps_sessions := map (\<lambda>s. session_retire s (tile_id cur)) (ps_sessions st)\<rparr>"
  have run: "refine_tile env cur ref st = Inr (st1, kids)"
    using Subdivide boxes(1) sub kids(1) by (simp add: refine_tile_def Let_def st1_def flip: cs_def)
  from subdivide_dom [OF sub] have dom: "leaf_ids own' = leaf_ids (ps_own st) \<union> set (map fst cs)" .
  have fresh: "ids_fresh own' (rev kids @ outstanding stack st)"
  proof (rule ids_fresh_children)
    show "ids_fresh (ps_own st) (cur # outstanding stack st)" using lin by (simp add: linv_def outstanding_def)
    show "tile_id cur \<in> leaf_ids (ps_own st)" using l by (simp add: leaf_ids_iff)
    show "\<forall>r\<in>set (outstanding stack st). tile_id r \<in> leaf_ids (ps_own st) \<and> tile_id r \<noteq> tile_id cur"
      using o(5) open_leaf_dom by blast
    show "leaf_ids own' \<subseteq> leaf_ids (ps_own st) \<union> range (child_id (tile_id cur))"
      unfolding dom fsts by auto
    show "\<forall>k\<in>set (rev kids). tile_id k \<in> range (child_id (tile_id cur))" using kids(2) by simp
  qed
  have "tile_id k \<notin> wr (ps_sink st)" if "k \<in> set kids" for k
  proof -
    have "tile_id k \<in> set (map fst cs)" using that kid_ids by (metis image_eqI list.set_map)
    then have "tile_id k \<notin> leaf_ids (ps_own st)" by (simp add: leaf_ids_iff new)
    then show ?thesis using lin by (auto simp: linv_def)
  qed
  then have "linv env wr valid (rev kids @ stack) st1"
    using lin fresh dom by (auto simp: linv_def outstanding_def st1_def)
  with run show ?thesis by blast
qed

lemma conclude_total:
  assumes inv: "pinv env h s0 bases (cur # stack) ops st" and lin: "linv env wr valid (cur # stack) st"
    and sink: "sink_total env wr valid" and fit: "core_fits (core_bbox cur) (core_slice cur result)"
    and ok: "\<forall>r. ref = Some r \<longrightarrow> refinement_ok r"
  shows "\<exists>st' pushed left'. conclude_tile env left cur result md ref st = Inr (st', pushed, left') \<and>
    linv env wr valid (rev pushed @ stack) st'"
proof (cases ref)
  case None
  note o = pinv_open [OF inv]
  from set_terminal_total [OF o(1)] parse_known obtain own where
    own: "set_terminal (ps_own st) (tile_id cur) ''ACTIVE'' = Inr own"
      "leaf_ids own = leaf_ids (ps_own st)" by metis
  from write_total [OF sink lin o(3,4) fit] obtain s where
    s: "sink_call (pe_write env (ps_sink st) (tile_id cur) (core_bbox cur) (core_slice cur result) md) = Inr s"
      "valid s" "wr s = insert (tile_id cur) (wr (ps_sink st))" by blast
  define st1 where "st1 = st\<lparr>ps_own := own, ps_sink := s, ps_n_tiles := ps_n_tiles st + 1\<rparr>"
  have "linv env wr valid stack st1"
    by (rule linv_commit [OF inv lin _ s(2,3)]) (use own lin in \<open>simp_all add: st1_def linv_def\<close>)
  moreover have "conclude_tile env left cur result md ref st = Inr (st1, [], left)"
    using None own s by (simp add: conclude_tile_def st1_def)
  ultimately show ?thesis by auto
next
  case (Some r)
  from refine_total [OF inv lin, of r] ok Some obtain st' pushed where
    "refine_tile env cur r st = Inr (st', pushed)" "linv env wr valid (rev pushed @ stack) st'" by blast
  with Some show ?thesis by (auto simp: conclude_tile_def)
qed

lemma forward_tile_total:
  assumes inv: "pinv env h s0 bases (cur # stack) ops st" and lin: "linv env wr valid (cur # stack) st"
    and sink: "sink_total env wr valid" and fwd: "forward_total env"
  shows "\<exists>st' pushed left'. forward_tile env left cur (pe_read env (read_bbox cur)) smd md st =
      Inr (st', pushed, left') \<and> linv env wr valid (rev pushed @ stack) st'"
proof -
  note o = pinv_open [OF inv]
  from mark_forward_total [OF o(1)] obtain own where own: "mark_forward (ps_own st) (tile_id cur) = Inr own"
    "leaf_ids own = leaf_ids (ps_own st)" by blast
  define ctx where "ctx = \<lparr>tc_tile_id = tile_id cur, tc_core = core_bbox cur, tc_read = read_bbox cur,
      tc_halo = tr_halo cur, tc_tensor = Some (pe_read env (read_bbox cur)), tc_metadata = smd\<rparr>"
  have "\<forall>s\<in>set (ps_sessions st). plugin_total (ss_plugin s)" using lin by (simp add: linv_def)
  from verify_sessions_total [OF this, of None left ctx cur md] obtain md' ref ss where
    ver: "verify_sessions left ctx cur (ps_sessions st) md None = Inr (md', ref, ss)"
      "\<forall>s\<in>set ss. plugin_total (ss_plugin s)" "\<forall>r. ref = Some r \<longrightarrow> refinement_ok r" by auto
  define st2 where "st2 = st\<lparr>ps_forward_batches := ps_forward_batches st + 1,
      ps_acc := record_forward_core (record_forward (ps_acc st) (area (read_bbox cur))) (core_bbox cur),
      ps_own := own, ps_sessions := ss\<rparr>"
  have inv2: "pinv env h s0 bases (cur # stack) ops st2"
    using pinv_mark [OF inv own(1)] by (simp add: st2_def pinv_def outstanding_def)
  have "ids_fresh own (outstanding (cur # stack) st)"
    using lin ids_fresh_subset [OF _ subset_refl own(2)] by (simp add: linv_def)
  then have lin2: "linv env wr valid (cur # stack) st2"
    using lin own ver(2) by (simp add: linv_def st2_def outstanding_def)
  have fit: "core_fits (core_bbox cur) (core_slice cur (pe_forward env (pe_read env (read_bbox cur))))"
    using fwd o(2) by (simp add: forward_total_def tile_output_def)
  have "forward_tile env left cur (pe_read env (read_bbox cur)) smd md st =
      conclude_tile env left cur (pe_forward env (pe_read env (read_bbox cur))) md' ref st2"
    using own(1) ver(1) by (simp add: forward_tile_def Let_def st2_def flip: ctx_def)
  with conclude_total [OF inv2 lin2 sink fit ver(3)] show ?thesis by simp
qed

lemma flush_fold_total:
  assumes "ledger (ps_own st) (map (fst \<circ> fst) zs @ outs) ops bases"
    and "sink_total env wr valid" "valid (ps_sink st)"
    and "\<forall>z\<in>set zs. tile_id (fst (fst z)) \<notin> wr (ps_sink st) \<and> request_ok (pe_shape env) (fst (fst z)) \<and>
      core_fits (core_bbox (fst (fst z))) (core_slice (fst (fst z)) (snd z))"
  shows "\<exists>st'. foldE (flush_one env) st zs = Inr st' \<and> valid (ps_sink st') \<and>
    wr (ps_sink st') = wr (ps_sink st) \<union> set (map (tile_id \<circ> fst \<circ> fst) zs) \<and>
    leaf_ids (ps_own st') = leaf_ids (ps_own st) \<and> ps_sessions st' = ps_sessions st \<and>
    ps_batch st' = ps_batch st"
  using assms
proof (induction zs arbitrary: st ops)
  case (Cons z zs)
  let ?r = "fst (fst z)" and ?c = "core_slice (fst (fst z)) (snd z)"
  define op where "op = WriteOp (tile_id ?r) (core_bbox ?r) ?c []"
  have led: "ledger (ps_own st) (?r # map (fst \<circ> fst) zs @ outs) ops bases"
    using Cons.prems(1) by (simp add: o_def)
  have ok: "request_ok (pe_shape env) ?r" "tile_id ?r \<notin> wr (ps_sink st)" "core_fits (core_bbox ?r) ?c"
    using Cons.prems(4) by simp_all
  have "open_leaf (ps_own st) ?r" using ledgerD(3) [OF led] by simp
  from mark_forward_total [OF this] obtain own1 where own1: "mark_forward (ps_own st) (tile_id ?r) = Inr own1"
    "leaf_ids own1 = leaf_ids (ps_own st)" "open_leaf own1 ?r" by blast
  from set_terminal_total [OF own1(3)] parse_known obtain own2 where
    own2: "set_terminal own1 (tile_id ?r) ''ACTIVE'' = Inr own2" "leaf_ids own2 = leaf_ids own1"
    by metis
  have "bbox_ok (core_bbox ?r)" "contains (dom_box (pe_shape env)) (core_bbox ?r)"
    using ok(1) request_ok_core by (auto simp: request_ok_def)
  with Cons.prems(2,3) ok obtain s where
    s: "pe_write env (ps_sink st) (tile_id ?r) (core_bbox ?r) ?c [] = (Inr (), s)" "valid s"
      "wr s = insert (tile_id ?r) (wr (ps_sink st))" unfolding sink_total_def by meson
  define st1 where "st1 = st\<lparr>ps_own := own2,
      ps_acc := record_forward_core (record_forward (ps_acc st) (area (read_bbox ?r))) (core_bbox ?r), ps_sink := s\<rparr>"
  have one: "flush_one env st z = Inr st1"
    using own1(1) own2(1) s(1) by (simp add: flush_one_def Let_def sink_call_def st1_def)
  have led1: "ledger (ps_own st1) (map (fst \<circ> fst) zs @ outs) (ops @ [op]) bases"
    using ledger_close [OF ledger_mark [OF led own1(1)] own2(1), of op] by (simp add: st1_def op_def)
  have dist: "distinct (map tile_id (?r # map (fst \<circ> fst) zs @ outs) @ map op_id ops)"
    using led by (rule ledger_distinct)
  have pre: "\<forall>z\<in>set zs. tile_id (fst (fst z)) \<notin> wr (ps_sink st1) \<and> request_ok (pe_shape env) (fst (fst z)) \<and>
      core_fits (core_bbox (fst (fst z))) (core_slice (fst (fst z)) (snd z))"
  proof
    fix y assume y: "y \<in> set zs"
    then have "tile_id (fst (fst y)) \<noteq> tile_id ?r" using dist by (force simp: image_iff)
    with Cons.prems(4) y show "tile_id (fst (fst y)) \<notin> wr (ps_sink st1) \<and> request_ok (pe_shape env) (fst (fst y)) \<and>
      core_fits (core_bbox (fst (fst y))) (core_slice (fst (fst y)) (snd y))"
      by (simp add: st1_def s(3))
  qed
  have "valid (ps_sink st1)" using s(2) by (simp add: st1_def)
  from Cons.IH [OF led1 Cons.prems(2) this pre] obtain st' where
    st': "foldE (flush_one env) st1 zs = Inr st'" "valid (ps_sink st')"
      "wr (ps_sink st') = wr (ps_sink st1) \<union> set (map (tile_id \<circ> fst \<circ> fst) zs)"
      "leaf_ids (ps_own st') = leaf_ids (ps_own st1)" "ps_sessions st' = ps_sessions st1"
      "ps_batch st' = ps_batch st1" by blast
  have "foldE (flush_one env) st (z # zs) = Inr st'" using one st'(1) by (simp del: flush_one_def)
  moreover have "wr (ps_sink st') = wr (ps_sink st) \<union> set (map (tile_id \<circ> fst \<circ> fst) (z # zs))"
    using st'(3) s(3) by (auto simp: st1_def)
  ultimately show ?case using st' own1(2) own2(2) by (simp add: st1_def)
qed simp

lemma flush_total:
  assumes inv: "pinv env h s0 bases stack ops st" and lin: "linv env wr valid stack st"
    and sink: "sink_total env wr valid" and fwd: "forward_total env" and bf: "pe_batched_forward env \<noteq> None"
  shows "\<exists>st'. flush_batch env st = Inr st' \<and> linv env wr valid stack st'"
proof (cases "ps_batch st = []")
  case True
  with lin show ?thesis by (simp add: flush_batch_def)
next
  case False
  obtain f where f: "pe_batched_forward env = Some f" using bf by blast
  have out: "f (map snd (ps_batch st)) = map (pe_forward env) (map snd (ps_batch st))"
    using fwd f by (simp add: forward_total_def faithful_batch_def)
  define zs where "zs = zip (ps_batch st) (f (map snd (ps_batch st)))"
  have zs: "zs = map (\<lambda>rt. (rt, pe_forward env (snd rt))) (ps_batch st)"
    by (simp add: zs_def out zip_map2) (induction "ps_batch st", simp_all add: zip_same_conv_map)
  define st1 where "st1 = st\<lparr>ps_forward_batches := ps_forward_batches st + 1\<rparr>"
  have outs: "map (fst \<circ> fst) zs = map fst (ps_batch st)" by (simp add: zs o_def)
  have "ledger (ps_own st) (outstanding stack st) ops bases" using inv by (simp add: pinv_def)
  from ledger_perm [OF this, of "map fst (ps_batch st) @ stack"]
  have led: "ledger (ps_own st1) (map (fst \<circ> fst) zs @ stack) ops bases"
    unfolding outs by (simp add: outstanding_def st1_def)
  have pre: "\<forall>z\<in>set zs. tile_id (fst (fst z)) \<notin> wr (ps_sink st1) \<and> request_ok (pe_shape env) (fst (fst z)) \<and>
      core_fits (core_bbox (fst (fst z))) (core_slice (fst (fst z)) (snd z))"
  proof
    fix z assume "z \<in> set zs"
    then obtain rt where rt: "rt \<in> set (ps_batch st)" "z = (rt, pe_forward env (snd rt))"
      by (auto simp: zs)
    then have mem: "fst rt \<in> set (outstanding stack st)" by (simp add: outstanding_def)
    then have "req_good (pe_shape env) h (fst rt)" using inv unfolding pinv_def by blast
    then have ok: "request_ok (pe_shape env) (fst rt)" by (simp add: req_good_def)
    have "snd rt = pe_read env (read_bbox (fst rt))" using inv rt(1) unfolding pinv_def by blast
    with ok fwd have "core_fits (core_bbox (fst rt)) (core_slice (fst rt) (pe_forward env (snd rt)))"
      by (simp add: forward_total_def tile_output_def)
    moreover have "tile_id (fst rt) \<notin> wr (ps_sink st)" using lin mem unfolding linv_def by blast
    ultimately show "tile_id (fst (fst z)) \<notin> wr (ps_sink st1) \<and> request_ok (pe_shape env) (fst (fst z)) \<and>
      core_fits (core_bbox (fst (fst z))) (core_slice (fst (fst z)) (snd z))"
      using ok by (simp add: rt(2) st1_def)
  qed
  have "valid (ps_sink st1)" using lin by (simp add: linv_def st1_def)
  from flush_fold_total [OF led sink this pre] obtain st2 where
    st2: "foldE (flush_one env) st1 zs = Inr st2" "valid (ps_sink st2)"
      "wr (ps_sink st2) = wr (ps_sink st1) \<union> set (map (tile_id \<circ> fst \<circ> fst) zs)"
      "leaf_ids (ps_own st2) = leaf_ids (ps_own st1)" "ps_sessions st2 = ps_sessions st1"
      "ps_batch st2 = ps_batch st1" by blast
  define st' where "st' = st2\<lparr>ps_n_tiles := ps_n_tiles st2 + length (ps_batch st), ps_batch := [], ps_batch_shape := None\<rparr>"
  have "flush_batch env st = Inr st'"
    using False f st2(1) out unfolding flush_batch_def Let_def st1_def [symmetric] zs_def
    by (simp add: st'_def)
  moreover have ids: "set (map (tile_id \<circ> fst \<circ> fst) zs) = tile_id ` fst ` set (ps_batch st)"
    by (auto simp: zs)
  have "linv env wr valid stack st'"
  proof -
    have "ids_fresh (ps_own st') stack"
    proof (rule ids_fresh_subset)
      show "ids_fresh (ps_own st) (outstanding stack st)" using lin by (simp add: linv_def)
      show "set stack \<subseteq> set (outstanding stack st)" by (simp add: outstanding_def)
      show "leaf_ids (ps_own st') = leaf_ids (ps_own st)" using st2(4) by (simp add: st'_def st1_def)
    qed
    moreover have "wr (ps_sink st') \<subseteq> leaf_ids (ps_own st')"
    proof -
      have "tile_id r \<in> leaf_ids (ps_own st)" if "r \<in> fst ` set (ps_batch st)" for r
      proof -
        have "r \<in> set (outstanding stack st)" using that by (simp add: outstanding_def)
        then show ?thesis using inv ledgerD(3) open_leaf_dom unfolding pinv_def by blast
      qed
      then have "tile_id ` fst ` set (ps_batch st) \<subseteq> leaf_ids (ps_own st)" by blast
      with lin st2(3,4) ids show ?thesis by (simp add: linv_def st'_def st1_def)
    qed
    moreover have "tile_id r \<notin> wr (ps_sink st')" if "r \<in> set stack" for r
    proof -
      have "distinct (map tile_id (outstanding stack st) @ map op_id ops)"
        using inv ledger_distinct unfolding pinv_def by blast
      then have "tile_id r \<notin> tile_id ` fst ` set (ps_batch st)"
        using that by (auto simp: outstanding_def)
      moreover have "tile_id r \<notin> wr (ps_sink st)" using lin that by (simp add: linv_def outstanding_def)
      ultimately show ?thesis using st2(3) ids by (simp add: st'_def st1_def)
    qed
    ultimately show ?thesis using st2(2,5) lin by (simp add: linv_def outstanding_def st'_def st1_def)
  qed
  ultimately show ?thesis by blast
qed

lemma flush_if_total:
  assumes "pinv env h s0 bases stack ops st" "linv env wr valid stack st"
    and "sink_total env wr valid" "forward_total env" "pe_batched_forward env \<noteq> None"
  shows "\<exists>st' ops'. (if b then flush_batch env st else Inr st) = Inr st' \<and>
    pinv env h s0 bases stack ops' st' \<and> linv env wr valid stack st'"
proof (cases b)
  case True
  from flush_total [OF assms] obtain st' where "flush_batch env st = Inr st'" "linv env wr valid stack st'" by blast
  with pinv_flush [OF assms(1) this(1)] True show ?thesis by auto
qed (use assms in auto)

lemma batch_tile_total:
  assumes inv: "pinv env h s0 bases (cur # stack) ops st" and lin: "linv env wr valid (cur # stack) st"
    and sink: "sink_total env wr valid" and fwd: "forward_total env" and bf: "pe_batched_forward env \<noteq> None"
  shows "\<exists>st'. batch_tile env cur (pe_read env (read_bbox cur)) st = Inr st' \<and> linv env wr valid stack st'"
proof -
  define shape where "shape = (height (read_bbox cur), width (read_bbox cur))"
  define c where "c = (ps_batch st \<noteq> [] \<and> (Some shape \<noteq> ps_batch_shape st \<or>
             pe_batch_size env \<le> int (length (ps_batch st))))"
  from flush_if_total [OF inv lin sink fwd bf, of c] obtain st1 ops1 where
    st1: "(if c then flush_batch env st else Inr st) = Inr st1" "pinv env h s0 bases (cur # stack) ops1 st1"
      "linv env wr valid (cur # stack) st1" by blast
  define st2 where "st2 = st1\<lparr>ps_batch := ps_batch st1 @ [(cur, pe_read env (read_bbox cur))],
      ps_batch_shape := Some shape\<rparr>"
  have inv2: "pinv env h s0 bases stack ops1 st2"
    unfolding st2_def by (rule pinv_push_batch [OF st1(2)])
  have "ids_fresh (ps_own st2) (outstanding stack st2)"
  proof (rule ids_fresh_subset)
    show "ids_fresh (ps_own st1) (outstanding (cur # stack) st1)" using st1(3) by (simp add: linv_def)
  qed (auto simp: outstanding_def st2_def)
  then have lin2: "linv env wr valid stack st2"
    using st1(3) by (auto simp: linv_def outstanding_def st2_def)
  from flush_if_total [OF inv2 lin2 sink fwd bf, of "pe_batch_size env \<le> int (length (ps_batch st2))"] obtain st3 where
    "(if pe_batch_size env \<le> int (length (ps_batch st2)) then flush_batch env st2 else Inr st2) = Inr st3"
    "linv env wr valid stack st3" by blast
  moreover have "batch_tile env cur (pe_read env (read_bbox cur)) st =
      (if pe_batch_size env \<le> int (length (ps_batch st2)) then flush_batch env st2 else Inr st2)"
    unfolding batch_tile_def Let_def shape_def [symmetric] c_def [symmetric] st1(1) ebind_simps
      st2_def [symmetric] ..
  ultimately show ?thesis by simp
qed

lemma active_tile_total:
  assumes inv: "pinv env h s0 bases (cur # stack) ops st" and lin: "linv env wr valid (cur # stack) st"
    and sink: "sink_total env wr valid" and fwd: "forward_total env"
  shows "\<exists>st' pushed left'. active_tile env left cur d md st = Inr (st', pushed, left') \<and>
    linv env wr valid (rev pushed @ stack) st'"
proof -
  define st1 where "st1 = st\<lparr>ps_acc := record_read_window
      (record_active_core (ps_acc st) (tile_id cur) (core_bbox cur)) (area (read_bbox cur))\<rparr>"
  have inv1: "pinv env h s0 bases (cur # stack) ops st1" using inv by (simp add: st1_def)
  have lin1: "linv env wr valid (cur # stack) st1" using lin by (simp add: linv_def outstanding_def st1_def)
  show ?thesis
  proof (cases "batching env")
    case True
    then have "pe_batched_forward env \<noteq> None" by (simp add: batching_def)
    from batch_tile_total [OF inv1 lin1 sink fwd this] obtain st' where
      "batch_tile env cur (pe_read env (read_bbox cur)) st1 = Inr st'" "linv env wr valid stack st'" by blast
    with True show ?thesis by (auto simp: active_tile_def Let_def simp flip: st1_def)
  next
    case False
    with forward_tile_total [OF inv1 lin1 sink fwd] show ?thesis
      by (auto simp: active_tile_def Let_def simp flip: st1_def)
  qed
qed

lemma commit_screened_total:
  assumes inv: "pinv env h s0 bases (cur # stack) ops st" and lin: "linv env wr valid (cur # stack) st"
    and sink: "sink_total env wr valid"
  shows "\<exists>st'. commit_screened env cur fill md st = Inr st' \<and> linv env wr valid stack st'"
proof -
  note o = pinv_open [OF inv]
  from set_terminal_total [OF o(1)] parse_known obtain own where
    own: "set_terminal (ps_own st) (tile_id cur) ''EXACT_OUTPUT_SKIP'' = Inr own"
      "leaf_ids own = leaf_ids (ps_own st)" by metis
  obtain s where s: "sink_call (case pe_certify env of
        Some recorder \<Rightarrow> recorder (ps_sink st) (tile_id cur) (core_bbox cur) (Some fill) md
      | None \<Rightarrow> pe_write env (ps_sink st) (tile_id cur) (core_bbox cur)
          (t_full (height (core_bbox cur)) (width (core_bbox cur)) fill) md) = Inr s"
    "valid s" "wr s = insert (tile_id cur) (wr (ps_sink st))"
  proof (cases "pe_certify env")
    case None
    from write_total [OF sink lin o(3,4) core_fits_full [OF o(3)], of fill md] None that show thesis by auto
  next
    case (Some recorder)
    from certify_total [OF sink lin Some o(3,4), of fill md] Some that show thesis by auto
  qed
  define st1 where "st1 = st\<lparr>ps_sink := s,
      ps_acc := record_screened_out (ps_acc st) (tile_id cur) (area (core_bbox cur)),
      ps_own := own, ps_n_tiles := ps_n_tiles st + 1\<rparr>"
  have "linv env wr valid stack st1"
    by (rule linv_commit [OF inv lin _ s(2,3)]) (use own lin in \<open>simp_all add: st1_def linv_def\<close>)
  moreover have "commit_screened env cur fill md st = Inr st1"
    using s(1) own(1) by (simp add: commit_screened_def st1_def)
  ultimately show ?thesis by blast
qed

lemma map2_session_total:
  assumes "\<forall>s\<in>set ss. plugin_total (ss_plugin s)"
  shows "\<forall>s\<in>set (map2 session_add ss vs). plugin_total (ss_plugin s)"
  using assms by (auto dest: set_zip_leftD)

lemma screened_total:
  assumes inv: "pinv env h s0 bases (cur # stack) ops st" and lin: "linv env wr valid (cur # stack) st"
    and sink: "sink_total env wr valid" and facts: "screen_decision_to_facts d = Inr v"
  shows "\<exists>b md st'. screened_tile env pname d cur st = Inr (b, md, st') \<and>
    linv env wr valid (if b then stack else cur # stack) st'"
proof -
  obtain exact fs dep where v: "v = (exact, fs, dep)" by (cases v)
  define ctx where "ctx = \<lparr>tc_tile_id = tile_id cur, tc_core = core_bbox cur, tc_read = read_bbox cur,
      tc_halo = tr_halo cur, tc_tensor = None :: tensor option,
      tc_metadata = [(''screening_status'', MStr (screen_status_str (sd_status d))),
                     (''screening_reason'', MStr (sd_reason d))]\<rparr>"
  have "\<forall>s\<in>set (ps_sessions st). plugin_total (ss_plugin s)" using lin by (simp add: linv_def)
  from discharge_total [OF this, of ctx fs] obtain acc ss where
    dis: "discharge ctx fs (ps_sessions st) = Inr (acc, ss)" "\<forall>s\<in>set ss. plugin_total (ss_plugin s)" by blast
  show ?thesis
  proof (cases acc)
    case None
    have "linv env wr valid (cur # stack) (st\<lparr>ps_sessions := ss\<rparr>)"
      using lin dis(2) by (simp add: linv_def outstanding_def)
    then show ?thesis using None dis(1) facts
      by (intro exI [of _ False]) (simp add: screened_tile_def Let_def v flip: ctx_def)
  next
    case (Some verdicts)
    let ?st = "st\<lparr>ps_sessions := map2 session_add ss verdicts\<rparr>"
    have "pinv env h s0 bases (cur # stack) ops ?st" using inv by simp
    moreover have "linv env wr valid (cur # stack) ?st"
      using lin map2_session_total [OF dis(2)] by (simp add: linv_def outstanding_def)
    ultimately obtain st' where
      "commit_screened env cur (eo_fill exact) (discharged_meta pname d dep) ?st = Inr st'" "linv env wr valid stack st'"
      using commit_screened_total [OF _ _ sink] by blast
    then show ?thesis using Some dis(1) facts
      by (intro exI [of _ True]) (simp add: screened_tile_def Let_def v flip: ctx_def)
  qed
qed

lemma process_tile_total:
  assumes inv: "pinv env h s0 bases (cur # stack) ops st" and lin: "linv env wr valid (cur # stack) st"
    and sink: "sink_total env wr valid" and fwd: "forward_total env" and scr: "screen_total env"
  shows "\<exists>st' pushed left'. process_tile env left cur st = Inr (st', pushed, left') \<and>
    linv env wr valid (rev pushed @ stack) st'"
proof (cases "pe_screen env")
  case None
  with active_tile_total [OF inv lin sink fwd] show ?thesis by (simp add: process_tile_def)
next
  case (Some ps)
  obtain pname screen where ps: "ps = (pname, screen)" by (cases ps)
  define st1 where "st1 = st\<lparr>ps_acc := record_screen_query (ps_acc st)\<rparr>"
  have inv1: "pinv env h s0 bases (cur # stack) ops st1" using inv by (simp add: st1_def)
  have lin1: "linv env wr valid (cur # stack) st1" using lin by (simp add: linv_def outstanding_def st1_def)
  from scr Some ps obtain d where d: "screen cur = Inr d"
    "sd_status d = ScreenedOut \<longrightarrow> (\<exists>v. screen_decision_to_facts d = Inr v)"
    unfolding screen_total_def by meson
  have run: "process_tile env left cur st =
      (if sd_status d = ScreenedOut then
         ebind (screened_tile env pname d cur st1) (\<lambda>(settled, md, st1).
           if settled then Inr (st1, [], left) else active_tile env left cur (Some d) md st1)
       else active_tile env left cur (Some d) [] st1)"
    by (simp add: process_tile_def Some ps Let_def d(1) flip: st1_def)
  show ?thesis
  proof (cases "sd_status d = ScreenedOut")
    case False
    with active_tile_total [OF inv1 lin1 sink fwd] show ?thesis by (simp add: run)
  next
    case True
    with d(2) obtain v where v: "screen_decision_to_facts d = Inr v" by blast
    from screened_total [OF inv1 lin1 sink v, of pname] obtain b md st2 where
      two: "screened_tile env pname d cur st1 = Inr (b, md, st2)"
        "linv env wr valid (if b then stack else cur # stack) st2" by blast
    show ?thesis
    proof (cases b)
      case True
      with two \<open>sd_status d = ScreenedOut\<close> show ?thesis by (simp add: run)
    next
      case False
      with pinv_screened [OF inv1 _ two(1)] Some have "pinv env h s0 bases (cur # stack) ops st2" by simp
      from active_tile_total [OF this _ sink fwd] False two \<open>sd_status d = ScreenedOut\<close>
      show ?thesis by (simp add: run)
    qed
  qed
qed

lemma tile_loop_total:
  assumes "pinv env h s0 bases stack ops st" "linv env wr valid stack st"
    "sink_total env wr valid" "forward_total env" "screen_total env"
  shows "\<exists>st'. tile_loop env left stack st = Inr st' \<and> linv env wr valid [] st'"
  using assms
proof (induction env left stack st arbitrary: ops rule: tile_loop.induct)
  case (1 env left st)
  then show ?case by (simp add: tile_loop.simps)
next
  case (2 env left cur pending st)
  from process_tile_total [OF 2(2-6)] obtain st1 pushed left1 where
    one: "process_tile env left cur st = Inr (st1, pushed, left1)" "linv env wr valid (rev pushed @ pending) st1"
    by blast
  from pinv_process [OF 2(2) one(1)] obtain ops1 where "pinv env h s0 bases (rev pushed @ pending) ops1 st1" by blast
  from 2(1) [OF one(1) refl refl this one(2) 2(4-6)] one(1) show ?case
    by (simp add: tile_loop.simps)
qed

subsection \<open>A whole run\<close>

text \<open>Every leaf descends from a planned tile, so the next planned id is fresh.\<close>

definition roots_in :: "('v, 's) pipe_state \<Rightarrow> string set \<Rightarrow> bool" where
  "roots_in st ids \<longleftrightarrow> root_of ` leaf_ids (ps_own st) \<subseteq> ids"

lemma mark_forward_dom: "mark_forward t i = Inr t' \<Longrightarrow> leaf_ids t' = leaf_ids t"
  by (auto simp: mark_forward_def get_leaf_def ebind_eq_Inr leaf_ids_iff split: option.splits)

lemma set_terminal_dom: "set_terminal t i d = Inr t' \<Longrightarrow> leaf_ids t' = leaf_ids t"
  by (auto simp: set_terminal_def get_leaf_def ebind_eq_Inr leaf_ids_iff split: option.splits if_splits)

lemma root_child: "root_of (child_id p k) = root_of p"
  by (simp add: child_id_hash)

lemma refine_roots:
  assumes "refine_tile env cur ref st = Inr (st', pushed)" "roots_in st ids"
    "root_of (tile_id cur) \<in> ids"
  shows "roots_in st' ids \<and> (\<forall>k\<in>set pushed. root_of (tile_id k) \<in> ids)"
proof (cases "rr_action ref")
  case IncreaseHalo
  with assms show ?thesis
    by (auto simp: refine_tile_def Let_def ebind_eq_Inr roots_in_def grown_request_def)
next
  case Subdivide
  with assms(1) obtain boxes cs ls where
    cs: "cs = map (\<lambda>(i, b). (child_id (tile_id cur) i, b)) (enumerate 0 boxes)"
    and sub: "subdivide (ps_own st) (tile_id cur) cs = (Inr ls, ps_own st')"
    and kids: "mapE (child_request (pe_shape env) (tr_halo cur)) cs = Inr pushed"
    by (auto simp: refine_tile_def Let_def ebind_eq_Inr prod_eq_iff)
  have old: "root_of (fst c) \<in> ids" if "c \<in> set cs" for c
    using that assms(3) by (auto simp: cs root_child)
  have ids: "map tile_id pushed = map fst cs"
    using kids by (rule mapE_map) (auto simp: child_request_def ebind_eq_Inr)
  have "root_of (tile_id k) \<in> ids" if "k \<in> set pushed" for k
  proof -
    have "tile_id k \<in> set (map tile_id pushed)" using that by simp
    then have "tile_id k \<in> set (map fst cs)" by (simp only: ids)
    then obtain c where "c \<in> set cs" "tile_id k = fst c" by auto
    with old show ?thesis by simp
  qed
  moreover have "roots_in st' ids"
    unfolding roots_in_def subdivide_dom [OF sub] image_Un
    using assms(2) old by (simp add: roots_in_def image_subset_iff)
  ultimately show ?thesis by blast
qed

lemma flush_one_dom: "flush_one env st z = Inr st' \<Longrightarrow> leaf_ids (ps_own st') = leaf_ids (ps_own st)"
  by (auto simp: flush_one_def Let_def ebind_eq_Inr dest!: mark_forward_dom set_terminal_dom)

lemma flush_dom:
  assumes "flush_batch env st = Inr st'"
  shows "leaf_ids (ps_own st') = leaf_ids (ps_own st)"
proof -
  have fold: "leaf_ids (ps_own s') = leaf_ids (ps_own s)" if "foldE (flush_one env) s zs = Inr s'" for s s' zs
    by (rule foldE_invariant [OF that, of "\<lambda>x. leaf_ids (ps_own x) = leaf_ids (ps_own s)"])
      (auto dest: flush_one_dom)
  show ?thesis using assms
    by (auto simp: flush_batch_def Let_def ebind_eq_Inr split: if_splits option.splits dest!: fold)
qed

lemma batch_tile_dom:
  assumes "batch_tile env cur t st = Inr st'"
  shows "leaf_ids (ps_own st') = leaf_ids (ps_own st)"
proof -
  have step: "leaf_ids (ps_own s') = leaf_ids (ps_own s)"
    if "(if b then flush_batch env s else Inr s) = Inr s'" for b s s'
    using that flush_dom by (cases b) auto
  from assms show ?thesis unfolding batch_tile_def Let_def ebind_eq_Inr by (auto dest!: step)
qed

lemma commit_screened_dom:
  assumes "commit_screened env cur fill md st = Inr st'"
  shows "leaf_ids (ps_own st') = leaf_ids (ps_own st)"
proof -
  from assms obtain own where "set_terminal (ps_own st) (tile_id cur) ''EXACT_OUTPUT_SKIP'' = Inr own"
    "ps_own st' = own" unfolding commit_screened_def ebind_eq_Inr by fastforce
  with set_terminal_dom show ?thesis by metis
qed

lemma screened_tile_dom:
  assumes "screened_tile env pname d cur st = Inr (b, md, st')"
  shows "leaf_ids (ps_own st') = leaf_ids (ps_own st)"
  using assms by (cases rule: screened_tile_Inr) (auto dest: commit_screened_dom)

lemma active_roots:
  assumes act: "active_tile env left cur d md st = Inr (st', pushed, left')" and roots: "roots_in st ids"
    "root_of (tile_id cur) \<in> ids"
  shows "roots_in st' ids \<and> (\<forall>k\<in>set pushed. root_of (tile_id k) \<in> ids)"
proof -
  define st1 where "st1 = st\<lparr>ps_acc := record_read_window
      (record_active_core (ps_acc st) (tile_id cur) (core_bbox cur)) (area (read_bbox cur))\<rparr>"
  have own1: "ps_own st1 = ps_own st" by (simp add: st1_def)
  note act1 = act [unfolded active_tile_def Let_def, folded st1_def]
  show ?thesis
  proof (cases "batching env")
    case True
    with act1 have "batch_tile env cur (pe_read env (read_bbox cur)) st1 = Inr st'" "pushed = []"
      by (auto simp: ebind_eq_Inr)
    with batch_tile_dom [OF this(1)] roots(1) own1 show ?thesis by (simp add: roots_in_def)
  next
    case False
    with act1 obtain smd where
      "forward_tile env left cur (pe_read env (read_bbox cur)) smd md st1 = Inr (st', pushed, left')" by auto
    then obtain own md' ref st2 where
      two: "mark_forward (ps_own st1) (tile_id cur) = Inr own" "ps_own st2 = own"
        "conclude_tile env left cur (pe_forward env (pe_read env (read_bbox cur))) md' ref st2 = Inr (st', pushed, left')"
      by (rule forward_tile_Inr) blast
    have r2: "roots_in st2 ids"
      using roots(1) mark_forward_dom [OF two(1)] own1 two(2) by (simp add: roots_in_def)
    show ?thesis
    proof (cases ref)
      case None
      with two(3) obtain own3 where "set_terminal (ps_own st2) (tile_id cur) ''ACTIVE'' = Inr own3"
        "ps_own st' = own3" "pushed = []"
        by (auto simp: conclude_tile_def ebind_eq_Inr)
      with r2 set_terminal_dom [OF this(1)] show ?thesis by (simp add: roots_in_def)
    next
      case (Some r)
      with two(3) have "refine_tile env cur r st2 = Inr (st', pushed)"
        by (auto simp: conclude_tile_def ebind_eq_Inr)
      from refine_roots [OF this r2 roots(2)] show ?thesis .
    qed
  qed
qed

lemma process_roots:
  assumes "process_tile env left cur st = Inr (st', pushed, left')" "roots_in st ids"
    "root_of (tile_id cur) \<in> ids"
  shows "roots_in st' ids \<and> (\<forall>k\<in>set pushed. root_of (tile_id k) \<in> ids)"
proof (cases "pe_screen env")
  case None
  with assms show ?thesis by (simp add: process_tile_def active_roots)
next
  case (Some ps)
  obtain pname screen where ps: "ps = (pname, screen)" by (cases ps)
  define st1 where "st1 = st\<lparr>ps_acc := record_screen_query (ps_acc st)\<rparr>"
  have r1: "roots_in st1 ids" using assms(2) by (simp add: roots_in_def st1_def)
  from assms(1) obtain d where rest: "(if sd_status d = ScreenedOut then
              ebind (screened_tile env pname d cur st1) (\<lambda>(settled, md, st1).
                if settled then Inr (st1, [], left)
                else active_tile env left cur (Some d) md st1)
            else active_tile env left cur (Some d) [] st1) = Inr (st', pushed, left')"
    by (auto simp: process_tile_def Some ps ebind_eq_Inr simp flip: st1_def)
  show ?thesis
  proof (cases "sd_status d = ScreenedOut")
    case False
    with rest have "active_tile env left cur (Some d) [] st1 = Inr (st', pushed, left')" by simp
    from active_roots [OF this r1 assms(3)] show ?thesis .
  next
    case True
    with rest obtain b md st2 where two: "screened_tile env pname d cur st1 = Inr (b, md, st2)"
      and rest2: "(if b then Inr (st2, [], left) else active_tile env left cur (Some d) md st2) =
         Inr (st', pushed, left')"
      by (auto simp: ebind_eq_Inr)
    have r2: "roots_in st2 ids" using r1 screened_tile_dom [OF two] by (simp add: roots_in_def)
    show ?thesis
    proof (cases b)
      case True
      with rest2 r2 show ?thesis by auto
    next
      case False
      with rest2 have "active_tile env left cur (Some d) md st2 = Inr (st', pushed, left')" by simp
      from active_roots [OF this r2 assms(3)] show ?thesis .
    qed
  qed
qed

lemma loop_roots:
  assumes "tile_loop env left stack st = Inr st'" "roots_in st ids" "\<forall>r\<in>set stack. root_of (tile_id r) \<in> ids"
  shows "roots_in st' ids"
  using assms
proof (induction env left stack st rule: tile_loop.induct)
  case (2 env left cur pending st)
  from 2(2) obtain st1 pushed left1 where
    one: "process_tile env left cur st = Inr (st1, pushed, left1)"
    and rest: "tile_loop env left1 (rev pushed @ pending) st1 = Inr st'"
    by (auto simp: tile_loop.simps split: sum.splits prod.splits)
  from process_roots [OF one 2(3)] 2(4) have "roots_in st1 ids" "\<forall>r\<in>set (rev pushed @ pending). root_of (tile_id r) \<in> ids"
    by auto
  from 2(1) [OF one refl refl rest this] show ?case .
qed (simp add: tile_loop.simps)

lemma run_base_total:
  assumes inv: "pinv env h s0 bases [] ops st" and lin: "linv env wr valid [] st"
    and tot: "sink_total env wr valid" "forward_total env" "screen_total env"
    and base: "req_good (pe_shape env) h base" "\<not> split_id (tile_id base)" "0 \<le> pe_max_requeues env"
    and roots: "roots_in st ids" "tile_id base \<notin> ids"
  shows "\<exists>st'. run_base env st base = Inr st' \<and> linv env wr valid [] st' \<and>
    roots_in st' (insert (tile_id base) ids)"
proof -
  have new: "leaves (ps_own st) i = None" if "root_of i = tile_id base" for i
  proof (rule ccontr)
    assume "leaves (ps_own st) i \<noteq> None"
    then have "root_of i \<in> ids" using roots(1) by (auto simp: roots_in_def leaf_ids_iff)
    with that roots(2) show False by simp
  qed
  have root: "root_of (tile_id base) = tile_id base" using base(2) by (rule root_of_unsplit)
  obtain own where own: "add_root (ps_own st) (tile_id base) (core_bbox base) = Inr own"
    and dom: "leaf_ids own = insert (tile_id base) (leaf_ids (ps_own st))"
    using new [OF root] by (auto simp: add_root_def)
  define st1 where "st1 = st\<lparr>ps_own := own\<rparr>"
  have led: "ledger (ps_own st) (outstanding [] st) ops bases" using inv by (simp add: pinv_def)
  have ok: "bbox_ok (core_bbox base)" using base(1) by (simp add: req_good_def request_ok_def)
  have inv1: "pinv env h s0 (bases @ [core_bbox base]) [base] ops st1"
    using ledger_root [OF led own ok] inv base add_root_effect(3) [OF own ledgerD(1) [OF led] ok]
    by (simp add: pinv_def outstanding_def st1_def)
  have fresh_base: "j \<noteq> tile_id base @ CHR ''#'' # s" if "j \<in> leaf_ids own" for j s
  proof
    assume j: "j = tile_id base @ CHR ''#'' # s"
    then have "root_of j = tile_id base" using root by simp
    then have "leaves (ps_own st) j = None" by (rule new)
    with that dom have "j = tile_id base" by (auto simp: leaf_ids_iff)
    with j show False by simp
  qed
  have fresh_old: "tile_id base \<noteq> tile_id r @ CHR ''#'' # s" for r s
    using base(2) by (auto simp: split_id_def)
  have "ids_fresh own (base # outstanding [] st)"
    using lin fresh_base fresh_old unfolding linv_def ids_fresh_def dom by auto
  moreover have "tile_id base \<notin> wr (ps_sink st)" using lin new [OF root] by (auto simp: linv_def subset_iff leaf_ids_iff)
  ultimately have lin1: "linv env wr valid [base] st1"
    using lin dom by (auto simp: linv_def outstanding_def st1_def)
  from tile_loop_total [OF inv1 lin1 tot] obtain st' where
    st': "tile_loop env (pe_max_requeues env) [base] st1 = Inr st'" "linv env wr valid [] st'" by blast
  have "roots_in st1 (insert (tile_id base) ids)" using roots(1) dom root by (auto simp: roots_in_def st1_def)
  from loop_roots [OF st'(1) this] root have "roots_in st' (insert (tile_id base) ids)" by simp
  with st' own show ?thesis by (simp add: run_base_def st1_def)
qed

lemma run_bases_total:
  assumes "pinv env h s0 bases [] ops st" "linv env wr valid [] st"
    and "sink_total env wr valid" "forward_total env" "screen_total env"
    and "\<forall>r\<in>set rs. req_good (pe_shape env) h r \<and> \<not> split_id (tile_id r)" "0 \<le> pe_max_requeues env"
    and "roots_in st ids" "distinct (map tile_id rs)" "ids \<inter> tile_id ` set rs = {}"
  shows "\<exists>st'. foldE (run_base env) st rs = Inr st' \<and> linv env wr valid [] st'"
  using assms
proof (induction rs arbitrary: st bases ops ids)
  case (Cons r rs)
  have good: "req_good (pe_shape env) h r" "\<not> split_id (tile_id r)" using Cons.prems(6) by simp_all
  have new: "tile_id r \<notin> ids" using Cons.prems(10) by auto
  from run_base_total [OF Cons.prems(1-5) good Cons.prems(7,8) new] obtain st1 where
    one: "run_base env st r = Inr st1" "linv env wr valid [] st1" "roots_in st1 (insert (tile_id r) ids)" by blast
  from pinv_base [OF Cons.prems(1) one(1) good Cons.prems(7)] obtain ops1 where
    inv1: "pinv env h s0 (bases @ [core_bbox r]) [] ops1 st1" by blast
  have rest: "\<forall>r\<in>set rs. req_good (pe_shape env) h r \<and> \<not> split_id (tile_id r)"
    "distinct (map tile_id rs)" "insert (tile_id r) ids \<inter> tile_id ` set rs = {}"
    using Cons.prems(6,9,10) by auto
  from Cons.IH [OF inv1 one(2) Cons.prems(3-5) rest(1) Cons.prems(7) one(3) rest(2,3)] one(1)
  show ?case by simp
qed simp

text \<open>Without verifiers nothing is ever requeued.\<close>

definition plain :: "('v, 's) pipe_state \<Rightarrow> bool" where
  "plain st \<longleftrightarrow> ps_sessions st = [] \<and> ps_n_requeued st = 0"

lemma flush_plain:
  assumes "flush_batch env st = Inr st'" "plain st"
  shows "plain st'"
proof -
  have fold: "plain s'" if "foldE (flush_one env) s zs = Inr s'" "plain s" for s s' zs
    by (rule foldE_invariant [where P = plain, OF that])
      (auto simp: flush_one_def Let_def ebind_eq_Inr plain_def)
  from assms show ?thesis
    by (auto simp: flush_batch_def Let_def ebind_eq_Inr split: if_splits option.splits dest!: fold)
      (auto simp: plain_def)
qed

lemma batch_tile_plain:
  assumes "batch_tile env cur t st = Inr st'" "plain st"
  shows "plain st'"
proof -
  have step: "plain s'" if "(if b then flush_batch env s else Inr s) = Inr s'" "plain s" for b s s'
    using that flush_plain by (cases b) auto
  let ?shape = "(height (read_bbox cur), width (read_bbox cur))"
  from assms(1) obtain st1 where
    one: "(if ps_batch st \<noteq> [] \<and> (Some ?shape \<noteq> ps_batch_shape st \<or>
             pe_batch_size env \<le> int (length (ps_batch st)))
           then flush_batch env st else Inr st) = Inr st1"
    and two: "(if pe_batch_size env \<le> int (length (ps_batch st1 @ [(cur, t)]))
           then flush_batch env (st1\<lparr>ps_batch := ps_batch st1 @ [(cur, t)], ps_batch_shape := Some ?shape\<rparr>)
           else Inr (st1\<lparr>ps_batch := ps_batch st1 @ [(cur, t)], ps_batch_shape := Some ?shape\<rparr>)) = Inr st'"
    by (auto simp: batch_tile_def Let_def ebind_eq_Inr)
  from step [OF one assms(2)] step [OF two] show ?thesis by (simp add: plain_def)
qed

lemma active_plain:
  assumes "active_tile env left cur d md st = Inr (st', pushed, left')" "plain st"
  shows "plain st'"
proof -
  define st1 where "st1 = st\<lparr>ps_acc := record_read_window
      (record_active_core (ps_acc st) (tile_id cur) (core_bbox cur)) (area (read_bbox cur))\<rparr>"
  have p1: "plain st1" "ps_sessions st1 = []" using assms(2) by (simp_all add: plain_def st1_def)
  note act1 = assms(1) [unfolded active_tile_def Let_def, folded st1_def]
  show ?thesis
  proof (cases "batching env")
    case True
    with act1 have "batch_tile env cur (pe_read env (read_bbox cur)) st1 = Inr st'"
      by (auto simp: ebind_eq_Inr)
    from batch_tile_plain [OF this p1(1)] show ?thesis .
  next
    case False
    with act1 p1 show ?thesis
      by (auto simp: forward_tile_def conclude_tile_def Let_def ebind_eq_Inr plain_def)
  qed
qed

lemma process_plain:
  assumes "process_tile env left cur st = Inr (st', pushed, left')" "plain st"
  shows "plain st'"
proof (cases "pe_screen env")
  case None
  with assms show ?thesis by (simp add: process_tile_def active_plain)
next
  case (Some ps)
  obtain pname screen where ps: "ps = (pname, screen)" by (cases ps)
  define st1 where "st1 = st\<lparr>ps_acc := record_screen_query (ps_acc st)\<rparr>"
  have p1: "plain st1" using assms(2) by (simp add: plain_def st1_def)
  from assms(1) obtain d where rest: "(if sd_status d = ScreenedOut then
              ebind (screened_tile env pname d cur st1) (\<lambda>(settled, md, st1).
                if settled then Inr (st1, [], left)
                else active_tile env left cur (Some d) md st1)
            else active_tile env left cur (Some d) [] st1) = Inr (st', pushed, left')"
    by (auto simp: process_tile_def Some ps ebind_eq_Inr simp flip: st1_def)
  show ?thesis
  proof (cases "sd_status d = ScreenedOut")
    case False
    with rest active_plain [OF _ p1] show ?thesis by simp
  next
    case True
    with rest obtain b md st2 where two: "screened_tile env pname d cur st1 = Inr (b, md, st2)"
      and rest2: "(if b then Inr (st2, [], left) else active_tile env left cur (Some d) md st2) =
         Inr (st', pushed, left')"
      by (auto simp: ebind_eq_Inr)
    have "plain st2"
      using two p1 by (auto simp: screened_tile_def commit_screened_def Let_def ebind_eq_Inr plain_def split: prod.splits)
    with rest2 active_plain show ?thesis by (cases b) auto
  qed
qed

lemma loop_plain: "tile_loop env left stack st = Inr st' \<Longrightarrow> plain st \<Longrightarrow> plain st'"
proof (induction env left stack st rule: tile_loop.induct)
  case (2 env left cur pending st)
  from 2(2) obtain st1 pushed left1 where
    one: "process_tile env left cur st = Inr (st1, pushed, left1)"
    and rest: "tile_loop env left1 (rev pushed @ pending) st1 = Inr st'"
    by (auto simp: tile_loop.simps split: sum.splits prod.splits)
  from 2(1) [OF one refl refl rest process_plain [OF one 2(3)]] show ?case .
qed (simp add: tile_loop.simps)

lemma bases_plain:
  assumes "foldE (run_base env) st rs = Inr st'" "plain st"
  shows "plain st'"
proof (rule foldE_invariant [where P = plain, OF assms])
  fix s r s' assume "plain s" "run_base env s r = Inr s'"
  then show "plain s'" by (auto simp: run_base_def ebind_eq_Inr plain_def dest!: loop_plain)
qed

definition run_total ::
    "'s pipe_env \<Rightarrow> 'v plugin list \<Rightarrow> work_accounting option \<Rightarrow> 's \<Rightarrow> ('s \<Rightarrow> string set) \<Rightarrow> ('s \<Rightarrow> bool) \<Rightarrow> bool" where
  "run_total env ps given sink wr valid \<longleftrightarrow>
     0 < pe_core_size env \<and> 0 \<le> pe_max_halo_px env \<and> 1 \<le> pe_batch_size env \<and> 0 \<le> pe_max_requeues env \<and>
     0 \<le> fst (pe_shape env) \<and> 0 \<le> snd (pe_shape env) \<and>
     (batching env \<longrightarrow> ps = [] \<and> pe_screen env = None) \<and>
     (pe_tolerance_nm env \<noteq> None \<longrightarrow> length ps \<le> 1) \<and>
     (\<forall>ctx. \<exists>q. pe_policy env ctx = Inr q \<and> requirement_ok q) \<and>
     (\<forall>a. given = Some a \<longrightarrow> full_chip_pixels a = 0 \<or> full_chip_pixels a = fst (pe_shape env) * snd (pe_shape env)) \<and>
     list_all plugin_total ps \<and> sink_total env wr valid \<and> valid sink \<and> wr sink = {} \<and>
     forward_total env \<and> screen_total env"

lemma run_requirement_total:
  assumes "list_all plugin_total ps" "\<forall>ctx. \<exists>q. pe_policy env ctx = Inr q \<and> requirement_ok q"
  shows "\<exists>q. run_requirement env ps = Inr q \<and> requirement_ok q"
proof -
  have "\<exists>reqs. mapE (\<lambda>p. vp_required_halo p (vp_state p) (run_context (pe_pixel_nm env))) ps = Inr reqs \<and>
      (\<forall>q\<in>set reqs. \<forall>r. q = Some r \<longrightarrow> requirement_ok r)"
    using assms(1) by (intro mapE_total) (auto simp: list_all_iff plugin_total_def)
  then obtain reqs where reqs:
    "mapE (\<lambda>p. vp_required_halo p (vp_state p) (run_context (pe_pixel_nm env))) ps = Inr reqs"
    "\<forall>q\<in>set reqs. \<forall>r. q = Some r \<longrightarrow> requirement_ok r" by blast
  obtain phys where phys: "pe_policy env \<lparr>pixel_nm = pe_pixel_nm env, tile_core_px = pe_core_size env,
      ctx_node = None, ctx_model = None, ctx_kernel = None\<rparr> = Inr phys" "requirement_ok phys"
    using assms(2) by blast
  show ?thesis
  proof (cases "filter (\<lambda>r. r \<noteq> None) reqs = []")
    case True
    with reqs(1) phys show ?thesis by (simp add: run_requirement_def)
  next
    case False
    let ?all = "Some phys # filter (\<lambda>r. r \<noteq> None) reqs"
    have live: "live_of ?all \<noteq> []" "\<forall>r\<in>set (live_of ?all). requirement_ok r"
      using reqs(2) phys(2) by (auto simp: live_of_def)
    note eq = combine_eq [OF live]
    have "\<exists>q. combine_requirements ?all = Inr q \<and> requirement_ok q"
      using eq(2,3) by (subst eq(1)) (auto simp: requirement_ok_def)
    with False reqs(1) phys(1) show ?thesis by (simp add: run_requirement_def)
  qed
qed

lemma make_session_plugin [simp]: "ss_plugin (make_verifier_session p ctx tol) = p"
  by (simp add: make_verifier_session_def Let_def)

lemma streaming_total:
  fixes env :: "'s pipe_env" and ps :: "'v plugin list"
  assumes "run_total env ps given sink wr valid"
  shows "\<exists>rep sink'. run_streaming env ps given sink = Inr (rep, sink') \<and> (ps = [] \<longrightarrow> rp_n_requeued rep = 0)"
proof -
  note a = assms [unfolded run_total_def]
  obtain req where req: "run_requirement env ps = Inr req" "requirement_ok req"
    using run_requirement_total [of ps env] a by blast
  define h where "h = min (halo_px req) (pe_max_halo_px env)"
  have h: "0 \<le> h" using req(2) a by (simp add: h_def requirement_ok_def)
  obtain acc where acc: "run_accounting (pe_shape env) given = Inr acc"
  proof (cases given)
    case None
    then have "\<exists>acc. run_accounting (pe_shape env) given = Inr acc"
      by (simp add: run_accounting_def Let_def new_accounting_def)
    with that show thesis by blast
  next
    case (Some w)
    then have "full_chip_pixels w = 0 \<or> full_chip_pixels w = fst (pe_shape env) * snd (pe_shape env)"
      using a by blast
    then have "\<exists>acc. run_accounting (pe_shape env) given = Inr acc"
      using Some by (simp only: run_accounting_def Let_def option.case) auto
    with that show thesis by blast
  qed
  have "\<exists>ss. mapE (prepare_session (pe_pixel_nm env))
      (map (\<lambda>p. make_verifier_session p (run_context (pe_pixel_nm env)) (pe_tolerance_nm env)) ps) = Inr ss \<and>
      (\<forall>s\<in>set ss. plugin_total (ss_plugin s))"
  proof (rule mapE_total)
    fix s assume "s \<in> set (map (\<lambda>p. make_verifier_session p (run_context (pe_pixel_nm env)) (pe_tolerance_nm env)) ps)"
    then have tot: "plugin_total (ss_plugin s)" using a by (auto simp: list_all_iff)
    then obtain v where "vp_prepare (ss_plugin s) (vp_state (ss_plugin s)) (run_context (pe_pixel_nm env)) = Inr v"
      unfolding plugin_total_def by meson
    with tot show "\<exists>s'. prepare_session (pe_pixel_nm env) s = Inr s' \<and> plugin_total (ss_plugin s')"
      by (simp add: prepare_session_def)
  qed
  then obtain ss where ss: "mapE (prepare_session (pe_pixel_nm env))
      (map (\<lambda>p. make_verifier_session p (run_context (pe_pixel_nm env)) (pe_tolerance_nm env)) ps) = Inr ss"
    "\<forall>s\<in>set ss. plugin_total (ss_plugin s)" by blast
  obtain hs where hs: "uniform_halo h = Inr hs" using h by (auto simp: uniform_halo_Inr)
  from plan_total [of "pe_core_size env" hs "pe_shape env" "''tile''"] a halo_nonneg_uniform [OF hs] hs
  obtain rs where plan: "plan_tile_requests (pe_shape env) (pe_core_size env) (Inl h) None ''tile'' = Inr rs"
    by (auto simp: plan_uniform)
  define st0 where "st0 = initial_state sink ss acc"
  have inv0: "pinv env h sink [] [] [] st0"
    by (simp add: pinv_def initial_state_def outstanding_def ledger_empty sink_run_def st0_def)
      (simp add: empty_tree_def)
  have lin0: "linv env wr valid [] st0"
    using a ss(2) by (simp add: linv_def initial_state_def outstanding_def ids_fresh_def st0_def)
  have roots0: "roots_in st0 {}" by (simp add: roots_in_def st0_def initial_state_def empty_tree_def leaf_ids_def)
  have goods: "\<forall>r\<in>set rs. req_good (pe_shape env) h r \<and> \<not> split_id (tile_id r)"
    using plan_good [OF plan] by blast
  have tot: "sink_total env wr valid" "forward_total env" "screen_total env" and mr: "0 \<le> pe_max_requeues env"
    using a by simp_all
  from run_bases_total [OF inv0 lin0 tot goods mr roots0 plan_ids_distinct [OF plan]] obtain st1 where
    st1: "foldE (run_base env) st0 rs = Inr st1" "linv env wr valid [] st1" by auto
  from pinv_bases [OF st1(1) inv0 goods mr] obtain ops1 where inv1: "pinv env h sink (map core_bbox rs) [] ops1 st1" by auto
  obtain st where st: "run_tiles env rs st0 = Inr st"
  proof (cases "batching env")
    case True
    then have "pe_batched_forward env \<noteq> None" by (simp add: batching_def)
    from flush_total [OF inv1 st1(2) tot(1,2) this] True st1(1) that show thesis
      by (auto simp: run_tiles_def)
  next
    case False
    with st1(1) that show thesis by (simp add: run_tiles_def)
  qed
  from streaming_ledger [OF st [unfolded st0_def] plan mr] obtain ops where
    inv: "pinv env h sink (map core_bbox rs) [] ops st" "ps_batch st = []" by blast
  then have led: "ledger (ps_own st) [] ops (map core_bbox rs)" by (simp add: pinv_def outstanding_def)
  have fin: "set (final (ps_own st)) = op_id ` set ops" using ledger_final [OF led] by simp
  have settled: "list_all (\<lambda>i. \<exists>l d. leaves (ps_own st) i = Some l \<and> terminal l = Some d) (final (ps_own st))"
    using ledgerD(4) [OF led] unfolding list_all_iff fin closed_leaf_def by fastforce
  have cores: "exact_cover (final_cores (ps_own st)) (in_domain (fst (pe_shape env), snd (pe_shape env)))"
    using ledgerD(5) [OF led] plan_parts(3) [OF plan] by (simp add: exact_cover_def owned_def)
  from total_coverage_iff [OF ledgerD(1) [OF led] _ _ cores] settled a obtain counts where
    counts: "verify_total_coverage (ps_own st) (fst (pe_shape env) * snd (pe_shape env)) = Inr counts" by blast
  obtain ov where ov: "tiling_overhead rs = Inr ov"
    by (cases "sum_list (map area (map core_bbox rs)) = 0")
      (simp_all add: tiling_overhead_def halo_overhead_stats_def Let_def)
  have "run_streaming env ps given sink = Inr (report_of st req ov counts, ps_sink st)"
  proof -
    have g: "\<not> (batching env \<and> (ps \<noteq> [] \<or> pe_screen env \<noteq> None))" "\<not> pe_batch_size env < 1"
      "\<not> (pe_tolerance_nm env \<noteq> None \<and> length ps > 1)" using a by auto
    show ?thesis
      unfolding run_streaming_def Let_def req(1) ebind_simps h_def [symmetric] acc ss(1) plan
        st0_def [symmetric] st counts ov
      using g by (simp only: guard_def if_False ebind_simps)
  qed
  moreover have "ps_n_requeued st = 0" if "ps = []"
  proof -
    have "ss = []" using ss(1) that by simp
    then have "plain st0" by (simp add: plain_def st0_def initial_state_def)
    with bases_plain [OF st1(1)] have p1: "plain st1" by blast
    have "plain st"
      using st st1(1) flush_plain [OF _ p1] p1 by (cases "batching env") (auto simp: run_tiles_def)
    then show ?thesis by (simp add: plain_def)
  qed
  ultimately show ?thesis by (auto simp: report_of_def)
qed

end
