(* ===== verification/PipelineRuns.thy ===== *)
theory PipelineRuns
  imports PipelineTotal
begin

text \<open>
  What a run of \<open>run_streaming\<close> (\<open>streaming/pipeline.py\<close>) guarantees: every core is committed
  exactly once, the refinement budget holds, tiles that were never split carry the output of the
  dense run, and where subdivision and the verdict fold fall short of that.
\<close>

subsection \<open>A local forward model\<close>

text \<open>
  \<open>local_forward f shape img h\<close>: on every window of the image, \<open>f\<close> yields a mask of the window's
  shape, and its value at a pixel is the value of the dense run as soon as the window holds every
  pixel of the layout within \<open>h\<close> of it.
\<close>

definition local_forward :: "(tensor \<Rightarrow> tensor) \<Rightarrow> int \<times> int \<Rightarrow> tensor \<Rightarrow> int \<Rightarrow> bool" where
  "local_forward f shape img h \<longleftrightarrow>
     t_ok (f img) \<and> rows (f img) = fst shape \<and> cols (f img) = snd shape \<and>
     (\<forall>b. bbox_ok b \<longrightarrow> contains (dom_box shape) b \<longrightarrow>
        (let out = f (t_slice img (by0 b) (by1 b) (bx0 b) (bx1 b)) in
         t_ok out \<and> rows out = height b \<and> cols out = width b \<and>
         (\<forall>x y. in_box (x, y) b \<longrightarrow>
            (\<forall>u v. in_domain shape (u, v) \<longrightarrow> \<bar>u - x\<bar> \<le> h \<longrightarrow> \<bar>v - y\<bar> \<le> h \<longrightarrow> in_box (u, v) b) \<longrightarrow>
            t_get out (y - by0 b) (x - bx0 b) = t_get (f img) y x)))"

lemma local_forwardD:
  assumes "local_forward f shape img h" "bbox_ok b" "contains (dom_box shape) b"
  defines "out \<equiv> f (t_slice img (by0 b) (by1 b) (bx0 b) (bx1 b))"
  shows "t_ok out" "rows out = height b" "cols out = width b"
    "in_box (x, y) b \<Longrightarrow> (\<And>u v. in_domain shape (u, v) \<Longrightarrow> \<bar>u - x\<bar> \<le> h \<Longrightarrow> \<bar>v - y\<bar> \<le> h \<Longrightarrow> in_box (u, v) b) \<Longrightarrow>
       t_get out (y - by0 b) (x - bx0 b) = t_get (f img) y x"
  using assms unfolding local_forward_def Let_def by blast+

lemma core_slice_fits:
  assumes "t_ok out" "rows out = height (read_bbox r)" "cols out = width (read_bbox r)"
    "contains (read_bbox r) (core_bbox r)" "bbox_ok (core_bbox r)"
  shows "core_fits (core_bbox r) (core_slice r out)"
proof -
  have d: "0 \<le> by0 (core_bbox r) - by0 (read_bbox r)"
    "by0 (core_bbox r) - by0 (read_bbox r) < by0 (core_bbox r) - by0 (read_bbox r) + height (core_bbox r)"
    "by0 (core_bbox r) - by0 (read_bbox r) + height (core_bbox r) \<le> rows out"
    "0 \<le> bx0 (core_bbox r) - bx0 (read_bbox r)"
    "bx0 (core_bbox r) - bx0 (read_bbox r) \<le> bx0 (core_bbox r) - bx0 (read_bbox r) + width (core_bbox r)"
    "bx0 (core_bbox r) - bx0 (read_bbox r) + width (core_bbox r) \<le> cols out"
    using assms(2-5) by (simp_all add: contains_def bbox_ok_def height_def width_def)
  show ?thesis
    unfolding core_fits_def core_slice_def Let_def t_shape_def
    using t_ok_slice [OF assms(1) d] cols_slice [OF assms(1) d]
      rows_slice [OF d(1) less_imp_le [OF d(2)] d(3)] by simp
qed

text \<open>The core of a tile with its full context is the core of the dense run.\<close>

lemma local_core:
  assumes loc: "local_forward f shape img h" and ok: "request_ok shape r" and ctx: "context_ok shape h r"
  shows "core_slice r (f (t_slice img (by0 (read_bbox r)) (by1 (read_bbox r)) (bx0 (read_bbox r)) (bx1 (read_bbox r)))) =
    t_slice (f img) (by0 (core_bbox r)) (by1 (core_bbox r)) (bx0 (core_bbox r)) (bx1 (core_bbox r))"
    (is "core_slice r ?out = ?core")
proof -
  let ?b = "read_bbox r" and ?c = "core_bbox r"
  have b: "bbox_ok ?b" "contains (dom_box shape) ?b" "contains ?b ?c" "bbox_ok ?c"
    using ok by (simp_all add: request_ok_def)
  note out = local_forwardD [OF loc b(1,2)]
  note fi = loc [unfolded local_forward_def, THEN conjunct1] loc [unfolded local_forward_def, THEN conjunct2, THEN conjunct1]
    loc [unfolded local_forward_def, THEN conjunct2, THEN conjunct2, THEN conjunct1]
  have dims: "0 \<le> by0 ?c - by0 ?b" "by0 ?c - by0 ?b < by0 ?c - by0 ?b + height ?c"
    "by0 ?c - by0 ?b + height ?c \<le> rows ?out" "0 \<le> bx0 ?c - bx0 ?b"
    "bx0 ?c - bx0 ?b < bx0 ?c - bx0 ?b + width ?c" "bx0 ?c - bx0 ?b + width ?c \<le> cols ?out"
    using b out(2,3) by (simp_all add: contains_def bbox_ok_def height_def width_def)
  have cdims: "0 \<le> by0 ?c" "by0 ?c < by1 ?c" "by1 ?c \<le> rows (f img)" "0 \<le> bx0 ?c" "bx0 ?c < bx1 ?c"
    "bx1 ?c \<le> cols (f img)"
    using b fi(2,3) by (auto simp: contains_def bbox_ok_def dom_box_def)
  show ?thesis
  proof (rule t_ext)
    show "t_ok (core_slice r ?out)" unfolding core_slice_def Let_def
      using dims by (intro t_ok_slice out(1)) simp_all
    show "t_ok ?core" using cdims by (intro t_ok_slice fi(1)) simp_all
    show rs: "rows (core_slice r ?out) = rows ?core" unfolding core_slice_def Let_def
      using dims cdims by (simp add: rows_slice height_def)
    show cs: "cols (core_slice r ?out) = cols ?core" unfolding core_slice_def Let_def
      using dims cdims by (simp add: cols_slice [OF out(1)] cols_slice [OF fi(1)] width_def)
    fix y x assume yx: "0 \<le> y" "y < rows (core_slice r ?out)" "0 \<le> x" "x < cols (core_slice r ?out)"
    then have lt: "y < height ?c" "x < width ?c"
      using rs cs cdims by (simp_all add: rows_slice cols_slice [OF fi(1)] height_def width_def)
    let ?X = "x + bx0 ?c" and ?Y = "y + by0 ?c"
    have inb: "in_box (?X, ?Y) ?b"
      using yx(1,3) lt b(3) by (simp add: in_box_def contains_def height_def width_def)
    have near: "in_box (u, v) ?b" if "in_domain shape (u, v)" "\<bar>u - ?X\<bar> \<le> h" "\<bar>v - ?Y\<bar> \<le> h" for u v
      using that ctx yx(1,3) lt by (auto simp: context_ok_def in_domain_def in_box_def height_def width_def)
    have "t_get (core_slice r ?out) y x = t_get ?out (y + (by0 ?c - by0 ?b)) (x + (bx0 ?c - bx0 ?b))"
      unfolding core_slice_def Let_def using dims yx lt by (intro t_get_slice out(1)) simp_all
    also have "\<dots> = t_get ?out (?Y - by0 ?b) (?X - bx0 ?b)" by (simp add: algebra_simps)
    also have "\<dots> = t_get (f img) ?Y ?X" using inb near by (rule out(4))
    also have "\<dots> = t_get ?core y x"
      using cdims yx lt t_get_slice [OF fi(1), of "by0 ?c" "by1 ?c" "bx0 ?c" "bx1 ?c" y x]
      by (simp add: height_def width_def)
    finally show "t_get (core_slice r ?out) y x = t_get ?core y x" .
  qed
qed

subsection \<open>Commits as core writes\<close>

definition op_write :: "sink_op \<Rightarrow> string \<times> bbox \<times> tensor \<times> meta" where
  "op_write op = (op_id op, op_box op, (case op of WriteOp _ _ c _ \<Rightarrow> c | CertOp _ _ _ _ \<Rightarrow> []), op_meta op)"

lemma sink_run_writes:
  assumes "\<forall>op\<in>set ops. \<exists>tid b c md. op = WriteOp tid b c md"
  shows "write_all (pe_write env) s (map op_write ops) = sink_run env s ops"
  using assms
proof (induction ops arbitrary: s)
  case (Cons op ops)
  then obtain tid b c md where op: "op = WriteOp tid b c md" by auto
  obtain r s' where w: "pe_write env s tid b c md = (r, s')" by fastforce
  show ?case
  proof (cases r)
    case (Inl e)
    with op w show ?thesis by (simp add: sink_run_def op_write_def apply_op_def sink_call_def)
  next
    case (Inr u)
    have "write_all (pe_write env) s' (map op_write ops) = sink_run env s' ops"
      using Cons.prems by (intro Cons.IH) simp
    moreover have "write_all (pe_write env) s (map op_write (op # ops)) = write_all (pe_write env) s' (map op_write ops)"
      using op w Inr by (simp add: op_write_def)
    moreover have "sink_run env s (op # ops) = sink_run env s' ops"
      using op w Inr by (simp add: sink_run_def apply_op_def sink_call_def)
    ultimately show ?thesis by simp
  qed
qed (simp add: sink_run_def)

subsection \<open>A run in memory\<close>

text \<open>
  The configuration of \<open>run_streaming(TensorTileSource(img), TensorTileSink(shape), forward, ...)\<close>
  with the legacy halo policy, which the examples below run on.
\<close>

definition memory_env :: "int \<times> int \<Rightarrow> tensor \<Rightarrow> (tensor \<Rightarrow> tensor) \<Rightarrow> int \<Rightarrow> int \<Rightarrow> int \<Rightarrow> tensor_sink pipe_env" where
  "memory_env shape img f halo core batch =
     \<lparr>pe_shape = shape, pe_read = tensor_read_window (tensor_source img), pe_source_meta = None,
      pe_forward = f, pe_policy = legacy_required halo, pe_screen = None, pe_write = tensor_write_core,
      pe_certify = Some tensor_record_certified, pe_core_size = core, pe_max_halo_px = 1024,
      pe_pixel_nm = 1, pe_max_requeues = 4, pe_tolerance_nm = None, pe_batch_size = batch,
      pe_batched_forward = Some (map f)\<rparr>"

lemma memory_total:
  assumes img: "t_ok img" "rows img = int h" "cols img = int w" "0 < h"
    and loc: "local_forward f (int h, int w) img k" and nums: "0 < core" "0 \<le> halo" "1 \<le> batch"
    and ps: "1 < batch \<longrightarrow> ps = []" "list_all plugin_total ps"
  shows "run_total (memory_env (int h, int w) img f halo core batch) ps None (new_tensor_sink (int h, int w))
    (\<lambda>s. set (sk_written s)) (tensor_valid (int h, int w))"
proof -
  let ?e = "memory_env (int h, int w) img f halo core batch"
  have sink: "sink_total ?e (\<lambda>s. set (sk_written s)) (tensor_valid (int h, int w))"
  proof (unfold sink_total_def, intro conjI allI impI)
    fix s tid b c md assume "tensor_valid (int h, int w) s" "tid \<notin> set (sk_written s)" "bbox_ok b"
      "contains (dom_box (pe_shape ?e)) b" "core_fits b c"
    with tensor_write_effect [of "(int h, int w)" s tid b c md]
    show "\<exists>s'. pe_write ?e s tid b c md = (Inr (), s') \<and> tensor_valid (int h, int w) s' \<and>
        set (sk_written s') = insert tid (set (sk_written s))"
      by (auto simp: memory_env_def core_fits_def)
  next
    fix rec s tid b v md assume "pe_certify ?e = Some rec" "tensor_valid (int h, int w) s"
      "tid \<notin> set (sk_written s)" and b: "bbox_ok b" "contains (dom_box (pe_shape ?e)) b"
    with tensor_write_effect [of "(int h, int w)" s tid b "t_full (height b) (width b) v" md]
      core_fits_full [OF b(1), of v]
    show "\<exists>s'. rec s tid b (Some v) md = (Inr (), s') \<and> tensor_valid (int h, int w) s' \<and>
        set (sk_written s') = insert tid (set (sk_written s))"
      by (auto simp: memory_env_def core_fits_def tensor_record_certified_def)
  qed
  have fwd: "forward_total ?e"
    unfolding forward_total_def
  proof (intro conjI allI impI)
    show "faithful_batch ?e" by (simp add: faithful_batch_def memory_env_def)
    fix r assume "request_ok (pe_shape ?e) r"
    then have r: "bbox_ok (read_bbox r)" "contains (dom_box (int h, int w)) (read_bbox r)"
      "contains (read_bbox r) (core_bbox r)" "bbox_ok (core_bbox r)"
      by (simp_all add: request_ok_def memory_env_def)
    note out = local_forwardD [OF loc r(1,2)]
    show "core_fits (core_bbox r) (tile_output ?e r)"
      using core_slice_fits [OF out(1-3) r(3,4)]
      by (simp add: tile_output_def memory_env_def tensor_read_window_def tensor_source_def)
  qed
  have pol: "\<exists>q. legacy_required halo ctx = Inr q \<and> requirement_ok q" for ctx
    using nums(2) by (auto simp: legacy_required_def mk_requirement_def requirement_ok_def)
  show ?thesis
    unfolding run_total_def using sink fwd pol nums ps tensor_fresh(1,2)
    by (auto simp: memory_env_def batching_def screen_total_def)
qed

text \<open>A pointwise model is local within every radius.\<close>

lemma map_slice: "t_slice (map (map g) t) y0 y1 x0 x1 = map (map g) (t_slice t y0 y1 x0 x1)"
  by (simp add: t_slice_def py_slice_def Let_def take_map drop_map)

lemma map_grid:
  "rows (map (map g) t) = rows t" "cols (map (map g) t) = cols t" "t_ok t \<Longrightarrow> t_ok (map (map g) t)"
proof -
  show c: "cols (map (map g) t) = cols t" by (cases t) (simp_all add: cols_def)
  show "rows (map (map g) t) = rows t" by (simp add: rows_def)
  show "t_ok t \<Longrightarrow> t_ok (map (map g) t)" using c by (auto simp: t_ok_def list_all_iff)
qed

lemma map_get:
  assumes "t_ok t" "0 \<le> y" "y < rows t" "0 \<le> x" "x < cols t"
  shows "t_get (map (map g) t) y x = g (t_get t y x)"
proof -
  have y: "nat y < length t" using assms(2,3) by (simp add: rows_def)
  then have "int (length (t ! nat y)) = cols t" using t_okD [OF assms(1)] by simp
  then have "nat x < length (t ! nat y)" using assms(4,5) by linarith
  with y show ?thesis by (simp add: t_get_def)
qed

lemma local_pointwise:
  assumes img: "t_ok img" "rows img = int h" "cols img = int w"
  shows "local_forward (map (map g)) (int h, int w) img k"
  unfolding local_forward_def Let_def
proof (intro conjI allI impI)
  show "t_ok (map (map g) img)" "rows (map (map g) img) = fst (int h, int w)"
    "cols (map (map g) img) = snd (int h, int w)" using img by (simp_all add: map_grid)
  fix b assume b: "bbox_ok b" "contains (dom_box (int h, int w)) b"
  let ?w = "t_slice img (by0 b) (by1 b) (bx0 b) (bx1 b)"
  have shape: "rows img = fst (int h, int w)" "cols img = snd (int h, int w)" using img by simp_all
  note wd = image_window [OF img(1) shape b]
  show "t_ok (map (map g) ?w)" "rows (map (map g) ?w) = height b" "cols (map (map g) ?w) = width b"
    using wd by (simp_all add: map_grid t_shape_def)
  fix x y assume p: "in_box (x, y) b"
  have wp: "t_get ?w (y - by0 b) (x - bx0 b) = t_get img y x"
    using wd p by (metis fst_conv snd_conv)
  have "t_get (map (map g) ?w) (y - by0 b) (x - bx0 b) = g (t_get ?w (y - by0 b) (x - bx0 b))"
    using wd p by (intro map_get) (simp_all add: in_box_def t_shape_def height_def width_def)
  moreover have "t_get (map (map g) img) y x = g (t_get img y x)"
    using p b img by (intro map_get) (auto simp: in_box_def contains_def dom_box_def)
  ultimately show "t_get (map (map g) ?w) (y - by0 b) (x - bx0 b) = t_get (map (map g) img) y x"
    using wp by simp
qed

lemma dummy_total: "0 \<le> dm_halo_px s \<Longrightarrow> plugin_total (dummy_plugin s\<lparr>vp_required_halo := \<lambda>v c. Inr None\<rparr>)"
  by (auto simp: plugin_total_def dummy_plugin_def dummy_prepare_def dummy_verify_tile_def dummy_refine_def
      mk_refinement_def parse_action_def refinement_ok_def Let_def)

subsection \<open>Properties\<close>

text \<open>C1: Whatever the screening policy, the verifiers and their refinements, and with or without
  batching, a run that returns has committed every pixel of the chip exactly once: the sink's final
  state is the result of a sequence of accepted commits whose cores are an exact cover of the
  layout and whose tile ids are distinct, \<open>n_tiles\<close> counts them, the final leaves of the ownership
  tree are exactly the committed tiles, the terminal pixel counts add up to the chip, and the
  number of requeues is at most \<open>max_requeues\<close> per planned tile.\<close>

theorem streaming_commits_once:
  assumes "run_streaming env ps given sink = Inr (rep, sink')" "0 \<le> pe_max_requeues env"
  shows "\<exists>ops rs. sink_run env sink ops = Inr sink' \<and>
    exact_cover (map op_box ops) (in_domain (pe_shape env)) \<and> distinct (map op_id ops) \<and>
    rp_n_tiles rep = length ops \<and> set (final (rp_ownership rep)) = op_id ` set ops \<and>
    counts_total (rp_terminal rep) = fst (pe_shape env) * snd (pe_shape env) \<and>
    plan_tile_requests (pe_shape env) (pe_core_size env)
      (Inl (min (halo_px (rp_halo rep)) (pe_max_halo_px env))) None ''tile'' = Inr rs \<and>
    int (rp_n_requeued rep) \<le> int (length rs) * pe_max_requeues env"
proof -
  from assms(1) obtain req ss acc rs st ov counts where
    "mapE (prepare_session (pe_pixel_nm env))
       (map (\<lambda>p. make_verifier_session p (run_context (pe_pixel_nm env)) (pe_tolerance_nm env)) ps) = Inr ss"
    and plan: "plan_tile_requests (pe_shape env) (pe_core_size env)
      (Inl (min (halo_px req) (pe_max_halo_px env))) None ''tile'' = Inr rs"
    and tiles: "run_tiles env rs (initial_state sink ss acc) = Inr st"
    and total: "verify_total_coverage (ps_own st) (fst (pe_shape env) * snd (pe_shape env)) = Inr counts"
    and rep: "rep = report_of st req ov counts" "sink' = ps_sink st"
    by (rule run_streaming_Inr)
  from streaming_ledger [OF tiles plan assms(2)] obtain ops where
    inv: "pinv env (min (halo_px req) (pe_max_halo_px env)) sink (map core_bbox rs) [] ops st"
      "ps_batch st = []" "int (ps_n_requeued st) \<le> int (length rs) * pe_max_requeues env" by blast
  then have led: "ledger (ps_own st) [] ops (map core_bbox rs)" by (simp add: pinv_def outstanding_def)
  have "counts_total counts = fst (pe_shape env) * snd (pe_shape env)"
    using total by (auto simp: verify_total_coverage_def ebind_eq_Inr split: if_splits)
  with ledger_settled [OF led plan_parts(3) [OF plan]] inv plan rep show ?thesis
    by (intro exI [of _ ops] exI [of _ rs]) (simp add: pinv_def report_of_def)
qed

theorem streaming_commits_once_witness:
  "\<exists>rep sink' ops. run_streaming (memory_env (2, 3) [[0, 1, 1], [1, 0, 0]] (map (map (\<lambda>v. 1 - v))) 1 2 1)
      [dummy_plugin (dummy_new [] [''tile_0''] 0)\<lparr>vp_required_halo := \<lambda>v c. Inr None\<rparr>]
      None (new_tensor_sink (2, 3)) = Inr (rep, sink') \<and>
    exact_cover (map op_box ops) (in_domain (2, 3)) \<and> rp_n_tiles rep = length ops"
proof -
  let ?img = "[[0, 1, 1], [1, 0, 0]] :: tensor" and ?f = "map (map (\<lambda>v. 1 - v)) :: tensor \<Rightarrow> tensor"
  let ?ps = "[dummy_plugin (dummy_new [] [''tile_0''] 0)\<lparr>vp_required_halo := \<lambda>v c. Inr None\<rparr>]"
  have img: "t_ok ?img" "rows ?img = int 2" "cols ?img = int 3"
    by (simp_all add: t_ok_def rows_def cols_def)
  have "list_all plugin_total ?ps" using dummy_total by (simp add: dummy_new_def)
  from memory_total [OF img _ local_pointwise [OF img], of 2 1 1 ?ps] this
  have "run_total (memory_env (2, 3) ?img ?f 1 2 1) ?ps None (new_tensor_sink (2, 3))
    (\<lambda>s. set (sk_written s)) (tensor_valid (int 2, int 3))" by simp
  from streaming_total [OF this] obtain rep sink' where
    run: "run_streaming (memory_env (2, 3) ?img ?f 1 2 1) ?ps None (new_tensor_sink (2, 3)) = Inr (rep, sink')"
    by blast
  from streaming_commits_once [OF run] run show ?thesis by (auto simp: memory_env_def)
qed

text \<open>C3: Streaming is the dense run.  For a source that reads windows of one image, a forward model
  that is local within the halo in use, the tensor or the memmap sink, no screening and a batched
  forward that agrees with the single one, a run that returns and requeued nothing leaves in the
  sink exactly the forward model of the whole image, however the layout was cut and batched and
  whichever verifiers watched.\<close>

theorem streaming_equals_dense:
  assumes "run_streaming env ps given (new_tensor_sink (int h, int w)) = Inr (rep, sink')"
    and "rp_n_requeued rep = 0" "0 \<le> pe_max_requeues env"
    and "pe_shape env = (int h, int w)" "0 < h" "t_ok img" "rows img = int h" "cols img = int w"
    and "\<forall>b. bbox_ok b \<longrightarrow> contains (dom_box (int h, int w)) b \<longrightarrow>
      pe_read env b = t_slice img (by0 b) (by1 b) (bx0 b) (bx1 b)"
    and "local_forward (pe_forward env) (int h, int w) img (min (halo_px (rp_halo rep)) (pe_max_halo_px env))"
    and "faithful_batch env" "pe_screen env = None"
    and "pe_write env = tensor_write_core \<or> pe_write env = memmap_write_core"
  shows "sk_output sink' = pe_forward env img"
proof -
  let ?out = "pe_forward env img"
  from assms(1) obtain req ss acc rs st ov counts where
    "mapE (prepare_session (pe_pixel_nm env))
       (map (\<lambda>p. make_verifier_session p (run_context (pe_pixel_nm env)) (pe_tolerance_nm env)) ps) = Inr ss"
    and plan: "plan_tile_requests (pe_shape env) (pe_core_size env)
      (Inl (min (halo_px req) (pe_max_halo_px env))) None ''tile'' = Inr rs"
    and tiles: "run_tiles env rs (initial_state (new_tensor_sink (int h, int w)) ss acc) = Inr st"
    and rep: "rep = report_of st req ov counts" "sink' = ps_sink st"
    by (rule run_streaming_Inr)
  define k where "k = min (halo_px req) (pe_max_halo_px env)"
  have loc: "local_forward (pe_forward env) (int h, int w) img k"
    using assms(10) by (simp add: rep(1) report_of_def k_def)
  from streaming_ledger [OF tiles plan assms(3)] obtain ops where
    inv: "pinv env k (new_tensor_sink (int h, int w)) (map core_bbox rs) [] ops st" "ps_batch st = []"
    unfolding k_def by blast
  then have led: "ledger (ps_own st) [] ops (map core_bbox rs)" by (simp add: pinv_def outstanding_def)
  note set = ledger_settled [OF led plan_parts(3) [OF plan], unfolded assms(4)]
  have unsplit: "\<not> split_id (op_id op)" if "op \<in> set ops" for op
    using inv(1) assms(2) that set(3) by (auto simp: pinv_def rep(1) report_of_def)
  have core: "\<exists>md. op = WriteOp (op_id op) (op_box op)
      (t_slice ?out (by0 (op_box op)) (by1 (op_box op)) (bx0 (op_box op)) (bx1 (op_box op))) md \<and> bbox_ok (op_box op)"
    if "op \<in> set ops" for op
  proof -
    have "op_good env k op" using inv(1) that by (simp add: pinv_def)
    then obtain r md where r: "req_good (int h, int w) k r"
      "op = WriteOp (tile_id r) (core_bbox r) (tile_output env r) md"
      using assms(4,11,12) by (auto simp: op_good_def)
    have ok: "request_ok (int h, int w) r" "context_ok (int h, int w) k r"
      using r unsplit [OF that] by (simp_all add: req_good_def)
    have "pe_read env (read_bbox r) = t_slice img (by0 (read_bbox r)) (by1 (read_bbox r)) (bx0 (read_bbox r)) (bx1 (read_bbox r))"
      using assms(9) ok(1) by (simp add: request_ok_def)
    then show ?thesis
      using local_core [OF loc ok] ok(1) r(2) by (simp add: tile_output_def request_ok_def)
  qed
  have wr: "write_all (pe_write env) (new_tensor_sink (int h, int w)) (map op_write ops) = Inr sink'"
  proof -
    have "\<forall>op\<in>set ops. \<exists>tid b c md. op = WriteOp tid b c md" using core by blast
    from sink_run_writes [OF this, of env] inv(1) show ?thesis by (simp add: pinv_def rep(2))
  qed
  have boxes: "write_boxes (map op_write ops) = map op_box ops" "map fst (map op_write ops) = map op_id ops"
    by (simp_all add: write_boxes_def op_write_def o_def)
  have fi: "t_ok ?out" "rows ?out = fst (int h, int w)" "cols ?out = snd (int h, int w)"
    using loc by (simp_all add: local_forward_def)
  have cores: "list_all (\<lambda>(tid, b, c, md). bbox_ok b \<and> c = t_slice ?out (by0 b) (by1 b) (bx0 b) (bx1 b)) (map op_write ops)"
    unfolding list_all_iff
  proof
    fix v assume "v \<in> set (map op_write ops)"
    then obtain op where op: "op \<in> set ops" "v = op_write op" by auto
    from core [OF op(1)] obtain md where "op = WriteOp (op_id op) (op_box op)
      (t_slice ?out (by0 (op_box op)) (by1 (op_box op)) (bx0 (op_box op)) (bx1 (op_box op))) md" "bbox_ok (op_box op)"
      by blast
    then show "case v of (tid, b, c, md) \<Rightarrow> bbox_ok b \<and> c = t_slice ?out (by0 b) (by1 b) (bx0 b) (bx1 b)"
      unfolding op(2) op_write_def by (cases op) simp_all
  qed
  have dist: "distinct (map fst (map op_write ops))" and cov: "exact_cover (write_boxes (map op_write ops)) (in_domain (int h, int w))"
    unfolding boxes by (rule set(2)) (rule set(1))
  from tensor_sink.assembles [OF dist cov fi cores] memmap_sink.assembles [OF dist cov fi cores] wr assms(13)
  have "tensor_valid (int h, int w) sink' \<and>
      (\<forall>p. in_domain (int h, int w) p \<longrightarrow> tensor_content sink' p = t_get ?out (snd p) (fst p))" by auto
  then show ?thesis using fi assms(5)
    by (intro t_ext) (auto simp: tensor_valid_def tensor_content_def in_domain_def)
qed

theorem streaming_equals_dense_witness:
  "\<exists>rep sink'. run_streaming (memory_env (2, 3) [[0, 1, 1], [1, 0, 0]] (map (map (\<lambda>v. 1 - v))) 1 2 2)
      ([] :: unit plugin list) None (new_tensor_sink (2, 3)) = Inr (rep, sink') \<and>
    sk_output sink' = [[1, 0, 0], [0, 1, 1]]"
proof -
  let ?img = "[[0, 1, 1], [1, 0, 0]] :: tensor" and ?f = "map (map (\<lambda>v. 1 - v)) :: tensor \<Rightarrow> tensor"
  let ?e = "memory_env (2, 3) ?img ?f 1 2 2"
  have img: "t_ok ?img" "rows ?img = int 2" "cols ?img = int 3"
    by (simp_all add: t_ok_def rows_def cols_def)
  note loc = local_pointwise [OF img, of "\<lambda>v. 1 - v"]
  from memory_total [OF img _ loc, of 2 1 2 "[] :: unit plugin list"]
  have tot: "run_total ?e ([] :: unit plugin list) None (new_tensor_sink (2, 3))
    (\<lambda>s. set (sk_written s)) (tensor_valid (int 2, int 3))" by simp
  from streaming_total [OF tot] obtain rep sink' where
    run: "run_streaming ?e ([] :: unit plugin list) None (new_tensor_sink (2, 3)) = Inr (rep, sink')"
    and req: "rp_n_requeued rep = 0"
    by blast
  have reads: "\<forall>b. bbox_ok b \<longrightarrow> contains (dom_box (int 2, int 3)) b \<longrightarrow>
      pe_read ?e b = t_slice ?img (by0 b) (by1 b) (bx0 b) (bx1 b)"
    by (simp add: memory_env_def tensor_read_window_def tensor_source_def)
  have "sk_output sink' = pe_forward ?e ?img"
    by (rule streaming_equals_dense [of ?e "[] :: unit plugin list" None 2 3 rep])
      (use run req img loc reads in \<open>simp_all add: memory_env_def faithful_batch_def\<close>)
  moreover have "pe_forward ?e ?img = [[1, 0, 0], [0, 1, 1]]" by (simp add: memory_env_def)
  ultimately show ?thesis using run by auto
qed

text \<open>C4: A run returns whenever its collaborators do: with a positive core size, nonnegative halos and
  budgets, at most one verifier for a run-level tolerance, no verifier or screen beside batching,
  and a policy, a screen, verifiers, a forward model and a sink that do not raise on what the
  pipeline hands them, no guard of the pipeline fires, whatever the verifiers answer and however
  often they ask for more halo or for a split: the work stack empties, child ids never collide and
  the coverage ledger closes.  Without verifiers nothing is requeued.\<close>

theorem streaming_returns:
  assumes "run_total env ps given sink wr valid"
  shows "\<exists>rep sink'. run_streaming env ps given sink = Inr (rep, sink') \<and>
    (ps = [] \<longrightarrow> rp_n_requeued rep = 0)"
  using assms by (rule streaming_total)

theorem streaming_returns_witness:
  "\<exists>rep sink'. run_streaming (memory_env (2, 3) [[0, 1, 1], [1, 0, 0]] (map (map (\<lambda>v. 1 - v))) 1 2 1)
      [dummy_plugin (dummy_new [] [''tile_0''] 0)\<lparr>vp_required_halo := \<lambda>v c. Inr None\<rparr>]
      None (new_tensor_sink (2, 3)) = Inr (rep, sink')"
proof -
  let ?img = "[[0, 1, 1], [1, 0, 0]] :: tensor" and ?f = "map (map (\<lambda>v. 1 - v)) :: tensor \<Rightarrow> tensor"
  let ?ps = "[dummy_plugin (dummy_new [] [''tile_0''] 0)\<lparr>vp_required_halo := \<lambda>v c. Inr None\<rparr>]"
  have img: "t_ok ?img" "rows ?img = int 2" "cols ?img = int 3"
    by (simp_all add: t_ok_def rows_def cols_def)
  have "list_all plugin_total ?ps" using dummy_total by (simp add: dummy_new_def)
  from memory_total [OF img _ local_pointwise [OF img], of 2 1 1 ?ps] this
  have "run_total (memory_env (2, 3) ?img ?f 1 2 1) ?ps None (new_tensor_sink (2, 3))
    (\<lambda>s. set (sk_written s)) (tensor_valid (int 2, int 3))" by simp
  from streaming_returns [OF this] show ?thesis by blast
qed



text \<open>Verifiers that share an identity share one verdict.  The results of a run are keyed by
  \<open>(name, version, instance_key)\<close>, nothing checks that the keys differ, and a plugin without an
  instance key gets the default one: when the later of two such sessions passes, the earlier one's
  FAIL is dropped and the run reports PASS over one verifier.\<close>

theorem shared_identity_masks_failure:
  assumes "ss_identity s1 = ss_identity s2" "gr_status (session_finalize s2) = VPass"
  shows "\<exists>m. run_verdict [s1, s2] = Some (MultiVerdict m) \<and> ms_status m = VPass \<and> ms_n_verifiers m = 1"
  using assms by (simp add: run_verdict_def collect_results_def fold_global_def)

theorem shared_identity_masks_failure_witness:
  "\<exists>ctx s1 s2. s1 = session_add (make_verifier_session (dummy_plugin (dummy_new [''t''] [] 0)) ctx None)
       (tile_result_default ''t'' \<lparr>bx0 = 0, by0 = 0, bx1 = 1, by1 = 1\<rparr> VFail) \<and>
     s2 = session_add (make_verifier_session (dummy_plugin (dummy_new [] [] 0)) ctx None)
       (tile_result_default ''t'' \<lparr>bx0 = 0, by0 = 0, bx1 = 1, by1 = 1\<rparr> VPass) \<and>
     gr_status (session_finalize s1) = VFail \<and>
     (\<exists>m. run_verdict [s1, s2] = Some (MultiVerdict m) \<and> ms_status m = VPass)"
proof -
  define core where "core = \<lparr>bx0 = 0, by0 = 0, bx1 = 1, by1 = 1\<rparr>"
  define s1 where "s1 = session_add (make_verifier_session (dummy_plugin (dummy_new [''t''] [] 0)) (run_context 1) None)
       (tile_result_default ''t'' core VFail)"
  define s2 where "s2 = session_add (make_verifier_session (dummy_plugin (dummy_new [] [] 0)) (run_context 1) None)
       (tile_result_default ''t'' core VPass)"
  note defs = session_add_def make_verifier_session_def dummy_plugin_def tile_result_default_def
    session_finalize_def reducer_finalize_def reducer_add_def new_reducer_def Let_def latest_results_def
    base_status_def count_status_def global_coverage_def or_float_def total_error_def
  have id: "ss_identity s1 = ss_identity s2" by (simp add: s1_def s2_def defs)
  have f: "gr_status (session_finalize s1) = VFail" by (simp add: s1_def defs)
  have p: "gr_status (session_finalize s2) = VPass" by (simp add: s2_def defs)
  from shared_identity_masks_failure [OF id p] f show ?thesis
    unfolding s1_def s2_def core_def by blast
qed

end
