(* ===== verification/PipelineVerdict.thy ===== *)
theory PipelineVerdict
  imports PipelineRuns
begin

text \<open>
  What a PASS of a run means (\<open>streaming/pipeline.py\<close>, \<open>streaming/verify_layout.py\<close>): through
  requeues, splits and screening, every session keeps a verdict for every committed core, so that a
  PASS over distinct identities is a PASS of every verifier on every core of the layout.
\<close>

subsection \<open>What the sessions remember\<close>

text \<open>A plugin is honest when its verdicts name the tile it was asked about.\<close>

definition plugin_honest :: "'v plugin \<Rightarrow> bool" where
  "plugin_honest p \<longleftrightarrow>
     (\<forall>v ctx r v'. vp_verify_tile p v ctx = Inr (r, v') \<longrightarrow> tv_tile_id r = tc_tile_id ctx) \<and>
     (\<forall>f v ctx facts r v'. vp_accept_screen_facts p = Some f \<longrightarrow> f v ctx facts = Inr (Some r, v') \<longrightarrow>
        tv_tile_id r = tc_tile_id ctx) \<and>
     (\<forall>f ctx i. vp_make_reducer p = Some f \<longrightarrow> rd_latest (f ctx i) = [])"

definition sess_ok :: "string set \<Rightarrow> 'v session \<Rightarrow> bool" where
  "sess_ok ids s \<longleftrightarrow> plugin_honest (ss_plugin s) \<and>
     (\<forall>i\<in>ids. map_of (rd_latest (ss_reducer s)) i \<noteq> None) \<and>
     (\<forall>ir\<in>set (rd_latest (ss_reducer s)). tv_tile_id (snd ir) = fst ir)"

lemma sess_ok_mono: "sess_ok ids s \<Longrightarrow> ids' \<subseteq> ids \<Longrightarrow> sess_ok ids' s"
  by (auto simp: sess_ok_def)

lemma update_mem: "p \<in> set (AList.update k v al) \<Longrightarrow> p = (k, v) \<or> p \<in> set al"
  by (induction al) (auto split: if_splits)

lemma sess_ok_add:
  assumes "sess_ok ids s"
  shows "sess_ok (insert (tv_tile_id r) ids) (session_add s r)"
  using assms
  by (auto simp: sess_ok_def session_add_def reducer_add_def update_conv' dest!: update_mem)

lemma sess_ok_state [simp]: "sess_ok ids (set_plugin_state s v) = sess_ok ids s"
  by (simp add: sess_ok_def set_plugin_state_def plugin_honest_def)

lemma sess_ok_retire:
  assumes "sess_ok ids s" "i \<notin> ids"
  shows "sess_ok ids (session_retire s i)"
  unfolding sess_ok_def
proof (intro conjI ballI)
  let ?L = "rd_latest (ss_reducer s)"
  have L: "rd_latest (ss_reducer (session_retire s i)) = AList.delete i ?L"
    "ss_plugin (session_retire s i) = ss_plugin s"
    by (simp_all add: session_retire_def reducer_retire_def)
  show "plugin_honest (ss_plugin (session_retire s i))" using assms(1) L(2) by (simp add: sess_ok_def)
  fix j assume j: "j \<in> ids"
  then have "j \<noteq> i" using assms(2) by blast
  with assms(1) j show "map_of (rd_latest (ss_reducer (session_retire s i))) j \<noteq> None"
    unfolding L by (simp add: sess_ok_def)
next
  fix ir assume "ir \<in> set (rd_latest (ss_reducer (session_retire s i)))"
  then have "ir \<in> set (rd_latest (ss_reducer s))"
    by (simp add: session_retire_def reducer_retire_def AList.delete_eq)
  with assms(1) show "tv_tile_id (snd ir) = fst ir" by (simp add: sess_ok_def)
qed

lemma session_identity [simp]:
  "ss_identity (session_add s r) = ss_identity s" "ss_identity (session_retire s i) = ss_identity s"
  "ss_identity (set_plugin_state s v) = ss_identity s"
  by (simp_all add: session_add_def session_retire_def set_plugin_state_def)

lemma default_refinement_sess:
  assumes "default_refinement cur s = Inr (r, s')" "sess_ok ids s"
  shows "sess_ok ids s' \<and> ss_identity s' = ss_identity s"
proof (cases "vp_refine (ss_plugin s)")
  case None
  with assms(1) have "s' = s" by (auto simp: default_refinement_def Let_def ebind_eq_Inr)
  with assms(2) show ?thesis by simp
next
  case (Some f)
  with assms(1) obtain a v where "(a = Some r \<and> s' = set_plugin_state s v) \<or>
      (a = None \<and> s' = set_plugin_state s v)"
    unfolding default_refinement_def Let_def by (auto simp: ebind_eq_Inr split: option.splits)
  with assms(2) show ?thesis by auto
qed

lemma verify_sessions_sess:
  assumes "verify_sessions left ctx cur ss md ref = Inr (md', ref', ss')" "\<forall>s\<in>set ss. sess_ok ids s"
  shows "(\<forall>s\<in>set ss'. sess_ok (insert (tc_tile_id ctx) ids) s) \<and> map ss_identity ss' = map ss_identity ss"
  using assms
proof (induction ss arbitrary: md ref md' ref' ss')
  case (Cons s ss)
  from Cons.prems(1) obtain rv where "vp_verify_tile (ss_plugin s) (vp_state (ss_plugin s)) ctx = Inr rv"
    unfolding verify_sessions.simps ebind_eq_Inr by blast
  then obtain res v where ver: "vp_verify_tile (ss_plugin s) (vp_state (ss_plugin s)) ctx = Inr (res, v)"
    by (cases rv) simp
  define s1 where "s1 = session_add (set_plugin_state s v) res"
  have ok: "sess_ok ids s" using Cons.prems(2) by simp
  then have "plugin_honest (ss_plugin s)" by (simp add: sess_ok_def)
  then have "tv_tile_id res = tc_tile_id ctx" using ver unfolding plugin_honest_def by blast
  with sess_ok_add [of ids "set_plugin_state s v" res] ok have s1: "sess_ok (insert (tc_tile_id ctx) ids) s1"
    by (simp add: s1_def)
  let ?md = "AList.update (vp_name (ss_plugin s) @ ''_status'') (MStr (status_str (tv_status res))) md"
  note run = Cons.prems(1) [unfolded verify_sessions.simps ver ebind_simps prod.case Let_def, folded s1_def]
  define X where "X = (if tv_status res = VInconclusive \<and> ref = None then
        (if left > 0 then ebind (default_refinement cur s1) (\<lambda>(r, s2). Inr (?md, Some r, s2))
         else Inr (AList.update (vp_name (ss_plugin s) @ ''_note'')
                     (MStr ''inconclusive; refinement budget exhausted'') ?md, ref, s1))
      else Inr (?md, ref, s1))"
  have "ebind X (\<lambda>(md2, ref2, s2). ebind (verify_sessions left ctx cur ss md2 ref2)
      (\<lambda>(md3, ref3, ss3). Inr (md3, ref3, s2 # ss3))) = Inr (md', ref', ss')"
    using run by (simp only: X_def)
  then obtain md2 ref2 s2 ss3 where two0: "X = Inr (md2, ref2, s2)"
    and rest: "verify_sessions left ctx cur ss md2 ref2 = Inr (md', ref', ss3)" and ss': "ss' = s2 # ss3"
    by (auto simp: ebind_eq_Inr)
  note two = two0 [unfolded X_def]
  have "sess_ok (insert (tc_tile_id ctx) ids) s2 \<and> ss_identity s2 = ss_identity s"
  proof (cases "tv_status res = VInconclusive \<and> ref = None \<and> left > 0")
    case True
    with two obtain r where "default_refinement cur s1 = Inr (r, s2)" by (auto simp: ebind_eq_Inr)
    from default_refinement_sess [OF this s1] show ?thesis by (simp add: s1_def)
  next
    case False
    then have "s2 = s1" using two by (simp split: if_splits)
    with s1 show ?thesis by (simp add: s1_def)
  qed
  with Cons.IH [OF rest] Cons.prems(2) ss' show ?case by simp
qed simp

lemma discharge_sess:
  assumes "discharge ctx facts ss = Inr (acc, ss')" "\<forall>s\<in>set ss. sess_ok ids s"
  shows "(\<forall>s\<in>set ss'. sess_ok ids s) \<and> map ss_identity ss' = map ss_identity ss \<and>
    (\<forall>vs. acc = Some vs \<longrightarrow> length vs = length ss' \<and> (\<forall>v\<in>set vs. tv_tile_id v = tc_tile_id ctx))"
  using assms
proof (induction ss arbitrary: acc ss')
  case (Cons s ss)
  have ok: "sess_ok ids s" using Cons.prems(2) by simp
  show ?case
  proof (cases "vp_accept_screen_facts (ss_plugin s)")
    case None
    with Cons.prems show ?thesis by auto
  next
    case (Some f)
    with Cons.prems(1) obtain a v where f: "f (vp_state (ss_plugin s)) ctx facts = Inr (a, v)"
      by (auto simp: ebind_eq_Inr)
    show ?thesis
    proof (cases "\<exists>r. a = Some r \<and> tv_status r = VPass")
      case False
      with Cons.prems Some f ok show ?thesis by (cases a) (auto simp: Let_def)
    next
      case True
      then obtain r where r: "a = Some r" "tv_status r = VPass" by blast
      have "plugin_honest (ss_plugin s)" using ok by (simp add: sess_ok_def)
      then have id: "tv_tile_id r = tc_tile_id ctx" using f Some r unfolding plugin_honest_def by blast
      from Cons.prems(1) Some f r obtain acc1 ss1 where
        rest: "discharge ctx facts ss = Inr (acc1, ss1)"
          "acc = map_option (\<lambda>rs. r # rs) acc1" "ss' = set_plugin_state s v # ss1"
        by (auto simp: Let_def ebind_eq_Inr)
      from Cons.IH [OF rest(1)] Cons.prems(2) rest(2,3) ok id show ?thesis by auto
    qed
  qed
qed auto

lemma map2_add_sess:
  assumes "\<forall>s\<in>set ss. sess_ok ids s" "\<forall>v\<in>set vs. tv_tile_id v = i" "length vs = length ss"
  shows "(\<forall>s\<in>set (map2 session_add ss vs). sess_ok (insert i ids) s) \<and>
    map ss_identity (map2 session_add ss vs) = map ss_identity ss"
  using assms(3,1,2)
proof (induction vs ss rule: list_induct2)
  case (Cons v vs s ss)
  with sess_ok_add [of ids s v] show ?case by simp
qed simp

subsection \<open>Every committed core keeps its verdicts\<close>

definition committed :: "tile_request list \<Rightarrow> ('v, 's) pipe_state \<Rightarrow> string set" where
  "committed stack st = set (final (ps_own st)) - tile_id ` set (outstanding stack st)"

lemma committed_ops:
  assumes "pinv env h s0 bases stack ops st"
  shows "committed stack st = op_id ` set ops"
proof -
  have led: "ledger (ps_own st) (outstanding stack st) ops bases" using assms by (simp add: pinv_def)
  show ?thesis using ledger_final [OF led] ledger_distinct [OF led] by (auto simp: committed_def)
qed

definition vinv :: "verifier_identity list \<Rightarrow> tile_request list \<Rightarrow> ('v, 's) pipe_state \<Rightarrow> bool" where
  "vinv names stack st \<longleftrightarrow>
     (\<forall>s\<in>set (ps_sessions st). sess_ok (committed stack st) s) \<and> map ss_identity (ps_sessions st) = names"

lemma committed_push: "committed (cur # stack) st = committed stack st - {tile_id cur}"
  by (auto simp: committed_def outstanding_def)

lemma refine_sess:
  assumes inv: "pinv env h s0 bases (cur # stack) ops st" and vin: "vinv names (cur # stack) st"
    and ref: "refine_tile env cur r st = Inr (st', pushed)"
  shows "vinv names (rev pushed @ stack) st'"
proof (cases "rr_action r")
  case IncreaseHalo
  with ref vin show ?thesis
    by (auto simp: refine_tile_def Let_def ebind_eq_Inr grown_request_def vinv_def committed_def outstanding_def)
next
  case Subdivide
  with ref obtain boxes cs ls where
    part: "partition_core (core_bbox cur) (subdivision r) = Inr boxes"
    and cs: "cs = map (\<lambda>(i, b). (child_id (tile_id cur) i, b)) (enumerate 0 boxes)"
    and sub: "subdivide (ps_own st) (tile_id cur) cs = (Inr ls, ps_own st')"
    and kids: "mapE (child_request (pe_shape env) (tr_halo cur)) cs = Inr pushed"
    and st': "ps_sessions st' = map (\<lambda>s. session_retire s (tile_id cur)) (ps_sessions st)" "ps_batch st' = ps_batch st"
    by (auto simp: refine_tile_def Let_def ebind_eq_Inr prod_eq_iff)
  have led: "ledger (ps_own st) (cur # outstanding stack st) ops bases"
    using inv by (simp add: pinv_def outstanding_def)
  have ok: "bbox_ok (core_bbox cur)" by (rule pinv_open(3) [OF inv])
  have two: "2 \<le> subdivision r" using part by (simp add: partition_core_def split: if_splits)
  have snds: "map snd cs = boxes" by (simp add: cs case_prod_beta o_def)
  have "\<forall>b\<in>set boxes. bbox_ok b" using partition_core_cover [OF two ok] part by auto
  then have bok: "\<forall>c\<in>set cs. bbox_ok (snd c)" unfolding snds [symmetric] set_map by blast
  have fin: "final (ps_own st') = remove1 (tile_id cur) (final (ps_own st)) @ map fst cs"
    using subdivide_effect [OF sub ledgerD(1) [OF led] bok] by metis
  have ids: "map tile_id pushed = map fst cs"
    using kids by (rule mapE_map) (auto simp: child_request_def ebind_eq_Inr)
  have dist: "distinct (final (ps_own st))" using tree_okD(1) [OF ledgerD(1) [OF led]] .
  have sub: "committed (rev pushed @ stack) st' \<subseteq> committed (cur # stack) st"
  proof
    fix x assume x: "x \<in> committed (rev pushed @ stack) st'"
    have "set (map tile_id pushed) = set (map fst cs)" using ids by simp
    then have out: "x \<notin> set (map fst cs)" "x \<notin> tile_id ` set (outstanding stack st)"
      using x by (auto simp: committed_def outstanding_def st'(2))
    then have "x \<in> set (remove1 (tile_id cur) (final (ps_own st)))"
      using x unfolding committed_def fin by auto
    then have "x \<in> set (final (ps_own st))" "x \<noteq> tile_id cur" using dist by auto
    with out show "x \<in> committed (cur # stack) st" by (simp add: committed_def outstanding_def)
  qed
  have "tile_id cur \<notin> committed (cur # stack) st" by (simp add: committed_push)
  with vin sub show ?thesis
    by (auto simp: vinv_def st'(1) o_def intro!: sess_ok_mono [OF sess_ok_retire])
qed

lemma conclude_sess:
  assumes inv: "pinv env h s0 bases (cur # stack) ops st"
    and vin: "\<forall>s\<in>set (ps_sessions st). sess_ok (insert (tile_id cur) (committed (cur # stack) st)) s"
      "map ss_identity (ps_sessions st) = names"
    and run: "conclude_tile env left cur result md ref st = Inr (st', pushed, left')"
  shows "vinv names (rev pushed @ stack) st'"
proof (cases ref)
  case None
  with run obtain own s where term1: "set_terminal (ps_own st) (tile_id cur) ''ACTIVE'' = Inr own"
    and st': "st' = st\<lparr>ps_own := own, ps_sink := s, ps_n_tiles := ps_n_tiles st + 1\<rparr>" "pushed = []"
    by (auto simp: conclude_tile_def ebind_eq_Inr)
  have "tree_ok (ps_own st)" using inv ledgerD(1) by (auto simp: pinv_def)
  from set_terminal_effect(3) [OF term1 this] have "final own = final (ps_own st)" .
  then have "committed stack st' \<subseteq> insert (tile_id cur) (committed (cur # stack) st)"
    by (auto simp: committed_def outstanding_def st'(1))
  with vin st' show ?thesis by (auto simp: vinv_def intro: sess_ok_mono)
next
  case (Some r)
  with run have ref: "refine_tile env cur r st = Inr (st', pushed)"
    by (auto simp: conclude_tile_def ebind_eq_Inr)
  have "vinv names (cur # stack) st" using vin by (auto simp: vinv_def intro: sess_ok_mono)
  from refine_sess [OF inv this ref] show ?thesis .
qed

lemma forward_tile_split:
  assumes "forward_tile env left cur tile smd rejected st = Inr out"
  obtains own md ref ss where "mark_forward (ps_own st) (tile_id cur) = Inr own"
    "verify_sessions left \<lparr>tc_tile_id = tile_id cur, tc_core = core_bbox cur, tc_read = read_bbox cur,
       tc_halo = tr_halo cur, tc_tensor = Some tile, tc_metadata = smd\<rparr> cur (ps_sessions st) rejected None =
       Inr (md, ref, ss)"
    "conclude_tile env left cur (pe_forward env tile) md ref
       (st\<lparr>ps_forward_batches := ps_forward_batches st + 1,
           ps_acc := record_forward_core
             (record_forward (ps_acc st) (area (read_bbox cur))) (core_bbox cur),
           ps_own := own, ps_sessions := ss\<rparr>) = Inr out"
proof -
  from assms obtain own where own: "mark_forward (ps_own st) (tile_id cur) = Inr own"
    unfolding forward_tile_def Let_def ebind_eq_Inr by blast
  note run = assms [unfolded forward_tile_def Let_def own ebind_simps]
  from run obtain v where v: "verify_sessions left \<lparr>tc_tile_id = tile_id cur, tc_core = core_bbox cur, tc_read = read_bbox cur,
       tc_halo = tr_halo cur, tc_tensor = Some tile, tc_metadata = smd\<rparr> cur (ps_sessions st) rejected None = Inr v"
    unfolding ebind_eq_Inr by auto
  with run own show thesis by (cases v) (auto intro!: that)
qed

lemma active_sess:
  assumes inv: "pinv env h s0 bases (cur # stack) ops st" and vin: "vinv names (cur # stack) st"
    and act: "active_tile env left cur d md st = Inr (st', pushed, left')" and nb: "\<not> batching env"
  shows "vinv names (rev pushed @ stack) st'"
proof -
  define st1 where "st1 = st\<lparr>ps_acc := record_read_window
      (record_active_core (ps_acc st) (tile_id cur) (core_bbox cur)) (area (read_bbox cur))\<rparr>"
  have inv1: "pinv env h s0 bases (cur # stack) ops st1" using inv by (simp add: st1_def)
  note act1 = act [unfolded active_tile_def Let_def, folded st1_def]
  from act1 nb obtain smd where
    "forward_tile env left cur (pe_read env (read_bbox cur)) smd md st1 = Inr (st', pushed, left')" by auto
  then show ?thesis
  proof (rule forward_tile_split)
    fix own md' ref ss
    let ?ctx = "\<lparr>tc_tile_id = tile_id cur, tc_core = core_bbox cur, tc_read = read_bbox cur,
       tc_halo = tr_halo cur, tc_tensor = Some (pe_read env (read_bbox cur)), tc_metadata = smd\<rparr>"
    let ?st = "st1\<lparr>ps_forward_batches := ps_forward_batches st1 + 1,
           ps_acc := record_forward_core
             (record_forward (ps_acc st1) (area (read_bbox cur))) (core_bbox cur),
           ps_own := own, ps_sessions := ss\<rparr>"
    assume mark: "mark_forward (ps_own st1) (tile_id cur) = Inr own"
      and ver: "verify_sessions left ?ctx cur (ps_sessions st1) md None = Inr (md', ref, ss)"
      and run: "conclude_tile env left cur (pe_forward env (pe_read env (read_bbox cur))) md' ref ?st =
        Inr (st', pushed, left')"
    have inv2: "pinv env h s0 bases (cur # stack) ops ?st"
      using pinv_mark [OF inv1 mark] by (simp add: pinv_def outstanding_def)
    have led: "ledger (ps_own st1) (outstanding (cur # stack) st1) ops bases" using inv1 by (simp add: pinv_def)
    have "final own = final (ps_own st1)"
      using mark_forward_effect(3) [OF mark ledgerD(1) [OF led]] .
    then have com: "committed (cur # stack) ?st = committed (cur # stack) st"
      by (simp add: committed_def outstanding_def st1_def)
    have old: "\<forall>s\<in>set (ps_sessions st1). sess_ok (committed (cur # stack) st) s"
      and nm: "map ss_identity (ps_sessions st1) = names"
      using vin by (simp_all add: vinv_def st1_def)
    from verify_sessions_sess [OF ver old] have
      "\<forall>s\<in>set (ps_sessions ?st). sess_ok (insert (tile_id cur) (committed (cur # stack) ?st)) s"
      "map ss_identity (ps_sessions ?st) = names"
      unfolding com using nm by simp_all
    from conclude_sess [OF inv2 this run] show ?thesis .
  qed
qed

lemma screened_sess:
  assumes inv: "pinv env h s0 bases (cur # stack) ops st" and vin: "vinv names (cur # stack) st"
    and run: "screened_tile env pname d cur st = Inr (b, md, st')"
  shows "vinv names (if b then stack else cur # stack) st'"
proof -
  obtain exact facts dep where facts: "screen_decision_to_facts d = Inr (exact, facts, dep)"
    using run unfolding screened_tile_def ebind_eq_Inr by (metis prod_cases3)
  note run1 = run [unfolded screened_tile_def facts ebind_simps Let_def prod.case]
  let ?ctx = "\<lparr>tc_tile_id = tile_id cur, tc_core = core_bbox cur,
      tc_read = read_bbox cur, tc_halo = tr_halo cur, tc_tensor = None,
      tc_metadata = [(''screening_status'', MStr (screen_status_str (sd_status d))),
                     (''screening_reason'', MStr (sd_reason d))]\<rparr>"
  from run1 obtain v where acc: "discharge ?ctx facts (ps_sessions st) = Inr v"
    unfolding ebind_eq_Inr by blast
  note run2 = run1 [unfolded acc ebind_simps]
  obtain a ss where v: "v = (a, ss)" by (cases v)
  have old: "\<forall>s\<in>set (ps_sessions st). sess_ok (committed (cur # stack) st) s"
    and nm: "map ss_identity (ps_sessions st) = names" using vin by (simp_all add: vinv_def)
  from discharge_sess [OF acc [unfolded v] old] nm have
    ss: "\<forall>s\<in>set ss. sess_ok (committed (cur # stack) st) s" "map ss_identity ss = names"
      "\<forall>vs. a = Some vs \<longrightarrow> length vs = length ss \<and> (\<forall>v\<in>set vs. tv_tile_id v = tile_id cur)" by simp_all
  show ?thesis
  proof (cases a)
    case None
    with run2 v have "\<not> b" "st' = st\<lparr>ps_sessions := ss\<rparr>" by auto
    with ss show ?thesis by (simp add: vinv_def committed_def outstanding_def)
  next
    case (Some vs)
    with run2 v have b: "b" and com: "commit_screened env cur (eo_fill exact) (discharged_meta pname d dep)
        (st\<lparr>ps_sessions := map2 session_add ss vs\<rparr>) = Inr st'"
      by (auto simp: ebind_eq_Inr)
    from ss(3) Some have vs: "\<forall>v\<in>set vs. tv_tile_id v = tile_id cur" "length vs = length ss" by simp_all
    from map2_add_sess [OF ss(1) vs] ss(2) have
      m: "\<forall>s\<in>set (map2 session_add ss vs). sess_ok (insert (tile_id cur) (committed (cur # stack) st)) s"
        "map ss_identity (map2 session_add ss vs) = names" by simp_all
    from com obtain own where own: "set_terminal (ps_own st) (tile_id cur) ''EXACT_OUTPUT_SKIP'' = Inr own"
      and st': "ps_own st' = own" "ps_sessions st' = map2 session_add ss vs" "ps_batch st' = ps_batch st"
      unfolding commit_screened_def ebind_eq_Inr by fastforce
    have "ledger (ps_own st) (outstanding (cur # stack) st) ops bases" using inv by (simp add: pinv_def)
    from set_terminal_effect(3) [OF own ledgerD(1) [OF this]] have "final own = final (ps_own st)" .
    then have "committed stack st' \<subseteq> insert (tile_id cur) (committed (cur # stack) st)"
      by (auto simp: committed_def outstanding_def st')
    with b m st'(2) show ?thesis by (auto simp: vinv_def intro: sess_ok_mono)
  qed
qed

lemma process_sess:
  assumes inv: "pinv env h s0 bases (cur # stack) ops st" and vin: "vinv names (cur # stack) st"
    and run: "process_tile env left cur st = Inr (st', pushed, left')" and nb: "\<not> batching env"
  shows "vinv names (rev pushed @ stack) st'"
proof (cases "pe_screen env")
  case None
  with run have "active_tile env left cur None [] st = Inr (st', pushed, left')"
    by (simp add: process_tile_def)
  from active_sess [OF inv vin this nb] show ?thesis .
next
  case (Some ps)
  define st1 where "st1 = st\<lparr>ps_acc := record_screen_query (ps_acc st)\<rparr>"
  have inv1: "pinv env h s0 bases (cur # stack) ops st1" using inv by (simp add: st1_def)
  have vin1: "vinv names (cur # stack) st1"
    using vin by (simp add: vinv_def committed_def outstanding_def st1_def)
  obtain pname screen where ps: "ps = (pname, screen)" by (cases ps)
  from run obtain d where rest: "(if sd_status d = ScreenedOut then
              ebind (screened_tile env pname d cur st1) (\<lambda>(settled, md, st1).
                if settled then Inr (st1, [], left)
                else active_tile env left cur (Some d) md st1)
            else active_tile env left cur (Some d) [] st1) = Inr (st', pushed, left')"
    by (auto simp: process_tile_def Some ps ebind_eq_Inr simp flip: st1_def)
  show ?thesis
  proof (cases "sd_status d = ScreenedOut")
    case False
    with rest have "active_tile env left cur (Some d) [] st1 = Inr (st', pushed, left')" by simp
    from active_sess [OF inv1 vin1 this nb] show ?thesis .
  next
    case True
    with rest obtain b md st2 where two: "screened_tile env pname d cur st1 = Inr (b, md, st2)"
      and rest2: "(if b then Inr (st2, [], left) else active_tile env left cur (Some d) md st2) =
         Inr (st', pushed, left')"
      by (auto simp: ebind_eq_Inr)
    note v2 = screened_sess [OF inv1 vin1 two]
    show ?thesis
    proof (cases b)
      case True
      with rest2 v2 show ?thesis by auto
    next
      case False
      with pinv_screened [OF inv1 _ two] Some have "pinv env h s0 bases (cur # stack) ops st2" by simp
      from active_sess [OF this _ _ nb] False v2 rest2 show ?thesis by simp
    qed
  qed
qed

lemma loop_sess:
  assumes "tile_loop env left stack st = Inr st'" "pinv env h s0 bases stack ops st" "vinv names stack st"
    "\<not> batching env"
  shows "vinv names [] st'"
  using assms
proof (induction env left stack st arbitrary: ops rule: tile_loop.induct)
  case (1 env left st)
  then show ?case by (simp add: tile_loop.simps)
next
  case (2 env left cur pending st)
  from 2(2) obtain st1 pushed left1 where
    one: "process_tile env left cur st = Inr (st1, pushed, left1)"
    and rest: "tile_loop env left1 (rev pushed @ pending) st1 = Inr st'"
    by (auto simp: tile_loop.simps split: sum.splits prod.splits)
  from pinv_process [OF 2(3) one] obtain ops1 where "pinv env h s0 bases (rev pushed @ pending) ops1 st1" by blast
  from 2(1) [OF one refl refl rest this process_sess [OF 2(3,4) one 2(5)] 2(5)] show ?case .
qed

lemma bases_sess:
  assumes "foldE (run_base env) st rs = Inr st'" "pinv env h s0 bases [] ops st" "vinv names [] st"
    and "\<forall>r\<in>set rs. req_good (pe_shape env) h r \<and> \<not> split_id (tile_id r)" "0 \<le> pe_max_requeues env"
    and "\<not> batching env"
  shows "vinv names [] st'"
  using assms
proof (induction rs arbitrary: st bases ops)
  case (Cons r rs)
  from Cons.prems(1) obtain st1 where one: "run_base env st r = Inr st1"
    and rest: "foldE (run_base env) st1 rs = Inr st'"
    by (auto simp: ebind_eq_Inr)
  have good: "req_good (pe_shape env) h r" "\<not> split_id (tile_id r)" using Cons.prems(4) by simp_all
  from one obtain own where root: "add_root (ps_own st) (tile_id r) (core_bbox r) = Inr own"
    and loop: "tile_loop env (pe_max_requeues env) [r] (st\<lparr>ps_own := own\<rparr>) = Inr st1"
    by (auto simp: run_base_def ebind_eq_Inr)
  have led: "ledger (ps_own st) (outstanding [] st) ops bases" using Cons.prems(2) by (simp add: pinv_def)
  have ok: "bbox_ok (core_bbox r)" using good(1) by (simp add: req_good_def request_ok_def)
  have fin: "final own = final (ps_own st) @ [tile_id r]"
    using add_root_effect(3) [OF root ledgerD(1) [OF led] ok] .
  have inv1: "pinv env h s0 (bases @ [core_bbox r]) [r] ops (st\<lparr>ps_own := own\<rparr>)"
    using ledger_root [OF led root ok] Cons.prems(2) good fin by (simp add: pinv_def outstanding_def)
  have "committed [r] (st\<lparr>ps_own := own\<rparr>) \<subseteq> committed [] st"
    by (auto simp: committed_def outstanding_def fin)
  then have vin1: "vinv names [r] (st\<lparr>ps_own := own\<rparr>)"
    using Cons.prems(3) by (auto simp: vinv_def intro: sess_ok_mono)
  from pinv_base [OF Cons.prems(2) one good Cons.prems(5)] obtain ops1 where
    "pinv env h s0 (bases @ [core_bbox r]) [] ops1 st1" by blast
  from Cons.IH [OF rest this loop_sess [OF loop inv1 vin1 Cons.prems(6)] _ Cons.prems(5,6)] Cons.prems(4)
  show ?case by simp
qed simp

subsection \<open>What PASS means\<close>

lemma finalize_pass:
  assumes "gr_status (session_finalize s) = VPass"
  shows "\<forall>r\<in>set (session_results s). tv_status r = VPass"
proof -
  have "base_status (latest_results (ss_reducer s)) = VPass"
    using assms by (auto simp: session_finalize_def reducer_finalize_def Let_def split: prod.splits if_splits)
  then show ?thesis by (simp add: base_status_cases session_results_def)
qed

lemma collect_results_distinct:
  assumes "distinct (map ss_identity ss)"
  shows "collect_results ss = map (\<lambda>s. (ss_identity s, session_finalize s)) ss"
  using assms
proof (induction ss rule: rev_induct)
  case (snoc s ss)
  have upd: "AList.update k v al = al @ [(k, v)]" if "k \<notin> fst ` set al" for k :: verifier_identity and v :: global_result and al
    using that by (induction al) auto
  from snoc show ?case
    by (simp add: collect_results_def) (rule upd, auto)
qed (simp add: collect_results_def)

lemma verdict_pass:
  assumes "distinct (map ss_identity ss)"
    and "run_verdict ss = Some (SingleVerdict g) \<and> gr_status g = VPass \<or>
         run_verdict ss = Some (MultiVerdict m) \<and> ms_status m = VPass"
  shows "\<forall>s\<in>set ss. gr_status (session_finalize s) = VPass"
proof (cases "length ss = 1")
  case True
  then obtain s where ss: "ss = [s]" by (cases ss) auto
  with assms show ?thesis by (auto simp: run_verdict_def collect_results_def)
next
  case False
  with assms(2) have m: "ms_status (fold_global (collect_results ss)) = VPass"
    by (auto simp: run_verdict_def split: if_splits)
  have ne: "gr_status (snd ir) \<noteq> VFail \<and> gr_status (snd ir) \<noteq> VInconclusive" if "ir \<in> set (collect_results ss)" for ir
    using m that by (cases ir)
      (force simp: fold_global_def Let_def filter_empty_conv split: if_splits)
  have "gr_status (session_finalize s) \<noteq> VFail \<and> gr_status (session_finalize s) \<noteq> VInconclusive" if "s \<in> set ss" for s
    using ne [of "(ss_identity s, session_finalize s)"] that by (simp add: collect_results_distinct [OF assms(1)])
  then show ?thesis by (metis verdict.exhaust)
qed


lemma dummy_honest: "plugin_honest (dummy_plugin s)"
  by (auto simp: plugin_honest_def dummy_plugin_def dummy_verify_tile_def tile_result_default_def Let_def)

lemma run_verdict_shape:
  "(case r of Inl _ \<Rightarrow> False
    | Inr (rep, s) \<Rightarrow> (case rp_verification rep of Some (SingleVerdict g) \<Rightarrow> P g | _ \<Rightarrow> False)) \<longleftrightarrow>
   (\<exists>rep s g. r = Inr (rep, s) \<and> rp_verification rep = Some (SingleVerdict g) \<and> P g)"
proof (cases r)
  case (Inr x)
  obtain rep s where x: "x = (rep, s)" by (cases x)
  show ?thesis
  proof (cases "rp_verification rep")
    case (Some v)
    then show ?thesis using Inr x by (cases v) auto
  qed (simp add: Inr x)
qed simp


end
