(* ===== verification/VectorRuns.thy ===== *)
theory VectorRuns
  imports Geometry Tensor TileSources CoreHalo "HOL-Library.AList" "HOL-Library.List_Lexorder" "HOL-Library.Char_ord"
begin

text \<open>
  Model of \<open>streaming/vector_runs.py\<close>: exact rational scanlines of integer polygons with holes,
  the binary union of spans that keeps the exact set of contributors, the flattening of a cell
  hierarchy with an explicit stack, the band index with its row cache, and the window reads and
  owned run slices built on them.  The hash of a run is \<open>sha\<close>, a parameter; the hash of a layout is
  a field.  The KLayout adapter at the end of the source file is a parser and is left out.
\<close>

subsection \<open>Polygons and cells\<close>

type_synonym point = "int \<times> int"

record polygon =
  pg_id :: string
  pg_outer :: "point list"
  pg_holes :: "point list list"

definition polygon_ok :: "polygon \<Rightarrow> bool" where
  "polygon_ok p \<longleftrightarrow> 3 \<le> length (pg_outer p) \<and> list_all (\<lambda>h. 3 \<le> length h) (pg_holes p)"

definition mk_polygon :: "string \<Rightarrow> point list \<Rightarrow> point list list \<Rightarrow> polygon res" where
  "mk_polygon i outer holes =
     (if length outer < 3 then Inl (ValueError ''outer polygon needs at least 3 vertices'')
      else if list_ex (\<lambda>h. length h < 3) holes
      then Inl (ValueError ''polygon hole needs at least 3 vertices'')
      else Inr \<lparr>pg_id = i, pg_outer = outer, pg_holes = holes\<rparr>)"

definition shift_loop :: "int \<Rightarrow> int \<Rightarrow> point list \<Rightarrow> point list" where
  "shift_loop dx dy lp = map (\<lambda>(x, y). (x + dx, y + dy)) lp"

definition translated :: "polygon \<Rightarrow> int \<Rightarrow> int \<Rightarrow> string \<Rightarrow> polygon res" where
  "translated p dx dy i =
     mk_polygon i (shift_loop dx dy (pg_outer p)) (map (shift_loop dx dy) (pg_holes p))"

definition min_of :: "int list \<Rightarrow> int" where
  "min_of xs = foldl min (hd xs) (tl xs)"

definition max_of :: "int list \<Rightarrow> int" where
  "max_of xs = foldl max (hd xs) (tl xs)"

definition pg_bbox :: "polygon \<Rightarrow> int \<times> int \<times> int \<times> int" where
  "pg_bbox p =
     (let xs = map fst (pg_outer p); ys = map snd (pg_outer p) in
      (min_of xs, min_of ys, max_of xs, max_of ys))"

definition rectangle ::
    "string \<Rightarrow> int \<Rightarrow> int \<Rightarrow> int \<Rightarrow> int \<Rightarrow> (int \<times> int \<times> int \<times> int) list \<Rightarrow> polygon res" where
  "rectangle i x0 y0 x1 y1 holes =
     mk_polygon i [(x0, y0), (x1, y0), (x1, y1), (x0, y1)]
       (map (\<lambda>(a, b, c, d). [(a, b), (c, b), (c, d), (a, d)]) holes)"

record cell_instance =
  ci_id :: string
  ci_cell :: string
  ci_dx :: int
  ci_dy :: int

record vector_cell =
  cl_polygons :: "polygon list"
  cl_instances :: "cell_instance list"

subsection \<open>Scanlines\<close>

definition ceil_fraction :: "rat \<Rightarrow> int" where
  "ceil_fraction x = (let (n, d) = quotient_of x in - ((- n) div d))"

definition loop_edges :: "point list \<Rightarrow> (point \<times> point) list" where
  "loop_edges lp = zip lp (tl lp @ take 1 lp)"

definition edge_crossing :: "int \<Rightarrow> point \<times> point \<Rightarrow> rat option" where
  "edge_crossing y e =
     (case e of ((x1, y1), (x2, y2)) \<Rightarrow>
        let sy = of_int (2 * y + 1) / 2 in
        if y1 = y2 then None
        else if \<not> (of_int (min y1 y2) \<le> sy \<and> sy < of_int (max y1 y2)) then None
        else Some (of_int x1 + (sy - of_int y1) * (of_int (x2 - x1) / of_int (y2 - y1))))"

definition loop_scanline_intersections :: "point list \<Rightarrow> int \<Rightarrow> rat list res" where
  "loop_scanline_intersections lp y =
     (let xs = sort (List.map_filter (edge_crossing y) (loop_edges lp)) in
      if length xs mod 2 \<noteq> 0
      then Inl (ValueError ''non-simple polygon or inconsistent scanline intersections'')
      else Inr xs)"

text \<open>\<open>zip(xs[0::2], xs[1::2])\<close>.\<close>

fun pairs :: "'a list \<Rightarrow> ('a \<times> 'a) list" where
  "pairs (a # b # xs) = (a, b) # pairs xs"
| "pairs _ = []"

definition center_span :: "rat \<times> rat \<Rightarrow> (int \<times> int) option" where
  "center_span lr =
     (if snd lr \<le> fst lr then None
      else let x0 = ceil_fraction (fst lr - 1 / 2); x1 = ceil_fraction (snd lr - 1 / 2) in
        if x1 > x0 then Some (x0, x1) else None)"

definition loop_row_spans :: "point list \<Rightarrow> int \<Rightarrow> (int \<times> int) list res" where
  "loop_row_spans lp y =
     ebind (loop_scanline_intersections lp y) (\<lambda>xs. Inr (List.map_filter center_span (pairs xs)))"

definition cut_span :: "int \<times> int \<Rightarrow> int \<times> int \<Rightarrow> (int \<times> int) list" where
  "cut_span c s =
     (if snd c \<le> fst s \<or> fst c \<ge> snd s then [s]
      else (if fst s < fst c then [(fst s, min (snd s) (fst c))] else []) @
           (if snd c < snd s then [(max (fst s) (snd c), snd s)] else []))"

definition subtract_spans :: "(int \<times> int) list \<Rightarrow> (int \<times> int) list \<Rightarrow> (int \<times> int) list" where
  "subtract_spans base cuts =
     foldl (\<lambda>out c. filter (\<lambda>s. snd s > fst s) (concat (map (cut_span c) out))) base cuts"

definition polygon_row_spans :: "polygon \<Rightarrow> int \<Rightarrow> (int \<times> int) list res" where
  "polygon_row_spans p y =
     ebind (loop_row_spans (pg_outer p) y) (\<lambda>spans.
       foldE (\<lambda>out hole. ebind (loop_row_spans hole y) (\<lambda>cuts. Inr (subtract_spans out cuts)))
         spans (pg_holes p))"

subsection \<open>Binary union with contributors\<close>

type_synonym span = "int \<times> int \<times> string"
type_synonym owned = "int \<times> int \<times> string list"

definition span_events :: "span list \<Rightarrow> (int \<times> string \<times> int) list" where
  "span_events spans =
     concat (map (\<lambda>(a, b, ow). if b \<le> a then [] else [(a, ow, 1), (b, ow, - 1)]) spans)"

definition count_event :: "(string \<times> int) list \<Rightarrow> string \<times> int \<Rightarrow> (string \<times> int) list" where
  "count_event counts e =
     (let c = (case map_of counts (fst e) of None \<Rightarrow> 0 | Some k \<Rightarrow> k) + snd e in
      if c = 0 then AList.delete (fst e) counts else AList.update (fst e) c counts)"

definition emit :: "owned list \<Rightarrow> int \<Rightarrow> int \<Rightarrow> string list \<Rightarrow> owned list" where
  "emit out pos nxt owners =
     (if out \<noteq> [] \<and> fst (snd (last out)) = pos \<and> snd (snd (last out)) = owners
      then butlast out @ [(fst (last out), nxt, owners)]
      else out @ [(pos, nxt, owners)])"

fun sweep ::
    "(int \<times> string \<times> int) list \<Rightarrow> int list \<Rightarrow> (string \<times> int) list \<Rightarrow> owned list \<Rightarrow> owned list" where
  "sweep evs [] counts out = out"
| "sweep evs (pos # rest) counts out =
     (let counts1 = foldl count_event counts (map snd (filter (\<lambda>e. fst e = pos) evs)) in
      case rest of
        [] \<Rightarrow> out
      | nxt # _ \<Rightarrow>
          if nxt \<le> pos \<or> counts1 = [] then sweep evs rest counts1 out
          else sweep evs rest counts1 (emit out pos nxt (sort (map fst counts1))))"

definition union_with_contributors :: "span list \<Rightarrow> owned list" where
  "union_with_contributors spans =
     (let evs = span_events spans in
      if evs = [] then [] else sweep evs (sort (remdups (map fst evs))) [] [])"

subsection \<open>Which pixels a loop covers\<close>

lemma ceil_fraction_eq: "ceil_fraction x = \<lceil>x\<rceil>"
proof (cases "quotient_of x")
  case (Pair n d)
  have d: "0 < d" using Pair by (rule quotient_of_denom_pos)
  have x: "x = of_int n / of_int d" using Pair by (rule quotient_of_div)
  have "- \<lceil>x\<rceil> = \<lfloor>- x\<rfloor>" by (simp add: ceiling_def)
  also have "- x = of_int (- n) / of_int d" by (simp add: x)
  also have "\<lfloor>of_int (- n) / of_int d :: rat\<rfloor> = - n div d" by (rule floor_divide_of_int_eq)
  finally show ?thesis by (simp add: ceil_fraction_def Pair)
qed

definition covers :: "(int \<times> int) list \<Rightarrow> int \<Rightarrow> bool" where
  "covers spans x \<longleftrightarrow> list_ex (\<lambda>s. fst s \<le> x \<and> x < snd s) spans"

lemma covers_simps [simp]:
  "covers [] x \<longleftrightarrow> False"
  "covers (s # ss) x \<longleftrightarrow> fst s \<le> x \<and> x < snd s \<or> covers ss x"
  "covers (ss @ ts) x \<longleftrightarrow> covers ss x \<or> covers ts x"
  by (auto simp: covers_def)

text \<open>The number of edges of a closed loop that change side of a line is even.\<close>

lemma closed_changes_even:
  "even (length (filter (\<lambda>(a, b). a \<noteq> b) (zip bs (tl bs @ [z])))) \<longleftrightarrow> bs = [] \<or> hd bs = z"
  for bs :: "bool list"
proof (induction bs)
  case (Cons b bs)
  then show ?case by (cases bs) auto
qed simp

lemma edge_crossing_None: "edge_crossing y ((x1, y1), (x2, y2)) = None \<longleftrightarrow> (y1 \<le> y \<longleftrightarrow> y2 \<le> y)"
proof -
  have c: "(of_int k \<le> (of_int (2 * y + 1) / 2 :: rat)) \<longleftrightarrow> k \<le> y"
    "(of_int (2 * y + 1) / 2 :: rat) < of_int k \<longleftrightarrow> y < k" for k
  proof -
    have "(of_int k \<le> (of_int (2 * y + 1) / 2 :: rat)) \<longleftrightarrow> (of_int (2 * k) :: rat) \<le> of_int (2 * y + 1)"
      by (simp add: mult.commute)
    also have "\<dots> \<longleftrightarrow> k \<le> y" unfolding of_int_le_iff by linarith
    finally show "(of_int k \<le> (of_int (2 * y + 1) / 2 :: rat)) \<longleftrightarrow> k \<le> y" .
    then show "(of_int (2 * y + 1) / 2 :: rat) < of_int k \<longleftrightarrow> y < k" by linarith
  qed
  show ?thesis unfolding edge_crossing_def Let_def prod.case c by auto
qed

lemma map_filter_length: "length (List.map_filter f xs) = length (filter (\<lambda>x. f x \<noteq> None) xs)"
  by (simp add: List.map_filter_def)

lemma crossings_even: "even (length (List.map_filter (edge_crossing y) (loop_edges lp)))"
proof (cases lp)
  case (Cons p ps)
  let ?b = "\<lambda>q :: point. snd q \<le> y"
  have "edge_crossing y e \<noteq> None \<longleftrightarrow> ?b (fst e) \<noteq> ?b (snd e)" for e
    using edge_crossing_None [of y "fst (fst e)" "snd (fst e)" "fst (snd e)" "snd (snd e)"] by auto
  then have "filter (\<lambda>e. edge_crossing y e \<noteq> None) (loop_edges lp) =
      filter (\<lambda>e. ?b (fst e) \<noteq> ?b (snd e)) (loop_edges lp)"
    by presburger
  then have "length (List.map_filter (edge_crossing y) (loop_edges lp)) =
      length (filter (\<lambda>(a, b). a \<noteq> b) (map (\<lambda>e. (?b (fst e), ?b (snd e))) (loop_edges lp)))"
    by (simp add: map_filter_length filter_map comp_def case_prod_beta)
  also have "map (\<lambda>e. (?b (fst e), ?b (snd e))) (loop_edges lp) =
      zip (map ?b lp) (tl (map ?b lp) @ [?b p])"
  proof -
    have "map (\<lambda>e. (?b (fst e), ?b (snd e))) (zip us vs) = zip (map ?b us) (map ?b vs)" for us vs
      by (simp add: zip_map_map case_prod_beta)
    then show ?thesis by (simp add: loop_edges_def Cons del: zip_Cons1)
  qed
  finally show ?thesis using closed_changes_even [of "map ?b lp" "?b p"] by (simp add: Cons)
qed (simp add: loop_edges_def List.map_filter_def)

text \<open>The branch that raises is unreachable.\<close>

lemma intersections_total:
  "loop_scanline_intersections lp y = Inr (sort (List.map_filter (edge_crossing y) (loop_edges lp)))"
  using crossings_even [of y lp] by (simp add: loop_scanline_intersections_def Let_def even_iff_mod_2_eq_zero)

lemma center_span_covers:
  "covers (case center_span (l, r) of None \<Rightarrow> [] | Some s \<Rightarrow> [s]) x \<longleftrightarrow>
   l \<le> of_int x + 1 / 2 \<and> of_int x + 1 / 2 < r"
proof -
  have "\<lceil>l - 1 / 2\<rceil> \<le> x \<longleftrightarrow> l \<le> of_int x + 1 / 2" by (simp add: ceiling_le_iff diff_le_eq)
  moreover have "x < \<lceil>r - 1 / 2\<rceil> \<longleftrightarrow> of_int x + 1 / 2 < r" by (simp add: less_ceiling_iff less_diff_eq)
  ultimately show ?thesis by (auto simp: center_span_def ceil_fraction_eq Let_def)
qed

lemma map_filter_Cons:
  "List.map_filter f (x # xs) = (case f x of None \<Rightarrow> [] | Some y \<Rightarrow> [y]) @ List.map_filter f xs"
  by (simp add: List.map_filter_def split: option.split)

lemma pairs_parity:
  assumes "sorted xs" "even (length xs)"
  shows "covers (List.map_filter center_span (pairs xs)) x \<longleftrightarrow>
    odd (length (filter (\<lambda>q. q \<le> of_int x + 1 / 2) xs))"
  using assms
proof (induction xs rule: pairs.induct)
  case (1 a b xs)
  have IH: "covers (List.map_filter center_span (pairs xs)) x \<longleftrightarrow>
      odd (length (filter (\<lambda>q. q \<le> of_int x + 1 / 2) xs))" using 1 by simp
  have ab: "a \<le> b" and tail: "\<forall>q\<in>set xs. b \<le> q" using 1(2) by auto
  have none: "filter (\<lambda>q. q \<le> of_int x + 1 / 2) xs = []" if "of_int x + 1 / 2 < b"
    using tail that by (auto simp: filter_empty_conv)
  show ?case
    unfolding pairs.simps map_filter_Cons covers_simps center_span_covers IH
    using ab none by auto
qed (simp_all add: List.map_filter_def)

definition in_loop :: "point list \<Rightarrow> int \<Rightarrow> int \<Rightarrow> bool" where
  "in_loop lp y x \<longleftrightarrow>
     odd (length (filter (\<lambda>q. q \<le> of_int x + 1 / 2) (List.map_filter (edge_crossing y) (loop_edges lp))))"

lemma filter_sort_length: "length (filter P (sort xs)) = length (filter P xs)"
  for xs :: "'a :: linorder list"
  by (simp add: filter_sort)

lemma loop_row_spans_exact:
  "\<exists>spans. loop_row_spans lp y = Inr spans \<and> (\<forall>x. covers spans x \<longleftrightarrow> in_loop lp y x)"
proof -
  let ?xs = "List.map_filter (edge_crossing y) (loop_edges lp)"
  have "covers (List.map_filter center_span (pairs (sort ?xs))) x \<longleftrightarrow> in_loop lp y x" for x
    unfolding in_loop_def
    by (subst pairs_parity) (simp_all add: crossings_even filter_sort_length)
  then show ?thesis by (simp add: loop_row_spans_def intersections_total)
qed

lemma covers_filter: "covers (filter (\<lambda>s. snd s > fst s) ss) x \<longleftrightarrow> covers ss x"
  by (induction ss) auto

lemma covers_concat: "covers (concat (map f ss)) x \<longleftrightarrow> list_ex (\<lambda>s. covers (f s) x) ss"
  by (induction ss) auto

lemma cut_span_covers:
  "covers (cut_span c s) x \<longleftrightarrow> (fst s \<le> x \<and> x < snd s) \<and> \<not> (fst c \<le> x \<and> x < snd c)"
  by (auto simp: cut_span_def)

lemma subtract_spans_covers: "covers (subtract_spans base cuts) x \<longleftrightarrow> covers base x \<and> \<not> covers cuts x"
proof (induction cuts arbitrary: base)
  case (Cons c cuts)
  have "list_ex (\<lambda>s. covers (cut_span c s) x) base \<longleftrightarrow> covers base x \<and> \<not> (fst c \<le> x \<and> x < snd c)"
    unfolding cut_span_covers by (induction base) auto
  with Cons.IH show ?case by (auto simp: subtract_spans_def covers_filter covers_concat)
qed (simp add: subtract_spans_def)

definition in_polygon :: "polygon \<Rightarrow> int \<Rightarrow> int \<Rightarrow> bool" where
  "in_polygon p y x \<longleftrightarrow> in_loop (pg_outer p) y x \<and> \<not> list_ex (\<lambda>h. in_loop h y x) (pg_holes p)"

lemma polygon_row_spans_exact:
  "\<exists>spans. polygon_row_spans p y = Inr spans \<and> (\<forall>x. covers spans x \<longleftrightarrow> in_polygon p y x)"
proof -
  have holes: "\<exists>spans. foldE (\<lambda>out hole. ebind (loop_row_spans hole y) (\<lambda>cuts. Inr (subtract_spans out cuts)))
      s hs = Inr spans \<and> (\<forall>x. covers spans x \<longleftrightarrow> covers s x \<and> \<not> list_ex (\<lambda>h. in_loop h y x) hs)" for s hs
  proof (induction hs arbitrary: s)
    case (Cons h hs)
    obtain cuts where c: "loop_row_spans h y = Inr cuts" "\<forall>x. covers cuts x \<longleftrightarrow> in_loop h y x"
      using loop_row_spans_exact by blast
    from Cons.IH [of "subtract_spans s cuts"] show ?case
      by (simp add: c subtract_spans_covers)
  qed simp
  obtain s where s: "loop_row_spans (pg_outer p) y = Inr s" "\<forall>x. covers s x \<longleftrightarrow> in_loop (pg_outer p) y x"
    using loop_row_spans_exact by blast
  from holes [of s "pg_holes p"] show ?thesis
    by (simp add: polygon_row_spans_def s in_polygon_def)
qed

text \<open>A row outside the bounding box of the outer loop meets no edge.\<close>

lemma min_max_of:
  assumes "xs \<noteq> []"
  shows "min_of xs \<in> set xs" "max_of xs \<in> set xs" "x \<in> set xs \<Longrightarrow> min_of xs \<le> x \<and> x \<le> max_of xs"
proof -
  have lo: "foldl min a bs \<in> insert a (set bs) \<and> (\<forall>x\<in>insert a (set bs). foldl min a bs \<le> x)" for a :: int and bs
  proof (induction bs arbitrary: a)
    case (Cons b bs)
    from Cons.IH [of "min a b"] show ?case by (auto simp: min_def split: if_splits)
  qed simp
  have hi: "foldl max a bs \<in> insert a (set bs) \<and> (\<forall>x\<in>insert a (set bs). x \<le> foldl max a bs)" for a :: int and bs
  proof (induction bs arbitrary: a)
    case (Cons b bs)
    from Cons.IH [of "max a b"] show ?case by (auto simp: max_def split: if_splits)
  qed simp
  have set: "set xs = insert (hd xs) (set (tl xs))" using assms by (cases xs) simp_all
  show "min_of xs \<in> set xs" "max_of xs \<in> set xs" "x \<in> set xs \<Longrightarrow> min_of xs \<le> x \<and> x \<le> max_of xs"
    using lo [of "hd xs" "tl xs"] hi [of "hd xs" "tl xs"]
    unfolding min_of_def max_of_def set by blast+
qed

lemma loop_edges_mem: "(p, q) \<in> set (loop_edges lp) \<Longrightarrow> p \<in> set lp \<and> q \<in> set lp"
  unfolding loop_edges_def by (cases lp) (auto dest: set_zip_leftD set_zip_rightD simp del: zip_Cons1)

lemma in_polygon_bbox:
  assumes "in_polygon p y x"
  shows "fst (snd (pg_bbox p)) \<le> y \<and> y < snd (snd (snd (pg_bbox p)))"
proof -
  let ?ys = "map snd (pg_outer p)"
  have "List.map_filter (edge_crossing y) (loop_edges (pg_outer p)) \<noteq> []"
    using assms by (auto simp: in_polygon_def in_loop_def)
  then obtain u v where e: "(u, v) \<in> set (loop_edges (pg_outer p))" "edge_crossing y (u, v) \<noteq> None"
    by (auto simp: List.map_filter_def filter_empty_conv)
  have m: "snd u \<in> set ?ys" "snd v \<in> set ?ys" using loop_edges_mem [OF e(1)] by auto
  then have ne: "?ys \<noteq> []" by auto
  have "edge_crossing y (u, v) = None \<longleftrightarrow> (snd u \<le> y \<longleftrightarrow> snd v \<le> y)"
    using edge_crossing_None [of y "fst u" "snd u" "fst v" "snd v"] by simp
  with e(2) have "(snd u \<le> y) \<noteq> (snd v \<le> y)" by simp
  with min_max_of(3) [OF ne m(1)] min_max_of(3) [OF ne m(2)] show ?thesis
    by (auto simp: pg_bbox_def Let_def)
qed

subsection \<open>The union is exact\<close>

definition owners_at :: "span list \<Rightarrow> int \<Rightarrow> string list" where
  "owners_at spans x = sorted_list_of_set {ow. \<exists>a b. (a, b, ow) \<in> set spans \<and> a \<le> x \<and> x < b}"

definition run_at :: "owned list \<Rightarrow> int \<Rightarrow> string list \<Rightarrow> bool" where
  "run_at runs x os \<longleftrightarrow> (\<exists>a b. (a, b, os) \<in> set runs \<and> a \<le> x \<and> x < b)"

text \<open>Runs are nonempty, ordered and disjoint, and runs that touch have different owners.\<close>

definition runs_canonical :: "owned list \<Rightarrow> bool" where
  "runs_canonical runs \<longleftrightarrow> list_all (\<lambda>r. fst r < fst (snd r)) runs \<and>
     sorted_wrt (\<lambda>r s. fst (snd r) < fst s \<or> fst (snd r) = fst s \<and> snd (snd r) \<noteq> snd (snd s)) runs"

definition net :: "(int \<times> string \<times> int) list \<Rightarrow> (int \<Rightarrow> bool) \<Rightarrow> string \<Rightarrow> int" where
  "net evs P ow = (\<Sum>e\<leftarrow>filter (\<lambda>e. P (fst e) \<and> fst (snd e) = ow) evs. snd (snd e))"

definition rep :: "(string \<times> int) list \<Rightarrow> (string \<Rightarrow> int) \<Rightarrow> bool" where
  "rep counts f \<longleftrightarrow> distinct (map fst counts) \<and>
     (\<forall>ow. map_of counts ow = (if f ow = 0 then None else Some (f ow)))"

lemma rep_event: "rep counts f \<Longrightarrow> rep (count_event counts e) (f(fst e := f (fst e) + snd e))"
  by (auto simp: rep_def count_event_def Let_def AList.delete_conv' AList.update_conv'
      AList.distinct_delete AList.distinct_update)

lemma rep_events:
  "rep counts f \<Longrightarrow>
   rep (foldl count_event counts es) (\<lambda>ow. f ow + (\<Sum>e\<leftarrow>filter (\<lambda>e. fst e = ow) es. snd e))"
proof (induction es arbitrary: counts f)
  case (Cons e es)
  have "(\<lambda>ow. (f(fst e := f (fst e) + snd e)) ow + (\<Sum>e\<leftarrow>filter (\<lambda>e. fst e = ow) es. snd e)) =
      (\<lambda>ow. f ow + (\<Sum>e\<leftarrow>filter (\<lambda>e. fst e = ow) (e # es). snd e))"
    by (rule ext) simp
  with Cons.IH [OF rep_event [OF Cons.prems, of e]] show ?case by simp
qed simp

lemma rep_keys: "rep counts f \<Longrightarrow> sort (map fst counts) = sorted_list_of_set {ow. f ow \<noteq> 0}"
proof -
  assume r: "rep counts f"
  have "set (map fst counts) = {ow. f ow \<noteq> 0}"
    using r by (auto simp: rep_def dom_map_of_conv_image_fst [symmetric] dom_def)
  moreover have "sort (map fst counts) = sorted_list_of_set (set (map fst counts))"
    using r by (simp add: rep_def sorted_list_of_set_sort_remdups distinct_remdups_id del: set_map list.set_map)
  ultimately show ?thesis by simp
qed

lemma net_pos: "rep counts (net evs (\<lambda>p. p < pos)) \<Longrightarrow>
  rep (foldl count_event counts (map snd (filter (\<lambda>e. fst e = pos) evs))) (net evs (\<lambda>p. p \<le> pos))"
proof -
  assume r: "rep counts (net evs (\<lambda>p. p < pos))"
  have "net evs (\<lambda>p. p < pos) ow +
      (\<Sum>e\<leftarrow>filter (\<lambda>e. fst e = ow) (map snd (filter (\<lambda>e. fst e = pos) evs)). snd e) =
      net evs (\<lambda>p. p \<le> pos) ow" for ow
    by (induction evs) (auto simp: net_def)
  then have "(\<lambda>ow. net evs (\<lambda>p. p < pos) ow +
      (\<Sum>e\<leftarrow>filter (\<lambda>e. fst e = ow) (map snd (filter (\<lambda>e. fst e = pos) evs)). snd e)) =
      net evs (\<lambda>p. p \<le> pos)" by (intro ext)
  with rep_events [OF r, of "map snd (filter (\<lambda>e. fst e = pos) evs)"] show ?thesis by simp
qed

lemma net_cong: "(\<And>e. e \<in> set evs \<Longrightarrow> P (fst e) = Q (fst e)) \<Longrightarrow> net evs P = net evs Q"
  unfolding net_def by (intro ext arg_cong [of _ _ "\<lambda>xs. sum_list (map (\<lambda>e. snd (snd e)) xs)"] filter_cong) auto

lemma net_spans:
  "net (span_events spans) (\<lambda>p. p \<le> x) ow =
   int (length (filter (\<lambda>s. snd (snd s) = ow \<and> fst s \<le> x \<and> x < fst (snd s)) spans))"
  by (induction spans) (auto simp: span_events_def net_def)

lemma owners_net: "sorted_list_of_set {ow. net (span_events spans) (\<lambda>p. p \<le> x) ow \<noteq> 0} = owners_at spans x"
  unfolding owners_at_def net_spans by (rule arg_cong [of _ _ sorted_list_of_set]) (force simp: filter_empty_conv)

lemma emit_run_at:
  assumes "runs_canonical out" "pos < nxt"
  shows "run_at (emit out pos nxt os) x qs \<longleftrightarrow> run_at out x qs \<or> pos \<le> x \<and> x < nxt \<and> qs = os"
proof (cases "out \<noteq> [] \<and> fst (snd (last out)) = pos \<and> snd (snd (last out)) = os")
  case True
  then obtain a ini where o: "out = ini @ [(a, pos, os)]"
    by (metis append_butlast_last_id prod.collapse)
  then have "a < pos" using assms(1) by (simp add: runs_canonical_def)
  then have "x < pos \<and> a \<le> x \<or> pos \<le> x \<and> x < nxt \<longleftrightarrow> a \<le> x \<and> x < nxt" using assms(2) by linarith
  moreover have "emit out pos nxt os = ini @ [(a, nxt, os)]" by (simp add: o emit_def)
  moreover have "run_at (us @ [(c, d, ps)]) x qs \<longleftrightarrow> run_at us x qs \<or> (c \<le> x \<and> x < d) \<and> qs = ps" for us c d ps
    by (auto simp: run_at_def)
  ultimately show ?thesis unfolding o by auto
next
  case False
  then have "emit out pos nxt os = out @ [(pos, nxt, os)]" unfolding emit_def by presburger
  then show ?thesis by (auto simp: run_at_def)
qed

lemma emit_canonical:
  assumes "runs_canonical out" "list_all (\<lambda>r. fst (snd r) \<le> pos) out" "pos < nxt"
  shows "runs_canonical (emit out pos nxt os) \<and> list_all (\<lambda>r. fst (snd r) \<le> nxt) (emit out pos nxt os)"
proof (cases "out \<noteq> [] \<and> fst (snd (last out)) = pos \<and> snd (snd (last out)) = os")
  case True
  then obtain a ini where o: "out = ini @ [(a, pos, os)]"
    by (metis append_butlast_last_id prod.collapse)
  with assms show ?thesis
    by (auto simp: emit_def runs_canonical_def sorted_wrt_append list_all_iff)
next
  case False
  then have e: "emit out pos nxt os = out @ [(pos, nxt, os)]" unfolding emit_def by presburger
  have "fst (snd r) < pos \<or> fst (snd r) = pos \<and> snd (snd r) \<noteq> os" if r: "r \<in> set out" for r
  proof -
    obtain ini l where o: "out = ini @ [l]" using r by (metis empty_iff empty_set rev_exhaust)
    have le: "fst (snd r) \<le> pos" using assms(2) r by (auto simp: list_all_iff)
    show ?thesis
    proof (cases "r = l")
      case True
      with False le o show ?thesis by auto
    next
      case neq: False
      then have "r \<in> set ini" using r o by auto
      then have "fst (snd r) \<le> fst l" "fst l < fst (snd l)" "fst (snd l) \<le> pos"
        using assms(1,2) o by (auto simp: runs_canonical_def sorted_wrt_append list_all_iff)
      then show ?thesis by linarith
    qed
  qed
  with assms show ?thesis
    unfolding e by (auto simp: runs_canonical_def sorted_wrt_append list_all_iff)
qed

lemma sweep_exact:
  fixes evs :: "(int \<times> string \<times> int) list"
  defines "own x \<equiv> sorted_list_of_set {ow. net evs (\<lambda>p. p \<le> x) ow \<noteq> 0}"
  assumes "sorted_wrt (<) ps" "ps \<noteq> []" "\<forall>e\<in>set evs. fst e \<in> set ps \<or> fst e < hd ps"
    and "rep counts (net evs (\<lambda>p. p < hd ps))" "runs_canonical out"
    and "list_all (\<lambda>r. fst (snd r) \<le> hd ps) out"
    and "\<forall>x os. run_at out x os \<longleftrightarrow> x < hd ps \<and> os = own x \<and> os \<noteq> []"
  shows "runs_canonical (sweep evs ps counts out) \<and>
    (\<forall>x os. run_at (sweep evs ps counts out) x os \<longleftrightarrow> x < last ps \<and> os = own x \<and> os \<noteq> [])"
  using assms(2-)
proof (induction ps arbitrary: counts out)
  case (Cons pos ps)
  show ?case
  proof (cases ps)
    case Nil
    with Cons.prems show ?thesis by simp
  next
    case (Cons nxt rest)
    define c1 where "c1 = foldl count_event counts (map snd (filter (\<lambda>e. fst e = pos) evs))"
    define o1 where "o1 = (if nxt \<le> pos \<or> c1 = [] then out else emit out pos nxt (sort (map fst c1)))"
    have lt: "pos < nxt" using Cons.prems(1) by (simp add: Cons)
    have evs: "e \<in> set evs \<Longrightarrow> fst e \<le> pos \<or> nxt \<le> fst e" for e
      using Cons.prems(1,3) by (fastforce simp: Cons)
    have r1: "rep c1 (net evs (\<lambda>p. p \<le> pos))"
      unfolding c1_def using Cons.prems(4) by (intro net_pos) simp
    have keys: "sort (map fst c1) = own pos" unfolding own_def by (rule rep_keys [OF r1])
    have flat: "own x = own pos" if "pos \<le> x" "x < nxt" for x
    proof -
      have "net evs (\<lambda>p. p \<le> x) = net evs (\<lambda>p. p \<le> pos)"
        using evs that by (intro net_cong) fastforce
      then show ?thesis by (simp add: own_def)
    qed
    have empty: "c1 = [] \<longleftrightarrow> own pos = []"
      using keys by (metis list.map_disc_iff set_empty set_sort)
    have sw: "sweep evs (pos # ps) counts out = sweep evs ps c1 o1"
      by (simp add: Cons c1_def [symmetric] o1_def Let_def)
    have out: "list_all (\<lambda>r. fst (snd r) \<le> pos) out" using Cons.prems(6) by simp
    have at: "run_at o1 x os \<longleftrightarrow> x < nxt \<and> os = own x \<and> os \<noteq> []" for x os
    proof -
      have "run_at o1 x os \<longleftrightarrow> run_at out x os \<or> (pos \<le> x \<and> x < nxt) \<and> os = own pos \<and> os \<noteq> []"
        using emit_run_at [OF Cons.prems(5) lt] lt empty unfolding o1_def keys by auto
      also have "\<dots> \<longleftrightarrow> x < nxt \<and> os = own x \<and> os \<noteq> []"
        using Cons.prems(7) flat lt by (metis leD le_less_linear less_trans list.sel(1))
      finally show ?thesis .
    qed
    have can: "runs_canonical o1 \<and> list_all (\<lambda>r. fst (snd r) \<le> nxt) o1"
    proof (cases "nxt \<le> pos \<or> c1 = []")
      case True
      then show ?thesis using Cons.prems(5) out lt by (auto simp: o1_def list_all_iff intro: order.trans)
    next
      case False
      then show ?thesis using emit_canonical [OF Cons.prems(5) out lt] by (simp add: o1_def)
    qed
    have r2: "net evs (\<lambda>p. p < nxt) = net evs (\<lambda>p. p \<le> pos)"
      using evs lt by (intro net_cong) fastforce
    have "runs_canonical (sweep evs ps c1 o1) \<and>
      (\<forall>x os. run_at (sweep evs ps c1 o1) x os \<longleftrightarrow> x < last ps \<and> os = own x \<and> os \<noteq> [])"
    proof (rule Cons.IH)
      show "sorted_wrt (<) ps" "ps \<noteq> []" using Cons.prems(1) Cons by simp_all
      show "\<forall>e\<in>set evs. fst e \<in> set ps \<or> fst e < hd ps"
        using Cons.prems(3) lt by (auto simp: Cons)
      show "rep c1 (net evs (\<lambda>p. p < hd ps))" using r1 r2 by (simp add: Cons)
    qed (use can at in \<open>simp_all add: Cons\<close>)
    then show ?thesis unfolding sw by (simp add: Cons)
  qed
qed simp

lemma span_events_pos: "(a, b, ow) \<in> set spans \<Longrightarrow> a < b \<Longrightarrow> b \<in> fst ` set (span_events spans) \<and> a \<in> fst ` set (span_events spans)"
  by (force simp: span_events_def)

lemma union_exact:
  "runs_canonical (union_with_contributors spans) \<and>
   (\<forall>x os. run_at (union_with_contributors spans) x os \<longleftrightarrow> os = owners_at spans x \<and> os \<noteq> [])"
proof -
  let ?evs = "span_events spans"
  let ?ps = "sort (remdups (map fst ?evs))"
  show ?thesis
  proof (cases "?evs = []")
    case True
    then have "owners_at spans x = []" for x
      unfolding owners_net [symmetric] by (simp add: net_def)
    then show ?thesis using True by (simp add: union_with_contributors_def runs_canonical_def run_at_def)
  next
    case False
    have srt: "sorted_wrt (<) ?ps" by (simp add: strict_sorted_iff)
    have set: "set ?ps = fst ` set ?evs" by simp
    then have ne: "?ps \<noteq> []" using False by (metis image_is_empty set_empty)
    have hd: "hd ?ps \<le> p" if "p \<in> set ?ps" for p
      using srt that ne by (cases ?ps) (auto simp del: set_sort)
    have "net ?evs (\<lambda>p. p < hd ?ps) ow = 0" for ow
    proof -
      have "filter (\<lambda>e. fst e < hd ?ps \<and> fst (snd e) = ow) ?evs = []"
        using hd set by (fastforce simp: filter_empty_conv)
      then show ?thesis by (simp add: net_def)
    qed
    then have r0: "rep [] (net ?evs (\<lambda>p. p < hd ?ps))" by (simp add: rep_def)
    have o0: "owners_at spans x = []" if "x < hd ?ps" for x
    proof -
      have "\<not> (a \<le> x \<and> x < b)" if "(a, b, ow) \<in> set spans" for a b ow
        using span_events_pos [OF that] hd [of a] \<open>x < hd ?ps\<close> set by fastforce
      then have "{ow. \<exists>a b. (a, b, ow) \<in> set spans \<and> a \<le> x \<and> x < b} = {}" by blast
      then show ?thesis unfolding owners_at_def by (simp only:) simp
    qed
    have o1: "owners_at spans x = []" if "last ?ps \<le> x" for x
    proof -
      have "\<not> (a \<le> x \<and> x < b)" if "(a, b, ow) \<in> set spans" for a b ow
        using span_events_pos [OF that] \<open>last ?ps \<le> x\<close> set
          sorted_le_last [of ?ps b] by (fastforce simp: strict_sorted_iff)
      then have "{ow. \<exists>a b. (a, b, ow) \<in> set spans \<and> a \<le> x \<and> x < b} = {}" by blast
      then show ?thesis unfolding owners_at_def by (simp only:) simp
    qed
    have "runs_canonical (sweep ?evs ?ps [] []) \<and> (\<forall>x os. run_at (sweep ?evs ?ps [] []) x os \<longleftrightarrow>
        x < last ?ps \<and> os = sorted_list_of_set {ow. net ?evs (\<lambda>p. p \<le> x) ow \<noteq> 0} \<and> os \<noteq> [])"
    proof (rule sweep_exact [OF srt ne _ r0])
      show "\<forall>e\<in>set ?evs. fst e \<in> set ?ps \<or> fst e < hd ?ps" by simp
    qed (use o0 in \<open>auto simp: runs_canonical_def run_at_def owners_net\<close>)
    then show ?thesis
      using False o1 unfolding owners_net
      by (simp add: union_with_contributors_def Let_def) (metis linorder_not_le)
  qed
qed

end
