(* ===== verification/VectorSource.thy ===== *)
theory VectorSource
  imports VectorRuns Screening
begin

text \<open>
  Model of \<open>ExactVectorRunSource\<close> of \<open>streaming/vector_runs.py\<close>: the flattening of the cell
  hierarchy with its explicit stack, the band index over polygon boxes and the row cache, the
  canonical owned runs of a row, and the window views built on them.  The object identity that
  \<open>query_bbox\<close> deduplicates by is the position in the flattened layout.  A run's hash is the
  parameter \<open>sha\<close>.  Lookups return the source they leave behind, with its caches.
\<close>

subsection \<open>Flattening\<close>

type_synonym cells = "(string \<times> vector_cell) list"
type_synonym placement = "string \<times> int \<times> int \<times> string list \<times> string list"

fun slash_join :: "string list \<Rightarrow> string" where
  "slash_join [] = ''''"
| "slash_join [s] = s"
| "slash_join (s # ss) = s @ ''/'' @ slash_join ss"

definition placed_polygons :: "vector_cell \<Rightarrow> placement \<Rightarrow> polygon list res" where
  "placed_polygons cell e =
     (case e of (name, dx, dy, path, anc) \<Rightarrow>
        mapE (\<lambda>p. translated p dx dy (slash_join (path @ [pg_id p]))) (cl_polygons cell))"

definition placed_child :: "placement \<Rightarrow> cell_instance \<Rightarrow> placement" where
  "placed_child e i =
     (case e of (name, dx, dy, path, anc) \<Rightarrow>
        (ci_cell i, dx + ci_dx i, dy + ci_dy i, path @ [ci_id i], anc @ [name]))"

definition check_instance :: "cells \<Rightarrow> cell_instance \<Rightarrow> unit res" where
  "check_instance cells i =
     guard (map_of cells (ci_cell i) = None) (ValueError (''unknown child cell '' @ ci_cell i))"

definition fanout :: "cells \<Rightarrow> nat" where
  "fanout cells = foldr (\<lambda>c m. max (length (cl_instances (snd c))) m) cells 0"

lemma fanout_bound: "map_of cells name = Some c \<Longrightarrow> length (cl_instances c) \<le> fanout cells"
  by (induction cells) (auto simp: fanout_def split: if_splits)

definition weight :: "cells \<Rightarrow> placement \<Rightarrow> nat" where
  "weight cells e = Suc (fanout cells) ^ card (set (map fst cells) - set (snd (snd (snd (snd e)))))"

lemma child_weight:
  assumes "map_of cells name = Some c" "name \<notin> set anc"
  shows "(\<Sum>i\<leftarrow>cl_instances c. weight cells (placed_child (name, dx, dy, path, anc) i)) <
    weight cells (name, dx, dy, path, anc)"
proof -
  let ?D = "set (map fst cells) - set anc"
  have "name \<in> set (map fst cells)" using assms(1) by (force dest: map_of_SomeD)
  then have in_D: "name \<in> ?D" using assms(2) by simp
  have "set (map fst cells) - set (anc @ [name]) = ?D - {name}" by auto
  then have w: "weight cells (placed_child (name, dx, dy, path, anc) i) = Suc (fanout cells) ^ (card ?D - 1)" for i
    using in_D by (simp add: weight_def placed_child_def card_Diff_singleton)
  have "(\<Sum>i\<leftarrow>cl_instances c. weight cells (placed_child (name, dx, dy, path, anc) i)) =
      length (cl_instances c) * Suc (fanout cells) ^ (card ?D - 1)"
    by (simp add: w sum_list_triv)
  also have "\<dots> < Suc (fanout cells) * Suc (fanout cells) ^ (card ?D - 1)"
    using fanout_bound [OF assms(1)] by (intro mult_strict_right_mono) simp_all
  also have "\<dots> = Suc (fanout cells) ^ card ?D"
    using in_D by (metis List.finite_set card_gt_0_iff empty_iff finite_Diff power_eq_if neq0_conv)
  finally show ?thesis by (simp add: weight_def)
qed

text \<open>The stack has its top first, so the children, pushed in reverse, lie on it in order.\<close>

function flatten_loop :: "cells \<Rightarrow> placement list \<Rightarrow> polygon list res" where
  "flatten_loop cells [] = Inr []"
| "flatten_loop cells ((name, dx, dy, path, anc) # stack) =
     (if name \<in> set anc then Inl (ValueError ''cyclic cell hierarchy'')
      else case map_of cells name of
        None \<Rightarrow> Inl (KeyError name)
      | Some cell \<Rightarrow>
          ebind (placed_polygons cell (name, dx, dy, path, anc)) (\<lambda>ps.
          ebind (mapE (check_instance cells) (rev (cl_instances cell))) (\<lambda>_.
          ebind (flatten_loop cells
              (map (placed_child (name, dx, dy, path, anc)) (cl_instances cell) @ stack)) (\<lambda>rest.
            Inr (ps @ rest)))))"
  by pat_completeness auto

termination flatten_loop
  by (relation "measure (\<lambda>(cells, stack). \<Sum>e\<leftarrow>stack. weight cells e)")
    (use child_weight in \<open>auto simp: comp_def\<close>)

declare flatten_loop.simps(2) [simp del]

definition flatten :: "cells \<Rightarrow> string \<Rightarrow> polygon list res" where
  "flatten cells top_cell = flatten_loop cells [(top_cell, 0, 0, [top_cell], [])]"

subsection \<open>What flattening returns\<close>

text \<open>One step down the hierarchy, and what a placement needs to be expanded.\<close>

inductive descends :: "cells \<Rightarrow> placement \<Rightarrow> placement \<Rightarrow> bool" for cells where
  descend: "map_of cells (fst e) = Some c \<Longrightarrow> i \<in> set (cl_instances c) \<Longrightarrow> descends cells e (placed_child e i)"

inductive_cases descendsE: "descends cells e e'"

definition expandable :: "cells \<Rightarrow> placement \<Rightarrow> bool" where
  "expandable cells e \<longleftrightarrow> fst e \<notin> set (snd (snd (snd (snd e)))) \<and>
     (case map_of cells (fst e) of None \<Rightarrow> False
      | Some c \<Rightarrow> list_all polygon_ok (cl_polygons c) \<and>
          list_all (\<lambda>i. map_of cells (ci_cell i) \<noteq> None) (cl_instances c))"

definition shifted :: "placement \<Rightarrow> polygon \<Rightarrow> polygon" where
  "shifted e p =
     (case e of (name, dx, dy, path, anc) \<Rightarrow>
        \<lparr>pg_id = slash_join (path @ [pg_id p]), pg_outer = shift_loop dx dy (pg_outer p),
         pg_holes = map (shift_loop dx dy) (pg_holes p)\<rparr>)"

definition polygons_at :: "cells \<Rightarrow> placement \<Rightarrow> polygon set" where
  "polygons_at cells e =
     (case map_of cells (fst e) of None \<Rightarrow> {} | Some c \<Rightarrow> shifted e ` set (cl_polygons c))"

lemma translated_eq: "translated p dx dy i = Inr q \<longleftrightarrow> polygon_ok p \<and>
    q = \<lparr>pg_id = i, pg_outer = shift_loop dx dy (pg_outer p), pg_holes = map (shift_loop dx dy) (pg_holes p)\<rparr>"
  by (force simp: translated_def mk_polygon_def shift_loop_def polygon_ok_def list_ex_iff list_all_iff not_less)

lemma placed_polygons_Inr:
  "placed_polygons cell e = Inr ps \<longleftrightarrow> list_all polygon_ok (cl_polygons cell) \<and> ps = map (shifted e) (cl_polygons cell)"
proof -
  obtain name dx dy path anc where e: "e = (name, dx, dy, path, anc)" by (cases e)
  have "mapE (\<lambda>p. translated p dx dy (slash_join (path @ [pg_id p]))) qs = Inr ps \<longleftrightarrow>
      list_all polygon_ok qs \<and> ps = map (shifted e) qs" for qs
  proof (induction qs arbitrary: ps)
    case (Cons q qs)
    show ?case
      by (simp only: mapE.simps ebind_eq_Inr translated_eq Cons.IH) (auto simp: e shifted_def)
  qed auto
  then show ?thesis by (simp add: placed_polygons_def e)
qed

lemma check_instanceren_Inr:
  "mapE (check_instance cells) is = Inr us \<longleftrightarrow>
   list_all (\<lambda>i. map_of cells (ci_cell i) \<noteq> None) is \<and> us = map (\<lambda>_. ()) is"
  by (induction "is" arbitrary: us) (auto simp: ebind_eq_Inr check_instance_def guard_eq_Inr)

lemma flatten_step:
  "flatten_loop cells (e # stack) = Inr out \<longleftrightarrow>
   (\<exists>c rest. expandable cells e \<and> map_of cells (fst e) = Some c \<and>
     flatten_loop cells (map (placed_child e) (cl_instances c) @ stack) = Inr rest \<and>
     out = map (shifted e) (cl_polygons c) @ rest)"
proof -
  obtain name dx dy path anc where e: "e = (name, dx, dy, path, anc)" by (cases e)
  show ?thesis
  proof (cases "name \<in> set anc")
    case True
    then show ?thesis by (simp add: e flatten_loop.simps(2) expandable_def)
  next
    case False
    show ?thesis
    proof (cases "map_of cells name")
      case None
      with False show ?thesis by (simp add: e flatten_loop.simps(2))
    next
      case (Some c)
      have x: "expandable cells e \<longleftrightarrow> list_all polygon_ok (cl_polygons c) \<and>
          list_all (\<lambda>i. map_of cells (ci_cell i) \<noteq> None) (rev (cl_instances c))"
        using False Some by (simp add: expandable_def e)
      have A: "flatten_loop cells (e # stack) =
          ebind (placed_polygons c e) (\<lambda>ps.
          ebind (mapE (check_instance cells) (rev (cl_instances c))) (\<lambda>_.
          ebind (flatten_loop cells (map (placed_child e) (cl_instances c) @ stack)) (\<lambda>rest. Inr (ps @ rest))))"
        using False Some by (simp add: e flatten_loop.simps(2))
      have "map_of cells (fst e) = Some c" using Some by (simp add: e)
      then show ?thesis
        unfolding A ebind_eq_Inr placed_polygons_Inr check_instanceren_Inr x by auto
    qed
  qed
qed

lemma descends_expand:
  assumes "map_of cells (fst e) = Some c"
  shows "(descends cells)\<^sup>*\<^sup>* e e' \<longleftrightarrow>
    e' = e \<or> (\<exists>i\<in>set (cl_instances c). (descends cells)\<^sup>*\<^sup>* (placed_child e i) e')"
proof
  assume "(descends cells)\<^sup>*\<^sup>* e e'"
  then show "e' = e \<or> (\<exists>i\<in>set (cl_instances c). (descends cells)\<^sup>*\<^sup>* (placed_child e i) e')"
  proof (cases rule: converse_rtranclpE)
    case (step k)
    from step(1) assms obtain i where "i \<in> set (cl_instances c)" "k = placed_child e i"
      by (auto elim: descendsE)
    with step(2) show ?thesis by blast
  qed simp
next
  assume "e' = e \<or> (\<exists>i\<in>set (cl_instances c). (descends cells)\<^sup>*\<^sup>* (placed_child e i) e')"
  then show "(descends cells)\<^sup>*\<^sup>* e e'"
    using descend [OF assms] by (meson converse_rtranclp_into_rtranclp rtranclp.rtrancl_refl)
qed

lemma stack_induct [case_names Nil Cons]:
  assumes "P []"
    and "\<And>e stack. (\<And>c. map_of cells (fst e) = Some c \<Longrightarrow> expandable cells e \<Longrightarrow>
      P (map (placed_child e) (cl_instances c) @ stack)) \<Longrightarrow> P (e # stack)"
  shows "P stack"
proof (induction stack rule: measure_induct_rule [of "\<lambda>stack. \<Sum>e\<leftarrow>stack. weight cells e"])
  case (less stack)
  show ?case
  proof (cases stack)
    case (Cons e rest)
    show ?thesis unfolding Cons
    proof (rule assms(2))
      fix c assume c: "map_of cells (fst e) = Some c" "expandable cells e"
      obtain name dx dy path anc where e: "e = (name, dx, dy, path, anc)" by (cases e)
      have "(\<Sum>i\<leftarrow>cl_instances c. weight cells (placed_child e i)) < weight cells e"
        using c unfolding e by (intro child_weight) (simp_all add: expandable_def)
      then show "P (map (placed_child e) (cl_instances c) @ rest)"
        by (intro less) (simp add: Cons comp_def)
    qed
  qed (simp add: assms(1))
qed

definition reachable :: "cells \<Rightarrow> placement list \<Rightarrow> placement set" where
  "reachable cells stack = {e'. \<exists>e\<in>set stack. (descends cells)\<^sup>*\<^sup>* e e'}"

lemma reachable_Cons: "reachable cells (e # stack) = {e'. (descends cells)\<^sup>*\<^sup>* e e'} \<union> reachable cells stack"
  by (auto simp: reachable_def simp del: split_paired_All split_paired_Ex)

lemma reachable_step:
  assumes "map_of cells (fst e) = Some c"
  shows "reachable cells (e # stack) =
    insert e (reachable cells (map (placed_child e) (cl_instances c) @ stack))"
  unfolding reachable_Cons descends_expand [OF assms]
  by (auto simp: reachable_def simp del: split_paired_All split_paired_Ex)

lemma flatten_loop_returns:
  "(\<exists>out. flatten_loop cells stack = Inr out) \<longleftrightarrow> (\<forall>e\<in>reachable cells stack. expandable cells e)"
proof (induction stack rule: stack_induct [where cells = cells])
  case (Cons e stack)
  show ?case
  proof (cases "expandable cells e")
    case True
    then obtain c where c: "map_of cells (fst e) = Some c"
      by (auto simp: expandable_def split: option.splits)
    from Cons.IH [OF c True] True c show ?thesis
      unfolding reachable_step [OF c] flatten_step by simp
  next
    case False
    have "e \<in> reachable cells (e # stack)" by (simp add: reachable_Cons)
    with False show ?thesis unfolding flatten_step by blast
  qed
qed (simp add: reachable_def)

lemma flatten_loop_set:
  "flatten_loop cells stack = Inr out \<Longrightarrow> set out = (\<Union>e\<in>reachable cells stack. polygons_at cells e)"
proof (induction stack arbitrary: out rule: stack_induct [where cells = cells])
  case (Cons e stack)
  from Cons.prems obtain c rest where c: "map_of cells (fst e) = Some c" "expandable cells e"
    and rest: "flatten_loop cells (map (placed_child e) (cl_instances c) @ stack) = Inr rest"
    and out: "out = map (shifted e) (cl_polygons c) @ rest"
    by (auto simp: flatten_step)
  from Cons.IH [OF c rest] show ?case
    unfolding reachable_step [OF c(1)] out by (simp add: polygons_at_def c)
qed (simp add: reachable_def)

lemma mapE_error: "mapE f xs = Inl e \<Longrightarrow> (\<And>x e. f x = Inl e \<Longrightarrow> P e) \<Longrightarrow> P e"
  by (induction xs) (auto simp: ebind_eq_Inl)

lemma flatten_loop_error:
  assumes "flatten_loop cells stack = Inl er" "list_all (\<lambda>e. map_of cells (fst e) \<noteq> None) stack"
  shows "\<exists>m. er = ValueError m"
  using assms
proof (induction cells stack rule: flatten_loop.induct)
  case (2 cells name dx dy path anc stack)
  let ?e = "(name, dx, dy, path, anc)"
  show ?case
  proof (cases "name \<in> set anc")
    case True
    with "2.prems" show ?thesis by (auto simp: flatten_loop.simps(2))
  next
    case False
    from "2.prems"(2) obtain c where c: "map_of cells name = Some c" by auto
    have poly: "\<exists>m. er = ValueError m" if "placed_polygons c ?e = Inl er" for er
      using that unfolding placed_polygons_def prod.case
      by (rule mapE_error) (auto simp: translated_def mk_polygon_def split: if_splits)
    have kid: "\<exists>m. er = ValueError m" if "mapE (check_instance cells) is = Inl er" for er "is"
      using that by (rule mapE_error) (auto simp: check_instance_def guard_eq_Inl)
    from "2.prems"(1) False c consider "placed_polygons c ?e = Inl er"
      | "mapE (check_instance cells) (rev (cl_instances c)) = Inl er"
      | ps us where "placed_polygons c ?e = Inr ps" "mapE (check_instance cells) (rev (cl_instances c)) = Inr us"
        "flatten_loop cells (map (placed_child ?e) (cl_instances c) @ stack) = Inl er"
      by (auto simp: flatten_loop.simps(2) ebind_eq_Inl)
    then show ?thesis
    proof cases
      case 3
      have "list_all (\<lambda>e. map_of cells (fst e) \<noteq> None) (map (placed_child ?e) (cl_instances c) @ stack)"
        using 3(2) "2.prems"(2) by (auto simp: check_instanceren_Inr list_all_iff placed_child_def)
      from "2.IH" [OF False c 3(3) this] show ?thesis .
    qed (use poly kid in blast)+
  qed
qed simp

subsection \<open>The band index\<close>

type_synonym entry = "nat \<times> polygon"

record owned_run =
  or_id :: string
  or_y :: int
  or_x0 :: int
  or_x1 :: int
  or_owners :: "string list"

record run_slice =
  sl_parent :: owned_run
  sl_x0 :: int
  sl_x1 :: int
  sl_tile :: string
  sl_role :: string
  sl_shift :: "int \<times> int"
  sl_charge :: rat

record vsource =
  vs_shape :: "int \<times> int"
  vs_hash :: string
  vs_flat :: "entry list"
  vs_bands :: "int \<Rightarrow> entry list"
  vs_rows :: "int \<Rightarrow> polygon list option"
  vs_last :: "(bbox \<times> run_slice list) option"

definition band_height :: int where
  "band_height = 256"

definition bands_of :: "int \<Rightarrow> int \<Rightarrow> int list" where
  "bands_of y0 y1 = pyrange (y0 div band_height) ((y1 - 1) div band_height + 1) 1"

definition box_y0 :: "polygon \<Rightarrow> int" where
  "box_y0 p = fst (snd (pg_bbox p))"

definition box_y1 :: "polygon \<Rightarrow> int" where
  "box_y1 p = snd (snd (snd (pg_bbox p)))"

definition band_add :: "entry \<Rightarrow> (int \<Rightarrow> entry list) \<Rightarrow> int \<Rightarrow> (int \<Rightarrow> entry list)" where
  "band_add e m k = m(k := m k @ [e])"

definition index_polygon :: "(int \<Rightarrow> entry list) \<Rightarrow> entry \<Rightarrow> (int \<Rightarrow> entry list)" where
  "index_polygon m e =
     (if box_y1 (snd e) \<le> box_y0 (snd e) then m
      else foldl (band_add e) m (bands_of (box_y0 (snd e)) (box_y1 (snd e))))"

definition index_source :: "int \<times> int \<Rightarrow> polygon list \<Rightarrow> string \<Rightarrow> vsource" where
  "index_source shape ps hash =
     (let flat = enumerate 0 ps in
      \<lparr>vs_shape = shape, vs_hash = hash, vs_flat = flat,
       vs_bands = foldl index_polygon (\<lambda>_. []) flat, vs_rows = (\<lambda>_. None), vs_last = None\<rparr>)"

definition new_vector_source ::
    "int \<times> int \<Rightarrow> cells \<Rightarrow> string \<Rightarrow> string \<Rightarrow> vsource res" where
  "new_vector_source shape cells top_cell hash =
     ebind (guard (map_of cells top_cell = None) (ValueError (''unknown top cell '' @ top_cell))) (\<lambda>_.
     ebind (guard (min (fst shape) (snd shape) \<le> 0) (ValueError ''invalid layout shape'')) (\<lambda>_.
     ebind (flatten cells top_cell) (\<lambda>ps. Inr (index_source shape ps hash))))"

definition row_hit :: "int \<Rightarrow> polygon \<Rightarrow> bool" where
  "row_hit y p \<longleftrightarrow> box_y0 p \<le> y \<and> y < box_y1 p"

definition candidates_for_row :: "vsource \<Rightarrow> int \<Rightarrow> polygon list \<times> vsource" where
  "candidates_for_row s y =
     (case vs_rows s y of
        Some ps \<Rightarrow> (ps, s)
      | None \<Rightarrow>
          let ps = map snd (filter (\<lambda>e. row_hit y (snd e)) (vs_bands s (y div band_height))) in
          (ps, s\<lparr>vs_rows := (vs_rows s)(y := Some ps)\<rparr>))"

definition polygons_for_row_reference :: "vsource \<Rightarrow> int \<Rightarrow> polygon list \<times> vsource" where
  "polygons_for_row_reference s y =
     (case vs_rows s y of
        Some ps \<Rightarrow> (ps, s)
      | None \<Rightarrow>
          let ps = map snd (filter (\<lambda>e. row_hit y (snd e)) (vs_flat s)) in
          (ps, s\<lparr>vs_rows := (vs_rows s)(y := Some ps)\<rparr>))"

definition window_hit :: "int \<Rightarrow> int \<Rightarrow> int \<Rightarrow> int \<Rightarrow> polygon \<Rightarrow> bool" where
  "window_hit x0 y0 x1 y1 p =
     (case pg_bbox p of (a0, b0, a1, b1) \<Rightarrow> a0 < x1 \<and> a1 > x0 \<and> b0 < y1 \<and> b1 > y0)"

definition query_step ::
    "int \<Rightarrow> int \<Rightarrow> int \<Rightarrow> int \<Rightarrow> nat list \<times> entry list \<Rightarrow> entry \<Rightarrow> nat list \<times> entry list" where
  "query_step x0 y0 x1 y1 st e =
     (if fst e \<in> set (fst st) then st
      else (fst e # fst st, if window_hit x0 y0 x1 y1 (snd e) then snd st @ [e] else snd st))"

definition query_bbox :: "vsource \<Rightarrow> int \<Rightarrow> int \<Rightarrow> int \<Rightarrow> int \<Rightarrow> entry list" where
  "query_bbox s x0 y0 x1 y1 =
     (if x1 \<le> x0 \<or> y1 \<le> y0 then []
      else snd (foldl (\<lambda>st k. foldl (query_step x0 y0 x1 y1) st (vs_bands s k)) ([], []) (bands_of y0 y1)))"

subsection \<open>Owned runs and windows\<close>

definition mk_slice ::
    "owned_run \<Rightarrow> int \<Rightarrow> int \<Rightarrow> string \<Rightarrow> string \<Rightarrow> int \<times> int \<Rightarrow> rat \<Rightarrow> run_slice res" where
  "mk_slice parent x0 x1 tile role shift charge =
     (if \<not> (or_x0 parent \<le> x0 \<and> x0 < x1 \<and> x1 \<le> or_x1 parent)
      then Inl (ValueError ''slice escapes canonical parent run'')
      else if charge < 0 then Inl (ValueError ''negative error budget charge'')
      else Inr \<lparr>sl_parent = parent, sl_x0 = x0, sl_x1 = x1, sl_tile = tile, sl_role = role,
                sl_shift = shift, sl_charge = charge\<rparr>)"

definition row_spans :: "int \<Rightarrow> int \<Rightarrow> polygon list \<Rightarrow> span list res" where
  "row_spans w y ps =
     ebind (mapE (\<lambda>p. ebind (polygon_row_spans p y) (\<lambda>ss.
         Inr (filter (\<lambda>s. fst (snd s) > fst s)
           (map (\<lambda>s. (max 0 (fst s), min w (snd s), pg_id p)) ss)))) ps) (\<lambda>sss. Inr (concat sss))"

definition bar_join :: "string list \<Rightarrow> string" where
  "bar_join ss = concat (map (\<lambda>s. ''|'' @ s) ss)"

definition mk_owned_run :: "(string \<Rightarrow> string) \<Rightarrow> string \<Rightarrow> int \<Rightarrow> owned \<Rightarrow> owned_run" where
  "mk_owned_run sha hash y r =
     (case r of (x0, x1, owners) \<Rightarrow>
        \<lparr>or_id = take 24 (sha (hash @ bar_join ([str_of_int y, str_of_int x0, str_of_int x1] @ owners))),
         or_y = y, or_x0 = x0, or_x1 = x1, or_owners = owners\<rparr>)"

definition global_owned_row ::
    "(string \<Rightarrow> string) \<Rightarrow> vsource \<Rightarrow> int \<Rightarrow> (owned_run list \<times> vsource) res" where
  "global_owned_row sha s y =
     (if \<not> (0 \<le> y \<and> y < fst (vs_shape s)) then Inr ([], s)
      else case candidates_for_row s y of (ps, s1) \<Rightarrow>
        ebind (row_spans (snd (vs_shape s)) y ps) (\<lambda>spans.
          Inr (map (mk_owned_run sha (vs_hash s) y) (union_with_contributors spans), s1)))"

definition clip_run :: "bbox \<Rightarrow> string \<Rightarrow> string \<Rightarrow> owned_run \<Rightarrow> run_slice list res" where
  "clip_run b tile role r =
     (let x0 = max (or_x0 r) (bx0 b); x1 = min (or_x1 r) (bx1 b) in
      if x1 > x0 then ebind (mk_slice r x0 x1 tile role (0, 0) 0) (\<lambda>s. Inr [s]) else Inr [])"

definition owned_runs_for_bbox ::
    "(string \<Rightarrow> string) \<Rightarrow> vsource \<Rightarrow> bbox \<Rightarrow> string \<Rightarrow> string \<Rightarrow> (run_slice list \<times> vsource) res" where
  "owned_runs_for_bbox sha s b tile role =
     (if bx0 b < 0 \<or> by0 b < 0 \<or> bx1 b > snd (vs_shape s) \<or> by1 b > fst (vs_shape s)
      then Inl (ValueError ''bbox escapes finite layout'')
      else foldE (\<lambda>(out, s1) y.
             ebind (global_owned_row sha s1 y) (\<lambda>(runs, s2).
             ebind (mapE (clip_run b tile role) runs) (\<lambda>slices. Inr (out @ concat slices, s2))))
           ([], s) (pyrange (by0 b) (by1 b) 1))"

definition runs_for_bbox ::
    "(string \<Rightarrow> string) \<Rightarrow> vsource \<Rightarrow> int \<times> int \<times> int \<times> int \<Rightarrow> ((int \<times> int \<times> int) list \<times> vsource) res" where
  "runs_for_bbox sha s q =
     (case q of (x0, y0, x1, y1) \<Rightarrow>
        ebind (mk_bbox x0 y0 x1 y1) (\<lambda>b.
        ebind (owned_runs_for_bbox sha s b ''tile'' ''INTERFACE'') (\<lambda>(rs, s1).
          Inr (map (\<lambda>r. (or_y (sl_parent r), sl_x0 r, sl_x1 r)) rs, s1))))"

definition paint_slice :: "bbox \<Rightarrow> tensor \<Rightarrow> run_slice \<Rightarrow> tensor" where
  "paint_slice b w r =
     (let y = or_y (sl_parent r) - by0 b in t_fill w y (y + 1) (sl_x0 r - bx0 b) (sl_x1 r - bx0 b) 1)"

definition vs_read_window ::
    "(string \<Rightarrow> string) \<Rightarrow> vsource \<Rightarrow> bbox \<Rightarrow> (tensor \<times> vsource) res" where
  "vs_read_window sha s b =
     ebind (owned_runs_for_bbox sha s b ''tile'' ''INTERFACE'') (\<lambda>(owned, s1).
       Inr (foldl (paint_slice b) (t_full (height b) (width b) 0) owned,
            s1\<lparr>vs_last := Some (b, owned)\<rparr>))"

definition rebind_slice :: "string \<Rightarrow> bbox \<Rightarrow> run_slice \<Rightarrow> run_slice res" where
  "rebind_slice tile core r =
     mk_slice (sl_parent r) (sl_x0 r) (sl_x1 r) tile
       (if by0 core \<le> or_y (sl_parent r) \<and> or_y (sl_parent r) < by1 core \<and>
           sl_x0 r \<ge> bx0 core \<and> sl_x1 r \<le> bx1 core then ''CORE'' else ''INTERFACE'')
       (sl_shift r) (sl_charge r)"

definition verification_metadata ::
    "(string \<Rightarrow> string) \<Rightarrow> vsource \<Rightarrow> bbox \<Rightarrow> string \<Rightarrow> bbox \<Rightarrow> (run_slice list \<times> vsource) res" where
  "verification_metadata sha s b tile core =
     ebind (case vs_last s of
         Some (lb, owned) \<Rightarrow>
           if lb = b then Inr (owned, s) else owned_runs_for_bbox sha s b tile ''INTERFACE''
       | None \<Rightarrow> owned_runs_for_bbox sha s b tile ''INTERFACE'') (\<lambda>(owned, s1).
     ebind (mapE (rebind_slice tile core) owned) (\<lambda>rs. Inr (rs, s1)))"

subsection \<open>The index is a scan\<close>

lemma band_fold:
  "distinct ks \<Longrightarrow> foldl (band_add e) m ks k = m k @ (if k \<in> set ks then [e] else [])"
  by (induction ks arbitrary: m) (auto simp: band_add_def)

definition in_band :: "int \<Rightarrow> polygon \<Rightarrow> bool" where
  "in_band k p \<longleftrightarrow> box_y0 p < box_y1 p \<and> box_y0 p div band_height \<le> k \<and> k \<le> (box_y1 p - 1) div band_height"

lemma index_fold: "foldl index_polygon m es k = m k @ filter (\<lambda>e. in_band k (snd e)) es"
proof (induction es arbitrary: m)
  case (Cons e es)
  have "index_polygon m e k = m k @ (if in_band k (snd e) then [e] else [])"
    unfolding index_polygon_def in_band_def bands_of_def
    by (auto simp: band_fold pyrange_distinct pyrange_mem)
  with Cons show ?case by simp
qed simp

lemma row_hit_band: "row_hit y p \<Longrightarrow> in_band (y div band_height) p"
  unfolding row_hit_def in_band_def by (auto simp: band_height_def intro: zdiv_mono1)

lemma map_snd_filter_enumerate: "map snd (filter (\<lambda>e. P (snd e)) (enumerate n xs)) = filter P xs"
  by (induction xs arbitrary: n) auto

text \<open>The state of a source of the polygons \<open>ps\<close>, whatever was looked up before.\<close>

definition source_ok :: "polygon list \<Rightarrow> vsource \<Rightarrow> bool" where
  "source_ok ps s \<longleftrightarrow> vs_flat s = enumerate 0 ps \<and>
     vs_bands s = foldl index_polygon (\<lambda>_. []) (enumerate 0 ps) \<and>
     (\<forall>y. vs_rows s y = None \<or> vs_rows s y = Some (filter (row_hit y) ps))"

lemma index_source_ok: "source_ok ps (index_source shape ps hash)"
  by (simp add: source_ok_def index_source_def Let_def)

lemma candidates_exact:
  assumes "source_ok ps s"
  shows "\<exists>s'. candidates_for_row s y = (filter (row_hit y) ps, s') \<and> source_ok ps s' \<and>
    vs_shape s' = vs_shape s \<and> vs_hash s' = vs_hash s \<and> vs_last s' = vs_last s"
proof -
  have "filter (\<lambda>e. row_hit y (snd e)) (vs_bands s (y div band_height)) =
      filter (\<lambda>e. row_hit y (snd e)) (enumerate 0 ps)"
    using assms row_hit_band
    by (auto simp: source_ok_def index_fold filter_filter intro!: filter_cong)
  then have "map snd (filter (\<lambda>e. row_hit y (snd e)) (vs_bands s (y div band_height))) = filter (row_hit y) ps"
    by (simp only: map_snd_filter_enumerate)
  then show ?thesis
    using assms by (cases "vs_rows s y") (auto simp: candidates_for_row_def source_ok_def Let_def dest: spec [of _ y])
qed

lemma reference_exact:
  assumes "source_ok ps s"
  shows "\<exists>s'. polygons_for_row_reference s y = (filter (row_hit y) ps, s') \<and> source_ok ps s'"
  using assms
  by (cases "vs_rows s y")
    (auto simp: polygons_for_row_reference_def source_ok_def Let_def map_snd_filter_enumerate dest: spec [of _ y])

lemma query_steps:
  fixes es :: "entry list"
  assumes "inj_on fst (set es)" "set (map fst (snd st)) \<subseteq> set (fst st)" "distinct (map fst (snd st))"
  shows "set (snd (foldl (query_step x0 y0 x1 y1) st es)) = set (snd st) \<union>
      {e \<in> set es. fst e \<notin> set (fst st) \<and> window_hit x0 y0 x1 y1 (snd e)} \<and>
    distinct (map fst (snd (foldl (query_step x0 y0 x1 y1) st es)))"
  using assms
proof (induction es arbitrary: st)
  case (Cons e es)
  let ?st = "query_step x0 y0 x1 y1 st e"
  have inj: "inj_on fst (set es)" and same: "\<And>d. d \<in> set es \<Longrightarrow> fst d = fst e \<Longrightarrow> d = e"
    using Cons.prems(1) by (auto simp: inj_on_def)
  have "set (map fst (snd ?st)) \<subseteq> set (fst ?st)" "distinct (map fst (snd ?st))"
    using Cons.prems(2,3) by (auto simp: query_step_def)
  from Cons.IH [OF inj this] show ?case
    using same by (simp add: query_step_def) blast
qed simp

lemma query_bbox_exact:
  assumes "source_ok ps s"
  shows "set (query_bbox s x0 y0 x1 y1) = {e \<in> set (enumerate 0 ps).
      x0 < x1 \<and> y0 < y1 \<and> box_y0 (snd e) < box_y1 (snd e) \<and> window_hit x0 y0 x1 y1 (snd e)} \<and>
    distinct (map fst (query_bbox s x0 y0 x1 y1))"
proof (cases "x0 < x1 \<and> y0 < y1")
  case True
  let ?es = "concat (map (vs_bands s) (bands_of y0 y1))"
  have bands: "vs_bands s k = filter (\<lambda>e. in_band k (snd e)) (enumerate 0 ps)" for k
    using assms by (simp add: source_ok_def index_fold)
  have "inj_on fst (set ?es)"
    by (rule inj_on_subset [of _ "set (enumerate 0 ps)"]) (auto simp: bands in_set_enumerate_eq inj_on_def)
  note q = query_steps [OF this, of "([], [])" x0 y0 x1 y1]
  have "query_bbox s x0 y0 x1 y1 = snd (foldl (query_step x0 y0 x1 y1) ([], []) ?es)"
    using True by (simp add: query_bbox_def foldl_foldl)
  moreover have "\<exists>k\<in>set (bands_of y0 y1). in_band k p" if "box_y0 p < box_y1 p" "window_hit x0 y0 x1 y1 p" for p
  proof
    let ?y = "max y0 (box_y0 p)"
    have y: "y0 \<le> ?y" "?y < y1" "box_y0 p \<le> ?y" "?y < box_y1 p"
      using that True by (auto simp: window_hit_def box_y0_def box_y1_def split: prod.splits)
    show "?y div band_height \<in> set (bands_of y0 y1)"
      unfolding bands_of_def pyrange_mem [OF zero_less_one] using y
      by (auto simp: band_height_def intro!: zdiv_mono1 zle_add1_eq_le [THEN iffD2])
    show "in_band (?y div band_height) p" using y by (intro row_hit_band) (simp add: row_hit_def)
  qed
  then have "{e \<in> set ?es. window_hit x0 y0 x1 y1 (snd e)} = {e \<in> set (enumerate 0 ps).
      box_y0 (snd e) < box_y1 (snd e) \<and> window_hit x0 y0 x1 y1 (snd e)}"
    by (auto simp: bands in_band_def)
  ultimately show ?thesis using q True by simp
qed (auto simp: query_bbox_def)

subsection \<open>Windows of the canonical rows\<close>

lemma row_spans_exact:
  "\<exists>spans. row_spans w y ps = Inr spans \<and>
    (\<forall>x ow. (\<exists>a b. (a, b, ow) \<in> set spans \<and> a \<le> x \<and> x < b) \<longleftrightarrow>
      0 \<le> x \<and> x < w \<and> (\<exists>p\<in>set ps. pg_id p = ow \<and> in_polygon p y x))"
proof (induction ps)
  case Nil
  show ?case by (simp add: row_spans_def)
next
  case (Cons p ps)
  then obtain spans where spans: "row_spans w y ps = Inr spans" and
    at: "\<And>x ow. (\<exists>a b. (a, b, ow) \<in> set spans \<and> a \<le> x \<and> x < b) \<longleftrightarrow>
      0 \<le> x \<and> x < w \<and> (\<exists>p\<in>set ps. pg_id p = ow \<and> in_polygon p y x)" by blast
  obtain ss where ss: "polygon_row_spans p y = Inr ss" "\<forall>x. covers ss x \<longleftrightarrow> in_polygon p y x"
    using polygon_row_spans_exact by blast
  let ?new = "filter (\<lambda>s. fst (snd s) > fst s) (map (\<lambda>s. (max 0 (fst s), min w (snd s), pg_id p)) ss)"
  have "(\<exists>a b. (a, b, ow) \<in> set ?new \<and> a \<le> x \<and> x < b) \<longleftrightarrow>
      0 \<le> x \<and> x < w \<and> pg_id p = ow \<and> covers ss x" for x ow
  proof
    assume "\<exists>a b. (a, b, ow) \<in> set ?new \<and> a \<le> x \<and> x < b"
    then show "0 \<le> x \<and> x < w \<and> pg_id p = ow \<and> covers ss x"
      by (force simp: covers_def list_ex_iff)
  next
    assume r: "0 \<le> x \<and> x < w \<and> pg_id p = ow \<and> covers ss x"
    then obtain s where s: "s \<in> set ss" "fst s \<le> x" "x < snd s" by (auto simp: covers_def list_ex_iff)
    then have "(max 0 (fst s), min w (snd s), ow) \<in> set ?new" using r by force
    with r s show "\<exists>a b. (a, b, ow) \<in> set ?new \<and> a \<le> x \<and> x < b"
      by (intro exI [of _ "max 0 (fst s)"] exI [of _ "min w (snd s)"]) simp
  qed
  then have "(\<exists>a b. (a, b, ow) \<in> set (?new @ spans) \<and> a \<le> x \<and> x < b) \<longleftrightarrow>
      0 \<le> x \<and> x < w \<and> (\<exists>q\<in>set (p # ps). pg_id q = ow \<and> in_polygon q y x)" for x ow
    unfolding set_append Un_iff conj_disj_distribR ex_disj_distrib at using ss(2) by auto
  moreover have "row_spans w y (p # ps) = Inr (?new @ spans)"
    using spans by (auto simp: row_spans_def ss ebind_eq_Inr)
  ultimately show ?case by blast
qed

lemma owners_at_eq:
  "(\<And>ow. (\<exists>a b. (a, b, ow) \<in> set spans \<and> a \<le> x \<and> x < b) \<longleftrightarrow> ow \<in> S) \<Longrightarrow> owners_at spans x = sorted_list_of_set S"
  unfolding owners_at_def by (rule arg_cong [of _ _ sorted_list_of_set]) auto

text \<open>The canonical runs of a row, and the owners of a pixel, as functions of the polygons alone.\<close>

definition pixel_owners :: "polygon list \<Rightarrow> int \<Rightarrow> int \<Rightarrow> string list" where
  "pixel_owners ps y x = sort (remdups (map pg_id (filter (\<lambda>p. in_polygon p y x) ps)))"

definition canonical_row ::
    "(string \<Rightarrow> string) \<Rightarrow> string \<Rightarrow> int \<times> int \<Rightarrow> polygon list \<Rightarrow> int \<Rightarrow> owned_run list" where
  "canonical_row sha hash shape ps y =
     (if \<not> (0 \<le> y \<and> y < fst shape) then []
      else case row_spans (snd shape) y (filter (row_hit y) ps) of
        Inl _ \<Rightarrow> []
      | Inr spans \<Rightarrow> map (mk_owned_run sha hash y) (union_with_contributors spans))"

lemma row_hit_pixel: "in_polygon p y x \<Longrightarrow> row_hit y p"
  using in_polygon_bbox [of p y x] by (simp add: row_hit_def box_y0_def box_y1_def)

lemma canonical_row_exact:
  assumes "0 \<le> y" "y < fst shape"
  shows "\<exists>us. canonical_row sha hash shape ps y = map (mk_owned_run sha hash y) us \<and> runs_canonical us \<and>
    (\<forall>x os. run_at us x os \<longleftrightarrow> 0 \<le> x \<and> x < snd shape \<and> os = pixel_owners ps y x \<and> os \<noteq> [])"
proof -
  obtain spans where s: "row_spans (snd shape) y (filter (row_hit y) ps) = Inr spans" and
    at: "\<And>x ow. (\<exists>a b. (a, b, ow) \<in> set spans \<and> a \<le> x \<and> x < b) \<longleftrightarrow>
      0 \<le> x \<and> x < snd shape \<and> (\<exists>p\<in>set (filter (row_hit y) ps). pg_id p = ow \<and> in_polygon p y x)"
    using row_spans_exact [of "snd shape" y "filter (row_hit y) ps"] by blast
  have own: "owners_at spans x = (if 0 \<le> x \<and> x < snd shape then pixel_owners ps y x else [])" for x
  proof -
    have "owners_at spans x = sorted_list_of_set
        (if 0 \<le> x \<and> x < snd shape then pg_id ` {p \<in> set ps. in_polygon p y x} else {})"
      by (rule owners_at_eq) (auto simp: at dest: row_hit_pixel)
    also have "\<dots> = (if 0 \<le> x \<and> x < snd shape then pixel_owners ps y x else [])"
      by (simp add: pixel_owners_def sorted_list_of_set_sort_remdups [symmetric])
    finally show ?thesis .
  qed
  have "canonical_row sha hash shape ps y = map (mk_owned_run sha hash y) (union_with_contributors spans)"
    using assms s by (simp add: canonical_row_def)
  moreover have "run_at (union_with_contributors spans) x os \<longleftrightarrow>
      0 \<le> x \<and> x < snd shape \<and> os = pixel_owners ps y x \<and> os \<noteq> []" for x os
    using union_exact [of spans] own by auto
  ultimately show ?thesis using union_exact [of spans] by blast
qed

lemma global_owned_row_exact:
  assumes "source_ok ps s"
  shows "\<exists>s'. global_owned_row sha s y = Inr (canonical_row sha (vs_hash s) (vs_shape s) ps y, s') \<and>
    source_ok ps s' \<and> vs_shape s' = vs_shape s \<and> vs_hash s' = vs_hash s \<and> vs_last s' = vs_last s"
proof (cases "0 \<le> y \<and> y < fst (vs_shape s)")
  case True
  obtain s' where s': "candidates_for_row s y = (filter (row_hit y) ps, s')" "source_ok ps s'"
    "vs_shape s' = vs_shape s" "vs_hash s' = vs_hash s" "vs_last s' = vs_last s"
    using candidates_exact [OF assms] by blast
  obtain spans where "row_spans (snd (vs_shape s)) y (filter (row_hit y) ps) = Inr spans"
    using row_spans_exact by blast
  with True s' show ?thesis by (simp add: global_owned_row_def canonical_row_def)
qed (use assms in \<open>simp add: global_owned_row_def canonical_row_def\<close>)

definition clipped_slices :: "bbox \<Rightarrow> string \<Rightarrow> string \<Rightarrow> owned_run \<Rightarrow> run_slice list" where
  "clipped_slices b tile role r =
     (let x0 = max (or_x0 r) (bx0 b); x1 = min (or_x1 r) (bx1 b) in
      if x1 > x0 then [\<lparr>sl_parent = r, sl_x0 = x0, sl_x1 = x1, sl_tile = tile, sl_role = role,
                        sl_shift = (0, 0), sl_charge = 0\<rparr>] else [])"

lemma clip_run_total: "clip_run b tile role r = Inr (clipped_slices b tile role r)"
  by (auto simp: clip_run_def clipped_slices_def mk_slice_def Let_def)

definition window_slices ::
    "(string \<Rightarrow> string) \<Rightarrow> string \<Rightarrow> int \<times> int \<Rightarrow> polygon list \<Rightarrow> bbox \<Rightarrow> string \<Rightarrow> string \<Rightarrow> run_slice list" where
  "window_slices sha hash shape ps b tile role =
     concat (map (\<lambda>y. concat (map (clipped_slices b tile role) (canonical_row sha hash shape ps y)))
       (pyrange (by0 b) (by1 b) 1))"

lemma owned_runs_exact:
  assumes "source_ok ps s" "contains (dom_box (vs_shape s)) b"
  shows "\<exists>s'. owned_runs_for_bbox sha s b tile role =
      Inr (window_slices sha (vs_hash s) (vs_shape s) ps b tile role, s') \<and>
    source_ok ps s' \<and> vs_shape s' = vs_shape s \<and> vs_hash s' = vs_hash s \<and> vs_last s' = vs_last s"
proof -
  let ?f = "\<lambda>(out, s1) y. ebind (global_owned_row sha s1 y) (\<lambda>(runs, s2).
    ebind (mapE (clip_run b tile role) runs) (\<lambda>slices. Inr (out @ concat slices, s2)))"
  have "\<exists>s'. foldE ?f (out, t) ys = Inr (out @ concat (map (\<lambda>y. concat (map (clipped_slices b tile role)
        (canonical_row sha (vs_hash s) (vs_shape s) ps y))) ys), s') \<and>
      source_ok ps s' \<and> vs_shape s' = vs_shape s \<and> vs_hash s' = vs_hash s \<and> vs_last s' = vs_last s"
    if "source_ok ps t" "vs_shape t = vs_shape s" "vs_hash t = vs_hash s" "vs_last t = vs_last s" for out t ys
    using that
  proof (induction ys arbitrary: out t)
    case (Cons y ys)
    obtain u where u: "global_owned_row sha t y = Inr (canonical_row sha (vs_hash s) (vs_shape s) ps y, u)"
      "source_ok ps u" "vs_shape u = vs_shape s" "vs_hash u = vs_hash s" "vs_last u = vs_last s"
      using global_owned_row_exact [OF Cons.prems(1), of sha y] Cons.prems by auto
    have m: "mapE (clip_run b tile role) rs = Inr (map (clipped_slices b tile role) rs)" for rs
      by (intro mapE_Inr clip_run_total)
    let ?row = "concat (map (clipped_slices b tile role) (canonical_row sha (vs_hash s) (vs_shape s) ps y))"
    have step: "?f (out, t) y = Inr (out @ ?row, u)" by (simp add: u(1) m)
    from Cons.IH [OF u(2-), of "out @ ?row"] show ?case
      unfolding foldE.simps step ebind_simps by (simp only: list.map concat.simps append_assoc)
  qed simp
  from this [OF assms(1), of "[]"] show ?thesis
    using assms(2) by (simp add: owned_runs_for_bbox_def window_slices_def contains_def dom_box_def)
qed

subsection \<open>The window is the raster of the layout\<close>

definition layout_raster :: "polygon list \<Rightarrow> int \<Rightarrow> int \<Rightarrow> tensor" where
  "layout_raster ps h w = t_build h w (\<lambda>y x. if list_ex (\<lambda>p. in_polygon p y x) ps then 1 else 0)"

definition slice_has :: "int \<Rightarrow> int \<Rightarrow> run_slice \<Rightarrow> bool" where
  "slice_has y x r \<longleftrightarrow> or_y (sl_parent r) = y \<and> sl_x0 r \<le> x \<and> x < sl_x1 r"

definition slice_in :: "bbox \<Rightarrow> run_slice \<Rightarrow> bool" where
  "slice_in b r \<longleftrightarrow> by0 b \<le> or_y (sl_parent r) \<and> or_y (sl_parent r) < by1 b \<and>
     bx0 b \<le> sl_x0 r \<and> sl_x0 r < sl_x1 r \<and> sl_x1 r \<le> bx1 b"

lemma paint_slices:
  assumes "rows w = height b" "cols w = width b" "t_ok w" "list_all (slice_in b) rs" "0 < height b"
  shows "rows (foldl (paint_slice b) w rs) = height b \<and> cols (foldl (paint_slice b) w rs) = width b \<and>
    t_ok (foldl (paint_slice b) w rs) \<and>
    (\<forall>y x. 0 \<le> y \<longrightarrow> y < height b \<longrightarrow> 0 \<le> x \<longrightarrow> x < width b \<longrightarrow>
      t_get (foldl (paint_slice b) w rs) y x =
        (if list_ex (slice_has (y + by0 b) (x + bx0 b)) rs then 1 else t_get w y x))"
  using assms(1-4)
proof (induction rs arbitrary: w)
  case (Cons r rs)
  let ?y = "or_y (sl_parent r) - by0 b"
  have r: "0 \<le> ?y" "?y + 1 \<le> height b" "0 \<le> sl_x0 r - bx0 b" "sl_x1 r - bx0 b \<le> width b"
    "sl_x0 r < sl_x1 r"
    using Cons.prems(4) by (auto simp: slice_in_def height_def width_def)
  have p: "paint_slice b w r = t_build (height b) (width b) (\<lambda>y x.
      if ?y \<le> y \<and> y < ?y + 1 \<and> sl_x0 r - bx0 b \<le> x \<and> x < sl_x1 r - bx0 b then 1 else t_get w y x)"
    using r Cons.prems(1,2) by (simp add: paint_slice_def t_fill_def Let_def)
  have w: "0 \<le> width b" using r by linarith
  have "rows (paint_slice b w r) = height b" "cols (paint_slice b w r) = width b" "t_ok (paint_slice b w r)"
    using assms(5) w by (simp_all add: p)
  from Cons.IH [OF this] Cons.prems(4) have IH: "rows (foldl (paint_slice b) w (r # rs)) = height b \<and>
      cols (foldl (paint_slice b) w (r # rs)) = width b \<and> t_ok (foldl (paint_slice b) w (r # rs))"
    "\<And>y x. 0 \<le> y \<Longrightarrow> y < height b \<Longrightarrow> 0 \<le> x \<Longrightarrow> x < width b \<Longrightarrow>
      t_get (foldl (paint_slice b) w (r # rs)) y x =
        (if list_ex (slice_has (y + by0 b) (x + bx0 b)) rs then 1 else t_get (paint_slice b w r) y x)"
    by simp_all
  have "t_get (paint_slice b w r) y x =
      (if slice_has (y + by0 b) (x + bx0 b) r then 1 else t_get w y x)"
    if "0 \<le> y" "y < height b" "0 \<le> x" "x < width b" for y x
    unfolding p using that by (auto simp: slice_has_def)
  with IH show ?case by simp
qed (simp add: assms(5))

lemma window_slices_in:
  "list_all (slice_in b) (window_slices sha hash shape ps b tile role)"
  by (auto simp: window_slices_def list_all_iff pyrange_mem clipped_slices_def Let_def slice_in_def
      canonical_row_def mk_owned_run_def split: if_splits sum.splits prod.splits)

lemma pixel_owners_nonempty: "pixel_owners ps y x \<noteq> [] \<longleftrightarrow> list_ex (\<lambda>p. in_polygon p y x) ps"
proof -
  have "pixel_owners ps y x \<noteq> [] \<longleftrightarrow> set (pixel_owners ps y x) \<noteq> {}" by simp
  also have "\<dots> \<longleftrightarrow> list_ex (\<lambda>p. in_polygon p y x) ps"
    unfolding pixel_owners_def set_sort set_remdups list_ex_iff by auto
  finally show ?thesis .
qed

lemma window_slices_has:
  assumes "contains (dom_box shape) b" "by0 b \<le> y" "y < by1 b" "bx0 b \<le> x" "x < bx1 b"
  shows "list_ex (slice_has y x) (window_slices sha hash shape ps b tile role) \<longleftrightarrow>
    list_ex (\<lambda>p. in_polygon p y x) ps"
proof -
  have dm: "0 \<le> y" "y < fst shape" "0 \<le> x" "x < snd shape"
    using assms by (auto simp: contains_def dom_box_def)
  obtain us where us: "canonical_row sha hash shape ps y = map (mk_owned_run sha hash y) us"
    and at: "\<forall>x os. run_at us x os \<longleftrightarrow> 0 \<le> x \<and> x < snd shape \<and> os = pixel_owners ps y x \<and> os \<noteq> []"
    using canonical_row_exact [OF dm(1,2)] by blast
  have other: "or_y r = y'" if "r \<in> set (canonical_row sha hash shape ps y')" for r y'
    using that by (auto simp: canonical_row_def mk_owned_run_def split: if_splits sum.splits prod.splits)
  have "list_ex (slice_has y x) (window_slices sha hash shape ps b tile role) \<longleftrightarrow>
      (\<exists>r\<in>set (canonical_row sha hash shape ps y). or_x0 r \<le> x \<and> x < or_x1 r)" (is "?L \<longleftrightarrow> ?R")
  proof
    assume ?L
    then obtain y' r s where r: "r \<in> set (canonical_row sha hash shape ps y')"
      "s \<in> set (clipped_slices b tile role r)" "slice_has y x s"
      by (auto simp: window_slices_def list_ex_iff)
    then have "or_y r = y" "or_x0 r \<le> x" "x < or_x1 r"
      by (auto simp: clipped_slices_def Let_def slice_has_def split: if_splits)
    with other [OF r(1)] r(1) show ?R by auto
  next
    assume ?R
    then obtain r where r: "r \<in> set (canonical_row sha hash shape ps y)" "or_x0 r \<le> x" "x < or_x1 r" by blast
    have "list_ex (slice_has y x) (clipped_slices b tile role r)"
      using r(2,3) other [OF r(1)] assms by (auto simp: clipped_slices_def Let_def slice_has_def)
    with r(1) assms(2,3) show ?L
      by (force simp: window_slices_def list_ex_iff pyrange_mem)
  qed
  also have "\<dots> \<longleftrightarrow> (\<exists>os. run_at us x os)"
    unfolding us by (auto simp: run_at_def mk_owned_run_def split: prod.splits) force
  also have "\<dots> \<longleftrightarrow> pixel_owners ps y x \<noteq> []" using at dm by simp
  also have "\<dots> \<longleftrightarrow> list_ex (\<lambda>p. in_polygon p y x) ps" by (rule pixel_owners_nonempty)
  finally show ?thesis .
qed

lemma vs_read_exact:
  assumes "source_ok ps s" "bbox_ok b" "contains (dom_box (vs_shape s)) b"
  shows "\<exists>s'. vs_read_window sha s b =
      Inr (t_slice (layout_raster ps (fst (vs_shape s)) (snd (vs_shape s))) (by0 b) (by1 b) (bx0 b) (bx1 b), s') \<and>
    source_ok ps s' \<and> vs_shape s' = vs_shape s \<and> vs_hash s' = vs_hash s \<and>
    vs_last s' = Some (b, window_slices sha (vs_hash s) (vs_shape s) ps b ''tile'' ''INTERFACE'')"
proof -
  let ?rs = "window_slices sha (vs_hash s) (vs_shape s) ps b ''tile'' ''INTERFACE''"
  let ?h = "fst (vs_shape s)" and ?w = "snd (vs_shape s)"
  let ?z = "t_full (height b) (width b) (0 :: rat)" and ?d = "layout_raster ps ?h ?w"
  obtain s1 where s1: "owned_runs_for_bbox sha s b ''tile'' ''INTERFACE'' = Inr (?rs, s1)" "source_ok ps s1"
    "vs_shape s1 = vs_shape s" "vs_hash s1 = vs_hash s"
    using owned_runs_exact [OF assms(1,3)] by blast
  have bq: "0 \<le> by0 b" "by0 b < by1 b" "by1 b \<le> ?h" "0 \<le> bx0 b" "bx0 b < bx1 b" "bx1 b \<le> ?w"
    using assms by (auto simp: bbox_ok_def contains_def dom_box_def)
  then have pos: "0 < height b" "0 < width b" by (simp_all add: height_def width_def)
  have d: "t_ok ?d" "rows ?d = ?h" "cols ?d = ?w" using bq by (simp_all add: layout_raster_def)
  have z: "rows ?z = height b" "cols ?z = width b" "t_ok ?z" using pos by (simp_all add: t_full_def)
  note paint = paint_slices [OF z window_slices_in pos(1), of sha "vs_hash s" "vs_shape s" ps "''tile''" "''INTERFACE''"]
  have "foldl (paint_slice b) ?z ?rs = t_slice ?d (by0 b) (by1 b) (bx0 b) (bx1 b)" (is "?p = ?t")
  proof (rule t_ext)
    show "t_ok ?p" using paint by blast
    show "t_ok ?t" using bq d by (intro t_ok_slice) simp_all
    show "rows ?p = rows ?t" "cols ?p = cols ?t"
      using paint bq d by (simp_all add: rows_slice cols_slice height_def width_def)
    fix y x assume yx: "0 \<le> y" "y < rows ?p" "0 \<le> x" "x < cols ?p"
    then have lt: "y < height b" "x < width b" using paint by simp_all
    have "t_get ?t y x = t_get ?d (y + by0 b) (x + bx0 b)"
      using bq d yx lt by (intro t_get_slice) (simp_all add: height_def width_def)
    also have "\<dots> = (if list_ex (\<lambda>p. in_polygon p (y + by0 b) (x + bx0 b)) ps then 1 else 0)"
      unfolding layout_raster_def using bq yx lt by (subst t_get_build) (simp_all add: height_def width_def)
    also have "\<dots> = (if list_ex (slice_has (y + by0 b) (x + bx0 b)) ?rs then 1 else t_get ?z y x)"
      using window_slices_has [OF assms(3), of "y + by0 b" "x + bx0 b"] yx lt
      by (simp add: height_def width_def t_full_def)
    finally show "t_get ?p y x = t_get ?t y x" using paint yx lt by metis
  qed
  with s1 show ?thesis by (simp add: vs_read_window_def source_ok_def)
qed

lemma source_ok_last: "source_ok ps (s\<lparr>vs_last := l\<rparr>) = source_ok ps s"
  by (simp add: source_ok_def)

lemma vs_read_state:
  assumes "source_ok ps s" "vs_read_window sha s b = Inr (w, s')"
  shows "source_ok ps s' \<and> vs_shape s' = vs_shape s \<and> vs_hash s' = vs_hash s \<and>
    vs_last s' = Some (b, window_slices sha (vs_hash s) (vs_shape s) ps b ''tile'' ''INTERFACE'')"
proof -
  from assms(2) have "contains (dom_box (vs_shape s)) b"
    by (auto simp: vs_read_window_def owned_runs_for_bbox_def contains_def dom_box_def split: if_splits)
  from owned_runs_exact [OF assms(1) this, of sha "''tile''" "''INTERFACE''"] obtain t where
    "owned_runs_for_bbox sha s b ''tile'' ''INTERFACE'' =
      Inr (window_slices sha (vs_hash s) (vs_shape s) ps b ''tile'' ''INTERFACE'', t)"
    "source_ok ps t" "vs_shape t = vs_shape s" "vs_hash t = vs_hash s" by blast
  with assms(2) show ?thesis by (auto simp: vs_read_window_def source_ok_last)
qed

text \<open>What a sequence of reads leaves behind.\<close>

definition read_all :: "(string \<Rightarrow> string) \<Rightarrow> vsource \<Rightarrow> bbox list \<Rightarrow> vsource res" where
  "read_all sha s bs = foldE (\<lambda>s b. ebind (vs_read_window sha s b) (\<lambda>r. Inr (snd r))) s bs"

definition last_ok :: "(string \<Rightarrow> string) \<Rightarrow> polygon list \<Rightarrow> vsource \<Rightarrow> bool" where
  "last_ok sha ps s \<longleftrightarrow> (case vs_last s of None \<Rightarrow> True
     | Some (b, rs) \<Rightarrow> rs = window_slices sha (vs_hash s) (vs_shape s) ps b ''tile'' ''INTERFACE'')"

lemma reads_ok:
  assumes "new_vector_source shape cells top_cell hash = Inr s0" "read_all sha s0 bs = Inr s"
  shows "\<exists>ps. flatten cells top_cell = Inr ps \<and> source_ok ps s \<and> last_ok sha ps s \<and>
    vs_shape s = shape \<and> vs_hash s = hash"
proof -
  obtain ps where ps: "flatten cells top_cell = Inr ps" "s0 = index_source shape ps hash"
    using assms(1) by (auto simp: new_vector_source_def ebind_eq_Inr)
  let ?P = "\<lambda>s. source_ok ps s \<and> last_ok sha ps s \<and> vs_shape s = shape \<and> vs_hash s = hash"
  have "?P s"
  proof (rule foldE_invariant [where P = ?P, OF assms(2) [unfolded read_all_def]])
    show "?P s0" by (simp add: ps(2) index_source_ok)
      (simp add: index_source_def last_ok_def Let_def)
    fix t b t' assume "?P t" and "ebind (vs_read_window sha t b) (\<lambda>r. Inr (snd r)) = Inr t'"
    then obtain w where "?P t" "vs_read_window sha t b = Inr (w, t')" by (auto simp: ebind_eq_Inr)
    with vs_read_state [of ps t sha b w t'] show "?P t'" by (auto simp: last_ok_def)
  qed
  with ps(1) show ?thesis by blast
qed

definition exact_window :: "(string \<Rightarrow> string) \<Rightarrow> vsource \<Rightarrow> bbox \<Rightarrow> tensor" where
  "exact_window sha s b = (case vs_read_window sha s b of Inl _ \<Rightarrow> [] | Inr (w, _) \<Rightarrow> w)"

interpretation exact_source: tile_source "(int h, int w)"
    "exact_window sha (index_source (int h, int w) ps hash)" "layout_raster ps (int h) (int w)"
  for h w sha ps hash
proof unfold_locales
  fix b assume b: "bbox_ok b" "contains (dom_box (int h, int w)) b"
  have "vs_shape (index_source (int h, int w) ps hash) = (int h, int w)"
    by (simp add: index_source_def Let_def)
  with vs_read_exact [OF index_source_ok b(1), of "(int h, int w)" ps hash sha] b(2)
  show "exact_window sha (index_source (int h, int w) ps hash) b =
      t_slice (layout_raster ps (int h) (int w)) (by0 b) (by1 b) (bx0 b) (bx1 b)"
    by (auto simp: exact_window_def)
qed (simp_all add: layout_raster_def)

definition same_view :: "string \<Rightarrow> run_slice \<Rightarrow> run_slice \<Rightarrow> bool" where
  "same_view tile r q \<longleftrightarrow> sl_parent q = sl_parent r \<and> sl_x0 q = sl_x0 r \<and> sl_x1 q = sl_x1 r \<and> sl_tile q = tile"

lemma rebind_total:
  "list_all (slice_in b) rs \<Longrightarrow>
   list_all (\<lambda>r. or_x0 (sl_parent r) \<le> sl_x0 r \<and> sl_x1 r \<le> or_x1 (sl_parent r) \<and> 0 \<le> sl_charge r) rs \<Longrightarrow>
   \<exists>qs. mapE (rebind_slice tile core) rs = Inr qs \<and> list_all2 (same_view tile) rs qs"
proof (induction rs)
  case (Cons r rs)
  then obtain qs where qs: "mapE (rebind_slice tile core) rs = Inr qs" "list_all2 (same_view tile) rs qs"
    by auto
  moreover from Cons.prems obtain q where "rebind_slice tile core r = Inr q" "same_view tile r q"
    by (simp add: rebind_slice_def mk_slice_def slice_in_def same_view_def)
  ultimately show ?case by simp
qed simp

lemma same_view_mem: "list_all2 (same_view tile) rs qs \<Longrightarrow> q \<in> set qs \<Longrightarrow> \<exists>r\<in>set rs. same_view tile r q"
  by (induction rs qs rule: list_all2_induct) auto

lemma same_view_has:
  "list_all2 (same_view tile) rs qs \<Longrightarrow> list_ex (slice_has y x) qs = list_ex (slice_has y x) rs"
  by (induction rs qs rule: list_all2_induct) (auto simp: same_view_def slice_has_def)

lemma window_slices_parent:
  assumes "r \<in> set (window_slices sha hash shape ps b tile role)"
  shows "sl_parent r \<in> set (canonical_row sha hash shape ps (or_y (sl_parent r))) \<and>
    or_x0 (sl_parent r) \<le> sl_x0 r \<and> sl_x1 r \<le> or_x1 (sl_parent r) \<and> sl_charge r = 0"
proof -
  obtain y q where q: "q \<in> set (canonical_row sha hash shape ps y)" "r \<in> set (clipped_slices b tile role q)"
    using assms by (auto simp: window_slices_def)
  then have "or_y q = y"
    by (auto simp: canonical_row_def mk_owned_run_def split: if_splits sum.splits prod.splits)
  with q show ?thesis by (auto simp: clipped_slices_def Let_def split: if_splits)
qed

lemma canonical_owners:
  assumes "r \<in> set (canonical_row sha hash shape ps y)" "or_x0 r \<le> x" "x < or_x1 r"
  shows "or_owners r = pixel_owners ps y x"
proof -
  have dm: "0 \<le> y" "y < fst shape" using assms(1) by (auto simp: canonical_row_def split: if_splits)
  obtain us where us: "canonical_row sha hash shape ps y = map (mk_owned_run sha hash y) us"
    and at: "\<forall>x os. run_at us x os \<longleftrightarrow> 0 \<le> x \<and> x < snd shape \<and> os = pixel_owners ps y x \<and> os \<noteq> []"
    using canonical_row_exact [OF dm] by blast
  obtain u where u: "u \<in> set us" "r = mk_owned_run sha hash y u" using assms(1) us by auto
  obtain a c os where [simp]: "u = (a, c, os)" by (cases u)
  have "run_at us x (or_owners r)"
    using assms(2,3) u by (auto simp: run_at_def mk_owned_run_def)
  then show ?thesis using at by blast
qed

subsection \<open>Properties\<close>

text \<open>C33: Flattening a cell hierarchy with an explicit stack always returns.  It returns polygons
  exactly when every placement reachable from the top cell can be expanded (its cell is defined
  and is not among its ancestors, its polygons are well formed, its children are known), and they
  are then the shifted polygons of all reachable placements; a failure of a known top cell is a
  \<open>ValueError\<close>, never a missing key.\<close>

theorem flatten_exact:
  "case flatten cells top_cell of
     Inr out \<Rightarrow> reachable cells [(top_cell, 0, 0, [top_cell], [])] \<subseteq> {e. expandable cells e} \<and>
       set out = (\<Union>e\<in>reachable cells [(top_cell, 0, 0, [top_cell], [])]. polygons_at cells e)
   | Inl er \<Rightarrow> \<not> reachable cells [(top_cell, 0, 0, [top_cell], [])] \<subseteq> {e. expandable cells e} \<and>
       (map_of cells top_cell = None \<or> er \<in> range ValueError)"
proof (cases "flatten cells top_cell")
  case (Inl er)
  then have "\<not> (\<exists>out. flatten_loop cells [(top_cell, 0, 0, [top_cell], [])] = Inr out)"
    by (simp add: flatten_def)
  then have "\<not> reachable cells [(top_cell, 0, 0, [top_cell], [])] \<subseteq> {e. expandable cells e}"
    unfolding flatten_loop_returns by blast
  moreover have "map_of cells top_cell = None \<or> er \<in> range ValueError"
    using Inl flatten_loop_error [of cells "[(top_cell, 0, 0, [top_cell], [])]" er]
    by (cases "map_of cells top_cell") (auto simp: flatten_def)
  ultimately show ?thesis by (simp add: Inl)
next
  case (Inr out)
  then have out: "flatten_loop cells [(top_cell, 0, 0, [top_cell], [])] = Inr out" by (simp add: flatten_def)
  then have "reachable cells [(top_cell, 0, 0, [top_cell], [])] \<subseteq> {e. expandable cells e}"
    using flatten_loop_returns by blast
  with flatten_loop_set [OF out] show ?thesis by (simp add: Inr)
qed

text \<open>C31: Windowed reads of vector geometry are exact.  Whatever was read before (and so whatever the
  row cache and the band index hold), a window inside the layout is the window of one raster: a
  pixel is set exactly when its centre is inside the outer loop of some flattened polygon, by the
  parity of the exact rational crossings, and inside none of its holes.  In particular no scanline
  raises.\<close>

theorem vector_reads_exact:
  assumes "new_vector_source shape cells top_cell hash = Inr s0" "read_all sha s0 bs = Inr s"
    and "bbox_ok b" "contains (dom_box shape) b"
  shows "\<exists>ps s'. flatten cells top_cell = Inr ps \<and>
    vs_read_window sha s b =
      Inr (t_slice (layout_raster ps (fst shape) (snd shape)) (by0 b) (by1 b) (bx0 b) (bx1 b), s')"
proof -
  obtain ps where ps: "flatten cells top_cell = Inr ps" "source_ok ps s" "vs_shape s = shape"
    using reads_ok [OF assms(1,2)] by blast
  from vs_read_exact [OF ps(2) assms(3), of sha] assms(4) ps show ?thesis by auto
qed

theorem vector_reads_exact_witness:
  "let cells = [(''TOP'', \<lparr>cl_polygons = [\<lparr>pg_id = ''p'', pg_outer = [(0, 0), (4, 0), (4, 3), (0, 3)],
         pg_holes = [[(1, 1), (2, 1), (2, 2), (1, 2)]]\<rparr>],
       cl_instances = [\<lparr>ci_id = ''i'', ci_cell = ''C'', ci_dx = 4, ci_dy = 0\<rparr>]\<rparr>),
     (''C'', \<lparr>cl_polygons = [\<lparr>pg_id = ''t'', pg_outer = [(0, 0), (3, 0), (0, 3)], pg_holes = []\<rparr>],
       cl_instances = []\<rparr>)];
     b = \<lparr>bx0 = 1, by0 = 0, bx1 = 6, by1 = 3\<rparr>;
     first = \<lparr>bx0 = 0, by0 = 1, bx1 = 2, by1 = 2\<rparr> in
   \<exists>s0 s ps s'. new_vector_source (3, 7) cells ''TOP'' ''h'' = Inr s0 \<and> read_all id s0 [first] = Inr s \<and>
     flatten cells ''TOP'' = Inr ps \<and>
     vs_read_window id s b = Inr (t_slice (layout_raster ps 3 7) 0 3 1 6, s') \<and>
     t_slice (layout_raster ps 3 7) 0 3 1 6 = [[1, 1, 1, 1, 1], [0, 1, 1, 1, 0], [1, 1, 1, 0, 0]]"
proof -
  let ?cells = "[(''TOP'', \<lparr>cl_polygons = [\<lparr>pg_id = ''p'', pg_outer = [(0, 0), (4, 0), (4, 3), (0, 3)],
         pg_holes = [[(1, 1), (2, 1), (2, 2), (1, 2)]]\<rparr>],
       cl_instances = [\<lparr>ci_id = ''i'', ci_cell = ''C'', ci_dx = 4, ci_dy = 0\<rparr>]\<rparr>),
     (''C'', \<lparr>cl_polygons = [\<lparr>pg_id = ''t'', pg_outer = [(0, 0), (3, 0), (0, 3)], pg_holes = []\<rparr>],
       cl_instances = []\<rparr>)]"
  let ?b = "\<lparr>bx0 = 1, by0 = 0, bx1 = 6, by1 = 3\<rparr>" and ?first = "\<lparr>bx0 = 0, by0 = 1, bx1 = 2, by1 = 2\<rparr>"
  have "case new_vector_source (3, 7) ?cells ''TOP'' ''h'' of Inl _ \<Rightarrow> False
    | Inr s0 \<Rightarrow> (case read_all id s0 [?first] of Inl _ \<Rightarrow> False | Inr _ \<Rightarrow> True)" by code_simp
  then obtain s0 s where s: "new_vector_source (3, 7) ?cells ''TOP'' ''h'' = Inr s0" "read_all id s0 [?first] = Inr s"
    by (auto split: sum.splits)
  have "case flatten ?cells ''TOP'' of Inl _ \<Rightarrow> False
    | Inr ps \<Rightarrow> t_slice (layout_raster ps 3 7) 0 3 1 6 = [[1, 1, 1, 1, 1], [0, 1, 1, 1, 0], [1, 1, 1, 0, 0]]"
    by code_simp
  then obtain ps where ps: "flatten ?cells ''TOP'' = Inr ps"
    "t_slice (layout_raster ps 3 7) 0 3 1 6 = [[1, 1, 1, 1, 1], [0, 1, 1, 1, 0], [1, 1, 1, 0, 0]]"
    by (auto split: sum.splits)
  have b: "bbox_ok ?b" "contains (dom_box (3, 7)) ?b" by (simp_all add: bbox_ok_def contains_def dom_box_def)
  from vector_reads_exact [OF s b] ps s show ?thesis by (auto simp: Let_def)
qed

text \<open>C32: Overlapping windows manufacture no new owners.  The run slices handed to the verifiers of a
  tile cover exactly the set pixels of the read window; each carries the tile's id, stays inside
  the window, and is cut from a run of its row that depends on the layout alone (not on the window,
  the tile or earlier reads), whose contributor list is the sorted set of the polygons over each of
  its pixels.\<close>

theorem owned_slices_canonical:
  assumes "new_vector_source shape cells top_cell hash = Inr s0" "read_all sha s0 bs = Inr s"
    and "bbox_ok b" "contains (dom_box shape) b"
  shows "\<exists>ps rs s'. flatten cells top_cell = Inr ps \<and>
    verification_metadata sha s b tile core = Inr (rs, s') \<and>
    (\<forall>r\<in>set rs. sl_tile r = tile \<and> slice_in b r \<and>
      sl_parent r \<in> set (canonical_row sha hash shape ps (or_y (sl_parent r))) \<and>
      (\<forall>x. sl_x0 r \<le> x \<and> x < sl_x1 r \<longrightarrow>
        or_owners (sl_parent r) = pixel_owners ps (or_y (sl_parent r)) x)) \<and>
    (\<forall>y x. in_box (x, y) b \<longrightarrow> list_ex (slice_has y x) rs = (pixel_owners ps y x \<noteq> []))"
proof -
  obtain ps where ps: "flatten cells top_cell = Inr ps" "source_ok ps s" "last_ok sha ps s"
    "vs_shape s = shape" "vs_hash s = hash"
    using reads_ok [OF assms(1,2)] by blast
  let ?ws = "\<lambda>tl. window_slices sha hash shape ps b tl ''INTERFACE''"
  obtain tl s1 where first: "(case vs_last s of
      Some (lb, owned) \<Rightarrow> if lb = b then Inr (owned, s) else owned_runs_for_bbox sha s b tile ''INTERFACE''
    | None \<Rightarrow> owned_runs_for_bbox sha s b tile ''INTERFACE'') = Inr (?ws tl, s1)"
  proof (cases "\<exists>owned. vs_last s = Some (b, owned)")
    case True
    then have "vs_last s = Some (b, ?ws ''tile'')" using ps(3-) by (auto simp: last_ok_def)
    then show ?thesis by (intro that [of "''tile''" s]) simp
  next
    case False
    obtain t where "owned_runs_for_bbox sha s b tile ''INTERFACE'' = Inr (?ws tile, t)"
      using owned_runs_exact [OF ps(2), of b sha tile "''INTERFACE''"] assms(4) ps(4,5) by blast
    with False show ?thesis by (intro that [of tile t]) (auto split: option.split)
  qed
  have par: "list_all (\<lambda>r. or_x0 (sl_parent r) \<le> sl_x0 r \<and> sl_x1 r \<le> or_x1 (sl_parent r) \<and> 0 \<le> sl_charge r) (?ws tl)"
    unfolding list_all_iff using window_slices_parent [of _ sha hash shape ps b tl "''INTERFACE''"] by simp
  obtain rs where rs: "mapE (rebind_slice tile core) (?ws tl) = Inr rs" "list_all2 (same_view tile) (?ws tl) rs"
    using rebind_total [OF window_slices_in par] by blast
  have "sl_tile r = tile \<and> slice_in b r \<and>
      sl_parent r \<in> set (canonical_row sha hash shape ps (or_y (sl_parent r))) \<and>
      (\<forall>x. sl_x0 r \<le> x \<and> x < sl_x1 r \<longrightarrow> or_owners (sl_parent r) = pixel_owners ps (or_y (sl_parent r)) x)"
    if r: "r \<in> set rs" for r
  proof -
    obtain q where q: "q \<in> set (?ws tl)" and view: "same_view tile q r"
      using same_view_mem [OF rs(2) r] by blast
    have "slice_in b q" using window_slices_in q by (auto simp: list_all_iff)
    then show ?thesis
      using window_slices_parent [OF q] view
        canonical_owners [of "sl_parent q" sha hash shape ps "or_y (sl_parent q)"]
      by (simp add: slice_in_def same_view_def)
  qed
  moreover have "list_ex (slice_has y x) rs = (pixel_owners ps y x \<noteq> [])" if "in_box (x, y) b" for y x
    using window_slices_has [OF assms(4), of y x] that
    unfolding same_view_has [OF rs(2)] pixel_owners_nonempty by (simp add: in_box_def)
  moreover have "verification_metadata sha s b tile core = Inr (rs, s1)"
    unfolding verification_metadata_def first using rs(1) by simp
  ultimately show ?thesis using ps(1) by blast
qed

theorem owned_slices_canonical_witness:
  "let cells = [(''TOP'', \<lparr>cl_polygons = [\<lparr>pg_id = ''a'', pg_outer = [(0, 0), (3, 0), (3, 2), (0, 2)], pg_holes = []\<rparr>,
         \<lparr>pg_id = ''b'', pg_outer = [(2, 0), (5, 0), (5, 1), (2, 1)], pg_holes = []\<rparr>], cl_instances = []\<rparr>)];
     b = \<lparr>bx0 = 1, by0 = 0, bx1 = 4, by1 = 2\<rparr> in
   \<exists>s0 ps rs s'. new_vector_source (2, 5) cells ''TOP'' ''h'' = Inr s0 \<and>
     flatten cells ''TOP'' = Inr ps \<and> verification_metadata id s0 b ''t'' b = Inr (rs, s') \<and>
     map (\<lambda>r. (sl_x0 r, sl_x1 r, or_owners (sl_parent r))) rs =
       [(1, 2, [''TOP/a'']), (2, 3, [''TOP/a'', ''TOP/b'']), (3, 4, [''TOP/b'']), (1, 3, [''TOP/a''])] \<and>
     list_ex (slice_has 0 3) rs = (pixel_owners ps 0 3 \<noteq> [])"
proof -
  let ?cells = "[(''TOP'', \<lparr>cl_polygons = [\<lparr>pg_id = ''a'', pg_outer = [(0, 0), (3, 0), (3, 2), (0, 2)], pg_holes = []\<rparr>,
         \<lparr>pg_id = ''b'', pg_outer = [(2, 0), (5, 0), (5, 1), (2, 1)], pg_holes = []\<rparr>], cl_instances = []\<rparr>)]"
  let ?b = "\<lparr>bx0 = 1, by0 = 0, bx1 = 4, by1 = 2\<rparr>"
  have "case new_vector_source (2, 5) ?cells ''TOP'' ''h'' of Inl _ \<Rightarrow> False
    | Inr s0 \<Rightarrow> (case verification_metadata id s0 ?b ''t'' ?b of Inl _ \<Rightarrow> False
      | Inr (rs, _) \<Rightarrow> map (\<lambda>r. (sl_x0 r, sl_x1 r, or_owners (sl_parent r))) rs =
       [(1, 2, [''TOP/a'']), (2, 3, [''TOP/a'', ''TOP/b'']), (3, 4, [''TOP/b'']), (1, 3, [''TOP/a''])])" by code_simp
  then obtain s0 rs s' where s: "new_vector_source (2, 5) ?cells ''TOP'' ''h'' = Inr s0"
    "verification_metadata id s0 ?b ''t'' ?b = Inr (rs, s')"
    "map (\<lambda>r. (sl_x0 r, sl_x1 r, or_owners (sl_parent r))) rs =
       [(1, 2, [''TOP/a'']), (2, 3, [''TOP/a'', ''TOP/b'']), (3, 4, [''TOP/b'']), (1, 3, [''TOP/a''])]"
    by (auto split: sum.splits)
  have b: "bbox_ok ?b" "contains (dom_box (2, 5)) ?b" by (simp_all add: bbox_ok_def contains_def dom_box_def)
  have none: "read_all id s0 [] = Inr s0" by (simp add: read_all_def)
  have pix: "in_box (3, 0) ?b" by (simp add: in_box_def)
  from owned_slices_canonical [OF s(1) none b, of "''t''" ?b] s(2)
  obtain ps where ps: "flatten ?cells ''TOP'' = Inr ps"
    "\<forall>y x. in_box (x, y) ?b \<longrightarrow> list_ex (slice_has y x) rs = (pixel_owners ps y x \<noteq> [])"
    by auto
  then have "list_ex (slice_has 0 3) rs = (pixel_owners ps 0 3 \<noteq> [])" using pix by blast
  then show ?thesis
    unfolding Let_def
    by (intro exI [of _ s0] exI [of _ ps] exI [of _ rs] exI [of _ s'] conjI s ps(1))
qed

end
