(* ===== verification/JobStore.thy ===== *)
theory JobStore
  imports Prelude "HOL-Library.AList"
begin

text \<open>
  Model of the job-state machine of \<open>server/schemas.py\<close> and of the two job stores of
  \<open>server/job_store.py\<close>: the in-memory store, an ordered dictionary, and the SQLite store, whose
  rows are the queue.  A store is a value; an operation returns its result and the store it leaves
  behind.  The clock readings of an operation are its argument \<open>ck\<close>.  \<open>'j\<close> is the type of a job
  summary; \<open>json.dumps\<close> and \<open>json.loads\<close> are the fields of a \<open>codec\<close>.  Rows are kept in row-id order,
  which also breaks ties of \<open>ORDER BY created_unix\<close>.
\<close>

subsection \<open>The state machine\<close>

datatype job_status = Queued | Running | Succeeded | Failed | Cancelled

fun job_transitions :: "job_status \<Rightarrow> job_status list" where
  "job_transitions Queued = [Running, Cancelled]"
| "job_transitions Running = [Succeeded, Failed]"
| "job_transitions Succeeded = []"
| "job_transitions Failed = []"
| "job_transitions Cancelled = []"

definition transition_job_status :: "job_status \<Rightarrow> job_status \<Rightarrow> job_status res" where
  "transition_job_status cur new =
     (if new \<notin> set (job_transitions cur) then Inl (RuntimeError ''illegal job transition'') else Inr new)"

fun status_value :: "job_status \<Rightarrow> string" where
  "status_value Queued = ''queued''"
| "status_value Running = ''running''"
| "status_value Succeeded = ''succeeded''"
| "status_value Failed = ''failed''"
| "status_value Cancelled = ''cancelled''"

definition job_status_of :: "string \<Rightarrow> job_status res" where
  "job_status_of v =
     (if v = ''queued'' then Inr Queued else if v = ''running'' then Inr Running
      else if v = ''succeeded'' then Inr Succeeded else if v = ''failed'' then Inr Failed
      else if v = ''cancelled'' then Inr Cancelled
      else Inl (ValueError (v @ '' is not a valid JobStatus'')))"

definition terminal :: "job_status \<Rightarrow> bool" where
  "terminal s \<longleftrightarrow> s \<in> {Succeeded, Failed, Cancelled}"

subsection \<open>Records\<close>

record 'j job_record =
  jr_id :: string
  jr_status :: job_status
  jr_created_utc :: string
  jr_started_utc :: "string option"
  jr_completed_utc :: "string option"
  jr_input_path :: "string option"
  jr_output_path :: "string option"
  jr_input_format :: "string option"
  jr_params_json :: "string option"
  jr_summary :: "'j option"
  jr_error :: "string option"
  jr_sha :: "string option"
  jr_bytes :: "int option"
  jr_last_access :: rat
  jr_created :: rat
  jr_completed :: "rat option"

record clock =
  ck_utc :: string
  ck_unix :: rat

text \<open>The keyword arguments of \<open>transition\<close>.\<close>

record 'j job_update =
  ju_error :: "string option"
  ju_summary :: "'j option"
  ju_output_path :: "string option"
  ju_sha :: "string option"
  ju_bytes :: "int option"

definition override :: "'a option \<Rightarrow> 'a option \<Rightarrow> 'a option" where
  "override new old = (if new \<noteq> None then new else old)"

definition finish_stamp :: "clock \<Rightarrow> job_status \<Rightarrow> 'j job_record \<Rightarrow> 'j job_record" where
  "finish_stamp ck new r =
     (if terminal new then r\<lparr>jr_completed_utc := Some (ck_utc ck), jr_completed := Some (ck_unix ck)\<rparr> else r)"

definition start_stamp :: "clock \<Rightarrow> job_status \<Rightarrow> 'j job_record \<Rightarrow> 'j job_record" where
  "start_stamp ck new r =
     (if new = Running \<and> jr_started_utc r = None then r\<lparr>jr_started_utc := Some (ck_utc ck)\<rparr> else r)"

definition write_update :: "'j job_update \<Rightarrow> 'j job_record \<Rightarrow> 'j job_record" where
  "write_update u r =
     r\<lparr>jr_error := override (ju_error u) (jr_error r),
       jr_summary := override (ju_summary u) (jr_summary r),
       jr_output_path := override (ju_output_path u) (jr_output_path r),
       jr_sha := override (ju_sha u) (jr_sha r),
       jr_bytes := override (ju_bytes u) (jr_bytes r)\<rparr>"

definition moved_record ::
    "clock \<Rightarrow> job_status \<Rightarrow> 'j job_update \<Rightarrow> 'j job_record \<Rightarrow> 'j job_record res" where
  "moved_record ck new u r =
     ebind (transition_job_status (jr_status r) new) (\<lambda>st.
       Inr (write_update u (finish_stamp ck new (start_stamp ck new (r\<lparr>jr_status := st\<rparr>)))))"

definition eviction_reference :: "'j job_record \<Rightarrow> rat" where
  "eviction_reference r =
     max (max (case jr_completed r of None \<Rightarrow> 0 | Some c \<Rightarrow> c) (jr_last_access r)) (jr_created r)"

subsection \<open>The in-memory store\<close>

type_synonym 'j mem_store = "(string \<times> 'j job_record) list"

definition mem_create :: "'j job_record \<Rightarrow> 'j mem_store \<Rightarrow> 'j mem_store res" where
  "mem_create r s = Inr (AList.update (jr_id r) (r\<lparr>jr_status := Queued\<rparr>) s)"

definition mem_get :: "string \<Rightarrow> 'j mem_store \<Rightarrow> 'j job_record option res" where
  "mem_get i s = Inr (map_of s i)"

definition mem_count :: "job_status \<Rightarrow> 'j mem_store \<Rightarrow> nat res" where
  "mem_count st s = Inr (length (filter (\<lambda>(i, r). jr_status r = st) s))"

definition mem_count_tracked :: "'j mem_store \<Rightarrow> nat res" where
  "mem_count_tracked s = Inr (length s)"

definition first_queued :: "'j mem_store \<Rightarrow> 'j job_record option" where
  "first_queued s = map_option snd (find (\<lambda>(i, r). jr_status r = Queued) s)"

definition mem_peek :: "'j mem_store \<Rightarrow> string option res" where
  "mem_peek s = Inr (map_option jr_id (first_queued s))"

definition mem_claim :: "clock \<Rightarrow> 'j mem_store \<Rightarrow> ('j job_record option \<times> 'j mem_store) res" where
  "mem_claim ck s =
     (case first_queued s of
        None \<Rightarrow> Inr (None, s)
      | Some r \<Rightarrow>
          ebind (transition_job_status (jr_status r) Running) (\<lambda>st.
            let r1 = r\<lparr>jr_status := st, jr_started_utc := Some (ck_utc ck)\<rparr> in
            Inr (Some r1, AList.update (jr_id r) r1 s)))"

definition mem_transition ::
    "clock \<Rightarrow> string \<Rightarrow> job_status \<Rightarrow> 'j job_update \<Rightarrow> 'j mem_store \<Rightarrow>
     ('j job_record \<times> 'j mem_store) res" where
  "mem_transition ck i new u s =
     (case map_of s i of
        None \<Rightarrow> Inl (KeyError i)
      | Some r \<Rightarrow> ebind (moved_record ck new u r) (\<lambda>r1. Inr (r1, AList.update i r1 s)))"

definition mem_touch :: "clock \<Rightarrow> string \<Rightarrow> 'j mem_store \<Rightarrow> 'j mem_store res" where
  "mem_touch ck i s =
     (case map_of s i of None \<Rightarrow> Inr s
      | Some r \<Rightarrow> Inr (AList.update i (r\<lparr>jr_last_access := ck_unix ck\<rparr>) s))"

definition mem_delete :: "string \<Rightarrow> 'j mem_store \<Rightarrow> ('j job_record \<times> 'j mem_store) res" where
  "mem_delete i s =
     (case map_of s i of None \<Rightarrow> Inl (KeyError i) | Some r \<Rightarrow> Inr (r, AList.delete i s))"

record retention =
  rt_ttl :: rat
  rt_cap :: int
  rt_skip :: "string list"

definition mem_evict_one ::
    "clock \<Rightarrow> retention \<Rightarrow> 'j job_record list \<times> 'j mem_store \<Rightarrow> string \<Rightarrow>
     'j job_record list \<times> 'j mem_store" where
  "mem_evict_one ck rt st i =
     (case map_of (snd st) i of
        None \<Rightarrow> st
      | Some r \<Rightarrow>
          if \<not> terminal (jr_status r) \<or> i \<in> set (rt_skip rt) then st
          else if int (length (snd st)) > rt_cap rt \<or> ck_unix ck - eviction_reference r > rt_ttl rt
          then (fst st @ [r], AList.delete i (snd st))
          else st)"

definition mem_evict ::
    "clock \<Rightarrow> retention \<Rightarrow> 'j mem_store \<Rightarrow> ('j job_record list \<times> 'j mem_store) res" where
  "mem_evict ck rt s = Inr (foldl (mem_evict_one ck rt) ([], s) (map fst s))"

definition mem_recover ::
    "clock \<Rightarrow> (string \<Rightarrow> bool) \<Rightarrow> 'j mem_store \<Rightarrow> ((string list \<times> string list) \<times> 'j mem_store) res" where
  "mem_recover ck is_file s = Inr (([], []), s)"

definition mem_snapshot_counts :: "'j mem_store \<Rightarrow> (nat \<times> nat \<times> nat) res" where
  "mem_snapshot_counts s =
     Inr (length (filter (\<lambda>(i, r). jr_status r = Queued) s),
          length (filter (\<lambda>(i, r). jr_status r = Running) s), length s)"

subsection \<open>The SQLite store\<close>

record job_row =
  rw_id :: string
  rw_status :: string
  rw_created_utc :: string
  rw_started_utc :: "string option"
  rw_completed_utc :: "string option"
  rw_input_path :: "string option"
  rw_output_path :: "string option"
  rw_input_format :: "string option"
  rw_params_json :: "string option"
  rw_summary_json :: "string option"
  rw_error :: "string option"
  rw_sha :: "string option"
  rw_bytes :: "int option"
  rw_last_access :: rat
  rw_created :: rat
  rw_completed :: "rat option"

record 'j codec =
  dumps :: "'j \<Rightarrow> string"
  loads :: "string \<Rightarrow> 'j option"

record sqlite =
  sq_rows :: "job_row list"
  sq_closed :: bool

definition to_row :: "'j codec \<Rightarrow> 'j job_record \<Rightarrow> job_row" where
  "to_row cd r =
     \<lparr>rw_id = jr_id r, rw_status = status_value (jr_status r), rw_created_utc = jr_created_utc r,
      rw_started_utc = jr_started_utc r, rw_completed_utc = jr_completed_utc r,
      rw_input_path = jr_input_path r, rw_output_path = jr_output_path r,
      rw_input_format = jr_input_format r, rw_params_json = jr_params_json r,
      rw_summary_json = map_option (dumps cd) (jr_summary r), rw_error = jr_error r,
      rw_sha = jr_sha r, rw_bytes = jr_bytes r, rw_last_access = jr_last_access r,
      rw_created = jr_created r, rw_completed = jr_completed r\<rparr>"

definition to_record :: "'j codec \<Rightarrow> job_row \<Rightarrow> 'j job_record res" where
  "to_record cd w =
     (let summary = (case rw_summary_json w of None \<Rightarrow> None | Some t \<Rightarrow> loads cd t) in
      ebind (job_status_of (rw_status w)) (\<lambda>st.
        Inr \<lparr>jr_id = rw_id w, jr_status = st, jr_created_utc = rw_created_utc w,
             jr_started_utc = rw_started_utc w, jr_completed_utc = rw_completed_utc w,
             jr_input_path = rw_input_path w, jr_output_path = rw_output_path w,
             jr_input_format = rw_input_format w, jr_params_json = rw_params_json w,
             jr_summary = summary, jr_error = rw_error w, jr_sha = rw_sha w,
             jr_bytes = rw_bytes w, jr_last_access = rw_last_access w,
             jr_created = rw_created w, jr_completed = rw_completed w\<rparr>))"

definition ensure_open :: "sqlite \<Rightarrow> unit res" where
  "ensure_open s = guard (sq_closed s) (RuntimeError ''job store is closed'')"

text \<open>A statement on a closed connection.\<close>

definition conn_open :: "sqlite \<Rightarrow> unit res" where
  "conn_open s = guard (sq_closed s) (ProgrammingError ''Cannot operate on a closed database.'')"

definition select_id :: "string \<Rightarrow> sqlite \<Rightarrow> job_row option" where
  "select_id i s = find (\<lambda>w. rw_id w = i) (sq_rows s)"

definition select_status :: "job_status \<Rightarrow> sqlite \<Rightarrow> job_row list" where
  "select_status st s = filter (\<lambda>w. rw_status w = status_value st) (sq_rows s)"

definition update_rows :: "(job_row \<Rightarrow> bool) \<Rightarrow> (job_row \<Rightarrow> job_row) \<Rightarrow> sqlite \<Rightarrow> sqlite" where
  "update_rows P f s = s\<lparr>sq_rows := map (\<lambda>w. if P w then f w else w) (sq_rows s)\<rparr>"

definition delete_id :: "string \<Rightarrow> sqlite \<Rightarrow> sqlite" where
  "delete_id i s = s\<lparr>sq_rows := filter (\<lambda>w. rw_id w \<noteq> i) (sq_rows s)\<rparr>"

definition sq_create :: "'j codec \<Rightarrow> 'j job_record \<Rightarrow> sqlite \<Rightarrow> sqlite res" where
  "sq_create cd r s =
     (let r1 = r\<lparr>jr_status := Queued, jr_completed_utc := None, jr_completed := None\<rparr> in
      ebind (ensure_open s) (\<lambda>_.
        if select_id (jr_id r1) s \<noteq> None then Inl (IntegrityError ''UNIQUE constraint failed: jobs.job_id'')
        else Inr (s\<lparr>sq_rows := sq_rows s @ [to_row cd r1]\<rparr>)))"

definition sq_get :: "'j codec \<Rightarrow> string \<Rightarrow> sqlite \<Rightarrow> 'j job_record option res" where
  "sq_get cd i s =
     ebind (ensure_open s) (\<lambda>_.
       case select_id i s of None \<Rightarrow> Inr None | Some w \<Rightarrow> ebind (to_record cd w) (\<lambda>r. Inr (Some r)))"

definition sq_count :: "job_status \<Rightarrow> sqlite \<Rightarrow> nat res" where
  "sq_count st s = ebind (conn_open s) (\<lambda>_. Inr (length (select_status st s)))"

definition sq_count_tracked :: "sqlite \<Rightarrow> nat res" where
  "sq_count_tracked s = ebind (conn_open s) (\<lambda>_. Inr (length (sq_rows s)))"

text \<open>\<open>SELECT ... WHERE status = 'queued' ORDER BY created_unix ASC LIMIT 1\<close>.\<close>

definition oldest_queued :: "sqlite \<Rightarrow> job_row option" where
  "oldest_queued s =
     (case sort_key rw_created (select_status Queued s) of [] \<Rightarrow> None | w # _ \<Rightarrow> Some w)"

definition sq_peek :: "sqlite \<Rightarrow> string option res" where
  "sq_peek s = ebind (ensure_open s) (\<lambda>_. Inr (map_option rw_id (oldest_queued s)))"

definition sq_claim :: "'j codec \<Rightarrow> clock \<Rightarrow> sqlite \<Rightarrow> ('j job_record option \<times> sqlite) res" where
  "sq_claim cd ck s =
     ebind (ensure_open s) (\<lambda>_.
       case oldest_queued s of
         None \<Rightarrow> Inr (None, s)
       | Some w \<Rightarrow>
           let P = (\<lambda>v. rw_id v = rw_id w \<and> rw_status v = status_value Queued);
               s1 = update_rows P (\<lambda>v. v\<lparr>rw_status := status_value Running,
                      rw_started_utc := Some (ck_utc ck)\<rparr>) s in
           if length (filter P (sq_rows s)) \<noteq> 1 then Inr (None, s)
           else case select_id (rw_id w) s1 of
             None \<Rightarrow> Inr (None, s1)
           | Some v \<Rightarrow> ebind (to_record cd v) (\<lambda>r. Inr (Some r, s1)))"

definition write_columns :: "'j codec \<Rightarrow> 'j job_record \<Rightarrow> job_row \<Rightarrow> job_row" where
  "write_columns cd r w =
     w\<lparr>rw_status := status_value (jr_status r), rw_started_utc := jr_started_utc r,
       rw_completed_utc := jr_completed_utc r, rw_completed := jr_completed r, rw_error := jr_error r,
       rw_summary_json := map_option (dumps cd) (jr_summary r), rw_output_path := jr_output_path r,
       rw_sha := jr_sha r, rw_bytes := jr_bytes r\<rparr>"

text \<open>An exception inside the transaction rolls it back.\<close>

definition sq_transition ::
    "'j codec \<Rightarrow> clock \<Rightarrow> string \<Rightarrow> job_status \<Rightarrow> 'j job_update \<Rightarrow> sqlite \<Rightarrow>
     ('j job_record \<times> sqlite) res" where
  "sq_transition cd ck i new u s =
     ebind (ensure_open s) (\<lambda>_.
       case select_id i s of
         None \<Rightarrow> Inl (KeyError i)
       | Some w \<Rightarrow>
           ebind (to_record cd w) (\<lambda>r.
           ebind (moved_record ck new u r) (\<lambda>r1.
             Inr (r1, update_rows (\<lambda>v. rw_id v = i) (write_columns cd r1) s))))"

definition sq_touch :: "clock \<Rightarrow> string \<Rightarrow> sqlite \<Rightarrow> sqlite res" where
  "sq_touch ck i s =
     ebind (ensure_open s) (\<lambda>_.
       Inr (update_rows (\<lambda>v. rw_id v = i) (\<lambda>v. v\<lparr>rw_last_access := ck_unix ck\<rparr>) s))"

definition sq_delete :: "'j codec \<Rightarrow> string \<Rightarrow> sqlite \<Rightarrow> ('j job_record \<times> sqlite) res" where
  "sq_delete cd i s =
     ebind (ensure_open s) (\<lambda>_.
       case select_id i s of
         None \<Rightarrow> Inl (KeyError i)
       | Some w \<Rightarrow> ebind (to_record cd w) (\<lambda>r. Inr (r, delete_id i s)))"

definition sq_evict_one ::
    "'j codec \<Rightarrow> clock \<Rightarrow> retention \<Rightarrow> ('j job_record list \<times> int) \<times> sqlite \<Rightarrow> job_row \<Rightarrow>
     (('j job_record list \<times> int) \<times> sqlite) res" where
  "sq_evict_one cd ck rt st w =
     (case st of ((doomed, tracked), s) \<Rightarrow>
        ebind (to_record cd w) (\<lambda>r.
          if jr_id r \<in> set (rt_skip rt) then Inr st
          else if tracked > rt_cap rt \<or> ck_unix ck - eviction_reference r > rt_ttl rt
          then Inr ((doomed @ [r], tracked - 1), delete_id (jr_id r) s)
          else Inr st))"

definition sq_evict ::
    "'j codec \<Rightarrow> clock \<Rightarrow> retention \<Rightarrow> sqlite \<Rightarrow> ('j job_record list \<times> sqlite) res" where
  "sq_evict cd ck rt s =
     ebind (ensure_open s) (\<lambda>_.
     ebind (foldE (sq_evict_one cd ck rt) (([], int (length (sq_rows s))), s)
         (sort_key rw_created (filter (\<lambda>w. rw_status w \<in> status_value ` {Succeeded, Failed, Cancelled})
            (sq_rows s)))) (\<lambda>((doomed, _), s1). Inr (doomed, s1)))"

definition close_row :: "clock \<Rightarrow> job_status \<Rightarrow> string \<Rightarrow> string \<Rightarrow> sqlite \<Rightarrow> sqlite" where
  "close_row ck st msg i s =
     update_rows (\<lambda>v. rw_id v = i) (\<lambda>v. v\<lparr>rw_status := status_value st,
       rw_completed_utc := Some (ck_utc ck), rw_completed := Some (ck_unix ck), rw_error := Some msg\<rparr>) s"

definition restart_error :: string where
  "restart_error = ''server restarted while job execution was in progress; outcome was not committed''"

definition missing_input :: "(string \<Rightarrow> bool) \<Rightarrow> string option \<Rightarrow> bool" where
  "missing_input is_file p = (case p of None \<Rightarrow> True | Some f \<Rightarrow> f = [] \<or> \<not> is_file f)"

definition sq_recover ::
    "'j codec \<Rightarrow> clock \<Rightarrow> (string \<Rightarrow> bool) \<Rightarrow> sqlite \<Rightarrow> ((string list \<times> string list) \<times> sqlite) res" where
  "sq_recover cd ck is_file s =
     ebind (ensure_open s) (\<lambda>_.
       let failed = map rw_id (select_status Running s);
           s1 = foldl (\<lambda>t i. close_row ck Failed restart_error i t) s failed in
       ebind (mapE (to_record cd) (select_status Queued s1)) (\<lambda>queued.
         let cancelled = map jr_id (filter (\<lambda>r. missing_input is_file (jr_input_path r)) queued) in
         Inr ((failed, cancelled),
              foldl (\<lambda>t i. close_row ck Cancelled ''durable input is missing after restart; job cannot run'' i t)
                s1 cancelled)))"

definition sq_snapshot_counts :: "sqlite \<Rightarrow> (nat \<times> nat \<times> nat) res" where
  "sq_snapshot_counts s =
     ebind (ensure_open s) (\<lambda>_.
       Inr (length (select_status Queued s), length (select_status Running s), length (sq_rows s)))"

definition sq_close :: "sqlite \<Rightarrow> sqlite" where
  "sq_close s = (if sq_closed s then s else s\<lparr>sq_closed := True\<rparr>)"

subsection \<open>One interface, two backends\<close>

record ('j, 's) store_api =
  api_create :: "'j job_record \<Rightarrow> 's \<Rightarrow> 's res"
  api_get :: "string \<Rightarrow> 's \<Rightarrow> 'j job_record option res"
  api_count :: "job_status \<Rightarrow> 's \<Rightarrow> nat res"
  api_tracked :: "'s \<Rightarrow> nat res"
  api_peek :: "'s \<Rightarrow> string option res"
  api_claim :: "clock \<Rightarrow> 's \<Rightarrow> ('j job_record option \<times> 's) res"
  api_transition :: "clock \<Rightarrow> string \<Rightarrow> job_status \<Rightarrow> 'j job_update \<Rightarrow> 's \<Rightarrow> ('j job_record \<times> 's) res"
  api_touch :: "clock \<Rightarrow> string \<Rightarrow> 's \<Rightarrow> 's res"
  api_delete :: "string \<Rightarrow> 's \<Rightarrow> ('j job_record \<times> 's) res"
  api_evict :: "clock \<Rightarrow> retention \<Rightarrow> 's \<Rightarrow> ('j job_record list \<times> 's) res"
  api_recover :: "clock \<Rightarrow> (string \<Rightarrow> bool) \<Rightarrow> 's \<Rightarrow> ((string list \<times> string list) \<times> 's) res"
  api_snapshot :: "'s \<Rightarrow> (nat \<times> nat \<times> nat) res"
  api_close :: "'s \<Rightarrow> 's"
  api_closed :: "'s \<Rightarrow> bool"

definition mem_api :: "('j, 'j mem_store) store_api" where
  "mem_api =
     \<lparr>api_create = mem_create, api_get = mem_get, api_count = mem_count, api_tracked = mem_count_tracked,
      api_peek = mem_peek, api_claim = mem_claim, api_transition = mem_transition, api_touch = mem_touch,
      api_delete = mem_delete, api_evict = mem_evict, api_recover = mem_recover,
      api_snapshot = mem_snapshot_counts, api_close = (\<lambda>s. s),
      api_closed = (\<lambda>_. False)\<rparr>"

definition sqlite_api :: "'j codec \<Rightarrow> ('j, sqlite) store_api" where
  "sqlite_api cd =
     \<lparr>api_create = sq_create cd, api_get = sq_get cd, api_count = sq_count, api_tracked = sq_count_tracked,
      api_peek = sq_peek, api_claim = sq_claim cd, api_transition = sq_transition cd, api_touch = sq_touch,
      api_delete = sq_delete cd, api_evict = sq_evict cd, api_recover = sq_recover cd,
      api_snapshot = sq_snapshot_counts, api_close = sq_close,
      api_closed = sq_closed\<rparr>"

datatype 'j job_op =
    OpCreate "'j job_record"
  | OpGet string
  | OpPeek
  | OpClaim clock
  | OpTransition clock string job_status "'j job_update"
  | OpTouch clock string
  | OpDelete string
  | OpEvict clock retention
  | OpSnapshot

datatype 'j job_out =
    OutUnit
  | OutFound "'j job_record option"
  | OutPeek "string option"
  | OutRecord "'j job_record"
  | OutEvicted "'j job_record list"
  | OutCounts "nat \<times> nat \<times> nat"
  | OutError py_error

text \<open>An operation that raises leaves the store as it was.\<close>

definition attempt :: "'s \<Rightarrow> ('j job_out \<times> 's) res \<Rightarrow> 'j job_out \<times> 's" where
  "attempt s r = (case r of Inl e \<Rightarrow> (OutError e, s) | Inr os \<Rightarrow> os)"

fun run_op :: "('j, 's) store_api \<Rightarrow> 'j job_op \<Rightarrow> 's \<Rightarrow> 'j job_out \<times> 's" where
  "run_op api (OpCreate r) s = attempt s (ebind (api_create api r s) (\<lambda>t. Inr (OutUnit, t)))"
| "run_op api (OpGet i) s = attempt s (ebind (api_get api i s) (\<lambda>r. Inr (OutFound r, s)))"
| "run_op api OpPeek s = attempt s (ebind (api_peek api s) (\<lambda>r. Inr (OutPeek r, s)))"
| "run_op api (OpClaim ck) s = attempt s (ebind (api_claim api ck s) (\<lambda>(r, t). Inr (OutFound r, t)))"
| "run_op api (OpTransition ck i st u) s =
     attempt s (ebind (api_transition api ck i st u s) (\<lambda>(r, t). Inr (OutRecord r, t)))"
| "run_op api (OpTouch ck i) s = attempt s (ebind (api_touch api ck i s) (\<lambda>t. Inr (OutUnit, t)))"
| "run_op api (OpDelete i) s = attempt s (ebind (api_delete api i s) (\<lambda>(r, t). Inr (OutRecord r, t)))"
| "run_op api (OpEvict ck rt) s = attempt s (ebind (api_evict api ck rt s) (\<lambda>(rs, t). Inr (OutEvicted rs, t)))"
| "run_op api OpSnapshot s = attempt s (ebind (api_snapshot api s) (\<lambda>c. Inr (OutCounts c, s)))"

fun run_ops :: "('j, 's) store_api \<Rightarrow> 'j job_op list \<Rightarrow> 's \<Rightarrow> 'j job_out list \<times> 's" where
  "run_ops api [] s = ([], s)"
| "run_ops api (p # ps) s =
     (case run_op api p s of (out, t) \<Rightarrow> case run_ops api ps t of (outs, u) \<Rightarrow> (out # outs, u))"

subsection \<open>Facts shared by the stores\<close>

lemma transition_Inr: "transition_job_status a b = Inr c \<longleftrightarrow> b \<in> set (job_transitions a) \<and> c = b"
  by (auto simp: transition_job_status_def)

lemma moved_record_Inr:
  "moved_record ck new u r = Inr r1 \<Longrightarrow> new \<in> set (job_transitions (jr_status r)) \<and> jr_id r1 = jr_id r \<and>
     jr_status r1 = new \<and> jr_created r1 = jr_created r \<and> jr_last_access r1 = jr_last_access r"
  by (auto simp: moved_record_def ebind_eq_Inr transition_Inr write_update_def finish_stamp_def start_stamp_def)

lemma terminal_final: "terminal st \<longleftrightarrow> job_transitions st = []"
  by (cases st) (simp_all add: terminal_def)

lemma status_value_inj: "status_value a = status_value b \<longleftrightarrow> a = b"
  by (cases a; cases b) simp_all

lemma job_status_of_value [simp]: "job_status_of (status_value st) = Inr st"
  by (cases st) (simp_all add: job_status_of_def)

lemma job_status_of_Inr: "job_status_of v = Inr st \<Longrightarrow> v = status_value st"
  by (auto simp: job_status_of_def split: if_splits)

text \<open>A summary that its codec reads back.\<close>

definition storable :: "'j codec \<Rightarrow> 'j option \<Rightarrow> bool" where
  "storable cd j = (case j of None \<Rightarrow> True | Some x \<Rightarrow> loads cd (dumps cd x) = Some x)"

lemma record_roundtrip: "storable cd (jr_summary r) \<Longrightarrow> to_record cd (to_row cd r) = Inr r"
  by (cases "jr_summary r") (simp_all add: storable_def to_record_def to_row_def)

definition record_of :: "'j codec \<Rightarrow> job_row \<Rightarrow> 'j job_record" where
  "record_of cd w = projr (to_record cd w)"

definition row_ok :: "'j codec \<Rightarrow> job_row \<Rightarrow> bool" where
  "row_ok cd w \<longleftrightarrow> (\<exists>r. storable cd (jr_summary r) \<and> w = to_row cd r)"

lemma row_okE:
  assumes "row_ok cd w"
  obtains "to_record cd w = Inr (record_of cd w)" "to_row cd (record_of cd w) = w"
    "storable cd (jr_summary (record_of cd w))"
  using assms by (auto simp: row_ok_def record_of_def record_roundtrip)

lemma row_ok_fields:
  assumes "row_ok cd w"
  shows "rw_id w = jr_id (record_of cd w)" "rw_status w = status_value (jr_status (record_of cd w))"
    "rw_created w = jr_created (record_of cd w)"
proof -
  have "to_row cd (record_of cd w) = w" using assms by (rule row_okE)
  then have w: "w = to_row cd (record_of cd w)" by simp
  show "rw_id w = jr_id (record_of cd w)" by (subst w) (simp add: to_row_def)
  show "rw_status w = status_value (jr_status (record_of cd w))" by (subst w) (simp add: to_row_def)
  show "rw_created w = jr_created (record_of cd w)" by (subst w) (simp add: to_row_def)
qed

lemma row_ok_to_row: "storable cd (jr_summary r) \<Longrightarrow> row_ok cd (to_row cd r) \<and> record_of cd (to_row cd r) = r"
  by (auto simp: row_ok_def record_of_def record_roundtrip)

end
