(* ===== verification/StoreRefinement.thy ===== *)
theory StoreRefinement
  imports JobStore
begin

text \<open>
  The SQLite store implements the in-memory store: reading its rows back gives the ordered
  dictionary, and every operation commutes with that abstraction, results and errors included, as
  long as job ids are fresh and creation stamps do not run backwards.
\<close>

definition store_view :: "'j codec \<Rightarrow> sqlite \<Rightarrow> 'j mem_store" where
  "store_view cd s = map (\<lambda>w. (rw_id w, record_of cd w)) (sq_rows s)"

definition sq_ok :: "'j codec \<Rightarrow> sqlite \<Rightarrow> bool" where
  "sq_ok cd s \<longleftrightarrow> \<not> sq_closed s \<and> distinct (map rw_id (sq_rows s)) \<and> list_all (row_ok cd) (sq_rows s)"

definition in_order :: "sqlite \<Rightarrow> bool" where
  "in_order s \<longleftrightarrow> sorted (map rw_created (sq_rows s))"

lemma row_of_mem: "sq_ok cd s \<Longrightarrow> w \<in> set (sq_rows s) \<Longrightarrow> row_ok cd w"
  by (auto simp: sq_ok_def list_all_iff)

lemma open_ok [simp]: "sq_ok cd s \<Longrightarrow> ensure_open s = Inr ()" "sq_ok cd s \<Longrightarrow> conn_open s = Inr ()"
  by (simp_all add: sq_ok_def ensure_open_def conn_open_def)

lemma view_lookup: "map_of (store_view cd s) i = map_option (record_of cd) (select_id i s)"
proof -
  have "map_of (map (\<lambda>w. (rw_id w, record_of cd w)) ws) i = map_option (record_of cd) (find (\<lambda>w. rw_id w = i) ws)" for ws
    by (induction ws) auto
  then show ?thesis by (simp add: store_view_def select_id_def)
qed

lemma select_id_Some: "select_id i s = Some w \<Longrightarrow> w \<in> set (sq_rows s) \<and> rw_id w = i"
  by (auto simp: select_id_def find_Some_iff)

lemma select_id_iff:
  "distinct (map rw_id (sq_rows s)) \<Longrightarrow> select_id i s = Some w \<longleftrightarrow> w \<in> set (sq_rows s) \<and> rw_id w = i"
proof -
  have "distinct (map rw_id ws) \<Longrightarrow> find (\<lambda>w. rw_id w = i) ws = Some w \<longleftrightarrow> w \<in> set ws \<and> rw_id w = i" for ws
    by (induction ws) force+
  then show "distinct (map rw_id (sq_rows s)) \<Longrightarrow> ?thesis" by (simp add: select_id_def)
qed

lemma select_to_record:
  "sq_ok cd s \<Longrightarrow> select_id i s = Some w \<Longrightarrow> to_record cd w = Inr (record_of cd w) \<and> jr_id (record_of cd w) = i"
  using select_id_Some row_of_mem row_ok_fields(1) by (metis row_okE)

lemma update_fresh: "k \<notin> fst ` set al \<Longrightarrow> AList.update k v al = al @ [(k, v)]"
  by (induction al) auto

lemma update_view:
  assumes "distinct (map rw_id ws)" "w \<in> set ws" "rw_id w = i" "rw_id (f w) = i"
    and "\<And>v. v \<in> set ws \<Longrightarrow> P v \<longleftrightarrow> rw_id v = i"
  shows "map (\<lambda>w. (rw_id w, g w)) (map (\<lambda>v. if P v then f v else v) ws) =
    AList.update i (g (f w)) (map (\<lambda>w. (rw_id w, g w)) ws)"
  using assms
proof (induction ws)
  case (Cons v ws)
  show ?case
  proof (cases "rw_id v = i")
    case True
    with Cons.prems(1-3) have v: "v = w" by force
    have "\<not> P x" if "x \<in> set ws" for x
    proof
      assume "P x"
      then have "rw_id x = rw_id v" using Cons.prems(5) [of x] that True by simp
      then have "rw_id v \<in> rw_id ` set ws" using that by (metis imageI)
      then show False using Cons.prems(1) by simp
    qed
    then have "map (\<lambda>v. if P v then f v else v) ws = ws" by (intro map_idI) simp
    with Cons.prems(4,5) v True show ?thesis by simp
  next
    case False
    with Cons.prems have "w \<in> set ws" by auto
    with False Cons.prems Cons.IH show ?thesis by simp
  qed
qed simp

lemma view_update_rows:
  assumes "sq_ok cd s" "select_id i s = Some w" "rw_id (f w) = i"
    and "\<And>v. v \<in> set (sq_rows s) \<Longrightarrow> P v \<longleftrightarrow> rw_id v = i"
  shows "store_view cd (update_rows P f s) = AList.update i (record_of cd (f w)) (store_view cd s)"
  unfolding store_view_def update_rows_def
  using update_view [of "sq_rows s" w i f P "record_of cd"] select_id_Some [OF assms(2)] assms
  by (simp add: sq_ok_def)

lemma ok_update_rows:
  assumes "sq_ok cd s" "\<And>v. v \<in> set (sq_rows s) \<Longrightarrow> P v \<Longrightarrow> rw_id (f v) = rw_id v \<and> row_ok cd (f v)"
  shows "sq_ok cd (update_rows P f s)"
proof -
  have "map rw_id (map (\<lambda>w. if P w then f w else w) (sq_rows s)) = map rw_id (sq_rows s)"
    using assms(2) by simp
  moreover have "list_all (row_ok cd) (map (\<lambda>w. if P w then f w else w) (sq_rows s))"
    using assms by (auto simp: list_all_iff sq_ok_def)
  ultimately show ?thesis using assms(1) by (simp add: sq_ok_def update_rows_def del: map_map list.map_comp)
qed

lemma order_update_rows:
  assumes "in_order s" "\<And>v. v \<in> set (sq_rows s) \<Longrightarrow> P v \<Longrightarrow> rw_created (f v) = rw_created v"
  shows "in_order (update_rows P f s)"
proof -
  have "map rw_created (map (\<lambda>w. if P w then f w else w) (sq_rows s)) = map rw_created (sq_rows s)"
    using assms(2) by simp
  then show ?thesis using assms(1) by (simp add: in_order_def update_rows_def del: map_map list.map_comp)
qed

lemma view_delete: "store_view cd (delete_id i s) = AList.delete i (store_view cd s)"
  by (simp add: store_view_def delete_id_def AList.delete_eq filter_map comp_def eq_commute [of i])

lemma ok_delete: "sq_ok cd s \<Longrightarrow> sq_ok cd (delete_id i s)"
  by (auto simp: sq_ok_def delete_id_def list_all_iff distinct_map inj_on_def)

lemma order_delete: "in_order s \<Longrightarrow> in_order (delete_id i s)"
  by (simp add: in_order_def delete_id_def sorted_filter)

lemma sort_key_sorted: "sorted (map f xs) \<Longrightarrow> sort_key f xs = xs"
proof (induction xs)
  case (Cons x xs)
  then show ?case by (cases xs) auto
qed simp

lemma sorted_select: "in_order s \<Longrightarrow> sort_key rw_created (filter P (sq_rows s)) = filter P (sq_rows s)"
  by (rule sort_key_sorted) (simp add: in_order_def sorted_filter)

lemma view_first_queued:
  assumes "sq_ok cd s" "in_order s"
  shows "first_queued (store_view cd s) = map_option (record_of cd) (oldest_queued s)"
proof -
  have "list_all (row_ok cd) ws \<Longrightarrow>
      map_option snd (find (\<lambda>(i, r). jr_status r = Queued) (map (\<lambda>w. (rw_id w, record_of cd w)) ws)) =
      map_option (record_of cd) (case filter (\<lambda>w. rw_status w = ''queued'') ws of [] \<Rightarrow> None | w # _ \<Rightarrow> Some w)" for ws
  proof (induction ws)
    case (Cons w ws)
    have "rw_status w = ''queued'' \<longleftrightarrow> jr_status (record_of cd w) = Queued"
      using Cons.prems row_ok_fields(2) [of cd w] status_value_inj [of _ Queued] by simp
    with Cons show ?case by simp
  qed simp
  then show ?thesis
    using assms sorted_select [OF assms(2), of "\<lambda>w. rw_status w = ''queued''"]
    by (simp add: first_queued_def oldest_queued_def select_status_def store_view_def sq_ok_def)
qed

lemma view_counts:
  assumes "sq_ok cd s"
  shows "length (filter (\<lambda>(i, r). jr_status r = st) (store_view cd s)) = length (select_status st s)"
    "length (store_view cd s) = length (sq_rows s)"
proof -
  have "jr_status (record_of cd w) = st \<longleftrightarrow> rw_status w = status_value st" if "w \<in> set (sq_rows s)" for w
    using row_ok_fields(2) [OF row_of_mem [OF assms that]] by (simp add: status_value_inj)
  then have "filter (\<lambda>w. jr_status (record_of cd w) = st) (sq_rows s) = select_status st s"
    unfolding select_status_def by (intro filter_cong) simp_all
  then show "length (filter (\<lambda>(i, r). jr_status r = st) (store_view cd s)) = length (select_status st s)"
    by (simp add: store_view_def filter_map comp_def)
qed (simp add: store_view_def)

subsection \<open>Each operation commutes with the view\<close>

lemma create_commutes:
  assumes "sq_ok cd s" "in_order s" "map_of (store_view cd s) (jr_id r) = None"
    and "jr_completed_utc r = None" "jr_completed r = None" "storable cd (jr_summary r)"
    and "list_all (\<lambda>w. rw_created w \<le> jr_created r) (sq_rows s)"
  shows "\<exists>t. sq_create cd r s = Inr t \<and> mem_create r (store_view cd s) = Inr (store_view cd t) \<and>
    sq_ok cd t \<and> in_order t"
proof -
  let ?r = "r\<lparr>jr_status := Queued\<rparr>"
  have r: "r\<lparr>jr_status := Queued, jr_completed_utc := None, jr_completed := None\<rparr> = ?r"
    using assms(4,5) by (cases r) simp
  have none: "select_id (jr_id r) s = None" using assms(3) by (simp add: view_lookup)
  then have fresh: "jr_id r \<notin> rw_id ` set (sq_rows s)"
    unfolding select_id_def find_None_iff by auto
  have row: "row_ok cd (to_row cd ?r)" "record_of cd (to_row cd ?r) = ?r"
    using row_ok_to_row [of cd ?r] assms(6) by simp_all
  let ?t = "s\<lparr>sq_rows := sq_rows s @ [to_row cd ?r]\<rparr>"
  have id: "rw_id (to_row cd ?r) = jr_id r" "rw_created (to_row cd ?r) = jr_created r"
    by (simp_all add: to_row_def)
  have "sq_create cd r s = Inr ?t"
    using assms(1) none by (simp add: sq_create_def r Let_def)
  moreover have "mem_create r (store_view cd s) = Inr (store_view cd ?t)"
    using fresh row(2) id by (simp add: mem_create_def store_view_def update_fresh image_image)
  moreover have "sq_ok cd ?t" using assms(1) fresh row(1) id by (auto simp: sq_ok_def)
  moreover have "in_order ?t" using assms(2,7) id by (auto simp: in_order_def sorted_append list_all_iff)
  ultimately show ?thesis by blast
qed

lemma get_commutes: "sq_ok cd s \<Longrightarrow> sq_get cd i s = mem_get i (store_view cd s)"
  using select_to_record [of cd s i]
  by (auto simp: sq_get_def mem_get_def view_lookup split: option.split)

lemma peek_commutes: "sq_ok cd s \<Longrightarrow> in_order s \<Longrightarrow> sq_peek s = mem_peek (store_view cd s)"
proof -
  assume ok: "sq_ok cd s" "in_order s"
  have "oldest_queued s = Some w \<Longrightarrow> rw_id w = jr_id (record_of cd w)" for w
    using row_ok_fields(1) [of cd w] row_of_mem [OF ok(1), of w] sorted_select [OF ok(2)]
    by (auto simp: oldest_queued_def select_status_def filter_eq_Cons_iff split: list.splits)
  then show ?thesis
    using ok by (cases "oldest_queued s") (simp_all add: sq_peek_def mem_peek_def view_first_queued)
qed

lemma write_columns_row:
  assumes "to_row cd r0 = w" "jr_id r = jr_id r0" "jr_created_utc r = jr_created_utc r0"
    "jr_input_path r = jr_input_path r0" "jr_input_format r = jr_input_format r0"
    "jr_params_json r = jr_params_json r0" "jr_last_access r = jr_last_access r0" "jr_created r = jr_created r0"
  shows "write_columns cd r w = to_row cd r"
  using assms(2-) by (simp add: assms(1) [symmetric] write_columns_def to_row_def)

lemma moved_record_frame:
  "moved_record ck new u r = Inr r1 \<Longrightarrow> jr_id r1 = jr_id r \<and> jr_created_utc r1 = jr_created_utc r \<and>
    jr_input_path r1 = jr_input_path r \<and> jr_input_format r1 = jr_input_format r \<and>
    jr_params_json r1 = jr_params_json r \<and> jr_last_access r1 = jr_last_access r \<and>
    jr_created r1 = jr_created r \<and> jr_summary r1 = override (ju_summary u) (jr_summary r)"
  by (auto simp: moved_record_def ebind_eq_Inr write_update_def finish_stamp_def start_stamp_def)

lemma transition_commutes:
  assumes "sq_ok cd s" "storable cd (ju_summary u)"
  shows "case sq_transition cd ck i new u s of
      Inl e \<Rightarrow> mem_transition ck i new u (store_view cd s) = Inl e
    | Inr (r, t) \<Rightarrow> mem_transition ck i new u (store_view cd s) = Inr (r, store_view cd t) \<and>
        sq_ok cd t \<and> (in_order s \<longrightarrow> in_order t)"
proof (cases "select_id i s")
  case None
  with assms show ?thesis by (simp add: sq_transition_def mem_transition_def view_lookup)
next
  case (Some w)
  let ?r = "record_of cd w"
  have w: "to_record cd w = Inr ?r" "jr_id ?r = i" using select_to_record [OF assms(1) Some] by simp_all
  show ?thesis
  proof (cases "moved_record ck new u ?r")
    case (Inl e)
    with assms Some w show ?thesis by (simp add: sq_transition_def mem_transition_def view_lookup)
  next
    case (Inr r1)
    note fr = moved_record_frame [OF Inr]
    have okw: "row_ok cd w" using select_id_Some [OF Some] row_of_mem [OF assms(1)] by blast
    then have rw: "to_row cd ?r = w" "storable cd (jr_summary ?r)" by (auto elim: row_okE)
    have wc: "write_columns cd r1 w = to_row cd r1" using fr rw(1) by (intro write_columns_row) simp_all
    have st: "storable cd (jr_summary r1)" using fr rw(2) assms(2) by (simp add: override_def)
    note row = row_ok_to_row [OF st]
    let ?t = "update_rows (\<lambda>v. rw_id v = i) (write_columns cd r1) s"
    have same: "v = w" if "v \<in> set (sq_rows s)" "rw_id v = i" for v
      using that assms(1) select_id_iff [of s i v] Some by (simp add: sq_ok_def)
    have idw: "rw_id (write_columns cd r1 w) = i" using select_id_Some [OF Some] by (simp add: write_columns_def)
    have "store_view cd ?t = AList.update i r1 (store_view cd s)"
      using view_update_rows [OF assms(1) Some, of "write_columns cd r1" "\<lambda>v. rw_id v = i"] idw row wc by simp
    moreover have "sq_ok cd ?t"
      using assms(1) same wc row idw select_id_Some [OF Some] by (intro ok_update_rows) auto
    moreover have "in_order s \<longrightarrow> in_order ?t"
      by (auto intro!: order_update_rows simp: write_columns_def)
    ultimately show ?thesis
      using assms Some w Inr by (simp add: sq_transition_def mem_transition_def view_lookup)
  qed
qed

lemma filter_same_id:
  "distinct (map rw_id ws) \<Longrightarrow> w \<in> set ws \<Longrightarrow> filter (\<lambda>v. rw_id v = rw_id w) ws = [w]"
proof (induction ws)
  case (Cons v ws)
  show ?case
  proof (cases "w = v")
    case True
    have "\<forall>x\<in>set ws. rw_id x \<noteq> rw_id v" using Cons.prems(1) by (auto simp: image_iff)
    then show ?thesis using True by (auto simp: filter_empty_conv)
  next
    case False
    with Cons.prems have "w \<in> set ws" "rw_id v \<noteq> rw_id w" by (auto simp: image_iff)
    with Cons show ?thesis by simp
  qed
qed simp

lemma to_row_start:
  "to_row cd (r\<lparr>jr_status := st, jr_started_utc := t\<rparr>) =
   (to_row cd r)\<lparr>rw_status := status_value st, rw_started_utc := t\<rparr>"
  by (simp add: to_row_def)

lemma to_row_access: "to_row cd (r\<lparr>jr_last_access := t\<rparr>) = (to_row cd r)\<lparr>rw_last_access := t\<rparr>"
  by (simp add: to_row_def)

lemma oldest_mem: "oldest_queued s = Some w \<Longrightarrow> w \<in> set (sq_rows s) \<and> rw_status w = ''queued''"
proof -
  assume "oldest_queued s = Some w"
  then have "w \<in> set (sort_key rw_created (select_status Queued s))"
    by (auto simp: oldest_queued_def simp del: set_sort split: list.splits)
  then show ?thesis by (auto simp: select_status_def)
qed

lemma claim_effect:
  assumes "sq_ok cd s" "oldest_queued s = Some w"
  shows "\<exists>t. sq_claim cd ck s =
      Inr (Some ((record_of cd w)\<lparr>jr_status := Running, jr_started_utc := Some (ck_utc ck)\<rparr>), t) \<and>
    jr_status (record_of cd w) = Queued \<and> select_id (rw_id w) s = Some w \<and> rw_id w = jr_id (record_of cd w) \<and>
    store_view cd t = AList.update (rw_id w)
      ((record_of cd w)\<lparr>jr_status := Running, jr_started_utc := Some (ck_utc ck)\<rparr>) (store_view cd s) \<and>
    sq_ok cd t \<and> (in_order s \<longrightarrow> in_order t)"
proof -
  let ?P = "\<lambda>v. rw_id v = rw_id w \<and> rw_status v = ''queued''"
  let ?f = "\<lambda>v. v\<lparr>rw_status := ''running'', rw_started_utc := Some (ck_utc ck)\<rparr>"
  let ?r = "record_of cd w" and ?t = "update_rows ?P ?f s"
  let ?r1 = "?r\<lparr>jr_status := Running, jr_started_utc := Some (ck_utc ck)\<rparr>"
  have w: "w \<in> set (sq_rows s)" "rw_status w = ''queued''" using oldest_mem [OF assms(2)] by simp_all
  have okw: "row_ok cd w" using row_of_mem [OF assms(1) w(1)] .
  then have rw: "to_row cd ?r = w" "storable cd (jr_summary ?r)" by (auto elim: row_okE)
  note fields = row_ok_fields [OF okw]
  have queued: "jr_status ?r = Queued" using fields(2) w(2) status_value_inj [of "jr_status ?r" Queued] by simp
  have sel: "select_id (rw_id w) s = Some w" using assms(1) w(1) by (simp add: select_id_iff sq_ok_def)
  have P: "?P v \<longleftrightarrow> rw_id v = rw_id w" if "v \<in> set (sq_rows s)" for v
    using that w assms(1) select_id_iff [of s "rw_id w" v] sel by (auto simp: sq_ok_def)
  have fw: "?f w = to_row cd ?r1"
    by (simp add: to_row_start rw(1))
  have st1: "storable cd (jr_summary ?r1)" using rw(2) by simp
  have row1: "row_ok cd (to_row cd ?r1)" "record_of cd (to_row cd ?r1) = ?r1" using row_ok_to_row [OF st1] by simp_all
  have dist: "distinct (map rw_id (sq_rows s))" using assms(1) by (simp add: sq_ok_def)
  have view: "store_view cd ?t = AList.update (rw_id w) ?r1 (store_view cd s)"
  proof -
    have "rw_id (?f w) = rw_id w" by simp
    from view_update_rows [OF assms(1) sel, of ?f ?P, OF this P] show ?thesis unfolding fw row1(2) .
  qed
  have ok: "sq_ok cd ?t"
  proof (rule ok_update_rows [OF assms(1)])
    fix v assume v: "v \<in> set (sq_rows s)" "?P v"
    then have "select_id (rw_id w) s = Some v" using dist by (simp add: select_id_iff)
    with sel have vw: "v = w" by simp
    show "rw_id (?f v) = rw_id v \<and> row_ok cd (?f v)"
      unfolding vw fw using row1(1) fields(1) by (simp add: to_row_def)
  qed
  have ord: "in_order s \<longrightarrow> in_order ?t" by (auto intro: order_update_rows)
  have one: "length (filter ?P (sq_rows s)) = 1"
  proof -
    have "filter ?P (sq_rows s) = filter (\<lambda>v. rw_id v = rw_id w) (sq_rows s)" using P by (intro filter_cong) auto
    then show ?thesis using filter_same_id [OF dist w(1)] by simp
  qed
  have selt: "select_id (rw_id w) ?t = Some (?f w)"
  proof -
    have "?f w \<in> set (sq_rows ?t)" using w by (force simp: update_rows_def)
    then show ?thesis using ok by (simp add: select_id_iff sq_ok_def)
  qed
  have "to_record cd (?f w) = Inr ?r1" using record_roundtrip [OF st1] fw by simp
  then have "sq_claim cd ck s = Inr (Some ?r1, ?t)"
    using assms(1) one selt by (simp add: sq_claim_def assms(2) Let_def)
  then show ?thesis using queued sel fields(1) view ok ord by blast
qed

lemma claim_commutes:
  assumes "sq_ok cd s" "in_order s"
  shows "\<exists>out t. sq_claim cd ck s = Inr (out, t) \<and>
    mem_claim ck (store_view cd s) = Inr (out, store_view cd t) \<and> sq_ok cd t \<and> in_order t"
proof (cases "oldest_queued s")
  case None
  with assms show ?thesis by (simp add: sq_claim_def mem_claim_def view_first_queued)
next
  case (Some w)
  from claim_effect [OF assms(1) Some, of ck] obtain t where t: "sq_claim cd ck s =
      Inr (Some ((record_of cd w)\<lparr>jr_status := Running, jr_started_utc := Some (ck_utc ck)\<rparr>), t)"
    "jr_status (record_of cd w) = Queued" "rw_id w = jr_id (record_of cd w)"
    "store_view cd t = AList.update (rw_id w)
      ((record_of cd w)\<lparr>jr_status := Running, jr_started_utc := Some (ck_utc ck)\<rparr>) (store_view cd s)"
    "sq_ok cd t" "in_order t" using assms(2) by blast
  have "first_queued (store_view cd s) = Some (record_of cd w)" by (simp add: view_first_queued assms Some)
  then have "mem_claim ck (store_view cd s) =
      Inr (Some ((record_of cd w)\<lparr>jr_status := Running, jr_started_utc := Some (ck_utc ck)\<rparr>), store_view cd t)"
    by (simp add: mem_claim_def t(2) transition_job_status_def Let_def t(4) t(3) [symmetric])
  with t show ?thesis by blast
qed

lemma touch_commutes:
  assumes "sq_ok cd s"
  shows "\<exists>t. sq_touch ck i s = Inr t \<and> mem_touch ck i (store_view cd s) = Inr (store_view cd t) \<and>
    sq_ok cd t \<and> (in_order s \<longrightarrow> in_order t)"
proof -
  let ?f = "\<lambda>v. v\<lparr>rw_last_access := ck_unix ck\<rparr>"
  let ?t = "update_rows (\<lambda>v. rw_id v = i) ?f s"
  have f: "row_ok cd (?f v) \<and> record_of cd (?f v) = (record_of cd v)\<lparr>jr_last_access := ck_unix ck\<rparr>"
    if ok: "row_ok cd v" for v
  proof -
    let ?r = "(record_of cd v)\<lparr>jr_last_access := ck_unix ck\<rparr>"
    have r: "to_row cd (record_of cd v) = v" "storable cd (jr_summary (record_of cd v))"
      using ok by (auto elim: row_okE)
    have "?f v = to_row cd ?r" by (simp add: to_row_access r(1))
    with row_ok_to_row [of cd ?r] r(2) show ?thesis by simp
  qed
  have ok: "sq_ok cd ?t" using assms f by (intro ok_update_rows) (simp_all add: row_of_mem)
  have ord: "in_order s \<longrightarrow> in_order ?t" by (auto intro: order_update_rows)
  have "mem_touch ck i (store_view cd s) = Inr (store_view cd ?t)"
  proof (cases "select_id i s")
    case None
    then have "?t = s" by (auto simp: select_id_def find_None_iff update_rows_def intro!: sqlite.equality map_idI)
    with None show ?thesis by (simp add: mem_touch_def view_lookup)
  next
    case (Some w)
    then have "row_ok cd w" using select_id_Some row_of_mem [OF assms] by blast
    with Some show ?thesis
      using view_update_rows [OF assms Some, of ?f "\<lambda>v. rw_id v = i"] f select_id_Some [OF Some]
      by (simp add: mem_touch_def view_lookup)
  qed
  with ok ord show ?thesis using assms by (simp add: sq_touch_def)
qed

lemma delete_commutes:
  assumes "sq_ok cd s"
  shows "case sq_delete cd i s of
      Inl e \<Rightarrow> mem_delete i (store_view cd s) = Inl e
    | Inr (r, t) \<Rightarrow> mem_delete i (store_view cd s) = Inr (r, store_view cd t) \<and> sq_ok cd t \<and> (in_order s \<longrightarrow> in_order t)"
proof (cases "select_id i s")
  case None
  with assms show ?thesis by (simp add: sq_delete_def mem_delete_def view_lookup)
next
  case (Some w)
  with assms select_to_record [OF assms Some] show ?thesis
    by (simp add: sq_delete_def mem_delete_def view_lookup view_delete ok_delete order_delete)
qed

definition closed_row :: "job_row \<Rightarrow> bool" where
  "closed_row w \<longleftrightarrow> rw_status w \<in> status_value ` {Succeeded, Failed, Cancelled}"

lemma closed_row_terminal: "row_ok cd w \<Longrightarrow> closed_row w \<longleftrightarrow> terminal (jr_status (record_of cd w))"
  by (auto simp: closed_row_def terminal_def row_ok_fields(2) status_value_inj
      simp del: status_value.simps)

text \<open>The in-memory sweep visits every key, the SQL sweep the closed rows only; they agree on any
  suffix of the rows.\<close>

lemma sweeps_agree:
  assumes "sq_ok cd s" "in_order s" "distinct (map rw_id ws)" "set ws \<subseteq> set (sq_rows s)"
  shows "\<exists>out k t. foldE (sq_evict_one cd ck rt) ((doomed, int (length (sq_rows s))), s) (filter closed_row ws) =
      Inr ((out, k), t) \<and>
    foldl (mem_evict_one ck rt) (doomed, store_view cd s) (map rw_id ws) = (out, store_view cd t) \<and>
    sq_ok cd t \<and> in_order t"
  using assms
proof (induction ws arbitrary: doomed s)
  case (Cons w ws)
  have w: "w \<in> set (sq_rows s)" "row_ok cd w" using Cons.prems(1,4) row_of_mem by auto
  have sel: "select_id (rw_id w) s = Some w" using w(1) Cons.prems(1) by (simp add: select_id_iff sq_ok_def)
  have rec: "to_record cd w = Inr (record_of cd w)" "jr_id (record_of cd w) = rw_id w"
    using select_to_record [OF Cons.prems(1) sel] by simp_all
  have len: "length (store_view cd s) = length (sq_rows s)" by (rule view_counts(2) [OF Cons.prems(1)])
  let ?r = "record_of cd w"
  let ?hit = "terminal (jr_status ?r) \<and> rw_id w \<notin> set (rt_skip rt) \<and>
    (int (length (sq_rows s)) > rt_cap rt \<or> ck_unix ck - eviction_reference ?r > rt_ttl rt)"
  show ?case
  proof (cases ?hit)
    case True
    let ?s = "delete_id (rw_id w) s"
    have "\<forall>x\<in>set ws. rw_id x \<noteq> rw_id w" using Cons.prems(3) by (auto simp: image_iff)
    then have sub: "set ws \<subseteq> set (sq_rows ?s)" using Cons.prems(4) by (auto simp: delete_id_def)
    have size: "int (length (sq_rows ?s)) = int (length (sq_rows s)) - 1"
    proof -
      have d: "distinct (map rw_id (sq_rows s))" using Cons.prems(1) by (simp add: sq_ok_def)
      from sum_length_filter_compl [of "\<lambda>v. rw_id v = rw_id w" "sq_rows s"] filter_same_id [OF d w(1)]
      show ?thesis by (simp add: delete_id_def)
    qed
    have "distinct (map rw_id ws)" using Cons.prems(3) by simp
    from Cons.IH [OF ok_delete [OF Cons.prems(1)] order_delete [OF Cons.prems(2)] this sub, of "doomed @ [?r]"]
    obtain out k t where IH:
      "foldE (sq_evict_one cd ck rt) ((doomed @ [?r], int (length (sq_rows s)) - 1), ?s) (filter closed_row ws) = Inr ((out, k), t)"
      "foldl (mem_evict_one ck rt) (doomed @ [?r], store_view cd ?s) (map rw_id ws) = (out, store_view cd t)"
      "sq_ok cd t" "in_order t" unfolding size by blast
    have "sq_evict_one cd ck rt ((doomed, int (length (sq_rows s))), s) w =
        Inr ((doomed @ [?r], int (length (sq_rows s)) - 1), ?s)"
      using True rec by (simp add: sq_evict_one_def)
    moreover have "mem_evict_one ck rt (doomed, store_view cd s) (rw_id w) = (doomed @ [?r], store_view cd ?s)"
      using True sel len by (simp add: mem_evict_one_def view_lookup view_delete)
    moreover have "closed_row w" using True closed_row_terminal [OF w(2)] by simp
    ultimately show ?thesis using IH by simp
  next
    case False
    have sub: "set ws \<subseteq> set (sq_rows s)" "distinct (map rw_id ws)" using Cons.prems(3,4) by auto
    from Cons.IH [OF Cons.prems(1,2) sub(2,1), of doomed] obtain out k t where IH:
      "foldE (sq_evict_one cd ck rt) ((doomed, int (length (sq_rows s))), s) (filter closed_row ws) = Inr ((out, k), t)"
      "foldl (mem_evict_one ck rt) (doomed, store_view cd s) (map rw_id ws) = (out, store_view cd t)"
      "sq_ok cd t" "in_order t" by blast
    have "closed_row w \<Longrightarrow> sq_evict_one cd ck rt ((doomed, int (length (sq_rows s))), s) w =
        Inr ((doomed, int (length (sq_rows s))), s)"
      using False rec closed_row_terminal [OF w(2)] by (auto simp: sq_evict_one_def)
    moreover have "mem_evict_one ck rt (doomed, store_view cd s) (rw_id w) = (doomed, store_view cd s)"
      using False sel len by (auto simp: mem_evict_one_def view_lookup)
    ultimately show ?thesis using IH by (cases "closed_row w") simp_all
  qed
qed simp

lemma evict_commutes:
  assumes "sq_ok cd s" "in_order s"
  shows "\<exists>out t. sq_evict cd ck rt s = Inr (out, t) \<and>
    mem_evict ck rt (store_view cd s) = Inr (out, store_view cd t) \<and> sq_ok cd t \<and> in_order t"
proof -
  have d: "distinct (map rw_id (sq_rows s))" using assms(1) by (simp add: sq_ok_def)
  from sweeps_agree [OF assms d order_refl, of ck rt "[]"] obtain out k t where
    "foldE (sq_evict_one cd ck rt) (([], int (length (sq_rows s))), s) (filter closed_row (sq_rows s)) = Inr ((out, k), t)"
    "foldl (mem_evict_one ck rt) ([], store_view cd s) (map rw_id (sq_rows s)) = (out, store_view cd t)"
    "sq_ok cd t" "in_order t" by blast
  moreover have "map fst (store_view cd s) = map rw_id (sq_rows s)" by (simp add: store_view_def)
  moreover have "sort_key rw_created (filter (\<lambda>w. rw_status w \<in> status_value ` {Succeeded, Failed, Cancelled})
      (sq_rows s)) = filter closed_row (sq_rows s)"
    unfolding sorted_select [OF assms(2)] closed_row_def by simp
  ultimately show ?thesis using assms(1) unfolding sq_evict_def mem_evict_def by simp
qed

lemma snapshot_commutes: "sq_ok cd s \<Longrightarrow> sq_snapshot_counts s = mem_snapshot_counts (store_view cd s)"
  by (simp add: sq_snapshot_counts_def mem_snapshot_counts_def view_counts)

subsection \<open>Whole runs\<close>

text \<open>What a client guarantees: fresh ids, records without completion stamps, creation stamps that
  do not run backwards, summaries that their JSON text reads back.\<close>

definition op_ok :: "'j codec \<Rightarrow> 'j job_op \<Rightarrow> 'j mem_store \<Rightarrow> bool" where
  "op_ok cd p m =
     (case p of
        OpCreate r \<Rightarrow> map_of m (jr_id r) = None \<and> jr_completed_utc r = None \<and> jr_completed r = None \<and>
          storable cd (jr_summary r) \<and> list_all (\<lambda>(i, q). jr_created q \<le> jr_created r) m
      | OpTransition ck i st u \<Rightarrow> storable cd (ju_summary u)
      | _ \<Rightarrow> True)"

fun run_ok :: "'j codec \<Rightarrow> 'j job_op list \<Rightarrow> 'j mem_store \<Rightarrow> bool" where
  "run_ok cd [] m \<longleftrightarrow> True"
| "run_ok cd (p # ps) m \<longleftrightarrow> op_ok cd p m \<and> run_ok cd ps (snd (run_op mem_api p m))"

lemma view_created:
  "sq_ok cd s \<Longrightarrow> list_all (\<lambda>(i, q). jr_created q \<le> t) (store_view cd s) \<longleftrightarrow>
   list_all (\<lambda>w. rw_created w \<le> t) (sq_rows s)"
  using row_ok_fields(3) [of cd] by (simp add: store_view_def list_all_iff sq_ok_def)

lemma op_commutes:
  assumes "sq_ok cd s" "in_order s" "op_ok cd p (store_view cd s)"
  shows "\<exists>out t. run_op (sqlite_api cd) p s = (out, t) \<and>
    run_op mem_api p (store_view cd s) = (out, store_view cd t) \<and> sq_ok cd t \<and> in_order t"
proof (cases p)
  case (OpCreate r)
  with create_commutes [OF assms(1,2), of r] assms view_created [OF assms(1)] show ?thesis
    by (auto simp: op_ok_def attempt_def sqlite_api_def mem_api_def)
next
  case (OpGet i)
  with assms get_commutes [OF assms(1), of i] show ?thesis
    by (auto simp: attempt_def sqlite_api_def mem_api_def mem_get_def)
next
  case OpPeek
  with assms peek_commutes [OF assms(1,2)] show ?thesis
    by (auto simp: attempt_def sqlite_api_def mem_api_def mem_peek_def)
next
  case (OpClaim ck)
  with claim_commutes [OF assms(1,2), of ck] show ?thesis
    by (auto simp: attempt_def sqlite_api_def mem_api_def)
next
  case (OpTransition ck i st u)
  with transition_commutes [OF assms(1), of u ck i st] assms show ?thesis
    by (auto simp: op_ok_def attempt_def sqlite_api_def mem_api_def split: sum.splits prod.splits)
next
  case (OpTouch ck i)
  with touch_commutes [OF assms(1), of ck i] assms(2) show ?thesis
    by (auto simp: attempt_def sqlite_api_def mem_api_def)
next
  case (OpDelete i)
  with delete_commutes [OF assms(1), of i] assms show ?thesis
    by (auto simp: attempt_def sqlite_api_def mem_api_def split: sum.splits prod.splits)
next
  case (OpEvict ck rt)
  with evict_commutes [OF assms(1,2), of ck rt] show ?thesis
    by (auto simp: attempt_def sqlite_api_def mem_api_def)
next
  case OpSnapshot
  with assms snapshot_commutes [OF assms(1)] show ?thesis
    by (auto simp: attempt_def sqlite_api_def mem_api_def mem_snapshot_counts_def)
qed

lemma runs_commute:
  assumes "sq_ok cd s" "in_order s" "run_ok cd ps (store_view cd s)"
  shows "\<exists>outs t. run_ops (sqlite_api cd) ps s = (outs, t) \<and>
    run_ops mem_api ps (store_view cd s) = (outs, store_view cd t) \<and> sq_ok cd t"
  using assms
proof (induction ps arbitrary: s)
  case (Cons p ps)
  have "op_ok cd p (store_view cd s)" using Cons.prems(3) by simp
  from op_commutes [OF Cons.prems(1,2) this] obtain out t where t:
    "run_op (sqlite_api cd) p s = (out, t)" "run_op mem_api p (store_view cd s) = (out, store_view cd t)"
    "sq_ok cd t" "in_order t" by blast
  from Cons.IH [OF t(3,4)] Cons.prems(3) t(2) obtain outs u where
    "run_ops (sqlite_api cd) ps t = (outs, u)" "run_ops mem_api ps (store_view cd t) = (outs, store_view cd u)"
    "sq_ok cd u" by auto
  with t show ?case by simp
qed simp

definition empty_sqlite :: sqlite where
  "empty_sqlite = \<lparr>sq_rows = [], sq_closed = False\<rparr>"

text \<open>C36: The two job stores are one store.  From empty, under any sequence of creations, reads,
  claims, transitions, touches, deletions, retention sweeps and counts in which created ids are
  fresh, creation stamps do not run backwards and summaries survive their JSON text, the SQLite
  store returns exactly what the in-memory store returns, operation by operation and error by
  error, and its rows read back to the in-memory dictionary.\<close>

theorem sqlite_refines_memory:
  assumes "run_ok cd ps []"
  shows "\<exists>outs t. run_ops (sqlite_api cd) ps empty_sqlite = (outs, t) \<and>
    run_ops mem_api ps [] = (outs, store_view cd t)"
proof -
  have "sq_ok cd empty_sqlite" "in_order empty_sqlite" "store_view cd empty_sqlite = []"
    by (simp_all add: sq_ok_def in_order_def store_view_def empty_sqlite_def)
  with runs_commute [of cd empty_sqlite ps] assms show ?thesis by auto
qed

definition sample_job :: "string \<Rightarrow> rat \<Rightarrow> string job_record" where
  "sample_job i t =
     \<lparr>jr_id = i, jr_status = Queued, jr_created_utc = ''now'', jr_started_utc = None, jr_completed_utc = None,
      jr_input_path = Some (''in/'' @ i), jr_output_path = None, jr_input_format = None, jr_params_json = None,
      jr_summary = None, jr_error = None, jr_sha = None, jr_bytes = None, jr_last_access = t,
      jr_created = t, jr_completed = None\<rparr>"

definition text_codec :: "string codec" where
  "text_codec = \<lparr>dumps = (\<lambda>s. s), loads = Some\<rparr>"

definition sample_clock :: clock where
  "sample_clock = \<lparr>ck_utc = ''later'', ck_unix = 9\<rparr>"

definition sample_done :: "string job_update" where
  "sample_done = \<lparr>ju_error = None, ju_summary = Some ''{}'', ju_output_path = Some ''out'', ju_sha = None, ju_bytes = None\<rparr>"

definition sample_run :: "string job_op list" where
  "sample_run = [OpCreate (sample_job ''a'' 1), OpCreate (sample_job ''b'' 1), OpClaim sample_clock,
     OpTransition sample_clock ''a'' Succeeded sample_done, OpTransition sample_clock ''a'' Running sample_done,
     OpPeek, OpEvict sample_clock \<lparr>rt_ttl = 100, rt_cap = 1, rt_skip = []\<rparr>, OpGet ''a'', OpDelete ''a'', OpSnapshot]"

theorem sqlite_refines_memory_witness:
  "\<exists>outs t. run_ops (sqlite_api text_codec) sample_run empty_sqlite = (outs, t) \<and>
    run_ops mem_api sample_run [] = (outs, store_view text_codec t) \<and>
    outs ! 4 = OutError (RuntimeError ''illegal job transition'') \<and> outs ! 5 = OutPeek (Some ''b'') \<and>
    outs ! 8 = OutError (KeyError ''a'') \<and> outs ! 9 = OutCounts (1, 0, 1)"
proof -
  have "run_ok text_codec sample_run []" by code_simp
  from sqlite_refines_memory [OF this] obtain outs t where r:
    "run_ops (sqlite_api text_codec) sample_run empty_sqlite = (outs, t)"
    "run_ops mem_api sample_run [] = (outs, store_view text_codec t)" by blast
  have "fst (run_ops mem_api sample_run []) ! 4 = OutError (RuntimeError ''illegal job transition'') \<and>
    fst (run_ops mem_api sample_run []) ! 5 = OutPeek (Some ''b'') \<and>
    fst (run_ops mem_api sample_run []) ! 8 = OutError (KeyError ''a'') \<and>
    fst (run_ops mem_api sample_run []) ! 9 = OutCounts (1, 0, 1)" by code_simp
  with r show ?thesis by simp
qed

text \<open>Where the two stores part.  Creating a job under the id of a finished one succeeds in the
  in-memory store, which puts the finished job back into the queue, and raises an integrity error
  in the SQLite store; and when the clock steps back between two submissions, the in-memory store
  serves the first one first and the SQLite store the one with the earlier stamp.\<close>

theorem stores_diverge:
  "fst (run_ops mem_api [OpCreate (sample_job ''a'' 1), OpClaim sample_clock,
       OpTransition sample_clock ''a'' Succeeded sample_done, OpCreate (sample_job ''a'' 2), OpPeek] []) ! 4 =
     OutPeek (Some ''a'') \<and>
   fst (run_ops (sqlite_api text_codec) [OpCreate (sample_job ''a'' 1), OpClaim sample_clock,
       OpTransition sample_clock ''a'' Succeeded sample_done, OpCreate (sample_job ''a'' 2), OpPeek] empty_sqlite) ! 3 =
     OutError (IntegrityError ''UNIQUE constraint failed: jobs.job_id'') \<and>
   fst (run_ops mem_api [OpCreate (sample_job ''a'' 2), OpCreate (sample_job ''b'' 1), OpPeek] []) ! 2 =
     OutPeek (Some ''a'') \<and>
   fst (run_ops (sqlite_api text_codec) [OpCreate (sample_job ''a'' 2), OpCreate (sample_job ''b'' 1), OpPeek] empty_sqlite) ! 2 =
     OutPeek (Some ''b'')"
  by code_simp

end
