(* ===== verification/StoreContract.thy ===== *)
theory StoreContract
  imports StoreRefinement
begin

text \<open>
  The contract of a job store, as the server runtime relies on it: a locale over the interface
  \<open>store_api\<close>, interpreted on both stores.  Its client lemmas bound what a run can do to a job;
  the crash recovery of the SQLite store is proved beside them.
\<close>

definition fresh_record :: "'j job_record \<Rightarrow> bool" where
  "fresh_record r \<longleftrightarrow> jr_completed_utc r = None \<and> jr_completed r = None"

definition claimed :: "clock \<Rightarrow> 'j job_record \<Rightarrow> 'j job_record" where
  "claimed ck r = r\<lparr>jr_status := Running, jr_started_utc := Some (ck_utc ck)\<rparr>"

definition touched :: "rat \<Rightarrow> 'j job_record \<Rightarrow> 'j job_record" where
  "touched t r = r\<lparr>jr_last_access := t\<rparr>"

locale job_store =
  fixes api :: "('j, 's) store_api"
    and inv :: "'s \<Rightarrow> bool"
    and look :: "'s \<Rightarrow> string \<Rightarrow> 'j job_record option"
    and summary_ok :: "'j option \<Rightarrow> bool"
  assumes key: "inv s \<Longrightarrow> look s i = Some r \<Longrightarrow> jr_id r = i"
    and finite_jobs: "inv s \<Longrightarrow> finite (dom (look s))"
    and get: "inv s \<Longrightarrow> api_get api i s = Inr (look s i)"
    and count: "inv s \<Longrightarrow>
      api_count api st s = Inr (card {i. \<exists>r. look s i = Some r \<and> jr_status r = st})"
    and peek: "inv s \<Longrightarrow> \<exists>out. api_peek api s = Inr out \<and>
      (case out of
         None \<Rightarrow> \<forall>i r. look s i = Some r \<longrightarrow> jr_status r \<noteq> Queued
       | Some i \<Rightarrow> \<exists>r. look s i = Some r \<and> jr_status r = Queued)"
    and create: "inv s \<Longrightarrow> look s (jr_id r) = None \<Longrightarrow> fresh_record r \<Longrightarrow> summary_ok (jr_summary r) \<Longrightarrow>
      \<exists>t. api_create api r s = Inr t \<and> inv t \<and> look t = (look s)(jr_id r \<mapsto> r\<lparr>jr_status := Queued\<rparr>)"
    and claim: "inv s \<Longrightarrow> \<exists>out t. api_claim api ck s = Inr (out, t) \<and> inv t \<and>
      (case out of
         None \<Rightarrow> t = s \<and> (\<forall>i r. look s i = Some r \<longrightarrow> jr_status r \<noteq> Queued)
       | Some r1 \<Rightarrow> \<exists>i r. look s i = Some r \<and> jr_status r = Queued \<and> r1 = claimed ck r \<and>
           look t = (look s)(i \<mapsto> r1))"
    and transition: "inv s \<Longrightarrow> summary_ok (ju_summary u) \<Longrightarrow>
      (case look s i of
         None \<Rightarrow> api_transition api ck i new u s = Inl (KeyError i)
       | Some r \<Rightarrow> (case moved_record ck new u r of
           Inl e \<Rightarrow> api_transition api ck i new u s = Inl e
         | Inr r1 \<Rightarrow> \<exists>t. api_transition api ck i new u s = Inr (r1, t) \<and> inv t \<and>
             look t = (look s)(i \<mapsto> r1)))"
    and touch: "inv s \<Longrightarrow> \<exists>t. api_touch api ck i s = Inr t \<and> inv t \<and>
      look t = (look s)(i := map_option (touched (ck_unix ck)) (look s i))"
    and delete: "inv s \<Longrightarrow>
      (case look s i of
         None \<Rightarrow> api_delete api i s = Inl (KeyError i)
       | Some r \<Rightarrow> \<exists>t. api_delete api i s = Inr (r, t) \<and> inv t \<and> look t = (look s)(i := None))"
    and evict: "inv s \<Longrightarrow> \<exists>out t. api_evict api ck rt s = Inr (out, t) \<and> inv t \<and>
      (\<forall>r\<in>set out. look s (jr_id r) = Some r \<and> terminal (jr_status r) \<and> jr_id r \<notin> set (rt_skip rt)) \<and>
      look t = (look s) |` (- jr_id ` set out)"

subsection \<open>Both stores keep it\<close>

definition mem_ok :: "'j mem_store \<Rightarrow> bool" where
  "mem_ok m \<longleftrightarrow> distinct (map fst m) \<and> list_all (\<lambda>(i, r). jr_id r = i) m"

lemma mem_ok_update: "mem_ok m \<Longrightarrow> jr_id r = i \<Longrightarrow> mem_ok (AList.update i r m)"
proof -
  assume m: "mem_ok m" "jr_id r = i"
  have "set (AList.update i r m) \<subseteq> insert (i, r) (set m)" by (induction m) auto
  with m show ?thesis by (auto simp: mem_ok_def list_all_iff AList.distinct_update)
qed

lemma mem_ok_delete: "mem_ok m \<Longrightarrow> mem_ok (AList.delete i m)"
  by (auto simp: mem_ok_def AList.delete_eq list_all_iff distinct_map inj_on_def)

lemma mem_key: "mem_ok m \<Longrightarrow> map_of m i = Some r \<Longrightarrow> jr_id r = i"
  by (auto simp: mem_ok_def list_all_iff dest: map_of_SomeD)

lemma mem_card:
  "distinct (map fst m) \<Longrightarrow>
   length (filter (\<lambda>(i, r). P r) m) = card {i. \<exists>r. map_of m i = Some r \<and> P r}"
proof -
  assume d: "distinct (map fst m)"
  have "{i. \<exists>r. map_of m i = Some r \<and> P r} = fst ` set (filter (\<lambda>(i, r). P r) m)"
    using d by (force simp: map_of_eq_Some_iff)
  also have "card (fst ` set (filter (\<lambda>(i, r). P r) m)) = length (map fst (filter (\<lambda>(i, r). P r) m))"
    using d by (subst set_map [symmetric], subst distinct_card) (auto simp: distinct_map inj_on_def)
  finally show ?thesis by simp
qed

lemma first_queued_Some: "first_queued m = Some r \<Longrightarrow> mem_ok m \<Longrightarrow> map_of m (jr_id r) = Some r \<and> jr_status r = Queued"
proof -
  assume a: "first_queued m = Some r" "mem_ok m"
  then obtain i where "find (\<lambda>(i, r). jr_status r = Queued) m = Some (i, r)"
    by (auto simp: first_queued_def)
  then have "(i, r) \<in> set m" "jr_status r = Queued" unfolding find_Some_iff by (metis nth_mem, auto)
  with a(2) show ?thesis by (auto simp: mem_ok_def list_all_iff)
qed

lemma first_queued_None: "first_queued m = None \<Longrightarrow> map_of m i = Some r \<Longrightarrow> jr_status r \<noteq> Queued"
  by (auto simp: first_queued_def find_None_iff dest: map_of_SomeD)

lemma mem_evict_effect:
  assumes "mem_ok m"
  shows "\<exists>out t. foldl (mem_evict_one ck rt) (doomed, m) ks = (doomed @ out, t) \<and> mem_ok t \<and>
    (\<forall>r\<in>set out. map_of m (jr_id r) = Some r \<and> terminal (jr_status r) \<and> jr_id r \<notin> set (rt_skip rt)) \<and>
    map_of t = map_of m |` (- jr_id ` set out)"
  using assms
proof (induction ks arbitrary: doomed m)
  case (Cons k ks)
  show ?case
  proof (cases "mem_evict_one ck rt (doomed, m) k = (doomed, m)")
    case True
    with Cons.IH [OF Cons.prems, of doomed] show ?thesis by simp
  next
    case False
    then obtain r where r: "map_of m k = Some r" "terminal (jr_status r)" "k \<notin> set (rt_skip rt)"
      "mem_evict_one ck rt (doomed, m) k = (doomed @ [r], AList.delete k m)"
      by (auto simp: mem_evict_one_def split: option.splits if_splits)
    have id: "jr_id r = k" using mem_key [OF Cons.prems r(1)] .
    from Cons.IH [OF mem_ok_delete [OF Cons.prems], of "doomed @ [r]" k] obtain out t where IH:
      "foldl (mem_evict_one ck rt) (doomed @ [r], AList.delete k m) ks = ((doomed @ [r]) @ out, t)" "mem_ok t"
      "\<forall>q\<in>set out. map_of (AList.delete k m) (jr_id q) = Some q \<and> terminal (jr_status q) \<and> jr_id q \<notin> set (rt_skip rt)"
      "map_of t = map_of (AList.delete k m) |` (- jr_id ` set out)" by blast
    have "foldl (mem_evict_one ck rt) (doomed, m) (k # ks) = (doomed @ (r # out), t)" using r(4) IH(1) by simp
    moreover have "\<forall>q\<in>set (r # out). map_of m (jr_id q) = Some q \<and> terminal (jr_status q) \<and> jr_id q \<notin> set (rt_skip rt)"
      using IH(3) r id by (auto simp: AList.delete_conv split: if_splits)
    moreover have "map_of t = map_of m |` (- jr_id ` set (r # out))"
      unfolding IH(4) by (auto simp: AList.delete_conv restrict_map_def id)
    ultimately show ?thesis using IH(2) by blast
  qed
next
  case Nil
  then show ?case by (intro exI [of _ "[]"] exI [of _ m]) simp
qed

interpretation memory: job_store mem_api mem_ok map_of "\<lambda>_. True"
proof (unfold_locales, goal_cases)
  case (1 s i r) then show ?case by (rule mem_key)
next
  case (2 s) show ?case by (rule finite_dom_map_of)
next
  case (3 s i) show ?case by (simp add: mem_api_def mem_get_def)
next
  case (4 s st) then show ?case
    by (simp add: mem_api_def mem_count_def mem_card mem_ok_def)
next
  case (5 s) then show ?case
    using first_queued_Some [of s] first_queued_None [of s]
    by (cases "first_queued s") (auto simp: mem_api_def mem_peek_def)
next
  case (6 s r)
  then show ?case by (auto simp: mem_api_def mem_create_def mem_ok_update AList.update_conv')
next
  case (7 s ck)
  show ?case
  proof (cases "first_queued s")
    case None
    with first_queued_None [OF None] 7 show ?thesis by (auto simp: mem_api_def mem_claim_def)
  next
    case (Some r)
    note q = first_queued_Some [OF Some 7]
    then have "mem_claim ck s = Inr (Some (claimed ck r), AList.update (jr_id r) (claimed ck r) s)"
      by (simp add: mem_claim_def Some transition_job_status_def claimed_def Let_def)
    moreover have "mem_ok (AList.update (jr_id r) (claimed ck r) s)"
      using 7 by (intro mem_ok_update) (simp_all add: claimed_def)
    ultimately show ?thesis using q by (auto simp: mem_api_def AList.update_conv')
  qed
next
  case (8 s u ck i new)
  show ?case
  proof (cases "map_of s i")
    case (Some r)
    have "jr_id r = i" using mem_key [OF 8(1) Some] .
    then have "moved_record ck new u r = Inr r1 \<Longrightarrow> mem_ok (AList.update i r1 s)" for r1
      using 8(1) moved_record_Inr [of ck new u r r1] by (intro mem_ok_update) simp_all
    with Some show ?thesis
      by (cases "moved_record ck new u r") (auto simp: mem_api_def mem_transition_def AList.update_conv')
  qed (simp add: mem_api_def mem_transition_def)
next
  case (9 s ck i)
  show ?case
  proof (cases "map_of s i")
    case (Some r)
    then have "mem_ok (AList.update i (touched (ck_unix ck) r) s)"
      using 9 mem_key [OF 9 Some] by (intro mem_ok_update) (simp_all add: touched_def)
    with Some show ?thesis by (simp add: mem_api_def mem_touch_def AList.update_conv' touched_def)
  qed (use 9 in \<open>auto simp: mem_api_def mem_touch_def\<close>)
next
  case (10 s i)
  then show ?case
    by (cases "map_of s i") (auto simp: mem_api_def mem_delete_def mem_ok_delete AList.delete_conv')
next
  case (11 s ck rt)
  from mem_evict_effect [OF 11, of ck rt "[]" "map fst s"] show ?case
    by (auto simp: mem_api_def mem_evict_def)
qed

subsection \<open>The SQLite store keeps it\<close>

definition sq_look :: "'j codec \<Rightarrow> sqlite \<Rightarrow> string \<Rightarrow> 'j job_record option" where
  "sq_look cd s = map_of (store_view cd s)"

lemma view_mem_ok: "sq_ok cd s \<Longrightarrow> mem_ok (store_view cd s)"
  using row_ok_fields(1) [of cd] by (simp add: mem_ok_def store_view_def list_all_iff sq_ok_def comp_def)

lemma sq_create_effect:
  assumes "sq_ok cd s" "sq_look cd s (jr_id r) = None" "fresh_record r" "storable cd (jr_summary r)"
  shows "\<exists>t. sq_create cd r s = Inr t \<and> sq_ok cd t \<and>
    sq_look cd t = (sq_look cd s)(jr_id r \<mapsto> r\<lparr>jr_status := Queued\<rparr>)"
proof -
  let ?r = "r\<lparr>jr_status := Queued\<rparr>"
  have r: "r\<lparr>jr_status := Queued, jr_completed_utc := None, jr_completed := None\<rparr> = ?r"
    using assms(3) by (cases r) (simp add: fresh_record_def)
  have none: "select_id (jr_id r) s = None" using assms(2) by (simp add: sq_look_def view_lookup)
  then have fresh: "jr_id r \<notin> rw_id ` set (sq_rows s)" unfolding select_id_def find_None_iff by auto
  have row: "row_ok cd (to_row cd ?r)" "record_of cd (to_row cd ?r) = ?r"
    using row_ok_to_row [of cd ?r] assms(4) by simp_all
  have id: "rw_id (to_row cd ?r) = jr_id r" by (simp add: to_row_def)
  let ?t = "s\<lparr>sq_rows := sq_rows s @ [to_row cd ?r]\<rparr>"
  have "sq_create cd r s = Inr ?t" using assms(1) none by (simp add: sq_create_def r Let_def)
  moreover have "sq_ok cd ?t" using assms(1) fresh row(1) id by (auto simp: sq_ok_def)
  moreover have "store_view cd ?t = AList.update (jr_id r) ?r (store_view cd s)"
    using fresh row(2) id by (simp add: store_view_def update_fresh image_image)
  ultimately show ?thesis by (auto simp: sq_look_def AList.update_conv')
qed

lemma sq_sweep_effect:
  assumes "sq_ok cd s" "distinct (map rw_id ws)" "set ws \<subseteq> set (sq_rows s)" "list_all closed_row ws"
  shows "\<exists>out k t. foldE (sq_evict_one cd ck rt) ((doomed, n), s) ws = Inr ((doomed @ out, k), t) \<and> sq_ok cd t \<and>
    (\<forall>r\<in>set out. sq_look cd s (jr_id r) = Some r \<and> terminal (jr_status r) \<and> jr_id r \<notin> set (rt_skip rt)) \<and>
    sq_look cd t = sq_look cd s |` (- jr_id ` set out)"
  using assms
proof (induction ws arbitrary: doomed n s)
  case (Cons w ws)
  have w: "w \<in> set (sq_rows s)" "row_ok cd w" using Cons.prems(1,3) row_of_mem by auto
  have sel: "select_id (rw_id w) s = Some w" using w(1) Cons.prems(1) by (simp add: select_id_iff sq_ok_def)
  have rec: "to_record cd w = Inr (record_of cd w)" "jr_id (record_of cd w) = rw_id w"
    using select_to_record [OF Cons.prems(1) sel] by simp_all
  let ?r = "record_of cd w" and ?s = "delete_id (rw_id w) s"
  have look: "sq_look cd s (rw_id w) = Some ?r" using sel by (simp add: sq_look_def view_lookup)
  have clsd: "terminal (jr_status ?r)" using Cons.prems(4) closed_row_terminal [OF w(2)] by simp
  have rest: "distinct (map rw_id ws)" "list_all closed_row ws" "set ws \<subseteq> set (sq_rows s)" using Cons.prems by auto
  show ?case
  proof (cases "sq_evict_one cd ck rt ((doomed, n), s) w = Inr ((doomed, n), s)")
    case True
    with Cons.IH [OF Cons.prems(1) rest(1,3,2), of doomed n] show ?thesis by simp
  next
    case False
    then have hit: "rw_id w \<notin> set (rt_skip rt)"
      "sq_evict_one cd ck rt ((doomed, n), s) w = Inr ((doomed @ [?r], n - 1), ?s)"
      using rec by (auto simp: sq_evict_one_def split: if_splits)
    have "\<forall>x\<in>set ws. rw_id x \<noteq> rw_id w" using Cons.prems(2) by (auto simp: image_iff)
    then have sub: "set ws \<subseteq> set (sq_rows ?s)" using rest(3) by (auto simp: delete_id_def)
    have del: "sq_look cd ?s = (sq_look cd s)(rw_id w := None)" by (simp add: sq_look_def view_delete AList.delete_conv')
    from Cons.IH [OF ok_delete [OF Cons.prems(1)] rest(1) sub rest(2), of "doomed @ [?r]" "n - 1"] obtain out k t where IH:
      "foldE (sq_evict_one cd ck rt) ((doomed @ [?r], n - 1), ?s) ws = Inr (((doomed @ [?r]) @ out, k), t)" "sq_ok cd t"
      "\<forall>q\<in>set out. sq_look cd ?s (jr_id q) = Some q \<and> terminal (jr_status q) \<and> jr_id q \<notin> set (rt_skip rt)"
      "sq_look cd t = sq_look cd ?s |` (- jr_id ` set out)" by blast
    have "foldE (sq_evict_one cd ck rt) ((doomed, n), s) (w # ws) = Inr ((doomed @ (?r # out), k), t)"
      using hit(2) IH(1) by simp
    moreover have "\<forall>q\<in>set (?r # out). sq_look cd s (jr_id q) = Some q \<and> terminal (jr_status q) \<and> jr_id q \<notin> set (rt_skip rt)"
      using IH(3) look clsd hit(1) rec(2) unfolding del by (auto split: if_splits)
    moreover have "sq_look cd t = sq_look cd s |` (- jr_id ` set (?r # out))"
      unfolding IH(4) del by (auto simp: restrict_map_def rec(2))
    ultimately show ?thesis using IH(2) by blast
  qed
next
  case Nil
  then show ?case by (intro exI [of _ "[]"] exI [of _ n] exI [of _ s]) simp
qed

lemma sq_evict_effect:
  assumes "sq_ok cd s"
  shows "\<exists>out t. sq_evict cd ck rt s = Inr (out, t) \<and> sq_ok cd t \<and>
    (\<forall>r\<in>set out. sq_look cd s (jr_id r) = Some r \<and> terminal (jr_status r) \<and> jr_id r \<notin> set (rt_skip rt)) \<and>
    sq_look cd t = sq_look cd s |` (- jr_id ` set out)"
proof -
  let ?ws = "sort_key rw_created (filter closed_row (sq_rows s))"
  have "distinct (map rw_id (filter closed_row (sq_rows s)))"
    using assms by (auto simp: sq_ok_def distinct_map inj_on_def)
  then have "distinct (filter closed_row (sq_rows s))" "inj_on rw_id (set (filter closed_row (sq_rows s)))"
    by (simp_all only: distinct_map)
  then have "distinct (map rw_id ?ws)" unfolding distinct_map set_sort by simp
  from sq_sweep_effect [OF assms this, of ck rt "[]" "int (length (sq_rows s))"] obtain out k t where
    "foldE (sq_evict_one cd ck rt) (([], int (length (sq_rows s))), s) ?ws = Inr ((out, k), t)" "sq_ok cd t"
    "(\<forall>r\<in>set out. sq_look cd s (jr_id r) = Some r \<and> terminal (jr_status r) \<and> jr_id r \<notin> set (rt_skip rt))"
    "sq_look cd t = sq_look cd s |` (- jr_id ` set out)"
    by (auto simp: list_all_iff)
  then show ?thesis using assms by (simp add: sq_evict_def closed_row_def [abs_def])
qed

lemma no_oldest:
  assumes "sq_ok cd s" "oldest_queued s = None"
  shows "\<forall>i r. sq_look cd s i = Some r \<longrightarrow> jr_status r \<noteq> Queued"
proof -
  have "select_status Queued s = []"
    using assms(2) by (auto simp: oldest_queued_def split: list.splits) (metis set_empty set_sort)
  then have "filter (\<lambda>(i, r). jr_status r = Queued) (store_view cd s) = []"
    using view_counts(1) [OF assms(1), of Queued] by simp
  then show ?thesis by (auto simp: sq_look_def filter_empty_conv dest: map_of_SomeD)
qed

interpretation durable: job_store "sqlite_api cd" "sq_ok cd" "sq_look cd" "storable cd" for cd
proof (unfold_locales, goal_cases)
  case (1 s i r) then show ?case using mem_key [OF view_mem_ok] by (simp add: sq_look_def)
next
  case (2 s) show ?case unfolding sq_look_def by (rule finite_dom_map_of)
next
  case (3 s i) then show ?case by (simp add: sqlite_api_def get_commutes mem_get_def sq_look_def)
next
  case (4 s st)
  then show ?case
    using view_counts(1) [OF 4, of st] view_mem_ok [OF 4] mem_card [of "store_view cd s" "\<lambda>r. jr_status r = st"]
    unfolding sq_look_def mem_ok_def by (simp add: sqlite_api_def sq_count_def)
next
  case (5 s)
  show ?case
  proof (cases "oldest_queued s")
    case None
    with 5 no_oldest [OF 5 None] show ?thesis by (simp add: sqlite_api_def sq_peek_def)
  next
    case (Some w)
    from claim_effect [OF 5 Some, of undefined] have "sq_look cd s (rw_id w) = Some (record_of cd w)"
      "jr_status (record_of cd w) = Queued" by (auto simp: sq_look_def view_lookup)
    with 5 Some show ?thesis by (simp add: sqlite_api_def sq_peek_def)
  qed
next
  case (6 s r) then show ?case using sq_create_effect [of cd s r] by (simp add: sqlite_api_def)
next
  case (7 s ck)
  show ?case
  proof (cases "oldest_queued s")
    case None
    with 7 no_oldest [OF 7 None] show ?thesis by (simp add: sqlite_api_def sq_claim_def)
  next
    case (Some w)
    from claim_effect [OF 7 Some, of ck] obtain t where
      "sq_claim cd ck s = Inr (Some (claimed ck (record_of cd w)), t)" "jr_status (record_of cd w) = Queued"
      "sq_look cd s (rw_id w) = Some (record_of cd w)" "sq_ok cd t"
      "sq_look cd t = (sq_look cd s)(rw_id w \<mapsto> claimed ck (record_of cd w))"
      by (auto simp: claimed_def sq_look_def view_lookup AList.update_conv')
    then show ?thesis by (auto simp: sqlite_api_def)
  qed
next
  case (8 s u ck i new)
  show ?case
  proof (cases "sq_transition cd ck i new u s")
    case (Inl e)
    with transition_commutes [OF 8, of ck i new] show ?thesis
      by (cases "sq_look cd s i")
        (auto simp: sqlite_api_def sq_look_def mem_transition_def ebind_def split: sum.splits)
  next
    case (Inr rt)
    obtain r t where rt: "rt = (r, t)" by (cases rt)
    with Inr transition_commutes [OF 8, of ck i new]
    have m: "mem_transition ck i new u (store_view cd s) = Inr (r, store_view cd t)" "sq_ok cd t" by simp_all
    then obtain q where q: "sq_look cd s i = Some q" "moved_record ck new u q = Inr r"
      "store_view cd t = AList.update i r (store_view cd s)"
      by (auto simp: mem_transition_def sq_look_def ebind_eq_Inr split: option.splits)
    then have "sq_look cd t = (sq_look cd s)(i \<mapsto> r)" by (simp add: sq_look_def AList.update_conv')
    with q(1,2) m(2) Inr rt show ?thesis by (simp add: sqlite_api_def)
  qed
next
  case (9 s ck i)
  from touch_commutes [OF 9, of ck i] show ?case
    by (cases "sq_look cd s i")
      (auto simp: sqlite_api_def sq_look_def mem_touch_def touched_def fun_upd_idem AList.update_conv'
        dest!: arg_cong [of "AList.update _ _ _" _ map_of] split: option.splits)
next
  case (10 s i)
  from delete_commutes [OF 10, of i] show ?case
    by (cases "sq_look cd s i"; cases "sq_delete cd i s")
      (auto simp: sqlite_api_def sq_look_def mem_delete_def AList.delete_conv'
        dest!: arg_cong [of "AList.delete _ _" _ map_of])
next
  case (11 s ck rt)
  from sq_evict_effect [OF 11, of ck rt] show ?case by (simp add: sqlite_api_def)
qed

subsection \<open>What a run can do to a job\<close>

text \<open>What a client guarantees of its operations, over any store.\<close>

definition client_ok :: "('j option \<Rightarrow> bool) \<Rightarrow> ('s \<Rightarrow> string \<Rightarrow> 'j job_record option) \<Rightarrow> 's \<Rightarrow> 'j job_op \<Rightarrow> bool" where
  "client_ok summary_ok look s p =
     (case p of
        OpCreate r \<Rightarrow> look s (jr_id r) = None \<and> fresh_record r \<and> summary_ok (jr_summary r)
      | OpTransition ck i st u \<Rightarrow> summary_ok (ju_summary u)
      | _ \<Rightarrow> True)"

fun client_run ::
    "('j option \<Rightarrow> bool) \<Rightarrow> ('s \<Rightarrow> string \<Rightarrow> 'j job_record option) \<Rightarrow> ('j, 's) store_api \<Rightarrow>
     's \<Rightarrow> 'j job_op list \<Rightarrow> bool" where
  "client_run summary_ok look api s [] \<longleftrightarrow> True"
| "client_run summary_ok look api s (p # ps) \<longleftrightarrow>
     client_ok summary_ok look s p \<and> client_run summary_ok look api (snd (run_op api p s)) ps"

definition created_ids :: "'j job_op list \<Rightarrow> string set" where
  "created_ids ps = {jr_id r | r. OpCreate r \<in> set ps}"

text \<open>One operation moves a job along the transition table, refreshes its access time, or removes it.\<close>

definition legal_change :: "'j job_record option \<Rightarrow> 'j job_record option \<Rightarrow> bool" where
  "legal_change a b =
     (case (a, b) of
        (None, None) \<Rightarrow> True
      | (None, Some q) \<Rightarrow> jr_status q = Queued
      | (Some r, None) \<Rightarrow> True
      | (Some r, Some q) \<Rightarrow> (\<exists>t. q = touched t r) \<or> jr_status q \<in> set (job_transitions (jr_status r)))"

lemma touched_self: "\<exists>t. r = touched t r"
  by (intro exI [of _ "jr_last_access r"]) (simp add: touched_def)

lemma legal_gone [simp]: "legal_change a None"
  by (cases a) (simp_all add: legal_change_def)

lemma legal_touch [simp]: "legal_change (Some r) (Some (touched t r))"
  by (auto simp: legal_change_def)

lemma legal_same [simp]: "legal_change a a"
  by (cases a) (auto simp: legal_change_def touched_self)

definition made_by :: "'j job_op \<Rightarrow> string \<Rightarrow> bool" where
  "made_by p i \<longleftrightarrow> (case p of OpCreate r \<Rightarrow> jr_id r = i | _ \<Rightarrow> False)"

context job_store
begin

lemma op_legal:
  assumes "inv s" "client_ok summary_ok look s p"
  shows "inv (snd (run_op api p s)) \<and> legal_change (look s i) (look (snd (run_op api p s)) i) \<and>
    (look s i = None \<longrightarrow> look (snd (run_op api p s)) i = None \<or> made_by p i)"
proof (cases p)
  case (OpCreate r)
  with assms create [OF assms(1), of r] obtain t where
    "api_create api r s = Inr t" "inv t" "look t = (look s)(jr_id r \<mapsto> r\<lparr>jr_status := Queued\<rparr>)" "look s (jr_id r) = None"
    by (auto simp: client_ok_def)
  then show ?thesis
    by (cases "i = jr_id r") (simp_all add: OpCreate attempt_def legal_change_def made_by_def)
next
  case (OpGet j)
  with assms get [OF assms(1), of j] show ?thesis by (simp add: attempt_def)
next
  case OpPeek
  with assms peek [OF assms(1)] show ?thesis by (auto simp: attempt_def)
next
  case (OpClaim ck)
  from claim [OF assms(1), of ck] obtain out t where t: "api_claim api ck s = Inr (out, t)" "inv t"
    "case out of None \<Rightarrow> t = s \<and> (\<forall>i r. look s i = Some r \<longrightarrow> jr_status r \<noteq> Queued)
     | Some r1 \<Rightarrow> \<exists>i r. look s i = Some r \<and> jr_status r = Queued \<and> r1 = claimed ck r \<and> look t = (look s)(i \<mapsto> r1)"
    by blast
  have "legal_change (look s i) (look t i) \<and> (look s i = None \<longrightarrow> look t i = None)"
  proof (cases out)
    case (Some r1)
    with t(3) obtain j r where j: "look s j = Some r" "jr_status r = Queued" "look t = (look s)(j \<mapsto> claimed ck r)" by auto
    then show ?thesis by (cases "i = j") (auto simp: legal_change_def claimed_def)
  qed (use t in auto)
  with OpClaim t show ?thesis by (simp add: attempt_def)
next
  case (OpTransition ck j st u)
  have u: "summary_ok (ju_summary u)" using assms(2) OpTransition by (simp add: client_ok_def)
  show ?thesis
  proof (cases "look s j")
    case None
    with OpTransition assms transition [OF assms(1) u, of ck j st] show ?thesis by (simp add: attempt_def)
  next
    case (Some r)
    show ?thesis
    proof (cases "moved_record ck st u r")
      case (Inl e)
      with Some OpTransition assms transition [OF assms(1) u, of ck j st] show ?thesis by (simp add: attempt_def)
    next
      case (Inr r1)
      with Some transition [OF assms(1) u, of ck j st] obtain t where
        "api_transition api ck j st u s = Inr (r1, t)" "inv t" "look t = (look s)(j \<mapsto> r1)" by auto
      with Some OpTransition moved_record_Inr [OF Inr] show ?thesis
        by (cases "i = j") (simp_all add: attempt_def legal_change_def touched_self split: option.split)
    qed
  qed
next
  case (OpTouch ck j)
  from touch [OF assms(1), of ck j] OpTouch show ?thesis
    by (cases "look s j"; cases "i = j") (auto simp: attempt_def)
next
  case (OpDelete j)
  from delete [OF assms(1), of j] OpDelete assms(1) show ?thesis
    by (cases "look s j"; cases "i = j") (auto simp: attempt_def)
next
  case (OpEvict ck rt)
  from evict [OF assms(1), of ck rt] OpEvict show ?thesis
    by (auto simp: attempt_def restrict_map_def)
next
  case OpSnapshot
  with assms(1) show ?thesis by (cases "api_snapshot api s") (simp_all add: attempt_def)
qed

lemma run_inv: "inv s \<Longrightarrow> client_run summary_ok look api s ps \<Longrightarrow> inv (snd (run_ops api ps s))"
proof (induction ps arbitrary: s)
  case (Cons p ps)
  then have "inv (snd (run_op api p s))" using op_legal by simp
  from Cons.IH [OF this] Cons.prems(2) show ?case by (auto split: prod.splits)
qed simp

text \<open>A finished job is final: it stays as it finished, up to its access time, or is gone.\<close>

lemma finished_final:
  assumes "inv s" "client_run summary_ok look api s ps" "i \<notin> created_ids ps"
    and "look s i = None \<or> (\<exists>t. look s i = Some (touched t r))" "terminal (jr_status r)"
  shows "look (snd (run_ops api ps s)) i = None \<or> (\<exists>t. look (snd (run_ops api ps s)) i = Some (touched t r))"
  using assms(1-4)
proof (induction ps arbitrary: s)
  case (Cons p ps)
  let ?s = "snd (run_op api p s)"
  have step: "inv ?s" "legal_change (look s i) (look ?s i)" using op_legal Cons.prems(1,2) by simp_all
  have created: "i \<notin> created_ids ps" "\<And>q. p = OpCreate q \<Longrightarrow> jr_id q \<noteq> i"
    using Cons.prems(3) by (auto simp: created_ids_def)
  have "look ?s i = None \<or> (\<exists>t. look ?s i = Some (touched t r))"
  proof (cases "look s i")
    case (Some q)
    then obtain t where q: "q = touched t r" using Cons.prems(4) by auto
    have "job_transitions (jr_status q) = []" using assms(5) terminal_final by (simp add: q touched_def)
    with step(2) Some show ?thesis
      by (cases "look ?s i") (auto simp: legal_change_def q touched_def)
  next
    case None
    moreover have "\<not> made_by p i" using created(2) by (auto simp: made_by_def split: job_op.splits)
    ultimately show ?thesis using op_legal [OF Cons.prems(1), of p i] Cons.prems(2) by simp
  qed
  from Cons.IH [OF step(1) _ created(1) this] Cons.prems(2) show ?case by (auto split: prod.splits)
qed simp

end

subsection \<open>Crash recovery\<close>

definition closed_record :: "clock \<Rightarrow> job_status \<Rightarrow> string \<Rightarrow> 'j job_record \<Rightarrow> 'j job_record" where
  "closed_record ck st msg r =
     r\<lparr>jr_status := st, jr_completed_utc := Some (ck_utc ck), jr_completed := Some (ck_unix ck), jr_error := Some msg\<rparr>"

lemma to_row_closed:
  "to_row cd (closed_record ck st msg r) = (to_row cd r)\<lparr>rw_status := status_value st,
     rw_completed_utc := Some (ck_utc ck), rw_completed := Some (ck_unix ck), rw_error := Some msg\<rparr>"
  by (simp add: to_row_def closed_record_def)

lemma close_row_effect:
  assumes "sq_ok cd s"
  shows "sq_ok cd (close_row ck st msg i s) \<and>
    sq_look cd (close_row ck st msg i s) =
      (sq_look cd s)(i := map_option (closed_record ck st msg) (sq_look cd s i))"
proof -
  let ?f = "\<lambda>v. v\<lparr>rw_status := status_value st, rw_completed_utc := Some (ck_utc ck),
    rw_completed := Some (ck_unix ck), rw_error := Some msg\<rparr>"
  have f: "row_ok cd (?f v) \<and> record_of cd (?f v) = closed_record ck st msg (record_of cd v)" if ok: "row_ok cd v" for v
  proof -
    have r: "to_row cd (record_of cd v) = v" "storable cd (jr_summary (record_of cd v))"
      using ok by (auto elim: row_okE)
    then have "?f v = to_row cd (closed_record ck st msg (record_of cd v))" by (simp add: to_row_closed)
    moreover have "storable cd (jr_summary (closed_record ck st msg (record_of cd v)))"
      using r(2) by (simp add: closed_record_def)
    ultimately show ?thesis using row_ok_to_row by metis
  qed
  have "sq_ok cd (close_row ck st msg i s)"
    unfolding close_row_def using assms f by (intro ok_update_rows) (simp_all add: row_of_mem)
  moreover have "sq_look cd (close_row ck st msg i s) =
      (sq_look cd s)(i := map_option (closed_record ck st msg) (sq_look cd s i))"
  proof (cases "select_id i s")
    case None
    then have "close_row ck st msg i s = s"
      by (auto simp: close_row_def select_id_def find_None_iff update_rows_def intro!: sqlite.equality map_idI)
    with None show ?thesis by (simp add: sq_look_def view_lookup fun_upd_idem)
  next
    case (Some w)
    have "row_ok cd w" "rw_id w = i" using select_id_Some [OF Some] row_of_mem [OF assms] by auto
    with view_update_rows [OF assms Some, of ?f "\<lambda>v. rw_id v = i"] f [of w] Some show ?thesis
      by (simp add: close_row_def sq_look_def view_lookup AList.update_conv')
  qed
  ultimately show ?thesis by blast
qed

lemma close_rows_effect:
  assumes "sq_ok cd s"
  shows "sq_ok cd (foldl (\<lambda>t i. close_row ck st msg i t) s ids) \<and>
    sq_look cd (foldl (\<lambda>t i. close_row ck st msg i t) s ids) i =
      (if i \<in> set ids then map_option (closed_record ck st msg) (sq_look cd s i) else sq_look cd s i)"
  using assms
proof (induction ids arbitrary: s)
  case (Cons k ids)
  note eff = close_row_effect [OF Cons.prems, of ck st msg k]
  have twice: "closed_record ck st msg (closed_record ck st msg r) = closed_record ck st msg r" for r :: "'a job_record"
    by (simp add: closed_record_def)
  from Cons.IH [of "close_row ck st msg k s"] eff show ?case
    by (auto simp: option.map_comp comp_def twice)
qed simp

definition recovered :: "clock \<Rightarrow> (string \<Rightarrow> bool) \<Rightarrow> 'j job_record \<Rightarrow> 'j job_record" where
  "recovered ck is_file r =
     (if jr_status r = Running then closed_record ck Failed restart_error r
      else if jr_status r = Queued \<and> missing_input is_file (jr_input_path r)
      then closed_record ck Cancelled ''durable input is missing after restart; job cannot run'' r
      else r)"

lemma select_status_ids:
  assumes "sq_ok cd s"
  shows "i \<in> rw_id ` set (select_status st s) \<longleftrightarrow> (\<exists>r. sq_look cd s i = Some r \<and> jr_status r = st)"
proof
  assume "i \<in> rw_id ` set (select_status st s)"
  then obtain w where w: "w \<in> set (sq_rows s)" "rw_id w = i" "rw_status w = status_value st"
    by (auto simp: select_status_def)
  then have "select_id i s = Some w" using assms by (simp add: select_id_iff sq_ok_def)
  moreover have "jr_status (record_of cd w) = st"
    using row_ok_fields(2) [OF row_of_mem [OF assms w(1)]] w(3) by (simp add: status_value_inj)
  ultimately show "\<exists>r. sq_look cd s i = Some r \<and> jr_status r = st" by (simp add: sq_look_def view_lookup)
next
  assume "\<exists>r. sq_look cd s i = Some r \<and> jr_status r = st"
  then obtain w where w: "select_id i s = Some w" "jr_status (record_of cd w) = st"
    by (auto simp: sq_look_def view_lookup)
  then have "w \<in> set (sq_rows s)" "rw_id w = i" using select_id_Some by blast+
  with w row_ok_fields(2) [OF row_of_mem [OF assms]] show "i \<in> rw_id ` set (select_status st s)"
    by (auto simp: select_status_def)
qed

lemma recover_effect:
  assumes "sq_ok cd s"
  shows "\<exists>failed cancelled t. sq_recover cd ck is_file s = Inr ((failed, cancelled), t) \<and> sq_ok cd t \<and>
    (\<forall>i. sq_look cd t i = map_option (recovered ck is_file) (sq_look cd s i)) \<and>
    set failed = {i. \<exists>r. sq_look cd s i = Some r \<and> jr_status r = Running} \<and>
    set cancelled = {i. \<exists>r. sq_look cd s i = Some r \<and> jr_status r = Queued \<and>
      missing_input is_file (jr_input_path r)}"
proof -
  let ?failed = "map rw_id (select_status Running s)"
  let ?s1 = "foldl (\<lambda>t i. close_row ck Failed restart_error i t) s ?failed"
  have s1: "sq_ok cd ?s1" and look1: "\<And>i. sq_look cd ?s1 i = (if i \<in> set ?failed
      then map_option (closed_record ck Failed restart_error) (sq_look cd s i) else sq_look cd s i)"
    using close_rows_effect [OF assms] by simp_all
  have failed: "i \<in> set ?failed \<longleftrightarrow> (\<exists>r. sq_look cd s i = Some r \<and> jr_status r = Running)" for i
    using select_status_ids [OF assms, of i Running] by simp
  have queued1: "(sq_look cd ?s1 i = Some r \<and> jr_status r = Queued) \<longleftrightarrow> (sq_look cd s i = Some r \<and> jr_status r = Queued)" for i r
    unfolding look1 using failed by (auto simp: closed_record_def)
  let ?q = "select_status Queued ?s1"
  have sub: "w \<in> set ?q \<Longrightarrow> row_ok cd w" for w using row_of_mem [OF s1] by (auto simp: select_status_def)
  have recs: "mapE (to_record cd) ?q = Inr (map (record_of cd) ?q)"
    using sub by (intro mapE_Inr) (auto elim: row_okE)
  let ?cancelled = "map jr_id (filter (\<lambda>r. missing_input is_file (jr_input_path r)) (map (record_of cd) ?q))"
  have cancelled: "i \<in> set ?cancelled \<longleftrightarrow>
      (\<exists>r. sq_look cd s i = Some r \<and> jr_status r = Queued \<and> missing_input is_file (jr_input_path r))" for i
  proof
    assume "i \<in> set ?cancelled"
    then obtain w where w: "w \<in> set ?q" "jr_id (record_of cd w) = i" "missing_input is_file (jr_input_path (record_of cd w))"
      by auto
    have "rw_id w = i" using row_ok_fields(1) [OF sub [OF w(1)]] w(2) by simp
    moreover have "select_id (rw_id w) ?s1 = Some w"
      using w(1) s1 by (simp add: select_id_iff sq_ok_def select_status_def)
    moreover have "jr_status (record_of cd w) = Queued"
      using row_ok_fields(2) [OF sub [OF w(1)]] w(1) status_value_inj [of _ Queued] by (simp add: select_status_def)
    ultimately show "\<exists>r. sq_look cd s i = Some r \<and> jr_status r = Queued \<and> missing_input is_file (jr_input_path r)"
      using w(3) queued1 [of i "record_of cd w"] by (simp add: sq_look_def view_lookup) blast
  next
    assume "\<exists>r. sq_look cd s i = Some r \<and> jr_status r = Queued \<and> missing_input is_file (jr_input_path r)"
    then obtain r where r: "sq_look cd ?s1 i = Some r" "jr_status r = Queued" "missing_input is_file (jr_input_path r)"
      using queued1 by blast
    then obtain w where w: "select_id i ?s1 = Some w" "r = record_of cd w" by (auto simp: sq_look_def view_lookup)
    have mem: "w \<in> set (sq_rows ?s1)" "rw_id w = i" using select_id_Some [OF w(1)] by simp_all
    have "w \<in> set ?q" using mem row_ok_fields(2) [OF row_of_mem [OF s1 mem(1)]] r(2) w(2) by (simp add: select_status_def)
    moreover have "jr_id (record_of cd w) = i" using row_ok_fields(1) [OF row_of_mem [OF s1 mem(1)]] mem(2) by simp
    ultimately show "i \<in> set ?cancelled" using r(3) w(2) by force
  qed
  let ?t = "foldl (\<lambda>t i. close_row ck Cancelled ''durable input is missing after restart; job cannot run'' i t) ?s1 ?cancelled"
  note eff = close_rows_effect [OF s1, of ck Cancelled "''durable input is missing after restart; job cannot run''" ?cancelled]
  have "sq_look cd ?t i = map_option (recovered ck is_file) (sq_look cd s i)" for i
  proof (cases "sq_look cd s i")
    case None
    then show ?thesis using eff [of i] look1 [of i] by simp
  next
    case (Some r)
    have "i \<in> set ?failed \<longleftrightarrow> jr_status r = Running"
      "i \<in> set ?cancelled \<longleftrightarrow> jr_status r = Queued \<and> missing_input is_file (jr_input_path r)"
      using failed [of i] cancelled [of i] Some by simp_all
    then show ?thesis using eff [of i] look1 [of i] Some by (auto simp: recovered_def)
  qed
  moreover have "sq_recover cd ck is_file s = Inr ((?failed, ?cancelled), ?t)"
    using assms recs by (simp add: sq_recover_def Let_def)
  moreover have "sq_ok cd ?t" using eff by simp
  ultimately show ?thesis using failed cancelled by (intro exI [of _ ?failed] exI [of _ ?cancelled] exI [of _ ?t]) blast
qed

lemma recovered_status:
  "jr_status (recovered ck f r) \<noteq> Running"
  "jr_status (recovered ck f r) = Queued \<Longrightarrow> recovered ck f r = r \<and> \<not> missing_input f (jr_input_path r)"
  "terminal (jr_status r) \<Longrightarrow> recovered ck f r = r"
  "jr_status r = Running \<Longrightarrow> jr_status (recovered ck f r) = Failed"
  "jr_status r = Queued \<Longrightarrow> missing_input f (jr_input_path r) \<Longrightarrow> jr_status (recovered ck f r) = Cancelled"
  by (auto simp: recovered_def closed_record_def terminal_def split: if_splits)

lemma recover_again:
  assumes "sq_ok cd s" "sq_recover cd ck is_file s = Inr ((failed, cancelled), t)"
  shows "sq_recover cd ck2 is_file t = Inr (([], []), t)"
proof -
  from recover_effect [OF assms(1), of ck is_file] assms(2) have t: "sq_ok cd t"
    "\<And>i. sq_look cd t i = map_option (recovered ck is_file) (sq_look cd s i)" by auto
  have none: "jr_status r \<noteq> Running" "jr_status r = Queued \<Longrightarrow> \<not> missing_input is_file (jr_input_path r)"
    if look: "sq_look cd t i = Some r" for i r
  proof -
    obtain q where "r = recovered ck is_file q" using look t(2) [of i] by auto
    then show "jr_status r \<noteq> Running" "jr_status r = Queued \<Longrightarrow> \<not> missing_input is_file (jr_input_path r)"
      using recovered_status(1,2) [of ck is_file q] by auto
  qed
  from recover_effect [OF t(1), of ck2 is_file] obtain failed2 cancelled2 u where u:
    "sq_recover cd ck2 is_file t = Inr ((failed2, cancelled2), u)"
    "set failed2 = {i. \<exists>r. sq_look cd t i = Some r \<and> jr_status r = Running}"
    "set cancelled2 = {i. \<exists>r. sq_look cd t i = Some r \<and> jr_status r = Queued \<and>
      missing_input is_file (jr_input_path r)}" by blast
  have "set failed2 = {}" "set cancelled2 = {}" unfolding u(2,3) using none by blast+
  then have e: "failed2 = []" "cancelled2 = []" by simp_all
  have "u = t"
    using u(1) t(1) unfolding e by (auto simp: sq_recover_def Let_def ebind_eq_Inr)
  with u(1) e show ?thesis by simp
qed


definition crash_run :: "string job_op list" where
  "crash_run = [OpCreate (sample_job ''b'' 1), OpClaim sample_clock, OpCreate (sample_job ''c'' 2)]"


text \<open>Finished jobs stay finished across a restart.  Take any client run on the durable store, a
  crash, recovery, and any further client run.  A job that had finished before the crash is at the
  end exactly as it finished, up to its access time, or has been removed; a job that was running is
  at the end failed with the restart error, or removed.  Neither is ever queued or run again unless
  a new job is created under its id.\<close>

theorem restart_preserves_history:
  assumes "client_run (storable cd) (sq_look cd) (sqlite_api cd) empty_sqlite ps"
    and "s = snd (run_ops (sqlite_api cd) ps empty_sqlite)"
    and "sq_recover cd ck is_file s = Inr (report, t)"
    and "client_run (storable cd) (sq_look cd) (sqlite_api cd) t qs"
    and "u = snd (run_ops (sqlite_api cd) qs t)"
    and "i \<notin> created_ids qs" "sq_look cd s i = Some r" "terminal (jr_status r) \<or> jr_status r = Running"
  shows "sq_look cd u i = None \<or>
    (\<exists>a. sq_look cd u i = Some (touched a
      (if jr_status r = Running then closed_record ck Failed restart_error r else r)))"
proof -
  let ?r = "if jr_status r = Running then closed_record ck Failed restart_error r else r"
  have s: "sq_ok cd s"
    unfolding assms(2) by (rule durable.run_inv [OF _ assms(1)]) (simp add: sq_ok_def empty_sqlite_def)
  from recover_effect [OF s, of ck is_file] assms(3) have t: "sq_ok cd t"
    "sq_look cd t i = map_option (recovered ck is_file) (sq_look cd s i)" by auto
  have "recovered ck is_file r = ?r" using assms(8) by (auto simp: recovered_def terminal_def)
  then have "sq_look cd t i = Some (touched (jr_last_access ?r) ?r)"
    using t(2) assms(7) by (simp add: touched_def)
  moreover have "terminal (jr_status ?r)" using assms(8) by (auto simp: terminal_def closed_record_def)
  ultimately show ?thesis
    using durable.finished_final [OF t(1) assms(4) assms(6), of ?r] unfolding assms(5) by blast
qed

lemma recover_case: "(case x of Inl _ \<Rightarrow> False | Inr (a, t) \<Rightarrow> P t) \<longleftrightarrow> (\<exists>a t. x = Inr (a, t) \<and> P t)"
  by (cases x) auto

lemma look_case: "(case x of None \<Rightarrow> False | Some r \<Rightarrow> P r) \<longleftrightarrow> (\<exists>r. x = Some r \<and> P r)"
  by (cases x) auto

theorem restart_preserves_history_witness:
  "\<exists>report t. sq_recover text_codec sample_clock (\<lambda>_. True)
      (snd (run_ops (sqlite_api text_codec) crash_run empty_sqlite)) = Inr (report, t) \<and>
    (let u = snd (run_ops (sqlite_api text_codec) [OpClaim sample_clock, OpTransition sample_clock ''b'' Queued sample_done] t) in
     sq_look text_codec u ''b'' = None \<or>
     (\<exists>a r. sq_look text_codec u ''b'' = Some (touched a (closed_record sample_clock Failed restart_error r))))"
proof -
  let ?s = "snd (run_ops (sqlite_api text_codec) crash_run empty_sqlite)"
  let ?qs = "[OpClaim sample_clock, OpTransition sample_clock ''b'' Queued sample_done]"
  have c: "client_run (storable text_codec) (sq_look text_codec) (sqlite_api text_codec) empty_sqlite crash_run"
    by code_simp
  have "case sq_recover text_codec sample_clock (\<lambda>_. True) ?s of Inl _ \<Rightarrow> False
    | Inr (_, t) \<Rightarrow> client_run (storable text_codec) (sq_look text_codec) (sqlite_api text_codec) t ?qs"
    by code_simp
  then obtain report t where t: "sq_recover text_codec sample_clock (\<lambda>_. True) ?s = Inr (report, t)"
    "client_run (storable text_codec) (sq_look text_codec) (sqlite_api text_codec) t ?qs"
    unfolding recover_case by blast
  have "case sq_look text_codec ?s ''b'' of None \<Rightarrow> False | Some r \<Rightarrow> jr_status r = Running" by code_simp
  then obtain r where r: "sq_look text_codec ?s ''b'' = Some r" "jr_status r = Running"
    unfolding look_case by blast
  have "''b'' \<notin> created_ids ?qs" by (simp add: created_ids_def)
  note h = restart_preserves_history [OF c refl t refl this r(1) disjI2, OF r(2), unfolded r(2) simp_thms if_True]
  from t(1) h show ?thesis unfolding Let_def by blast
qed

end
