(* ===== verification/JobExecution.thy ===== *)
theory JobExecution
  imports JobStore
begin

text \<open>
  Execution of one claimed job: the persisted parameter envelope of \<open>server/job_store.py\<close> and
  \<open>_execute_job\<close> of \<open>server/runtime.py\<close> up to the commit of its outcome.  The optimizer is a
  parameter that reads and writes files; the file system is a map from paths to contents.  Paths are
  taken as already normalised, and a failing system call is the argument \<open>fault\<close>.
\<close>

subsection \<open>Persisted parameters\<close>

datatype json =
    JNull
  | JBool bool
  | JNum rat
  | JStr string
  | JArr "json list"
  | JObj "(string \<times> json) list"

definition params_schema :: string where
  "params_schema = ''openlithohub.job-params.v1''"

definition params_envelope :: "(string \<times> json) list \<Rightarrow> json" where
  "params_envelope params = JObj [(''schema'', JStr params_schema), (''params'', JObj params)]"

definition serialize_params :: "(json \<Rightarrow> string) \<Rightarrow> (string \<times> json) list \<Rightarrow> string" where
  "serialize_params dump params = dump (params_envelope params)"

text \<open>The message of the schema error asks the envelope for its schema, which only an object has.\<close>

definition parse_params :: "(string \<Rightarrow> json option) \<Rightarrow> string option \<Rightarrow> (string \<times> json) list res" where
  "parse_params load raw =
     (case raw of
        None \<Rightarrow> Inl (ValueError ''job has no persisted parameters'')
      | Some text \<Rightarrow>
        (case load text of
           None \<Rightarrow> Inl (ValueError ''persisted parameters are not valid JSON'')
         | Some envelope \<Rightarrow>
           (case envelope of
              JObj obj \<Rightarrow>
                if map_of obj ''schema'' \<noteq> Some (JStr params_schema)
                then Inl (ValueError ''persisted parameters carry unknown schema'')
                else (case map_of obj ''params'' of
                        Some (JObj params) \<Rightarrow> Inr params
                      | _ \<Rightarrow> Inl (ValueError ''persisted parameters envelope has no params object''))
            | _ \<Rightarrow> Inl (AttributeError ''object has no attribute get''))))"

subsection \<open>Paths\<close>

definition path_name :: "string \<Rightarrow> string" where
  "path_name p = rev (takeWhile (\<lambda>c. c \<noteq> CHR ''/'') (rev p))"

definition path_dir :: "string \<Rightarrow> string" where
  "path_dir p = rev (dropWhile (\<lambda>c. c \<noteq> CHR ''/'') (rev p))"

text \<open>The suffix starts at the last dot, unless that is the first or the last character.\<close>

definition path_suffix :: "string \<Rightarrow> string" where
  "path_suffix p =
     (let ext = rev (takeWhile (\<lambda>c. c \<noteq> CHR ''.'') (rev (path_name p)));
          before = rev (dropWhile (\<lambda>c. c \<noteq> CHR ''.'') (rev (path_name p))) in
      if 1 < length before \<and> ext \<noteq> [] then CHR ''.'' # ext else [])"

definition path_stem :: "string \<Rightarrow> string" where
  "path_stem p = take (length (path_name p) - length (path_suffix p)) (path_name p)"

text \<open>\<open>final.with_name(f"{final.stem}.tmp{final.suffix}")\<close>.\<close>

definition tmp_path :: "string \<Rightarrow> string res" where
  "tmp_path p =
     (if path_name p = [] then Inl (ValueError ''has an empty name'')
      else Inr (path_dir p @ path_stem p @ ''.tmp'' @ path_suffix p))"

subsection \<open>Running a job\<close>

type_synonym 'f files = "string \<Rightarrow> 'f option"

definition truthy :: "json option \<Rightarrow> bool" where
  "truthy v =
     (case v of
        None \<Rightarrow> False
      | Some j \<Rightarrow> (case j of JNull \<Rightarrow> False | JBool b \<Rightarrow> b | JNum n \<Rightarrow> n \<noteq> 0 | JStr s \<Rightarrow> s \<noteq> []
                   | JArr xs \<Rightarrow> xs \<noteq> [] | JObj kvs \<Rightarrow> kvs \<noteq> []))"

record ('j, 'f) exec_env =
  xe_loads :: "string \<Rightarrow> json option"
  xe_str :: "json option \<Rightarrow> string"
  xe_run :: "(string \<times> json) list \<Rightarrow> string \<Rightarrow> string \<Rightarrow> string \<Rightarrow> 'f files \<Rightarrow> 'j res \<times> 'f files"
  xe_out :: "'j \<Rightarrow> string option"
  xe_with_out :: "string \<Rightarrow> 'j \<Rightarrow> 'j"
  xe_digest :: "'f \<Rightarrow> string \<times> int"
  xe_durable :: bool

datatype 'j exec_end =
    EndFail string
  | EndRaise py_error
  | EndOk 'j "string option" "string option" "int option"

fun err_text :: "py_error \<Rightarrow> string" where
  "err_text (ValueError m) = m"
| "err_text (KeyError m) = CHR 0x27 # m @ [CHR 0x27]"
| "err_text (RuntimeError m) = m"
| "err_text (TypeError m) = m"
| "err_text (IntegrityError m) = m"
| "err_text (ProgrammingError m) = m"
| "err_text (OperationalError m) = m"
| "err_text (AttributeError m) = m"
| "err_text (OSError m) = m"
| "err_text StopIteration = []"

definition discard_file :: "string \<Rightarrow> 'f files \<Rightarrow> 'f files" where
  "discard_file p fs = fs(p := None)"

definition replace_file :: "string \<Rightarrow> string \<Rightarrow> 'f files \<Rightarrow> 'f files" where
  "replace_file src dst fs = (fs(src := None))(dst := fs src)"

definition digest_file :: "('j, 'f) exec_env \<Rightarrow> string \<Rightarrow> 'f files \<Rightarrow> (string \<times> int) res" where
  "digest_file xe p fs =
     (case fs p of None \<Rightarrow> Inl (OSError ''No such file'') | Some c \<Rightarrow> Inr (xe_digest xe c))"

definition publish_durable ::
    "('j, 'f) exec_env \<Rightarrow> py_error option \<Rightarrow> string \<Rightarrow> 'j \<Rightarrow> 'f files \<Rightarrow> 'j exec_end \<times> 'f files" where
  "publish_durable xe fault final summary fs =
     (case xe_out xe summary of
        None \<Rightarrow> (EndFail ''runner produced no artifact at the expected temp path'', fs)
      | Some produced \<Rightarrow>
          if produced = [] \<or> fs produced = None
          then (EndFail ''runner produced no artifact at the expected temp path'', fs)
          else (case fault of
              Some e \<Rightarrow> (EndRaise e, fs)
            | None \<Rightarrow>
                let fs1 = (if produced \<noteq> final then replace_file produced final fs else fs) in
                (case digest_file xe final fs1 of
                   Inl e \<Rightarrow> (EndRaise e, fs1)
                 | Inr (sha, nbytes) \<Rightarrow>
                     (EndOk (xe_with_out xe final summary) (Some final) (Some sha) (Some nbytes), fs1))))"

definition publish_transient ::
    "('j, 'f) exec_env \<Rightarrow> 'j \<Rightarrow> 'f files \<Rightarrow> 'j exec_end \<times> 'f files" where
  "publish_transient xe summary fs =
     (case xe_out xe summary of
        None \<Rightarrow> (EndOk summary None None None, fs)
      | Some produced \<Rightarrow>
          if produced = [] then (EndOk summary None None None, fs)
          else (case digest_file xe produced fs of
                  Inl e \<Rightarrow> (EndOk summary (Some produced) None None, fs)
                | Inr (sha, nbytes) \<Rightarrow> (EndOk summary (Some produced) (Some sha) (Some nbytes), fs)))"

definition run_and_publish ::
    "('j, 'f) exec_env \<Rightarrow> py_error option \<Rightarrow> 'j job_record \<Rightarrow> (string \<times> json) list \<Rightarrow> bool \<Rightarrow>
     string \<Rightarrow> string \<Rightarrow> 'f files \<Rightarrow> 'j exec_end \<times> 'f files" where
  "run_and_publish xe fault r params staged final out fs =
     (case xe_run xe params (xe_str xe (map_of params ''input_path'')) out (jr_id r) fs of
        (Inl e, fs1) \<Rightarrow> (EndFail (err_text e), if staged then discard_file out fs1 else fs1)
      | (Inr summary, fs1) \<Rightarrow>
          if staged then publish_durable xe fault final summary fs1
          else publish_transient xe summary fs1)"

definition execute_job ::
    "('j, 'f) exec_env \<Rightarrow> py_error option \<Rightarrow> 'j job_record \<Rightarrow> 'f files \<Rightarrow> 'j exec_end \<times> 'f files" where
  "execute_job xe fault r fs =
     (case parse_params (xe_loads xe) (jr_params_json r) of
        Inl (ValueError m) \<Rightarrow> (EndFail (''persisted parameters failed validation: '' @ m), fs)
      | Inl e \<Rightarrow> (EndRaise e, fs)
      | Inr params \<Rightarrow>
          let output_final = map_of params ''output_path'';
              final = xe_str xe output_final;
              staged = xe_durable xe \<and> truthy output_final in
          (case (if staged then tmp_path final else Inr final) of
             Inl e \<Rightarrow> (EndRaise e, fs)
           | Inr out \<Rightarrow> run_and_publish xe fault r params staged final out fs))"

subsection \<open>The envelope\<close>

text \<open>C6: The parameter envelope is a round trip: for a JSON codec that reads back the text it wrote,
  parsing the serialized parameters of a job gives exactly these parameters, and a text is accepted
  only if it is an object with the known schema and a params object; every rejection of an object or
  of text that is not JSON is a ValueError.\<close>

theorem params_roundtrip:
  assumes "load (dump (params_envelope params)) = Some (params_envelope params)"
  shows "parse_params load (Some (serialize_params dump params)) = Inr params \<and>
    (\<forall>raw ps. parse_params load (Some raw) = Inr ps \<longrightarrow>
       (\<exists>obj. load raw = Some (JObj obj) \<and>
          map_of obj ''schema'' = Some (JStr params_schema) \<and> map_of obj ''params'' = Some (JObj ps))) \<and>
    (\<forall>raw e. parse_params load (Some raw) = Inl e \<and>
       (\<forall>v. load raw = Some v \<longrightarrow> (\<exists>obj. v = JObj obj)) \<longrightarrow> (\<exists>m. e = ValueError m))"
proof (intro conjI allI impI)
  show "parse_params load (Some (serialize_params dump params)) = Inr params"
    using assms by (simp add: parse_params_def serialize_params_def) (simp add: params_envelope_def)
next
  fix raw ps
  assume "parse_params load (Some raw) = Inr ps"
  then show "\<exists>obj. load raw = Some (JObj obj) \<and>
      map_of obj ''schema'' = Some (JStr params_schema) \<and> map_of obj ''params'' = Some (JObj ps)"
    by (auto simp: parse_params_def split: option.splits json.splits if_splits)
next
  fix raw e
  assume "parse_params load (Some raw) = Inl e \<and>
    (\<forall>v. load raw = Some v \<longrightarrow> (\<exists>obj. v = JObj obj))"
  then show "\<exists>m. e = ValueError m"
    by (auto simp: parse_params_def split: option.splits json.splits if_splits)
qed

subsection \<open>Publication\<close>

lemma path_split: "path_dir p @ path_name p = p"
  by (simp add: path_dir_def path_name_def flip: rev_append)

lemma last_dot:
  assumes "dropWhile (\<lambda>c. c \<noteq> x) xs \<noteq> []"
  shows "rev xs = rev (tl (dropWhile (\<lambda>c. c \<noteq> x) xs)) @ x # rev (takeWhile (\<lambda>c. c \<noteq> x) xs)"
proof -
  obtain d where d: "dropWhile (\<lambda>c. c \<noteq> x) xs = x # d"
    using assms hd_dropWhile [OF assms] by (cases "dropWhile (\<lambda>c. c \<noteq> x) xs") auto
  have "rev xs = rev (takeWhile (\<lambda>c. c \<noteq> x) xs @ dropWhile (\<lambda>c. c \<noteq> x) xs)" by simp
  then show ?thesis unfolding d rev_append by simp
qed

lemma stem_suffix: "path_stem p @ path_suffix p = path_name p"
proof -
  let ?n = "path_name p"
  have "\<exists>a. ?n = a @ path_suffix p"
  proof (cases "path_suffix p = []")
    case False
    define e b where "e = rev (takeWhile (\<lambda>c. c \<noteq> CHR ''.'') (rev ?n))" and "b = rev (dropWhile (\<lambda>c. c \<noteq> CHR ''.'') (rev ?n))"
    note d = this
    have "path_suffix p = (if 1 < length b \<and> e \<noteq> [] then CHR ''.'' # e else [])"
      by (simp only: path_suffix_def Let_def d)
    with False have s: "path_suffix p = CHR ''.'' # e" and b: "1 < length b" by (simp_all split: if_splits)
    have "dropWhile (\<lambda>c. c \<noteq> CHR ''.'') (rev ?n) \<noteq> []"
      using b unfolding d by (metis length_rev list.size(3) not_one_less_zero)
    from last_dot [OF this] show ?thesis unfolding s d rev_rev_ident by blast
  qed simp
  then obtain a where a: "?n = a @ path_suffix p" ..
  then have "path_stem p = a" unfolding path_stem_def by (metis append_eq_conv_conj diff_add_inverse2 length_append)
  with a show ?thesis by simp
qed

lemma tmp_path_differs: "tmp_path p = Inr q \<Longrightarrow> q \<noteq> p"
proof
  assume "tmp_path p = Inr q" "q = p"
  then have "path_dir p @ path_stem p @ ''.tmp'' @ path_suffix p = path_dir p @ path_name p"
    by (simp add: tmp_path_def path_split split: if_splits)
  then have "length (path_stem p @ ''.tmp'' @ path_suffix p) = length (path_stem p @ path_suffix p)"
    unfolding stem_suffix by simp
  then show False by simp
qed

text \<open>What the optimizer promises: it writes only the path it was told to write and reports that path
  or none.\<close>

definition runner_confined :: "('j, 'f) exec_env \<Rightarrow> bool" where
  "runner_confined xe \<longleftrightarrow>
     (\<forall>params inp out i fs p. p \<noteq> out \<longrightarrow> snd (xe_run xe params inp out i fs) p = fs p) \<and>
     (\<forall>params inp out i fs j. fst (xe_run xe params inp out i fs) = Inr j \<longrightarrow>
        xe_out xe j \<in> {None, Some out})"

definition completed :: "'j exec_end \<Rightarrow> bool" where
  "completed e \<longleftrightarrow> (case e of EndOk _ _ _ _ \<Rightarrow> True | _ \<Rightarrow> False)"

definition artifact_recorded :: "('j, 'f) exec_env \<Rightarrow> string \<Rightarrow> 'f files \<Rightarrow> 'j exec_end \<Rightarrow> bool" where
  "artifact_recorded xe final fs e \<longleftrightarrow>
     (case e of
        EndOk j out sha nbytes \<Rightarrow>
          (\<exists>c. fs final = Some c \<and> out = Some final \<and> sha = Some (fst (xe_digest xe c)) \<and>
             nbytes = Some (snd (xe_digest xe c)) \<and> xe_out xe j = Some final)
      | _ \<Rightarrow> True)"

lemma publish_durable_atomic:
  assumes "publish_durable xe fault final summary fs = (e, fs1)" "xe_out xe summary \<in> {None, Some out}"
    and "\<And>p j. xe_out xe (xe_with_out xe p j) = Some p" "out \<noteq> final"
  shows "artifact_recorded xe final fs1 e" "\<not> completed e \<Longrightarrow> fs1 = fs" "completed e \<Longrightarrow> fs1 out = None"
    "p \<notin> {final, out} \<Longrightarrow> fs1 p = fs p"
proof -
  consider (none) "xe_out xe summary = None" | (some) "xe_out xe summary = Some out" using assms(2) by auto
  then have "artifact_recorded xe final fs1 e \<and> (\<not> completed e \<longrightarrow> fs1 = fs) \<and> (completed e \<longrightarrow> fs1 out = None) \<and>
    (p \<notin> {final, out} \<longrightarrow> fs1 p = fs p)"
  proof cases
    case none
    then show ?thesis using assms(1) by (auto simp: publish_durable_def artifact_recorded_def completed_def)
  next
    case some
    show ?thesis
    proof (cases "out = [] \<or> fs out = None \<or> fault \<noteq> None")
      case True
      with some assms(1) show ?thesis
        by (auto simp: publish_durable_def artifact_recorded_def completed_def split: if_splits)
    next
      case False
      then obtain c where c: "fs out = Some c" by (cases "fs out") auto
      have "publish_durable xe fault final summary fs =
        (EndOk (xe_with_out xe final summary) (Some final) (Some (fst (xe_digest xe c))) (Some (snd (xe_digest xe c))),
         replace_file out final fs)"
        using some False c assms(4)
        by (cases "xe_digest xe c") (simp add: publish_durable_def replace_file_def digest_file_def)
      with assms(1) have e: "e = EndOk (xe_with_out xe final summary) (Some final) (Some (fst (xe_digest xe c))) (Some (snd (xe_digest xe c)))"
        "fs1 = replace_file out final fs" by auto
      show ?thesis unfolding e using c assms(3,4)
        by (simp add: artifact_recorded_def completed_def replace_file_def)
    qed
  qed
  then show "artifact_recorded xe final fs1 e" "\<not> completed e \<Longrightarrow> fs1 = fs" "completed e \<Longrightarrow> fs1 out = None"
    "p \<notin> {final, out} \<Longrightarrow> fs1 p = fs p" by blast+
qed


text \<open>A concrete environment: one persisted text, an optimizer that writes a two-byte artifact.\<close>

definition demo_params :: "(string \<times> json) list" where
  "demo_params = [(''input_path'', JStr ''jobs/a/input.oas''), (''output_path'', JStr ''jobs/a/artifact.oas'')]"

definition demo_str :: "json option \<Rightarrow> string" where
  "demo_str v = (case v of Some (JStr s) \<Rightarrow> s | _ \<Rightarrow> ''None'')"

definition demo_load :: "string \<Rightarrow> json option" where
  "demo_load raw = (if raw = ''ok'' then Some (params_envelope demo_params)
     else if raw = ''list'' then Some (JArr []) else None)"

definition demo_env :: "(string option, string) exec_env" where
  "demo_env = \<lparr>xe_loads = demo_load, xe_str = demo_str,
     xe_run = (\<lambda>params inp out i fs. if fs inp = None then (Inl (OSError ''no input''), fs(out := Some ''part''))
       else (Inr (Some out), fs(out := Some ''hi''))),
     xe_out = (\<lambda>j. j), xe_with_out = (\<lambda>p j. Some p), xe_digest = (\<lambda>c. (c, int (length c))), xe_durable = True\<rparr>"

definition demo_job :: "string \<Rightarrow> string option job_record" where
  "demo_job raw = \<lparr>jr_id = ''a'', jr_status = Running, jr_created_utc = ''t'', jr_started_utc = None,
     jr_completed_utc = None, jr_input_path = Some ''jobs/a/input.oas'', jr_output_path = None,
     jr_input_format = None, jr_params_json = Some raw, jr_summary = None, jr_error = None, jr_sha = None,
     jr_bytes = None, jr_last_access = 0, jr_created = 0, jr_completed = None\<rparr>"

lemma demo_tmp: "tmp_path ''jobs/a/artifact.oas'' = Inr ''jobs/a/artifact.tmp.oas''"
  by code_simp


theorem params_roundtrip_witness:
  "parse_params demo_load (Some (serialize_params (\<lambda>_. ''ok'') demo_params)) = Inr demo_params"
proof -
  have "demo_load ((\<lambda>_. ''ok'') (params_envelope demo_params)) = Some (params_envelope demo_params)"
    by (simp add: demo_load_def)
  from params_roundtrip [of demo_load "\<lambda>_. ''ok''", OF this] show ?thesis by blast
qed

end
