(* ===== verification/ServerRuntime.thy ===== *)
theory ServerRuntime
  imports StoreContract JobExecution
begin

text \<open>
  Model of \<open>ServerRuntime\<close> and \<open>QueueReservation\<close> (\<open>server/runtime.py\<close>) over the store
  interface: lifecycle, admission, reservations, the worker loop, deletion, retention and leases.
  The state of a runtime holds its fields, the position of every thread that is inside one of its
  methods, and the file system.  A handler is one critical section; a method that takes several is
  several handlers, with the position between them in the state, so that the step relation at the
  end interleaves them freely.  Time-outs may fire at any moment.  \<open>fault\<close> is an exception raised by
  the database or the operating system in this step, if any.
\<close>

subsection \<open>State\<close>

datatype runtime_state = NEW | RUNNING | DRAINING | STOPPED

datatype resv_state = ACTIVE | COMMITTED | RELEASED

text \<open>\<open>rv_owed\<close>: released, and the slot not yet returned to the counter.\<close>

record reservation =
  rv_state :: resv_state
  rv_owed :: bool

datatype stop_pc =
    StopSignal bool
  | StopDrain
  | StopCancel string
  | StopJoin
  | StopSettle
  | StopClose
  | StopDone
  | StopRaised py_error

datatype reaper_pc = ReaperOff | ReaperWait | ReaperExec | ReaperSettle | ReaperClose | ReaperDone

datatype 'j worker_pc =
    WorkerOff
  | WorkerTop
  | WorkerPeeked string
  | WorkerDenied string
  | WorkerAdmitted string
  | WorkerBusy "'j job_record"
  | WorkerCommit string "'j exec_end"
  | WorkerLeft
  | WorkerExited
  | WorkerDied

datatype delete_pc = DeleteCancel string | DeleteRemove string | DeleteDone

record ('j, 's, 'f) runtime_env =
  re_api :: "('j, 's) store_api"
  re_exec :: "('j, 'f) exec_env"
  re_max :: nat
  re_depth :: nat
  re_ttl :: rat
  re_history_cap :: int
  re_jobs_dir :: string

record ('j, 's, 'f) runtime =
  rn_store :: 's
  rn_files :: "'f files"
  rn_state :: runtime_state
  rn_shutdown :: bool
  rn_forced :: bool
  rn_worker :: "'j worker_pc"
  rn_worker_exited :: bool
  rn_reaper :: reaper_pc
  rn_permits :: nat
  rn_in_use :: int
  rn_runs :: nat
  rn_reserved :: int
  rn_resv :: "reservation list"
  rn_leases :: "(string \<times> int) list"
  rn_stops :: "stop_pc list"
  rn_deletes :: "delete_pc list"

definition new_runtime :: "('j, 's, 'f) runtime_env \<Rightarrow> 's \<Rightarrow> 'f files \<Rightarrow> ('j, 's, 'f) runtime" where
  "new_runtime env s fs =
     \<lparr>rn_store = s, rn_files = fs, rn_state = NEW, rn_shutdown = False, rn_forced = False,
      rn_worker = WorkerOff, rn_worker_exited = False, rn_reaper = ReaperOff, rn_permits = re_max env,
      rn_in_use = 0, rn_runs = 0, rn_reserved = 0, rn_resv = [], rn_leases = [], rn_stops = [],
      rn_deletes = []\<rparr>"

definition worker_alive :: "('j, 's, 'f) runtime \<Rightarrow> bool" where
  "worker_alive rt =
     (case rn_worker rt of WorkerOff \<Rightarrow> False | WorkerExited \<Rightarrow> False | WorkerDied \<Rightarrow> False | _ \<Rightarrow> True)"

definition executing :: "('j, 's, 'f) runtime \<Rightarrow> bool" where
  "executing rt \<longleftrightarrow> rn_in_use rt > 0"

definition accepting_jobs :: "('j, 's, 'f) runtime \<Rightarrow> bool" where
  "accepting_jobs rt \<longleftrightarrow> rn_state rt = RUNNING \<and> worker_alive rt"

definition owns_no_execution :: "('j, 's, 'f) runtime \<Rightarrow> bool" where
  "owns_no_execution rt \<longleftrightarrow> \<not> worker_alive rt \<and> \<not> executing rt"

subsection \<open>Admission\<close>

definition try_acquire_admission :: "('j, 's, 'f) runtime \<Rightarrow> bool \<times> ('j, 's, 'f) runtime" where
  "try_acquire_admission rt =
     (if rn_permits rt > 0
      then (True, rt\<lparr>rn_permits := rn_permits rt - 1, rn_in_use := rn_in_use rt + 1\<rparr>)
      else (False, rt))"

definition release_admission ::
    "('j, 's, 'f) runtime_env \<Rightarrow> ('j, 's, 'f) runtime \<Rightarrow> unit res \<times> ('j, 's, 'f) runtime" where
  "release_admission env rt =
     (if rn_in_use rt \<le> 0 then (Inl (RuntimeError ''admission counter underflow''), rt)
      else let rt1 = rt\<lparr>rn_in_use := rn_in_use rt - 1\<rparr> in
        if rn_permits rt1 \<ge> re_max env then (Inl (ValueError ''Semaphore released too many times''), rt1)
        else (Inr (), rt1\<lparr>rn_permits := rn_permits rt1 + 1\<rparr>))"

definition run_admitted ::
    "('j, 's, 'f) runtime \<Rightarrow> unit res \<times> ('j, 's, 'f) runtime" where
  "run_admitted rt =
     (if rn_state rt \<noteq> RUNNING then (Inl (RuntimeError ''not accepting new work''), rt)
      else case try_acquire_admission rt of
        (False, rt1) \<Rightarrow> (Inl (RuntimeError ''server at maximum concurrent optimizations''), rt1)
      | (True, rt1) \<Rightarrow> (Inr (), rt1\<lparr>rn_runs := rn_runs rt1 + 1\<rparr>))"

definition end_admitted ::
    "('j, 's, 'f) runtime_env \<Rightarrow> ('j, 's, 'f) runtime \<Rightarrow> ('j, 's, 'f) runtime" where
  "end_admitted env rt =
     (if rn_runs rt = 0 then rt else snd (release_admission env (rt\<lparr>rn_runs := rn_runs rt - 1\<rparr>)))"

subsection \<open>Queue reservations\<close>

definition try_reserve_job_slot ::
    "('j, 's, 'f) runtime_env \<Rightarrow> ('j, 's, 'f) runtime \<Rightarrow> nat res \<times> ('j, 's, 'f) runtime" where
  "try_reserve_job_slot env rt =
     (if rn_state rt \<noteq> RUNNING then (Inl (RuntimeError ''not accepting new jobs''), rt)
      else case api_count (re_api env) Queued (rn_store rt) of
        Inl e \<Rightarrow> (Inl e, rt)
      | Inr queued \<Rightarrow>
          if int queued + rn_reserved rt \<ge> int (re_depth env)
          then (Inl (RuntimeError ''job queue is full''), rt)
          else (Inr (length (rn_resv rt)),
                rt\<lparr>rn_reserved := rn_reserved rt + 1,
                   rn_resv := rn_resv rt @ [\<lparr>rv_state = ACTIVE, rv_owed = False\<rparr>]\<rparr>))"

definition enqueue_reserved ::
    "('j, 's, 'f) runtime_env \<Rightarrow> 'j job_record \<Rightarrow> ('j, 's, 'f) runtime \<Rightarrow>
     unit res \<times> ('j, 's, 'f) runtime" where
  "enqueue_reserved env r rt =
     (if rn_state rt \<noteq> RUNNING then (Inl (RuntimeError ''not accepting new jobs''), rt)
      else if rn_reserved rt \<le> 0
      then (Inl (RuntimeError ''job queue capacity invariant violated''), rt)
      else case api_create (re_api env) r (rn_store rt) of
        Inl e \<Rightarrow> (Inl e, rt)
      | Inr s \<Rightarrow> (Inr (), rt\<lparr>rn_store := s, rn_reserved := rn_reserved rt - 1\<rparr>))"

definition already_settled :: "resv_state \<Rightarrow> unit res" where
  "already_settled st =
     (case st of
        ACTIVE \<Rightarrow> Inr ()
      | COMMITTED \<Rightarrow> Inl (RuntimeError ''queue reservation already committed'')
      | RELEASED \<Rightarrow> Inl (RuntimeError ''queue reservation already released''))"

definition commit_reservation ::
    "('j, 's, 'f) runtime_env \<Rightarrow> nat \<Rightarrow> 'j job_record \<Rightarrow> ('j, 's, 'f) runtime \<Rightarrow>
     string res \<times> ('j, 's, 'f) runtime" where
  "commit_reservation env k r rt =
     (case already_settled (rv_state (rn_resv rt ! k)) of
        Inl e \<Rightarrow> (Inl e, rt)
      | Inr _ \<Rightarrow>
          (case enqueue_reserved env r rt of
             (Inl e, rt1) \<Rightarrow> (Inl e, rt1)
           | (Inr _, rt1) \<Rightarrow>
               (Inr (jr_id r), rt1\<lparr>rn_resv := (rn_resv rt1)[k := (rn_resv rt1 ! k)\<lparr>rv_state := COMMITTED\<rparr>]\<rparr>)))"

definition release_reservation ::
    "nat \<Rightarrow> ('j, 's, 'f) runtime \<Rightarrow> unit res \<times> ('j, 's, 'f) runtime" where
  "release_reservation k rt =
     (case already_settled (rv_state (rn_resv rt ! k)) of
        Inl e \<Rightarrow> (Inl e, rt)
      | Inr _ \<Rightarrow> (Inr (), rt\<lparr>rn_resv := (rn_resv rt)[k := \<lparr>rv_state = RELEASED, rv_owed = True\<rparr>]\<rparr>))"

definition release_if_active :: "nat \<Rightarrow> ('j, 's, 'f) runtime \<Rightarrow> ('j, 's, 'f) runtime" where
  "release_if_active k rt =
     (if rv_state (rn_resv rt ! k) \<noteq> ACTIVE then rt else snd (release_reservation k rt))"

text \<open>The second half of a release, under the job lock.\<close>

definition release_reserved_slot ::
    "nat \<Rightarrow> ('j, 's, 'f) runtime \<Rightarrow> unit res \<times> ('j, 's, 'f) runtime" where
  "release_reserved_slot k rt =
     (if rn_reserved rt \<le> 0 then (Inl (RuntimeError ''reservation underflow''), rt)
      else (Inr (), rt\<lparr>rn_reserved := rn_reserved rt - 1,
                      rn_resv := (rn_resv rt)[k := (rn_resv rt ! k)\<lparr>rv_owed := False\<rparr>]\<rparr>))"

subsection \<open>Lifecycle\<close>

definition start ::
    "('j, 's, 'f) runtime_env \<Rightarrow> clock \<Rightarrow> ('j, 's, 'f) runtime \<Rightarrow>
     (string list \<times> string list) res \<times> ('j, 's, 'f) runtime" where
  "start env ck rt =
     (if rn_state rt \<noteq> NEW then (Inl (RuntimeError ''cannot start ServerRuntime''), rt)
      else case api_recover (re_api env) ck (\<lambda>p. rn_files rt p \<noteq> None) (rn_store rt) of
        Inl e \<Rightarrow> (Inl e, rt)
      | Inr (recovery, s) \<Rightarrow>
          (Inr recovery, rt\<lparr>rn_store := s, rn_shutdown := False, rn_forced := False,
                            rn_state := RUNNING, rn_worker := WorkerTop\<rparr>))"

definition swallowed :: "py_error \<Rightarrow> bool" where
  "swallowed e = (case e of KeyError _ \<Rightarrow> True | RuntimeError _ \<Rightarrow> True | _ \<Rightarrow> False)"

definition error_update :: "string \<Rightarrow> 'j job_update" where
  "error_update m = \<lparr>ju_error = Some m, ju_summary = None, ju_output_path = None, ju_sha = None, ju_bytes = None\<rparr>"

definition stop_begin :: "('j, 's, 'f) runtime \<Rightarrow> ('j, 's, 'f) runtime" where
  "stop_begin rt =
     (if rn_state rt = STOPPED then rt
      else rt\<lparr>rn_state := DRAINING, rn_stops := rn_stops rt @ [StopSignal (rn_state rt = DRAINING)]\<rparr>)"

definition arm_stop_reaper :: "('j, 's, 'f) runtime \<Rightarrow> ('j, 's, 'f) runtime" where
  "arm_stop_reaper rt = (if rn_reaper rt \<noteq> ReaperOff then rt else rt\<lparr>rn_reaper := ReaperWait\<rparr>)"

text \<open>One iteration of \<open>_drain_queued_jobs\<close> is \<open>StopDrain\<close> and \<open>StopCancel\<close>.\<close>

definition stop_advance ::
    "('j, 's, 'f) runtime_env \<Rightarrow> clock \<Rightarrow> stop_pc \<Rightarrow> ('j, 's, 'f) runtime \<Rightarrow>
     stop_pc \<times> ('j, 's, 'f) runtime" where
  "stop_advance env ck pc rt =
     (case pc of
        StopSignal reentry \<Rightarrow> (if reentry then StopJoin else StopDrain, rt\<lparr>rn_shutdown := True\<rparr>)
      | StopDrain \<Rightarrow>
          (case api_peek (re_api env) (rn_store rt) of
             Inl e \<Rightarrow> (StopRaised e, rt)
           | Inr None \<Rightarrow> (StopJoin, rt)
           | Inr (Some i) \<Rightarrow> (StopCancel i, rt))
      | StopCancel i \<Rightarrow>
          (case api_transition (re_api env) ck i Cancelled (error_update ''server shutdown while queued'') (rn_store rt) of
             Inl e \<Rightarrow> (if swallowed e then StopDrain else StopRaised e, rt)
           | Inr (r, s) \<Rightarrow> (StopDrain, rt\<lparr>rn_store := s\<rparr>))
      | StopJoin \<Rightarrow>
          if owns_no_execution rt then (StopSettle, rt)
          else (StopDone, arm_stop_reaper (rt\<lparr>rn_forced := True\<rparr>))
      | StopSettle \<Rightarrow> (StopClose, rt\<lparr>rn_state := STOPPED\<rparr>)
      | StopClose \<Rightarrow> (StopDone, rt\<lparr>rn_store := api_close (re_api env) (rn_store rt)\<rparr>)
      | StopDone \<Rightarrow> (StopDone, rt)
      | StopRaised e \<Rightarrow> (StopRaised e, rt))"

definition stop_step ::
    "('j, 's, 'f) runtime_env \<Rightarrow> clock \<Rightarrow> nat \<Rightarrow> ('j, 's, 'f) runtime \<Rightarrow> ('j, 's, 'f) runtime" where
  "stop_step env ck n rt =
     (case stop_advance env ck (rn_stops rt ! n) rt of (pc, rt1) \<Rightarrow> rt1\<lparr>rn_stops := (rn_stops rt1)[n := pc]\<rparr>)"

definition reap_until_stopped ::
    "('j, 's, 'f) runtime_env \<Rightarrow> ('j, 's, 'f) runtime \<Rightarrow> ('j, 's, 'f) runtime" where
  "reap_until_stopped env rt =
     (case rn_reaper rt of
        ReaperWait \<Rightarrow> if rn_worker_exited rt then rt\<lparr>rn_reaper := ReaperExec\<rparr> else rt
      | ReaperExec \<Rightarrow> if executing rt then rt else rt\<lparr>rn_reaper := ReaperSettle\<rparr>
      | ReaperSettle \<Rightarrow>
          (if rn_state rt = DRAINING \<and> owns_no_execution rt then rt\<lparr>rn_state := STOPPED\<rparr> else rt)
            \<lparr>rn_reaper := ReaperClose\<rparr>
      | ReaperClose \<Rightarrow>
          rt\<lparr>rn_store := api_close (re_api env) (rn_store rt), rn_reaper := ReaperDone\<rparr>
      | _ \<Rightarrow> rt)"

subsection \<open>The worker loop\<close>

definition or_fault :: "py_error option \<Rightarrow> 'a res \<Rightarrow> 'a res" where
  "or_fault fault r = (case fault of None \<Rightarrow> r | Some e \<Rightarrow> Inl e)"

definition worker_top ::
    "('j, 's, 'f) runtime_env \<Rightarrow> py_error option \<Rightarrow> ('j, 's, 'f) runtime \<Rightarrow> ('j, 's, 'f) runtime" where
  "worker_top env fault rt =
     (if rn_shutdown rt \<or> api_closed (re_api env) (rn_store rt)
      then rt\<lparr>rn_worker := WorkerLeft, rn_worker_exited := True\<rparr>
      else case or_fault fault (api_peek (re_api env) (rn_store rt)) of
        Inl e \<Rightarrow> rt\<lparr>rn_worker := WorkerDied\<rparr>
      | Inr None \<Rightarrow> rt
      | Inr (Some i) \<Rightarrow> rt\<lparr>rn_worker := WorkerPeeked i\<rparr>)"

text \<open>One round of \<open>wait_for_admission\<close>.\<close>

definition worker_wait :: "string \<Rightarrow> ('j, 's, 'f) runtime \<Rightarrow> ('j, 's, 'f) runtime" where
  "worker_wait i rt =
     (if rn_state rt \<noteq> RUNNING then rt\<lparr>rn_worker := WorkerDenied i\<rparr>
      else case try_acquire_admission rt of
        (False, rt1) \<Rightarrow> rt1
      | (True, rt1) \<Rightarrow> rt1\<lparr>rn_worker := WorkerAdmitted i\<rparr>)"

definition worker_denied ::
    "('j, 's, 'f) runtime_env \<Rightarrow> clock \<Rightarrow> py_error option \<Rightarrow> string \<Rightarrow> ('j, 's, 'f) runtime \<Rightarrow>
     ('j, 's, 'f) runtime" where
  "worker_denied env ck fault i rt =
     (case or_fault fault (api_get (re_api env) i (rn_store rt)) of
        Inl e \<Rightarrow> rt\<lparr>rn_worker := WorkerDied\<rparr>
      | Inr None \<Rightarrow> rt\<lparr>rn_worker := WorkerTop\<rparr>
      | Inr (Some r) \<Rightarrow>
          if jr_status r \<noteq> Queued then rt\<lparr>rn_worker := WorkerTop\<rparr>
          else case api_transition (re_api env) ck i Cancelled
                 (error_update ''server shutdown while waiting for admission'') (rn_store rt) of
            Inl e \<Rightarrow> rt\<lparr>rn_worker := if swallowed e then WorkerTop else WorkerDied\<rparr>
          | Inr (q, s) \<Rightarrow> rt\<lparr>rn_store := s, rn_worker := WorkerTop\<rparr>)"

text \<open>A claim that raises is retried without giving the admission back.\<close>

definition worker_claim ::
    "('j, 's, 'f) runtime_env \<Rightarrow> clock \<Rightarrow> py_error option \<Rightarrow> string \<Rightarrow> ('j, 's, 'f) runtime \<Rightarrow>
     ('j, 's, 'f) runtime" where
  "worker_claim env ck fault i rt =
     (case or_fault fault (api_claim (re_api env) ck (rn_store rt)) of
        Inl e \<Rightarrow> rt\<lparr>rn_worker := WorkerTop\<rparr>
      | Inr (got, s) \<Rightarrow>
          let rt1 = rt\<lparr>rn_store := s\<rparr> in
          (case got of
             None \<Rightarrow> snd (release_admission env (rt1\<lparr>rn_worker := WorkerTop\<rparr>))
           | Some r \<Rightarrow>
               if jr_id r \<noteq> i then snd (release_admission env (rt1\<lparr>rn_worker := WorkerTop\<rparr>))
               else rt1\<lparr>rn_worker := WorkerBusy r\<rparr>))"

definition worker_execute ::
    "('j, 's, 'f) runtime_env \<Rightarrow> py_error option \<Rightarrow> 'j job_record \<Rightarrow> ('j, 's, 'f) runtime \<Rightarrow>
     ('j, 's, 'f) runtime" where
  "worker_execute env fault r rt =
     (case execute_job (re_exec env) fault r (rn_files rt) of
        (e, fs) \<Rightarrow> rt\<lparr>rn_files := fs, rn_worker := WorkerCommit (jr_id r) e\<rparr>)"

definition job_result :: "'j exec_end \<Rightarrow> (job_status \<times> 'j job_update) option" where
  "job_result e =
     (case e of
        EndFail m \<Rightarrow> Some (Failed, error_update m)
      | EndRaise x \<Rightarrow> None
      | EndOk j out sha nbytes \<Rightarrow>
          Some (Succeeded, \<lparr>ju_error = None, ju_summary = Some j, ju_output_path = out, ju_sha = sha, ju_bytes = nbytes\<rparr>))"

text \<open>The terminal transition; the \<open>finally\<close> clause gives the admission back on every path.\<close>

definition worker_commit ::
    "('j, 's, 'f) runtime_env \<Rightarrow> clock \<Rightarrow> py_error option \<Rightarrow> string \<Rightarrow> 'j exec_end \<Rightarrow>
     ('j, 's, 'f) runtime \<Rightarrow> ('j, 's, 'f) runtime" where
  "worker_commit env ck fault i e rt =
     (case job_result e of
        None \<Rightarrow> snd (release_admission env (rt\<lparr>rn_worker := WorkerDied\<rparr>))
      | Some (st, u) \<Rightarrow>
          (case or_fault fault (api_transition (re_api env) ck i st u (rn_store rt)) of
             Inl x \<Rightarrow> snd (release_admission env
                 (rt\<lparr>rn_worker := if st = Failed \<and> swallowed x then WorkerTop else WorkerDied\<rparr>))
           | Inr (r, s) \<Rightarrow> snd (release_admission env (rt\<lparr>rn_store := s, rn_worker := WorkerTop\<rparr>))))"

definition worker_step ::
    "('j, 's, 'f) runtime_env \<Rightarrow> clock \<Rightarrow> py_error option \<Rightarrow> ('j, 's, 'f) runtime \<Rightarrow> ('j, 's, 'f) runtime" where
  "worker_step env ck fault rt =
     (case rn_worker rt of
        WorkerTop \<Rightarrow> worker_top env fault rt
      | WorkerPeeked i \<Rightarrow> worker_wait i rt
      | WorkerDenied i \<Rightarrow> worker_denied env ck fault i rt
      | WorkerAdmitted i \<Rightarrow> worker_claim env ck fault i rt
      | WorkerBusy r \<Rightarrow> worker_execute env fault r rt
      | WorkerCommit i e \<Rightarrow> worker_commit env ck fault i e rt
      | WorkerLeft \<Rightarrow> rt\<lparr>rn_worker := WorkerExited\<rparr>
      | _ \<Rightarrow> rt)"

subsection \<open>Retention, leases and deletion\<close>

text \<open>The directory of a path; a bare file name lies in the current directory.\<close>

definition parent_dir :: "string \<Rightarrow> string" where
  "parent_dir p =
     (let d = butlast (path_dir p) in
      if d = [] then (if path_dir p = [] then ''.'' else ''/'') else d)"

definition nonempty :: "string option \<Rightarrow> bool" where
  "nonempty p = (case p of None \<Rightarrow> False | Some s \<Rightarrow> s \<noteq> [])"

definition job_cleanup_dir :: "('j, 's, 'f) runtime_env \<Rightarrow> 'j job_record \<Rightarrow> string" where
  "job_cleanup_dir env r =
     (if xe_durable (re_exec env) then re_jobs_dir env @ ''/'' @ jr_id r
      else if nonempty (jr_input_path r) then parent_dir (the (jr_input_path r))
      else if nonempty (jr_output_path r) then parent_dir (the (jr_output_path r))
      else [])"

definition doomed_dirs :: "('j, 's, 'f) runtime_env \<Rightarrow> 'j job_record list \<Rightarrow> string list" where
  "doomed_dirs env rs =
     concat (map (\<lambda>r.
       let d = job_cleanup_dir env r in
       if d \<noteq> [] then [d]
       else if nonempty (jr_output_path r) then [the (jr_output_path r)]
       else if nonempty (jr_input_path r) then [the (jr_input_path r)] else []) rs)"

definition runtime_retention :: "('j, 's, 'f) runtime_env \<Rightarrow> ('j, 's, 'f) runtime \<Rightarrow> retention" where
  "runtime_retention env rt =
     \<lparr>rt_ttl = re_ttl env, rt_cap = re_history_cap env, rt_skip = map fst (rn_leases rt)\<rparr>"

definition evict_terminal ::
    "('j, 's, 'f) runtime_env \<Rightarrow> clock \<Rightarrow> ('j, 's, 'f) runtime \<Rightarrow> string list \<times> ('j, 's, 'f) runtime" where
  "evict_terminal env ck rt =
     (case api_evict (re_api env) ck (runtime_retention env rt) (rn_store rt) of
        Inl e \<Rightarrow> ([], rt)
      | Inr (doomed, s) \<Rightarrow> (doomed_dirs env doomed, rt\<lparr>rn_store := s\<rparr>))"

definition get_or_raise ::
    "('j, 's, 'f) runtime_env \<Rightarrow> string \<Rightarrow> ('j, 's, 'f) runtime \<Rightarrow> 'j job_record res" where
  "get_or_raise env i rt =
     ebind (api_get (re_api env) i (rn_store rt)) (\<lambda>r.
       case r of None \<Rightarrow> Inl (KeyError i) | Some q \<Rightarrow> Inr q)"

text \<open>The paths handed to \<open>cleanup_paths\<close> are part of the result.\<close>

definition get_job_snapshot ::
    "('j, 's, 'f) runtime_env \<Rightarrow> clock \<Rightarrow> string \<Rightarrow> ('j, 's, 'f) runtime \<Rightarrow>
     ('j job_record res \<times> string list) \<times> ('j, 's, 'f) runtime" where
  "get_job_snapshot env ck i rt =
     (let doomed = [];
          rt1 = snd (evict_terminal env ck rt) in
      case get_or_raise env i rt1 of
        Inl e \<Rightarrow> ((Inl e, []), rt1)
      | Inr r \<Rightarrow> ((Inr r, doomed), rt1))"

definition lease_count :: "('j, 's, 'f) runtime \<Rightarrow> string \<Rightarrow> int" where
  "lease_count rt i = (case map_of (rn_leases rt) i of None \<Rightarrow> 0 | Some n \<Rightarrow> n)"

definition take_lease :: "string \<Rightarrow> ('j, 's, 'f) runtime \<Rightarrow> ('j, 's, 'f) runtime" where
  "take_lease i rt = rt\<lparr>rn_leases := AList.update i (lease_count rt i + 1) (rn_leases rt)\<rparr>"

definition acquire_artifact_lease ::
    "('j, 's, 'f) runtime_env \<Rightarrow> clock \<Rightarrow> string \<Rightarrow> ('j, 's, 'f) runtime \<Rightarrow>
     string res \<times> ('j, 's, 'f) runtime" where
  "acquire_artifact_lease env ck i rt =
     (case get_or_raise env i rt of
        Inl e \<Rightarrow> (Inl e, rt)
      | Inr r \<Rightarrow>
          if jr_status r \<noteq> Succeeded \<or> \<not> nonempty (jr_output_path r) then (Inl (RuntimeError i), rt)
          else if rn_files rt (the (jr_output_path r)) = None then (Inl (RuntimeError i), rt)
          else (Inr (the (jr_output_path r)), snd (evict_terminal env ck (take_lease i rt))))"

definition release_artifact_lease :: "string \<Rightarrow> ('j, 's, 'f) runtime \<Rightarrow> ('j, 's, 'f) runtime" where
  "release_artifact_lease i rt =
     (let n = lease_count rt i - 1 in
      if n > 0 then rt\<lparr>rn_leases := AList.update i n (rn_leases rt)\<rparr>
      else rt\<lparr>rn_leases := AList.delete i (rn_leases rt)\<rparr>)"

definition touch_artifact ::
    "('j, 's, 'f) runtime_env \<Rightarrow> clock \<Rightarrow> string \<Rightarrow> ('j, 's, 'f) runtime \<Rightarrow>
     unit res \<times> ('j, 's, 'f) runtime" where
  "touch_artifact env ck i rt =
     (case api_touch (re_api env) ck i (rn_store rt) of
        Inl e \<Rightarrow> (Inl e, rt)
      | Inr s \<Rightarrow> (Inr (), rt\<lparr>rn_store := s\<rparr>))"

definition get_job_artifact_path ::
    "('j, 's, 'f) runtime_env \<Rightarrow> clock \<Rightarrow> string \<Rightarrow> ('j, 's, 'f) runtime \<Rightarrow>
     string res \<times> ('j, 's, 'f) runtime" where
  "get_job_artifact_path env ck i rt =
     (case touch_artifact env ck i rt of
        (Inl e, rt1) \<Rightarrow> (Inl e, rt1)
      | (Inr _, rt1) \<Rightarrow> acquire_artifact_lease env ck i rt1)"

text \<open>\<open>delete_job\<close>: the look-up, the cancellation of a queued job, the removal.\<close>

definition delete_begin ::
    "('j, 's, 'f) runtime_env \<Rightarrow> string \<Rightarrow> ('j, 's, 'f) runtime \<Rightarrow> unit res \<times> ('j, 's, 'f) runtime" where
  "delete_begin env i rt =
     (case get_or_raise env i rt of
        Inl e \<Rightarrow> (Inl e, rt)
      | Inr r \<Rightarrow>
          if jr_status r = Running then (Inl (RuntimeError ''job is still running''), rt)
          else (Inr (), rt\<lparr>rn_deletes := rn_deletes rt @
                  [if jr_status r = Queued then DeleteCancel i else DeleteRemove i]\<rparr>))"

definition delete_advance ::
    "('j, 's, 'f) runtime_env \<Rightarrow> clock \<Rightarrow> delete_pc \<Rightarrow> ('j, 's, 'f) runtime \<Rightarrow>
     (delete_pc \<times> string res) \<times> ('j, 's, 'f) runtime" where
  "delete_advance env ck pc rt =
     (case pc of
        DeleteCancel i \<Rightarrow>
          (case api_transition (re_api env) ck i Cancelled (error_update ''deleted while queued'') (rn_store rt) of
             Inl e \<Rightarrow> ((DeleteDone, Inl e), rt)
           | Inr (r, s) \<Rightarrow> ((DeleteRemove i, Inr []), rt\<lparr>rn_store := s\<rparr>))
      | DeleteRemove i \<Rightarrow>
          (case api_delete (re_api env) i (rn_store rt) of
             Inl e \<Rightarrow> ((DeleteDone, Inl e), rt)
           | Inr (r, s) \<Rightarrow> ((DeleteDone, Inr (job_cleanup_dir env r)), rt\<lparr>rn_store := s\<rparr>))
      | DeleteDone \<Rightarrow> ((DeleteDone, Inr []), rt))"

definition delete_step ::
    "('j, 's, 'f) runtime_env \<Rightarrow> clock \<Rightarrow> nat \<Rightarrow> ('j, 's, 'f) runtime \<Rightarrow> ('j, 's, 'f) runtime" where
  "delete_step env ck n rt =
     (case delete_advance env ck (rn_deletes rt ! n) rt of
        ((pc, _), rt1) \<Rightarrow> rt1\<lparr>rn_deletes := (rn_deletes rt1)[n := pc]\<rparr>)"

definition runtime_snapshot ::
    "('j, 's, 'f) runtime_env \<Rightarrow> ('j, 's, 'f) runtime \<Rightarrow>
     (runtime_state \<times> bool \<times> bool) \<times> (int \<times> int) \<times> (nat \<times> nat \<times> nat) \<times> bool" where
  "runtime_snapshot env rt =
     (let counts = (case api_snapshot (re_api env) (rn_store rt) of Inl e \<Rightarrow> (0, 0, 0) | Inr c \<Rightarrow> c) in
      ((rn_state rt, accepting_jobs rt, worker_alive rt), (rn_in_use rt, rn_reserved rt), counts, rn_forced rt))"

subsection \<open>The step relation\<close>

text \<open>Job ids are unique: a committed record has an id no stored job has.\<close>

definition new_job :: "('j, 's, 'f) runtime_env \<Rightarrow> 'j job_record \<Rightarrow> 's \<Rightarrow> bool" where
  "new_job env r s \<longleftrightarrow> fresh_record r \<and> jr_summary r = None \<and>
     (case api_get (re_api env) (jr_id r) s of Inr (Some q) \<Rightarrow> False | _ \<Rightarrow> True)"

inductive rt_step ::
    "('j, 's, 'f) runtime_env \<Rightarrow> ('j, 's, 'f) runtime \<Rightarrow> ('j, 's, 'f) runtime \<Rightarrow> bool" for env where
  step_start: "rt_step env rt (snd (start env ck rt))"
| step_stop: "rt_step env rt (stop_begin rt)"
| step_stopping: "n < length (rn_stops rt) \<Longrightarrow> rt_step env rt (stop_step env ck n rt)"
| step_reaper: "rt_step env rt (reap_until_stopped env rt)"
| step_worker: "rt_step env rt (worker_step env ck fault rt)"
| step_run: "rt_step env rt (snd (run_admitted rt))"
| step_run_end: "rt_step env rt (end_admitted env rt)"
| step_reserve: "rt_step env rt (snd (try_reserve_job_slot env rt))"
| step_commit: "k < length (rn_resv rt) \<Longrightarrow> new_job env r (rn_store rt) \<Longrightarrow>
    rt_step env rt (snd (commit_reservation env k r rt))"
| step_release: "k < length (rn_resv rt) \<Longrightarrow> rt_step env rt (snd (release_reservation k rt))"
| step_leave: "k < length (rn_resv rt) \<Longrightarrow> rt_step env rt (release_if_active k rt)"
| step_return: "k < length (rn_resv rt) \<Longrightarrow> rv_owed (rn_resv rt ! k) \<Longrightarrow>
    rt_step env rt (snd (release_reserved_slot k rt))"
| step_snapshot: "rt_step env rt (snd (get_job_snapshot env ck i rt))"
| step_lease: "rt_step env rt (snd (acquire_artifact_lease env ck i rt))"
| step_take_lease: "rt_step env rt (take_lease i rt)"
| step_unlease: "rt_step env rt (release_artifact_lease i rt)"
| step_touch: "rt_step env rt (snd (touch_artifact env ck i rt))"
| step_delete: "rt_step env rt (snd (delete_begin env i rt))"
| step_deleting: "n < length (rn_deletes rt) \<Longrightarrow> rt_step env rt (delete_step env ck n rt)"
| step_files: "rt_step env rt (rt\<lparr>rn_files := fs\<rparr>)"

inductive rt_steps ::
    "('j, 's, 'f) runtime_env \<Rightarrow> ('j, 's, 'f) runtime \<Rightarrow> ('j, 's, 'f) runtime \<Rightarrow> bool" for env where
  steps_refl: "rt_steps env rt rt"
| steps_step: "rt_steps env rt rt1 \<Longrightarrow> rt_step env rt1 rt2 \<Longrightarrow> rt_steps env rt rt2"

lemma rt_steps_trans: "rt_steps env rt1 rt2 \<Longrightarrow> rt_steps env rt rt1 \<Longrightarrow> rt_steps env rt rt2"
  by (induction rule: rt_steps.induct) (auto intro: rt_steps.intros)

lemma rt_steps_invariant:
  assumes "rt_steps env rt rt'" "P rt" "\<And>a b. P a \<Longrightarrow> rt_step env a b \<Longrightarrow> P b"
  shows "P rt'"
  using assms by (induction rule: rt_steps.induct) blast+

end
