(* ===== verification/RuntimeSteps.thy ===== *)
theory RuntimeSteps
  imports ServerRuntime
begin

text \<open>
  What one step of the runtime does to the job store: it issues at most one store operation, and
  which one depends on the position of the thread that takes the step.
\<close>

definition cancels :: "'j job_update \<Rightarrow> bool" where
  "cancels u \<longleftrightarrow> (\<exists>m. u = error_update m)"

definition step_op :: "('j, 's, 'f) runtime_env \<Rightarrow> ('j, 's, 'f) runtime \<Rightarrow> 'j job_op \<Rightarrow> bool" where
  "step_op env rt p =
     (case p of
        OpCreate r \<Rightarrow> False
      | OpTransition ck i st u \<Rightarrow> st = Cancelled \<and> cancels u \<or>
          (\<exists>e. rn_worker rt = WorkerCommit i e \<and> job_result e = Some (st, u))
      | OpClaim ck \<Rightarrow> (\<exists>i. rn_worker rt = WorkerAdmitted i)
      | OpDelete i \<Rightarrow> DeleteRemove i \<in> set (rn_deletes rt)
      | OpEvict ck keep \<Rightarrow> set (map fst (rn_leases rt)) \<subseteq> set (rt_skip keep)
      | _ \<Rightarrow> True)"

text \<open>The store of a step: unchanged, one operation, recovery at start, or closed.\<close>

definition store_step ::
    "('j, 's, 'f) runtime_env \<Rightarrow> ('j, 's, 'f) runtime \<Rightarrow> 's \<Rightarrow> bool" where
  "store_step env rt t \<longleftrightarrow>
     t = rn_store rt \<or>
     (\<exists>p. step_op env rt p \<and> t = snd (run_op (re_api env) p (rn_store rt))) \<or>
     (rn_state rt = NEW \<and> (\<exists>ck f rep. api_recover (re_api env) ck f (rn_store rt) = Inr (rep, t))) \<or>
     ((StopClose \<in> set (rn_stops rt) \<or> rn_reaper rt = ReaperClose) \<and> t = api_close (re_api env) (rn_store rt))"

lemma store_same [simp]: "store_step env rt (rn_store rt)"
  by (simp add: store_step_def)

lemma store_op:
  "step_op env rt p \<Longrightarrow> t = snd (run_op (re_api env) p (rn_store rt)) \<Longrightarrow> store_step env rt t"
  by (auto simp: store_step_def)

lemma store_transition:
  assumes "api_transition (re_api env) ck i st u (rn_store rt) = Inr (r, t)"
    and "st = Cancelled \<and> cancels u \<or> (\<exists>e. rn_worker rt = WorkerCommit i e \<and> job_result e = Some (st, u))"
  shows "store_step env rt t"
  by (rule store_op [of _ _ "OpTransition ck i st u"]) (use assms in \<open>auto simp: step_op_def attempt_def\<close>)

lemma store_delete:
  assumes "api_delete (re_api env) i (rn_store rt) = Inr (r, t)" "DeleteRemove i \<in> set (rn_deletes rt)"
  shows "store_step env rt t"
  by (rule store_op [of _ _ "OpDelete i"]) (use assms in \<open>auto simp: step_op_def attempt_def\<close>)

lemma store_claim:
  assumes "api_claim (re_api env) ck (rn_store rt) = Inr (r, t)" "rn_worker rt = WorkerAdmitted i"
  shows "store_step env rt t"
  by (rule store_op [of _ _ "OpClaim ck"]) (use assms in \<open>auto simp: step_op_def attempt_def\<close>)

lemma store_touch:
  assumes "api_touch (re_api env) ck i (rn_store rt) = Inr t"
  shows "store_step env rt t"
  by (rule store_op [of _ _ "OpTouch ck i"]) (use assms in \<open>auto simp: step_op_def attempt_def\<close>)

lemma store_evict:
  assumes "api_evict (re_api env) ck keep (rn_store rt) = Inr (out, t)"
    "set (map fst (rn_leases rt)) \<subseteq> set (rt_skip keep)"
  shows "store_step env rt t"
  by (rule store_op [of _ _ "OpEvict ck keep"]) (use assms in \<open>auto simp: step_op_def attempt_def\<close>)

lemma store_close:
  "StopClose \<in> set (rn_stops rt) \<or> rn_reaper rt = ReaperClose \<Longrightarrow>
   store_step env rt (api_close (re_api env) (rn_store rt))"
  by (simp add: store_step_def)

lemma cancels_update [simp]: "cancels (error_update m)"
  by (auto simp: cancels_def)

lemma release_admission_keeps [simp]:
  "rn_store (snd (release_admission env rt)) = rn_store rt"
  "rn_worker (snd (release_admission env rt)) = rn_worker rt"
  "rn_state (snd (release_admission env rt)) = rn_state rt"
  "rn_deletes (snd (release_admission env rt)) = rn_deletes rt"
  "rn_stops (snd (release_admission env rt)) = rn_stops rt"
  "rn_reaper (snd (release_admission env rt)) = rn_reaper rt"
  "rn_worker_exited (snd (release_admission env rt)) = rn_worker_exited rt"
  "rn_runs (snd (release_admission env rt)) = rn_runs rt"
  "rn_reserved (snd (release_admission env rt)) = rn_reserved rt"
  "rn_resv (snd (release_admission env rt)) = rn_resv rt"
  "rn_leases (snd (release_admission env rt)) = rn_leases rt"
  "rn_shutdown (snd (release_admission env rt)) = rn_shutdown rt"
  by (simp_all add: release_admission_def Let_def)

lemma try_acquire_keeps [simp]:
  "rn_store (snd (try_acquire_admission rt)) = rn_store rt"
  "rn_deletes (snd (try_acquire_admission rt)) = rn_deletes rt"
  by (simp_all add: try_acquire_admission_def)

lemma stop_store:
  assumes "n < length (rn_stops rt)"
  shows "store_step env rt (rn_store (stop_step env ck n rt))"
proof (cases "rn_stops rt ! n")
  case StopClose
  then have "StopClose \<in> set (rn_stops rt)" using assms by (metis nth_mem)
  then show ?thesis by (simp add: stop_step_def stop_advance_def StopClose store_close)
qed (auto simp: stop_step_def stop_advance_def arm_stop_reaper_def intro: store_transition
  split: sum.split option.split prod.split)

lemma worker_store: "store_step env rt (rn_store (worker_step env ck fault rt))"
proof (cases "rn_worker rt")
  case (WorkerPeeked i)
  then show ?thesis
    by (auto simp: worker_step_def worker_wait_def try_acquire_admission_def split: prod.split)
next
  case (WorkerDenied i)
  then show ?thesis
    by (auto simp: worker_step_def worker_denied_def intro: store_transition split: sum.split option.split)
next
  case (WorkerAdmitted i)
  then show ?thesis
    by (auto simp: worker_step_def worker_claim_def or_fault_def Let_def intro: store_claim
      split: sum.split option.split)
next
  case (WorkerCommit i e)
  then show ?thesis
    by (auto simp: worker_step_def worker_commit_def or_fault_def intro: store_transition
      split: sum.split option.split)
qed (auto simp: worker_step_def worker_top_def worker_execute_def split: sum.split option.split prod.split)

lemma evict_store:
  assumes "rn_store rt1 = rn_store rt" "set (map fst (rn_leases rt)) \<subseteq> set (map fst (rn_leases rt1))"
  shows "store_step env rt (rn_store (snd (evict_terminal env ck rt1)))"
  using assms store_evict [where keep = "runtime_retention env rt1" and rt = rt and env = env and ck = ck]
  by (auto simp: evict_terminal_def runtime_retention_def split: sum.split)

lemma delete_store: "n < length (rn_deletes rt) \<Longrightarrow> store_step env rt (rn_store (delete_step env ck n rt))"
proof (cases "rn_deletes rt ! n")
  case (DeleteRemove i)
  assume "n < length (rn_deletes rt)"
  with DeleteRemove have "DeleteRemove i \<in> set (rn_deletes rt)" by (metis nth_mem)
  then show ?thesis
    by (auto simp: delete_step_def delete_advance_def DeleteRemove intro: store_delete split: sum.split)
qed (auto simp: delete_step_def delete_advance_def intro: store_transition split: sum.split)

text \<open>A commit creates the job and uses up a reserved slot; a reservation was checked against the
  capacity; every other step keeps or lowers the reserved count.\<close>

definition commit_kind :: "('j, 's, 'f) runtime_env \<Rightarrow> ('j, 's, 'f) runtime \<Rightarrow> ('j, 's, 'f) runtime \<Rightarrow> bool" where
  "commit_kind env rt rt' \<longleftrightarrow> rn_state rt = RUNNING \<and> rn_reserved rt' = rn_reserved rt - 1 \<and>
     (\<exists>r. new_job env r (rn_store rt) \<and> api_create (re_api env) r (rn_store rt) = Inr (rn_store rt'))"

definition reserve_kind :: "('j, 's, 'f) runtime_env \<Rightarrow> ('j, 's, 'f) runtime \<Rightarrow> ('j, 's, 'f) runtime \<Rightarrow> bool" where
  "reserve_kind env rt rt' \<longleftrightarrow> rn_store rt' = rn_store rt \<and> rn_reserved rt' = rn_reserved rt + 1 \<and>
     (\<exists>n. api_count (re_api env) Queued (rn_store rt) = Inr n \<and> int n + rn_reserved rt < int (re_depth env))"

definition plain_kind :: "('j, 's, 'f) runtime_env \<Rightarrow> ('j, 's, 'f) runtime \<Rightarrow> ('j, 's, 'f) runtime \<Rightarrow> bool" where
  "plain_kind env rt rt' \<longleftrightarrow> store_step env rt (rn_store rt') \<and> rn_reserved rt' \<le> rn_reserved rt"

lemma plainI: "store_step env rt (rn_store rt') \<Longrightarrow> rn_reserved rt' \<le> rn_reserved rt \<Longrightarrow> plain_kind env rt rt'"
  by (simp add: plain_kind_def)

lemma stop_reserved: "rn_reserved (stop_step env ck n rt) = rn_reserved rt"
  by (cases "rn_stops rt ! n")
    (auto simp: stop_step_def stop_advance_def arm_stop_reaper_def split: sum.split option.split)

lemma worker_reserved: "rn_reserved (worker_step env ck fault rt) = rn_reserved rt"
  by (cases "rn_worker rt")
    (auto simp: worker_step_def worker_top_def worker_wait_def try_acquire_admission_def worker_denied_def
      worker_claim_def Let_def worker_execute_def worker_commit_def
      split: sum.split option.split prod.split)

lemma commit_split:
  assumes "new_job env r (rn_store rt)"
  shows "commit_kind env rt (snd (commit_reservation env k r rt)) \<or> plain_kind env rt (snd (commit_reservation env k r rt))"
proof (cases "fst (commit_reservation env k r rt)")
  case (Inl e)
  then have "snd (commit_reservation env k r rt) = rt"
    by (auto simp: commit_reservation_def enqueue_reserved_def split: sum.splits if_splits)
  then show ?thesis by (simp add: plain_kind_def)
next
  case (Inr i)
  then show ?thesis using assms
    by (auto simp: commit_reservation_def enqueue_reserved_def commit_kind_def split: sum.splits if_splits)
qed

theorem rt_step_kind: "rt_step env rt rt' \<Longrightarrow> commit_kind env rt rt' \<or> reserve_kind env rt rt' \<or> plain_kind env rt rt'"
proof (induction rule: rt_step.induct)
  case (step_start rt ck)
  show ?case by (auto simp: start_def plain_kind_def store_step_def split: sum.split)
next
  case (step_stop rt) show ?case by (simp add: stop_begin_def plain_kind_def)
next
  case (step_stopping n rt ck) then show ?case using stop_store [of n rt env ck] by (simp add: plain_kind_def stop_reserved)
next
  case (step_reaper rt) show ?case
    by (cases "rn_reaper rt") (simp_all add: reap_until_stopped_def plain_kind_def store_close)
next
  case (step_worker rt ck fault) show ?case by (simp add: plain_kind_def worker_store worker_reserved)
next
  case (step_run rt) show ?case by (simp add: run_admitted_def try_acquire_admission_def plain_kind_def)
next
  case (step_run_end rt) show ?case by (simp add: end_admitted_def plain_kind_def)
next
  case (step_reserve rt) show ?case
    by (auto simp: try_reserve_job_slot_def plain_kind_def reserve_kind_def split: sum.split)
next
  case (step_commit k rt r) then show ?case using commit_split by blast
next
  case (step_release k rt) show ?case by (auto simp: release_reservation_def plain_kind_def split: sum.split)
next
  case (step_leave k rt) show ?case
    by (auto simp: release_if_active_def release_reservation_def plain_kind_def split: sum.split)
next
  case (step_return k rt) show ?case by (simp add: release_reserved_slot_def plain_kind_def)
next
  case (step_snapshot rt ck i)
  have "snd (get_job_snapshot env ck i rt) = snd (evict_terminal env ck rt)"
    by (simp add: get_job_snapshot_def Let_def split: sum.split)
  moreover have "rn_reserved (snd (evict_terminal env ck rt)) = rn_reserved rt"
    by (simp add: evict_terminal_def split: sum.split)
  ultimately show ?case using evict_store [of rt rt] by (simp add: plain_kind_def)
next
  case (step_lease rt ck i)
  have "set (map fst (rn_leases rt)) \<subseteq> set (map fst (rn_leases (take_lease i rt)))"
    by (auto simp: take_lease_def dom_update)
  moreover have "rn_reserved (snd (evict_terminal env ck (take_lease i rt))) = rn_reserved rt"
    by (simp add: evict_terminal_def take_lease_def split: sum.split)
  ultimately show ?case using evict_store [of "take_lease i rt" rt env ck]
    by (auto simp: acquire_artifact_lease_def take_lease_def plain_kind_def split: sum.split)
next
  case (step_take_lease rt i) show ?case by (simp add: take_lease_def plain_kind_def)
next
  case (step_unlease rt i) show ?case by (simp add: release_artifact_lease_def Let_def plain_kind_def)
next
  case (step_touch rt ck i) show ?case
    by (auto simp: touch_artifact_def plain_kind_def intro: store_touch split: sum.split)
next
  case (step_delete rt i) show ?case by (auto simp: delete_begin_def plain_kind_def split: sum.split)
next
  case (step_deleting n rt ck)
  have "rn_reserved (delete_step env ck n rt) = rn_reserved rt"
    by (cases "rn_deletes rt ! n") (auto simp: delete_step_def delete_advance_def split: sum.split)
  with delete_store [OF step_deleting] show ?case by (simp add: plain_kind_def)
next
  case (step_files rt fs) show ?case by (simp add: plain_kind_def)
qed

end
