(* ===== verification/RuntimeSafety.thy ===== *)
theory RuntimeSafety
  imports RuntimeSteps
begin

text \<open>
  Invariants of every interleaving of the runtime's threads: admission, reservations, lifecycle, and
  with the contract of the store, queue capacity, shutdown and leases.
\<close>

subsection \<open>Admission and lifecycle\<close>

definition holding :: "'j worker_pc \<Rightarrow> int" where
  "holding w = (case w of WorkerAdmitted _ \<Rightarrow> 1 | WorkerBusy _ \<Rightarrow> 1 | WorkerCommit _ _ \<Rightarrow> 1 | _ \<Rightarrow> 0)"

lemma holding_simps [simp]:
  "holding WorkerOff = 0" "holding WorkerTop = 0" "holding (WorkerPeeked i) = 0" "holding (WorkerDenied i) = 0"
  "holding (WorkerAdmitted i) = 1" "holding (WorkerBusy r) = 1" "holding (WorkerCommit i e) = 1"
  "holding WorkerLeft = 0" "holding WorkerExited = 0" "holding WorkerDied = 0"
  by (simp_all add: holding_def)

lemma holding_nonneg [simp]: "0 \<le> holding w"
  by (cases w) simp_all

text \<open>Admissions in use beyond those of the running calls and of the worker.\<close>

definition leaked :: "('j, 's, 'f) runtime \<Rightarrow> int" where
  "leaked rt = rn_in_use rt - int (rn_runs rt) - holding (rn_worker rt)"

definition admission_ok :: "('j, 's, 'f) runtime_env \<Rightarrow> ('j, 's, 'f) runtime \<Rightarrow> bool" where
  "admission_ok env rt \<longleftrightarrow> 0 \<le> leaked rt \<and> rn_in_use rt + int (rn_permits rt) = int (re_max env)"

definition life_ok :: "('j, 's, 'f) runtime \<Rightarrow> bool" where
  "life_ok rt \<longleftrightarrow>
     (rn_state rt = NEW \<longrightarrow> rn_worker rt = WorkerOff) \<and>
     (rn_stops rt \<noteq> [] \<or> rn_reaper rt \<noteq> ReaperOff \<longrightarrow> rn_state rt \<in> {DRAINING, STOPPED}) \<and>
     (rn_state rt = STOPPED \<or> StopSettle \<in> set (rn_stops rt) \<longrightarrow> owns_no_execution rt) \<and>
     (rn_worker_exited rt \<longrightarrow> rn_worker rt \<in> {WorkerLeft, WorkerExited})"

lemma release_balanced:
  assumes "rn_in_use rt + int (rn_permits rt) = int (re_max env)" "0 < rn_in_use rt"
  shows "release_admission env rt =
    (Inr (), rt\<lparr>rn_in_use := rn_in_use rt - 1, rn_permits := rn_permits rt + 1\<rparr>)"
  using assms by (simp add: release_admission_def)

lemma release_held:
  assumes "admission_ok env rt" "holding (rn_worker rt) = 1"
  shows "snd (release_admission env (rt\<lparr>rn_store := s, rn_worker := w\<rparr>)) =
    rt\<lparr>rn_store := s, rn_worker := w, rn_in_use := rn_in_use rt - 1, rn_permits := rn_permits rt + 1\<rparr>"
  using assms by (subst release_balanced) (simp_all add: admission_ok_def leaked_def)

lemma release_held_same:
  assumes "admission_ok env rt" "holding (rn_worker rt) = 1"
  shows "snd (release_admission env (rt\<lparr>rn_worker := w\<rparr>)) =
    rt\<lparr>rn_worker := w, rn_in_use := rn_in_use rt - 1, rn_permits := rn_permits rt + 1\<rparr>"
  using assms by (subst release_balanced) (simp_all add: admission_ok_def leaked_def)

lemma end_admitted_eq:
  assumes "admission_ok env rt"
  shows "end_admitted env rt =
    (if rn_runs rt = 0 then rt
     else rt\<lparr>rn_runs := rn_runs rt - 1, rn_in_use := rn_in_use rt - 1, rn_permits := rn_permits rt + 1\<rparr>)"
proof (cases "rn_runs rt = 0")
  case False
  then have "0 < rn_in_use rt" using assms holding_nonneg [of "rn_worker rt"]
    unfolding admission_ok_def leaked_def by linarith
  with assms False show ?thesis
    by (simp add: end_admitted_def admission_ok_def release_balanced)
qed (simp add: end_admitted_def)

text \<open>Steps that leave the admission and lifecycle fields alone.\<close>

lemma facade_keeps:
  "rn_worker (snd (evict_terminal env ck rt)) = rn_worker rt"
  "rn_state (snd (evict_terminal env ck rt)) = rn_state rt"
  "rn_in_use (snd (evict_terminal env ck rt)) = rn_in_use rt"
  "rn_permits (snd (evict_terminal env ck rt)) = rn_permits rt"
  "rn_runs (snd (evict_terminal env ck rt)) = rn_runs rt"
  "rn_stops (snd (evict_terminal env ck rt)) = rn_stops rt"
  "rn_reaper (snd (evict_terminal env ck rt)) = rn_reaper rt"
  "rn_worker_exited (snd (evict_terminal env ck rt)) = rn_worker_exited rt"
  "rn_reserved (snd (evict_terminal env ck rt)) = rn_reserved rt"
  "rn_resv (snd (evict_terminal env ck rt)) = rn_resv rt"
  "rn_deletes (snd (evict_terminal env ck rt)) = rn_deletes rt"
  "rn_leases (snd (evict_terminal env ck rt)) = rn_leases rt"
  by (simp_all add: evict_terminal_def split: sum.split)

text \<open>The control fields, on which the first two invariants depend.\<close>

definition control ::
    "('j, 's, 'f) runtime \<Rightarrow> 'j worker_pc \<times> runtime_state \<times> int \<times> nat \<times> nat \<times> stop_pc list \<times> reaper_pc \<times> bool" where
  "control rt = (rn_worker rt, rn_state rt, rn_in_use rt, rn_permits rt, rn_runs rt, rn_stops rt, rn_reaper rt,
     rn_worker_exited rt)"

lemma control_ok:
  assumes "control rt' = control rt"
  shows "admission_ok env rt' = admission_ok env rt" "life_ok rt' = life_ok rt"
  using assms
  by (simp_all add: control_def admission_ok_def leaked_def life_ok_def owns_no_execution_def worker_alive_def executing_def)

lemma control_facades:
  "control (snd (try_reserve_job_slot env rt)) = control rt"
  "control (snd (commit_reservation env k r rt)) = control rt"
  "control (snd (release_reservation k rt)) = control rt"
  "control (release_if_active k rt) = control rt"
  "control (snd (release_reserved_slot k rt)) = control rt"
  "control (snd (get_job_snapshot env ck i rt)) = control rt"
  "control (snd (acquire_artifact_lease env ck i rt)) = control rt"
  "control (take_lease i rt) = control rt"
  "control (release_artifact_lease i rt) = control rt"
  "control (snd (touch_artifact env ck i rt)) = control rt"
  "control (snd (delete_begin env i rt)) = control rt"
  "control (delete_step env ck n rt) = control rt"
  "control (rt\<lparr>rn_files := fs\<rparr>) = control rt"
  by (auto simp: control_def try_reserve_job_slot_def commit_reservation_def enqueue_reserved_def
      release_reservation_def release_if_active_def release_reserved_slot_def get_job_snapshot_def Let_def
      facade_keeps acquire_artifact_lease_def take_lease_def release_artifact_lease_def touch_artifact_def
      delete_begin_def delete_step_def delete_advance_def
      split: sum.split prod.split delete_pc.split)

lemma admission_step:
  assumes "rt_step env rt rt'" "admission_ok env rt" "rn_state rt = NEW \<longrightarrow> rn_worker rt = WorkerOff"
  shows "admission_ok env rt'"
  using assms
proof (induction rule: rt_step.induct)
  case (step_start rt ck)
  then show ?case by (auto simp: start_def admission_ok_def leaked_def split: sum.split)
next
  case (step_stop rt)
  then show ?case by (simp add: stop_begin_def admission_ok_def leaked_def)
next
  case (step_stopping n rt ck)
  then show ?case
    by (cases "rn_stops rt ! n")
      (auto simp: stop_step_def stop_advance_def arm_stop_reaper_def admission_ok_def leaked_def
        split: sum.split option.split)
next
  case (step_reaper rt)
  then show ?case by (cases "rn_reaper rt") (auto simp: reap_until_stopped_def admission_ok_def leaked_def)
next
  case (step_worker rt ck fault)
  show ?case
  proof (cases "rn_worker rt")
    case (WorkerAdmitted i)
    with step_worker show ?thesis
      by (auto simp: worker_step_def worker_claim_def Let_def release_held admission_ok_def leaked_def or_fault_def
          split: sum.split option.split)
  next
    case (WorkerCommit i e)
    with step_worker show ?thesis
      by (auto simp: worker_step_def worker_commit_def release_held release_held_same admission_ok_def leaked_def
          split: sum.split option.split)
  qed (use step_worker in \<open>auto simp: worker_step_def worker_top_def worker_wait_def try_acquire_admission_def
      worker_denied_def worker_execute_def admission_ok_def leaked_def split: sum.split option.split prod.split\<close>)
next
  case (step_run rt)
  then show ?case by (auto simp: run_admitted_def try_acquire_admission_def admission_ok_def leaked_def)
next
  case (step_run_end rt)
  then show ?case by (auto simp: end_admitted_eq) (auto simp: admission_ok_def leaked_def)
qed (simp_all only: control_ok(1) [OF control_facades(1)] control_ok(1) [OF control_facades(2)]
  control_ok(1) [OF control_facades(3)] control_ok(1) [OF control_facades(4)] control_ok(1) [OF control_facades(5)]
  control_ok(1) [OF control_facades(6)] control_ok(1) [OF control_facades(7)] control_ok(1) [OF control_facades(8)]
  control_ok(1) [OF control_facades(9)] control_ok(1) [OF control_facades(10)] control_ok(1) [OF control_facades(11)]
  control_ok(1) [OF control_facades(12)] control_ok(1) [OF control_facades(13)])

lemmas control_kept = control_facades [THEN control_ok(2)]

lemma owns_simps:
  "owns_no_execution rt \<longleftrightarrow> rn_in_use rt \<le> 0 \<and> rn_worker rt \<in> {WorkerOff, WorkerExited, WorkerDied}"
  by (cases "rn_worker rt") (auto simp: owns_no_execution_def worker_alive_def executing_def)

lemma set_update_Settle: "StopSettle \<in> set (ps[n := pc]) \<Longrightarrow> StopSettle \<in> set ps \<or> pc = StopSettle"
  using set_update_subset_insert [of ps n pc] by auto

lemma life_idle:
  assumes "life_ok rt" "rn_state rt = STOPPED \<or> StopSettle \<in> set (rn_stops rt)"
  shows "rn_worker rt \<in> {WorkerOff, WorkerExited, WorkerDied}" "rn_in_use rt \<le> 0"
  using assms by (auto simp: life_ok_def owns_simps)

lemma stop_life:
  assumes "n < length (rn_stops rt)" "life_ok rt"
  shows "life_ok (stop_step env ck n rt)"
proof -
  have st: "rn_state rt = DRAINING \<or> rn_state rt = STOPPED"
    using assms by (auto simp: life_ok_def)
  have ne: "(rn_stops rt)[n := pc] \<noteq> []" for pc using assms(1) by auto
  show ?thesis
  proof (cases "rn_stops rt ! n")
    case StopJoin
    then show ?thesis using assms st set_update_Settle [of "rn_stops rt" n]
      by (auto simp: stop_step_def stop_advance_def arm_stop_reaper_def life_ok_def owns_simps)
  next
    case StopSettle
    then have "StopSettle \<in> set (rn_stops rt)" using assms(1) by (metis nth_mem)
    then show ?thesis using assms st set_update_Settle [of "rn_stops rt" n] StopSettle
      by (auto simp: stop_step_def stop_advance_def life_ok_def owns_simps)
  qed (use assms st set_update_Settle [of "rn_stops rt" n] in
      \<open>auto simp: stop_step_def stop_advance_def life_ok_def owns_simps split: sum.split option.split\<close>)
qed

lemma worker_life:
  assumes "life_ok rt" "admission_ok env rt"
  shows "life_ok (worker_step env ck fault rt)"
proof (cases "rn_worker rt")
  case (WorkerAdmitted i)
  with assms show ?thesis
    by (auto simp: worker_step_def worker_claim_def Let_def release_held life_ok_def owns_simps or_fault_def
        split: sum.split option.split)
next
  case (WorkerCommit i e)
  with assms show ?thesis
    by (auto simp: worker_step_def worker_commit_def release_held release_held_same life_ok_def owns_simps
        split: sum.split option.split)
qed (use assms in \<open>auto simp: worker_step_def worker_top_def worker_wait_def try_acquire_admission_def
    worker_denied_def worker_execute_def life_ok_def owns_simps split: sum.split option.split prod.split\<close>)

lemma life_less_use:
  assumes "life_ok rt" "n \<le> rn_in_use rt"
  shows "life_ok (rt\<lparr>rn_runs := r, rn_in_use := n, rn_permits := p\<rparr>)"
  using assms by (simp add: life_ok_def owns_simps) (metis order.trans)

lemma life_step:
  assumes "rt_step env rt rt'" "life_ok rt" "admission_ok env rt"
  shows "life_ok rt'"
  using assms
proof (induction rule: rt_step.induct)
  case (step_start rt ck)
  then show ?case by (auto simp: start_def life_ok_def split: sum.split)
next
  case (step_stop rt)
  then show ?case by (auto simp: stop_begin_def life_ok_def owns_simps)
next
  case (step_stopping n rt ck)
  then show ?case by (intro stop_life)
next
  case (step_reaper rt)
  then show ?case by (cases "rn_reaper rt") (auto simp: reap_until_stopped_def life_ok_def owns_simps executing_def)
next
  case (step_worker rt ck fault)
  then show ?case by (intro worker_life)
next
  case (step_run rt)
  show ?case
  proof (cases "rn_state rt = RUNNING")
    case True
    then have "rn_stops rt = []" "rn_reaper rt = ReaperOff" using step_run(1) by (simp_all add: life_ok_def)
    with True step_run(1) show ?thesis by (simp add: run_admitted_def try_acquire_admission_def life_ok_def)
  qed (use step_run in \<open>simp add: run_admitted_def\<close>)
next
  case (step_run_end rt)
  then show ?case by (simp add: end_admitted_eq life_less_use)
qed (simp_all only: control_kept)

subsection \<open>Reservations\<close>

definition unsettled :: "reservation \<Rightarrow> bool" where
  "unsettled v \<longleftrightarrow> rv_state v = ACTIVE \<or> rv_owed v"

definition resv_ok :: "('j, 's, 'f) runtime \<Rightarrow> bool" where
  "resv_ok rt \<longleftrightarrow> rn_reserved rt = int (length (filter unsettled (rn_resv rt))) \<and>
     (\<forall>v\<in>set (rn_resv rt). rv_owed v \<longrightarrow> rv_state v = RELEASED)"

lemma filter_update_length:
  "k < length vs \<Longrightarrow> int (length (filter P (vs[k := v]))) =
     int (length (filter P vs)) - (if P (vs ! k) then 1 else 0) + (if P v then 1 else 0)"
proof (induction vs arbitrary: k)
  case (Cons w vs)
  show ?case
  proof (cases k)
    case (Suc j)
    then show ?thesis using Cons.IH [of j] Cons.prems by auto
  qed auto
qed simp

lemma resv_step:
  assumes "rt_step env rt rt'" "resv_ok rt"
  shows "resv_ok rt'"
  using assms
proof (induction rule: rt_step.induct)
  case (step_start rt ck) then show ?case by (auto simp: start_def resv_ok_def split: sum.split)
next
  case (step_stop rt) then show ?case by (simp add: stop_begin_def resv_ok_def)
next
  case (step_stopping n rt ck)
  then show ?case
    by (cases "rn_stops rt ! n")
      (auto simp: stop_step_def stop_advance_def arm_stop_reaper_def resv_ok_def split: sum.split option.split)
next
  case (step_reaper rt) then show ?case by (cases "rn_reaper rt") (auto simp: reap_until_stopped_def resv_ok_def)
next
  case (step_worker rt ck fault)
  then show ?case
    by (cases "rn_worker rt")
      (auto simp: worker_step_def worker_top_def worker_wait_def try_acquire_admission_def worker_denied_def
        worker_claim_def Let_def worker_execute_def worker_commit_def resv_ok_def
        split: sum.split option.split prod.split)
next
  case (step_run rt) then show ?case by (auto simp: run_admitted_def try_acquire_admission_def resv_ok_def)
next
  case (step_run_end rt) then show ?case by (simp add: end_admitted_def resv_ok_def)
next
  case (step_reserve rt)
  then show ?case by (auto simp: try_reserve_job_slot_def resv_ok_def unsettled_def split: sum.split)
next
  case (step_commit k rt r)
  show ?case
  proof (cases "rv_state (rn_resv rt ! k) = ACTIVE")
    case True
    then have "unsettled (rn_resv rt ! k)" "\<not> rv_owed (rn_resv rt ! k)"
      using step_commit nth_mem [OF step_commit(1)] by (auto simp: unsettled_def resv_ok_def)
    with step_commit True show ?thesis
      by (auto simp: commit_reservation_def already_settled_def enqueue_reserved_def resv_ok_def
          filter_update_length unsettled_def dest!: set_update_subset_insert [THEN subsetD] split: sum.split)
  qed (use step_commit in \<open>cases "rv_state (rn_resv rt ! k)";
      simp add: commit_reservation_def already_settled_def\<close>)
next
  case (step_release k rt)
  then show ?case
    by (cases "rv_state (rn_resv rt ! k)")
      (auto simp: release_reservation_def already_settled_def resv_ok_def filter_update_length unsettled_def
        dest!: set_update_subset_insert [THEN subsetD])
next
  case (step_leave k rt)
  then show ?case
    by (cases "rv_state (rn_resv rt ! k)")
      (auto simp: release_if_active_def release_reservation_def already_settled_def resv_ok_def filter_update_length
        unsettled_def dest!: set_update_subset_insert [THEN subsetD])
next
  case (step_return k rt)
  then have "rv_state (rn_resv rt ! k) = RELEASED" by (auto simp: resv_ok_def)
  with step_return show ?case
    by (auto simp: release_reserved_slot_def resv_ok_def filter_update_length unsettled_def
        dest!: set_update_subset_insert [THEN subsetD])
next
  case (step_snapshot rt ck i)
  then show ?case by (simp add: get_job_snapshot_def Let_def resv_ok_def facade_keeps split: sum.split)
next
  case (step_lease rt ck i)
  then show ?case by (auto simp: acquire_artifact_lease_def resv_ok_def facade_keeps take_lease_def split: sum.split)
next
  case (step_take_lease rt i) then show ?case by (simp add: take_lease_def resv_ok_def)
next
  case (step_unlease rt i) then show ?case by (simp add: release_artifact_lease_def Let_def resv_ok_def)
next
  case (step_touch rt ck i) then show ?case by (auto simp: touch_artifact_def resv_ok_def split: sum.split)
next
  case (step_delete rt i) then show ?case by (auto simp: delete_begin_def resv_ok_def split: sum.split)
next
  case (step_deleting n rt ck)
  then show ?case
    by (cases "rn_deletes rt ! n") (auto simp: delete_step_def delete_advance_def resv_ok_def split: sum.split)
next
  case (step_files rt fs) then show ?case by (simp add: resv_ok_def)
qed

text \<open>The invariants of a runtime that was just built, and of everything it can become.\<close>

definition rt_ok :: "('j, 's, 'f) runtime_env \<Rightarrow> ('j, 's, 'f) runtime \<Rightarrow> bool" where
  "rt_ok env rt \<longleftrightarrow> admission_ok env rt \<and> life_ok rt \<and> resv_ok rt"

lemma rt_ok_new: "rt_ok env (new_runtime env s fs)"
  by (simp add: rt_ok_def new_runtime_def admission_ok_def leaked_def life_ok_def resv_ok_def)

lemma rt_ok_step: "rt_ok env rt \<Longrightarrow> rt_step env rt rt' \<Longrightarrow> rt_ok env rt'"
proof -
  assume a: "rt_ok env rt" "rt_step env rt rt'"
  then have "rn_state rt = NEW \<longrightarrow> rn_worker rt = WorkerOff" by (simp add: rt_ok_def life_ok_def)
  with a show ?thesis unfolding rt_ok_def by (blast intro: admission_step life_step resv_step)
qed

lemma rt_ok_steps: "rt_steps env rt rt' \<Longrightarrow> rt_ok env rt \<Longrightarrow> rt_ok env rt'"
  by (rule rt_steps_invariant [where P = "rt_ok env"]) (auto intro: rt_ok_step)

subsection \<open>Stopping\<close>

lemma control_fields:
  "control rt' = control rt \<Longrightarrow> rn_state rt' = rn_state rt"
  "control rt' = control rt \<Longrightarrow> rn_worker rt' = rn_worker rt"
  "control rt' = control rt \<Longrightarrow> rn_stops rt' = rn_stops rt"
  by (simp_all add: control_def)

lemmas state_kept = control_facades [THEN control_fields(1)]
lemmas worker_kept = control_facades [THEN control_fields(2)]
lemmas stops_kept = control_facades [THEN control_fields(3)]

lemma stopped_step: "rt_step env rt rt' \<Longrightarrow> rn_state rt = STOPPED \<Longrightarrow> rn_state rt' = STOPPED"
proof (induction rule: rt_step.induct)
  case (step_start rt ck) then show ?case by (simp add: start_def)
next
  case (step_stop rt) then show ?case by (simp add: stop_begin_def)
next
  case (step_stopping n rt ck)
  then show ?case
    by (cases "rn_stops rt ! n")
      (auto simp: stop_step_def stop_advance_def arm_stop_reaper_def split: sum.split option.split)
next
  case (step_reaper rt) then show ?case by (cases "rn_reaper rt") (auto simp: reap_until_stopped_def)
next
  case (step_worker rt ck fault)
  then show ?case
    by (cases "rn_worker rt")
      (auto simp: worker_step_def worker_top_def worker_wait_def try_acquire_admission_def worker_denied_def
        worker_claim_def Let_def worker_execute_def worker_commit_def
        split: sum.split option.split prod.split)
next
  case (step_run rt) then show ?case by (auto simp: run_admitted_def try_acquire_admission_def)
next
  case (step_run_end rt) then show ?case by (simp add: end_admitted_def)
qed (simp_all only: state_kept)

end
