(* ===== verification/RuntimeStore.thy ===== *)
theory RuntimeStore
  imports RuntimeSafety
begin

text \<open>
  The contract of a store that a runtime opens, recovers, uses and closes; both stores keep it.  A
  closed store raises on every operation and keeps its rows.
\<close>

locale runtime_store = job_store +
  assumes recover: "inv s \<Longrightarrow> \<exists>rep t. api_recover api ck f s = Inr (rep, t) \<and> inv t \<and>
      (\<forall>i. look t i = look s i \<or>
         (\<exists>r q. look s i = Some r \<and> \<not> terminal (jr_status r) \<and> look t i = Some q \<and> terminal (jr_status q)))"
    and close: "inv s \<Longrightarrow> look (api_close api s) = look s \<and>
      (inv (api_close api s) \<or> api_closed api (api_close api s))"
    and closed_close: "api_closed api s \<Longrightarrow> api_close api s = s"
    and closed_op: "api_closed api s \<Longrightarrow> \<exists>e. run_op api p s = (OutError e, s)"
    and closed_recover: "api_closed api s \<Longrightarrow> \<exists>e. api_recover api ck f s = Inl e"
    and closed_count: "api_closed api s \<Longrightarrow> \<exists>e. api_count api st s = Inl e"
    and finite_closed: "api_closed api s \<Longrightarrow> finite (dom (look s))"
    and open_store: "inv s \<Longrightarrow> \<not> api_closed api s"

interpretation memory_runtime: runtime_store mem_api mem_ok map_of "\<lambda>_. True"
  by unfold_locales (auto simp: mem_api_def mem_recover_def)

lemma sqlite_api_simps:
  "api_create (sqlite_api cd) = sq_create cd" "api_get (sqlite_api cd) = sq_get cd"
  "api_peek (sqlite_api cd) = sq_peek" "api_claim (sqlite_api cd) = sq_claim cd"
  "api_transition (sqlite_api cd) = sq_transition cd" "api_touch (sqlite_api cd) = sq_touch"
  "api_delete (sqlite_api cd) = sq_delete cd" "api_evict (sqlite_api cd) = sq_evict cd"
  "api_snapshot (sqlite_api cd) = sq_snapshot_counts" "api_recover (sqlite_api cd) = sq_recover cd"
  "api_count (sqlite_api cd) = sq_count" "api_close (sqlite_api cd) = sq_close"
  "api_closed (sqlite_api cd) = sq_closed"
  by (simp_all add: sqlite_api_def)

lemma sq_closed_op:
  assumes "sq_closed s"
  shows "\<exists>e. run_op (sqlite_api cd) p s = (OutError e, s)"
proof -
  have shut: "ensure_open s = Inl (RuntimeError ''job store is closed'')" using assms by (simp add: ensure_open_def)
  have fails: "attempt t (Inl e) = (OutError e, t)" for t and e by (simp add: attempt_def)
  show ?thesis
    by (cases p; simp only: run_op.simps sqlite_api_simps sq_create_def sq_get_def sq_peek_def sq_claim_def
      sq_transition_def sq_touch_def sq_delete_def sq_evict_def sq_snapshot_counts_def shut ebind_simps Let_def fails;
      blast)
qed

interpretation durable_runtime: runtime_store "sqlite_api cd" "sq_ok cd" "sq_look cd" "storable cd" for cd
proof (unfold_locales, goal_cases)
  case (1 s ck f)
  from recover_effect [OF 1, of ck f] obtain failed cancelled t where t:
    "sq_recover cd ck f s = Inr ((failed, cancelled), t)" "sq_ok cd t"
    "\<And>i. sq_look cd t i = map_option (recovered ck f) (sq_look cd s i)" by blast
  have "\<forall>i. sq_look cd t i = sq_look cd s i \<or> (\<exists>r q. sq_look cd s i = Some r \<and> \<not> terminal (jr_status r) \<and>
      sq_look cd t i = Some q \<and> terminal (jr_status q))"
  proof
    fix i
    show "sq_look cd t i = sq_look cd s i \<or> (\<exists>r q. sq_look cd s i = Some r \<and> \<not> terminal (jr_status r) \<and>
      sq_look cd t i = Some q \<and> terminal (jr_status q))"
    proof (cases "sq_look cd s i")
      case (Some r)
      then have "recovered ck f r = r \<or> \<not> terminal (jr_status r) \<and> terminal (jr_status (recovered ck f r))"
        by (simp add: recovered_def closed_record_def terminal_def)
      with Some t(3) [of i] show ?thesis by auto
    qed (use t(3) [of i] in simp)
  qed
  then show ?case using t(1,2) by (intro exI [of _ "(failed, cancelled)"] exI [of _ t]) (simp add: sqlite_api_simps)
next
  case (2 s)
  then show ?case by (simp add: sqlite_api_simps sq_close_def sq_look_def store_view_def)
next
  case (3 s) then show ?case by (simp add: sqlite_api_simps sq_close_def)
next
  case (4 s p) then show ?case by (intro sq_closed_op) (simp add: sqlite_api_simps)
next
  case (5 s ck f) then show ?case by (simp add: sqlite_api_simps sq_recover_def ensure_open_def)
next
  case (6 s st) then show ?case by (simp add: sqlite_api_simps sq_count_def conn_open_def)
next
  case (7 s) show ?case unfolding sq_look_def by (rule finite_dom_map_of)
next
  case (8 s) then show ?case by (simp add: sqlite_api_simps sq_ok_def)
qed

subsection \<open>Steps of the runtime under the contract\<close>

definition queued_ids :: "(string \<Rightarrow> 'j job_record option) \<Rightarrow> string set" where
  "queued_ids m = {i. \<exists>r. m i = Some r \<and> jr_status r = Queued}"

lemma legal_queued:
  "legal_change (m i) (m' i) \<Longrightarrow> i \<in> queued_ids m' \<Longrightarrow> i \<in> queued_ids m \<or> m i = None"
proof -
  assume a: "legal_change (m i) (m' i)" "i \<in> queued_ids m'"
  then obtain q where q: "m' i = Some q" "jr_status q = Queued" by (auto simp: queued_ids_def)
  have "Queued \<notin> set (job_transitions st)" for st by (cases st) simp_all
  with a(1) q show ?thesis by (cases "m i") (auto simp: legal_change_def touched_def queued_ids_def)
qed

context runtime_store
begin

definition ok :: "'b \<Rightarrow> bool" where
  "ok s \<longleftrightarrow> inv s \<or> api_closed api s"

lemma op_effect:
  assumes "ok s" "inv s \<longrightarrow> client_ok summary_ok look s p" "t = snd (run_op api p s)"
  shows "ok t" "legal_change (look s i) (look t i)" "look s i = None \<Longrightarrow> look t i = None \<or> made_by p i"
proof -
  have "ok t \<and> legal_change (look s i) (look t i) \<and> (look s i = None \<longrightarrow> look t i = None \<or> made_by p i)"
  proof (cases "inv s")
    case True
    with op_legal [of s p i] assms show ?thesis by (auto simp: ok_def)
  next
    case False
    then have "api_closed api s" using assms(1) by (simp add: ok_def)
    with closed_op [of s p] assms(3) show ?thesis by (auto simp: ok_def)
  qed
  then show "ok t" "legal_change (look s i) (look t i)" "look s i = None \<Longrightarrow> look t i = None \<or> made_by p i" by blast+
qed

text \<open>A job leaves the store only by deletion or, when it is finished and not kept, by eviction.\<close>

lemma op_removes:
  assumes "inv s" "client_ok summary_ok look s p" "look s i = Some r" "look (snd (run_op api p s)) i = None"
  shows "p = OpDelete i \<or> (\<exists>ck keep. p = OpEvict ck keep \<and> i \<notin> set (rt_skip keep) \<and> terminal (jr_status r))"
proof (cases p)
  case (OpCreate q)
  with assms create [OF assms(1), of q] show ?thesis by (auto simp: client_ok_def attempt_def split: if_splits)
next
  case (OpGet j) with assms get [OF assms(1), of j] show ?thesis by (simp add: attempt_def)
next
  case OpPeek with assms peek [OF assms(1)] show ?thesis by (auto simp: attempt_def)
next
  case (OpClaim ck)
  from claim [OF assms(1), of ck] obtain out t where t: "api_claim api ck s = Inr (out, t)"
    "case out of None \<Rightarrow> t = s \<and> (\<forall>i r. look s i = Some r \<longrightarrow> jr_status r \<noteq> Queued)
     | Some r1 \<Rightarrow> \<exists>i r. look s i = Some r \<and> jr_status r = Queued \<and> r1 = claimed ck r \<and> look t = (look s)(i \<mapsto> r1)"
    by blast
  then have "look t i \<noteq> None" using assms(3) by (cases out) (auto split: if_splits)
  with assms(4) OpClaim t(1) show ?thesis by (simp add: attempt_def)
next
  case (OpTransition ck j st u)
  then have u: "summary_ok (ju_summary u)" using assms(2) by (simp add: client_ok_def)
  have "look (snd (run_op api p s)) i \<noteq> None"
  proof (cases "look s j")
    case None
    with transition [OF assms(1) u, of ck j st] OpTransition assms(3) show ?thesis by (simp add: attempt_def)
  next
    case (Some q)
    with transition [OF assms(1) u, of ck j st] OpTransition assms(3) show ?thesis
      by (cases "moved_record ck st u q") (auto simp: attempt_def)
  qed
  with assms(4) show ?thesis by simp
next
  case (OpTouch ck j)
  from touch [OF assms(1), of ck j] assms OpTouch show ?thesis by (auto simp: attempt_def split: if_splits)
next
  case (OpDelete j)
  with delete [OF assms(1), of j] assms show ?thesis
    by (cases "look s j"; cases "i = j") (auto simp: attempt_def)
next
  case (OpEvict ck keep)
  from evict [OF assms(1), of ck keep] obtain out t where t: "api_evict api ck keep s = Inr (out, t)"
    "\<forall>r\<in>set out. look s (jr_id r) = Some r \<and> terminal (jr_status r) \<and> jr_id r \<notin> set (rt_skip keep)"
    "look t = look s |` (- jr_id ` set out)" by blast
  have "look t i = None" using assms(4) OpEvict t(1) by (simp add: attempt_def)
  then obtain q where "q \<in> set out" "jr_id q = i" using assms(3) t(3) by (auto simp: restrict_map_def split: if_splits)
  with t(2) assms(3) OpEvict show ?thesis by fastforce
next
  case OpSnapshot
  then show ?thesis using assms by (cases "api_snapshot api s") (simp_all add: attempt_def)
qed

text \<open>A running job changes its state only by a transition.\<close>

lemma op_finishes:
  assumes "inv s" "client_ok summary_ok look s p" "look s i = Some r" "jr_status r = Running"
    and "look (snd (run_op api p s)) i = Some q" "jr_status q \<noteq> Running"
  shows "\<exists>ck u. p = OpTransition ck i (jr_status q) u"
proof (cases p)
  case (OpCreate w)
  with assms create [OF assms(1), of w] show ?thesis by (auto simp: client_ok_def attempt_def split: if_splits)
next
  case (OpGet j) with assms get [OF assms(1), of j] show ?thesis by (simp add: attempt_def)
next
  case OpPeek with assms peek [OF assms(1)] show ?thesis by (auto simp: attempt_def)
next
  case (OpClaim ck)
  from claim [OF assms(1), of ck] obtain out t where t: "api_claim api ck s = Inr (out, t)"
    "case out of None \<Rightarrow> t = s \<and> (\<forall>i r. look s i = Some r \<longrightarrow> jr_status r \<noteq> Queued)
     | Some r1 \<Rightarrow> \<exists>i r. look s i = Some r \<and> jr_status r = Queued \<and> r1 = claimed ck r \<and> look t = (look s)(i \<mapsto> r1)"
    by blast
  then have "look t i = look s i" using assms(3,4) by (cases out) (auto simp: fun_upd_def)
  with assms(3-6) OpClaim t(1) show ?thesis by (simp add: attempt_def)
next
  case (OpTransition ck j st u)
  then have u: "summary_ok (ju_summary u)" using assms(2) by (simp add: client_ok_def)
  show ?thesis
  proof (cases "look s j")
    case None
    with transition [OF assms(1) u, of ck j st] OpTransition assms(3-6) show ?thesis by (simp add: attempt_def)
  next
    case (Some w)
    then show ?thesis
    proof (cases "moved_record ck st u w")
      case (Inl e)
      with Some transition [OF assms(1) u, of ck j st] OpTransition assms(3-6) show ?thesis by (simp add: attempt_def)
    next
      case (Inr w1)
      with Some transition [OF assms(1) u, of ck j st] OpTransition assms(3-6) moved_record_Inr [OF Inr] show ?thesis
        by (cases "i = j") (auto simp: attempt_def)
    qed
  qed
next
  case (OpTouch ck j)
  from touch [OF assms(1), of ck j] assms OpTouch show ?thesis by (auto simp: attempt_def touched_def split: if_splits)
next
  case (OpDelete j)
  with delete [OF assms(1), of j] assms show ?thesis
    by (cases "look s j"; cases "i = j") (auto simp: attempt_def)
next
  case (OpEvict ck keep)
  from evict [OF assms(1), of ck keep] obtain out t where t: "api_evict api ck keep s = Inr (out, t)"
    "look t = look s |` (- jr_id ` set out)" by blast
  then show ?thesis using assms(3-6) OpEvict by (auto simp: attempt_def restrict_map_def split: if_splits)
next
  case OpSnapshot
  then show ?thesis using assms by (cases "api_snapshot api s") (simp_all add: attempt_def)
qed

end

end
