(* ===== verification/RuntimeQueue.thy ===== *)
theory RuntimeQueue
  imports RuntimeStore
begin

text \<open>
  What holds of the jobs in every interleaving: the queue is never overbooked, a stop call that has
  drained leaves nothing queued, a leased artifact survives every sweep, and a job that was claimed
  behind another one's back stays running for ever.
\<close>

definition drained :: "stop_pc list \<Rightarrow> bool" where
  "drained ps \<longleftrightarrow> (case ps of [] \<Rightarrow> False | pc # _ \<Rightarrow> pc \<in> {StopJoin, StopSettle, StopClose, StopDone})"

text \<open>The first stop call is never a re-entry, so it is the one that drains.\<close>

definition stops_ok :: "('j, 's, 'f) runtime \<Rightarrow> bool" where
  "stops_ok rt \<longleftrightarrow> (rn_state rt \<in> {DRAINING, STOPPED} \<longrightarrow> rn_stops rt \<noteq> []) \<and>
     (case rn_stops rt of [] \<Rightarrow> True | pc # _ \<Rightarrow> pc \<noteq> StopSignal True)"

lemma control_stops: "control rt' = control rt \<Longrightarrow> stops_ok rt' = stops_ok rt"
  by (simp add: stops_ok_def control_def)

lemmas stops_ok_kept = control_facades [THEN control_stops]

lemma stops_ok_step:
  assumes "rt_step env rt rt'" "life_ok rt" "stops_ok rt"
  shows "stops_ok rt'"
  using assms
proof (induction rule: rt_step.induct)
  case (step_start rt ck)
  then show ?case by (auto simp: start_def stops_ok_def split: sum.split)
next
  case (step_stop rt)
  show ?case
  proof (cases "rn_stops rt")
    case Nil
    then have "rn_state rt \<noteq> DRAINING" using step_stop(2) by (auto simp: stops_ok_def)
    with Nil step_stop show ?thesis by (simp add: stop_begin_def stops_ok_def)
  next
    case (Cons pc ps)
    with step_stop(2) show ?thesis by (simp add: stop_begin_def stops_ok_def)
  qed
next
  case (step_stopping n rt ck)
  obtain pc ps where ps: "rn_stops rt = pc # ps" using step_stopping(1) by (cases "rn_stops rt") auto
  have st: "rn_state rt \<in> {DRAINING, STOPPED}" using step_stopping(2) ps by (auto simp: life_ok_def)
  obtain pc1 rt1 where adv: "stop_advance env ck (rn_stops rt ! n) rt = (pc1, rt1)" by fastforce
  have "pc1 \<noteq> StopSignal True" "rn_stops rt1 = rn_stops rt"
    using adv by (auto simp: stop_advance_def arm_stop_reaper_def split: stop_pc.splits sum.splits option.splits if_splits)
  with adv ps step_stopping(3) show ?case by (cases n) (simp_all add: stop_step_def stops_ok_def)
next
  case (step_reaper rt) then show ?case by (cases "rn_reaper rt") (auto simp: reap_until_stopped_def stops_ok_def)
next
  case (step_worker rt ck fault)
  have "rn_stops (worker_step env ck fault rt) = rn_stops rt" "rn_state (worker_step env ck fault rt) = rn_state rt"
    by (cases "rn_worker rt";
        auto simp: worker_step_def worker_top_def worker_wait_def try_acquire_admission_def worker_denied_def
        worker_claim_def Let_def worker_execute_def worker_commit_def
        split: sum.split option.split prod.split)+
  with step_worker show ?case by (simp add: stops_ok_def)
next
  case (step_run rt) then show ?case by (auto simp: run_admitted_def try_acquire_admission_def stops_ok_def)
next
  case (step_run_end rt) then show ?case by (simp add: end_admitted_def stops_ok_def)
qed (simp_all only: stops_ok_kept)

definition not_executing :: "string \<Rightarrow> 'j worker_pc \<Rightarrow> bool" where
  "not_executing i w = (case w of WorkerBusy r \<Rightarrow> jr_id r \<noteq> i | WorkerCommit j e \<Rightarrow> j \<noteq> i | _ \<Rightarrow> True)"

lemma worker_stops: "rn_stops (worker_step env ck fault rt) = rn_stops rt"
  by (cases "rn_worker rt")
    (auto simp: worker_step_def worker_top_def worker_wait_def try_acquire_admission_def worker_denied_def
      worker_claim_def Let_def worker_execute_def worker_commit_def
      split: sum.split option.split prod.split)

lemma becomes_drained:
  assumes "rt_step env rt rt'" "stops_ok rt" "\<not> drained (rn_stops rt)" "drained (rn_stops rt')"
  shows "api_peek (re_api env) (rn_store rt) = Inr None \<and> rn_store rt' = rn_store rt"
  using assms
proof (induction rule: rt_step.induct)
  case (step_start rt ck) then show ?case by (auto simp: start_def split: sum.splits if_splits)
next
  case (step_stop rt)
  then show ?case by (cases "rn_stops rt") (simp_all add: stop_begin_def drained_def split: if_splits)
next
  case (step_stopping n rt ck)
  obtain pc ps where ps: "rn_stops rt = pc # ps" using step_stopping(1) by (cases "rn_stops rt") auto
  obtain pc1 rt1 where adv: "stop_advance env ck (rn_stops rt ! n) rt = (pc1, rt1)" by fastforce
  have "rn_stops rt1 = rn_stops rt"
    using adv by (auto simp: stop_advance_def arm_stop_reaper_def split: stop_pc.splits sum.splits option.splits if_splits)
  with adv step_stopping(3,4) ps have n: "n = 0" by (cases n) (simp_all add: stop_step_def drained_def)
  with adv ps have adv0: "stop_advance env ck pc rt = (pc1, rt1)" by simp
  have "pc1 \<in> {StopJoin, StopSettle, StopClose, StopDone}"
    using step_stopping(4) adv n ps \<open>rn_stops rt1 = rn_stops rt\<close> by (simp add: stop_step_def drained_def)
  moreover have "pc \<notin> {StopJoin, StopSettle, StopClose, StopDone}" using step_stopping(3) ps by (simp add: drained_def)
  moreover have "pc \<noteq> StopSignal True" using step_stopping(2) ps by (simp add: stops_ok_def)
  ultimately have "pc = StopDrain" "api_peek (re_api env) (rn_store rt) = Inr None" "rt1 = rt"
    using adv0 by (auto simp: stop_advance_def split: stop_pc.splits sum.splits option.splits if_splits)
  with adv show ?case by (simp add: stop_step_def)
next
  case (step_reaper rt)
  then show ?case by (cases "rn_reaper rt") (simp_all add: reap_until_stopped_def split: if_splits)
next
  case (step_worker rt ck fault) then show ?case by (simp add: worker_stops)
next
  case (step_run rt) then show ?case by (simp add: run_admitted_def try_acquire_admission_def split: if_splits)
next
  case (step_run_end rt) then show ?case by (simp add: end_admitted_def split: if_splits)
qed (simp_all only: stops_kept simp_thms)

lemma new_state_step: "rt_step env rt rt' \<Longrightarrow> rn_state rt \<noteq> NEW \<Longrightarrow> rn_state rt' \<noteq> NEW"
proof (induction rule: rt_step.induct)
  case (step_start rt ck) then show ?case by (simp add: start_def)
next
  case (step_stop rt) then show ?case by (simp add: stop_begin_def)
next
  case (step_stopping n rt ck)
  then show ?case
    by (cases "rn_stops rt ! n")
      (auto simp: stop_step_def stop_advance_def arm_stop_reaper_def split: sum.split option.split)
next
  case (step_reaper rt) then show ?case by (cases "rn_reaper rt") (auto simp: reap_until_stopped_def)
next
  case (step_worker rt ck fault)
  then show ?case
    by (cases "rn_worker rt")
      (auto simp: worker_step_def worker_top_def worker_wait_def try_acquire_admission_def worker_denied_def
        worker_claim_def Let_def worker_execute_def worker_commit_def
        split: sum.split option.split prod.split)
next
  case (step_run rt) then show ?case by (simp add: run_admitted_def try_acquire_admission_def)
next
  case (step_run_end rt) then show ?case by (simp add: end_admitted_def)
qed (simp_all only: state_kept not_False_eq_True)

context runtime_store
begin

lemma step_client:
  assumes "\<And>j. summary_ok j" "step_op env rt p" "re_api env = api"
  shows "client_ok summary_ok look (rn_store rt) p"
  using assms by (cases p) (auto simp: step_op_def client_ok_def)

lemma store_step_effect:
  assumes "\<And>j. summary_ok j" "re_api env = api" "ok (rn_store rt)" "store_step env rt t"
  shows "ok t" "i \<in> queued_ids (look t) \<Longrightarrow> i \<in> queued_ids (look (rn_store rt))"
proof -
  let ?s = "rn_store rt"
  consider (same) "t = ?s" | (op) p where "step_op env rt p" "t = snd (run_op api p ?s)"
    | (recovery) ck f rep where "api_recover api ck f ?s = Inr (rep, t)" | (shut) "t = api_close api ?s"
    using assms(2,4) by (auto simp: store_step_def)
  then have "ok t \<and> (i \<in> queued_ids (look t) \<longrightarrow> i \<in> queued_ids (look ?s))"
  proof cases
    case (op p)
    have c: "client_ok summary_ok look ?s p" using step_client [OF assms(1) op(1) assms(2)] .
    note eff = op_effect [OF assms(3), of p t]
    have "\<not> made_by p i" using op(1) by (cases p) (auto simp: made_by_def step_op_def)
    then have "look ?s i = None \<Longrightarrow> look t i = None" using eff(3) [of i] c op(2) by blast
    then have "i \<in> queued_ids (look t) \<Longrightarrow> look ?s i \<noteq> None" by (cases "look ?s i") (auto simp: queued_ids_def)
    moreover have "ok t" "legal_change (look ?s i) (look t i)" using eff(1,2) c op(2) by simp_all
    ultimately show ?thesis using legal_queued [of "look ?s" i "look t"] by auto
  next
    case (recovery ck f rep)
    show ?thesis
    proof (cases "inv ?s")
      case True
      from recovery(1) recover [OF True, of ck f] have t: "inv t"
        "look t i = look ?s i \<or> (\<exists>r q. look ?s i = Some r \<and> \<not> terminal (jr_status r) \<and> look t i = Some q \<and> terminal (jr_status q))"
        by auto
      then show ?thesis by (auto simp: ok_def queued_ids_def terminal_def)
    next
      case False
      then show ?thesis using closed_recover [of ?s ck f] recovery assms(3) by (auto simp: ok_def)
    qed
  next
    case shut
    then show ?thesis using close [of ?s] closed_close [of ?s] assms(3) by (auto simp: ok_def)
  qed (use assms(3) in simp)
  then show "ok t" "i \<in> queued_ids (look t) \<Longrightarrow> i \<in> queued_ids (look ?s)" by blast+
qed

lemma finite_queued: "ok s \<Longrightarrow> finite (queued_ids (look s))"
proof -
  assume "ok s"
  then have "finite (dom (look s))" using finite_jobs finite_closed by (auto simp: ok_def)
  moreover have "queued_ids (look s) \<subseteq> dom (look s)" by (auto simp: queued_ids_def)
  ultimately show ?thesis by (rule rev_finite_subset)
qed

lemma commit_effect:
  assumes "\<And>j. summary_ok j" "re_api env = api" "ok (rn_store rt)" "commit_kind env rt rt'"
  shows "ok (rn_store rt')" "\<exists>i. queued_ids (look (rn_store rt')) \<subseteq> insert i (queued_ids (look (rn_store rt)))"
proof -
  let ?s = "rn_store rt"
  from assms(2,4) obtain r where r: "new_job env r ?s" "api_create api r ?s = Inr (rn_store rt')"
    by (auto simp: commit_kind_def)
  have "\<not> api_closed api ?s"
  proof
    assume "api_closed api ?s"
    from closed_op [OF this, of "OpCreate r"] r(2) show False by (auto simp: attempt_def)
  qed
  then have inv: "inv ?s" using assms(3) by (simp add: ok_def)
  have "look ?s (jr_id r) = None"
    using r(1) get [OF inv, of "jr_id r"] assms(2) by (cases "look ?s (jr_id r)") (auto simp: new_job_def)
  with create [OF inv, of r] r assms(1) have t: "inv (rn_store rt')"
    "look (rn_store rt') = (look ?s)(jr_id r \<mapsto> r\<lparr>jr_status := Queued\<rparr>)"
    by (auto simp: new_job_def)
  then show "ok (rn_store rt')" "\<exists>i. queued_ids (look (rn_store rt')) \<subseteq> insert i (queued_ids (look ?s))"
    by (auto simp: ok_def queued_ids_def)
qed

lemma ok_step:
  assumes "\<And>j. summary_ok j" "re_api env = api" "ok (rn_store rt)" "rt_step env rt rt'"
  shows "ok (rn_store rt')"
  using rt_step_kind [OF assms(4)] commit_effect(1) [OF assms(1-3)] store_step_effect(1) [OF assms(1-3)] assms(3)
  by (auto simp: plain_kind_def reserve_kind_def)

subsection \<open>Capacity\<close>

definition fits :: "nat \<Rightarrow> ('a, 'b, 'f) runtime \<Rightarrow> bool" where
  "fits bound rt \<longleftrightarrow> int (card (queued_ids (look (rn_store rt)))) + rn_reserved rt \<le> int bound"

lemma fits_step:
  assumes "\<And>j. summary_ok j" "re_api env = api" "ok (rn_store rt)" "fits bound rt" "re_depth env \<le> bound"
    "rt_step env rt rt'"
  shows "fits bound rt'"
proof -
  let ?q = "queued_ids (look (rn_store rt))" and ?q' = "queued_ids (look (rn_store rt'))"
  have fin: "finite ?q" using finite_queued [OF assms(3)] .
  from rt_step_kind [OF assms(6)] show ?thesis
  proof (elim disjE)
    assume k: "commit_kind env rt rt'"
    from commit_effect(2) [OF assms(1-3) k] obtain i where "?q' \<subseteq> insert i ?q" by blast
    then have "card ?q' \<le> card (insert i ?q)" using fin by (intro card_mono) auto
    also have "\<dots> \<le> Suc (card ?q)" using fin by (simp add: card_insert_if)
    finally show ?thesis using k assms(4) by (simp add: fits_def commit_kind_def)
  next
    assume k: "reserve_kind env rt rt'"
    then obtain n where n: "api_count api Queued (rn_store rt) = Inr n" "int n + rn_reserved rt < int (re_depth env)"
      using assms(2) by (auto simp: reserve_kind_def)
    then have "inv (rn_store rt)" using closed_count [of "rn_store rt" Queued] assms(3) by (auto simp: ok_def)
    then have "n = card ?q" using count [of "rn_store rt" Queued] n(1) by (simp add: queued_ids_def)
    with k n assms(5) show ?thesis by (simp add: fits_def reserve_kind_def)
  next
    assume k: "plain_kind env rt rt'"
    then have "?q' \<subseteq> ?q" using store_step_effect(2) [OF assms(1-3)] by (auto simp: plain_kind_def)
    then have "card ?q' \<le> card ?q" using fin by (intro card_mono)
    with k assms(4) show ?thesis by (simp add: fits_def plain_kind_def)
  qed
qed

lemma capacity:
  assumes "\<And>j. summary_ok j" "re_api env = api" "inv s" "rt_steps env (new_runtime env s fs) rt"
  shows "int (card (queued_ids (look (rn_store rt)))) + rn_reserved rt \<le>
    int (max (re_depth env) (card (queued_ids (look s))))"
proof -
  let ?b = "max (re_depth env) (card (queued_ids (look s)))"
  have "ok (rn_store rt) \<and> fits ?b rt"
  proof (rule rt_steps_invariant [OF assms(4)])
    show "ok (rn_store (new_runtime env s fs)) \<and> fits ?b (new_runtime env s fs)"
      using assms(3) by (simp add: ok_def new_runtime_def fits_def)
  qed (use ok_step [OF assms(1,2)] fits_step [OF assms(1,2)] in auto)
  then show ?thesis by (simp add: fits_def)
qed

subsection \<open>Draining\<close>

lemma drained_step:
  assumes "\<And>j. summary_ok j" "re_api env = api" "ok (rn_store rt)" "life_ok rt" "stops_ok rt"
    and "drained (rn_stops rt) \<longrightarrow> queued_ids (look (rn_store rt)) = {}" "rt_step env rt rt'" "drained (rn_stops rt')"
  shows "queued_ids (look (rn_store rt')) = {}"
proof (cases "drained (rn_stops rt)")
  case True
  then have "rn_stops rt \<noteq> []" by (auto simp: drained_def)
  then have "\<not> commit_kind env rt rt'" using assms(4) by (auto simp: life_ok_def commit_kind_def)
  then have "rn_store rt' = rn_store rt \<or> store_step env rt (rn_store rt')"
    using rt_step_kind [OF assms(7)] by (auto simp: reserve_kind_def plain_kind_def)
  then show ?thesis using store_step_effect(2) [OF assms(1-3)] assms(6) True by auto
next
  case False
  from becomes_drained [OF assms(7,5) False assms(8)] assms(2)
  have p: "api_peek api (rn_store rt) = Inr None" "rn_store rt' = rn_store rt" by simp_all
  have "\<not> api_closed api (rn_store rt)"
    using closed_op [of "rn_store rt" OpPeek] p(1) by (auto simp: attempt_def)
  then have "inv (rn_store rt)" using assms(3) by (simp add: ok_def)
  from peek [OF this] p show ?thesis by (auto simp: queued_ids_def)
qed

lemma drain_complete:
  assumes "\<And>j. summary_ok j" "re_api env = api" "inv s" "rt_steps env (new_runtime env s fs) rt" "drained (rn_stops rt)"
  shows "queued_ids (look (rn_store rt)) = {}"
proof -
  let ?P = "\<lambda>rt. rt_ok env rt \<and> ok (rn_store rt) \<and> stops_ok rt \<and>
    (drained (rn_stops rt) \<longrightarrow> queued_ids (look (rn_store rt)) = {})"
  have "?P rt"
  proof (rule rt_steps_invariant [OF assms(4)])
    show "?P (new_runtime env s fs)"
      using assms(3) rt_ok_new [of env s fs] by (simp add: ok_def new_runtime_def stops_ok_def drained_def)
  next
    fix a b
    assume p: "?P a" and st: "rt_step env a b"
    then have l: "life_ok a" by (simp add: rt_ok_def)
    have "ok (rn_store b)" "stops_ok b" "rt_ok env b"
      using ok_step [OF assms(1,2) _ st] stops_ok_step [OF st l] rt_ok_step [OF _ st] p by blast+
    moreover have "drained (rn_stops b) \<Longrightarrow> queued_ids (look (rn_store b)) = {}"
      by (rule drained_step [OF assms(1,2) _ l _ _ st]) (use p in auto)
    ultimately show "?P b" by blast
  qed
  with assms(5) show ?thesis by blast
qed

subsection \<open>Leases\<close>

text \<open>A stored job changes only under a store operation.\<close>

lemma job_step:
  assumes "\<And>j. summary_ok j" "re_api env = api" "ok (rn_store rt)" "rt_step env rt rt'"
    and "look (rn_store rt) i = Some r" "terminal (jr_status r) \<or> rn_state rt \<noteq> NEW"
  shows "look (rn_store rt') i = Some r \<or>
    (\<exists>p. step_op env rt p \<and> inv (rn_store rt) \<and> client_ok summary_ok look (rn_store rt) p \<and>
       rn_store rt' = snd (run_op api p (rn_store rt)))"
proof -
  let ?s = "rn_store rt" and ?t = "rn_store rt'"
  from rt_step_kind [OF assms(4)] consider (commit) "commit_kind env rt rt'" | (same) "?t = ?s"
    | (plain) "store_step env rt ?t" by (auto simp: reserve_kind_def plain_kind_def)
  then show ?thesis
  proof cases
    case commit
    then obtain q where q: "new_job env q ?s" "api_create api q ?s = Inr ?t" using assms(2) by (auto simp: commit_kind_def)
    have "\<not> api_closed api ?s" using closed_op [of ?s "OpCreate q"] q(2) by (auto simp: attempt_def)
    then have inv: "inv ?s" using assms(3) by (simp add: ok_def)
    have "look ?s (jr_id q) = None"
      using q(1) get [OF inv, of "jr_id q"] assms(2) by (cases "look ?s (jr_id q)") (auto simp: new_job_def)
    with create [OF inv, of q] q assms(1,5) show ?thesis by (auto simp: new_job_def)
  next
    case plain
    then consider (op) p where "step_op env rt p" "?t = snd (run_op api p ?s)"
      | (recovery) ck f rep where "rn_state rt = NEW" "api_recover api ck f ?s = Inr (rep, ?t)"
      | (shut) "?t = api_close api ?s" | (same) "?t = ?s" using assms(2) by (auto simp: store_step_def)
    then show ?thesis
    proof cases
      case (op p)
      show ?thesis
      proof (cases "api_closed api ?s")
        case True
        with closed_op [of ?s p] op(2) assms(5) show ?thesis by auto
      next
        case False
        then have inv: "inv ?s" using assms(3) by (simp add: ok_def)
        have c: "client_ok summary_ok look ?s p" using step_client [OF assms(1) op(1) assms(2)] .
        show ?thesis using inv c op by blast
      qed
    next
      case (recovery ck f rep)
      have "inv ?s" using closed_recover [of ?s ck f] recovery assms(3) by (auto simp: ok_def)
      from recover [OF this, of ck f] recovery have
        "look ?t i = look ?s i \<or> (\<exists>r q. look ?s i = Some r \<and> \<not> terminal (jr_status r) \<and> look ?t i = Some q \<and> terminal (jr_status q))"
        by auto
      with assms(5,6) recovery(1) show ?thesis by auto
    next
      case shut
      then have "look ?t = look ?s" using close [of ?s] closed_close [of ?s] assms(3) by (auto simp: ok_def)
      with assms(5) show ?thesis by simp
    qed (use assms(5) in simp)
  qed (use assms(5) in simp)
qed

lemma leased_step:
  assumes "\<And>j. summary_ok j" "re_api env = api" "ok (rn_store rt)" "rt_step env rt rt'"
    and "i \<in> fst ` set (rn_leases rt)" "look (rn_store rt) i = Some r" "terminal (jr_status r)"
    and "DeleteRemove i \<notin> set (rn_deletes rt)"
  shows "\<exists>a. look (rn_store rt') i = Some (touched a r)"
proof (cases "look (rn_store rt') i = Some r")
  case True
  then show ?thesis by (metis touched_self)
next
  case False
  let ?s = "rn_store rt" and ?t = "rn_store rt'"
  from job_step [OF assms(1-4,6)] assms(7) False obtain p where
    p: "step_op env rt p" "inv ?s" "client_ok summary_ok look ?s p" "?t = snd (run_op api p ?s)" by blast
  have "look ?t i \<noteq> None"
  proof
    assume "look ?t i = None"
    then have "look (snd (run_op api p ?s)) i = None" using p(4) by simp
    from op_removes [OF p(2,3) assms(6) this]
    have "p = OpDelete i \<or> (\<exists>ck keep. p = OpEvict ck keep \<and> i \<notin> set (rt_skip keep))" by blast
    then show False
    proof (elim disjE exE conjE)
      assume "p = OpDelete i"
      then show False using p(1) assms(8) by (simp add: step_op_def)
    next
      fix ck keep
      assume "p = OpEvict ck keep" "i \<notin> set (rt_skip keep)"
      then show False using p(1) assms(5) by (auto simp: step_op_def)
    qed
  qed
  moreover have "legal_change (look ?s i) (look ?t i)" using op_legal [OF p(2,3), of i] p(4) by simp
  ultimately show ?thesis using assms(6,7) by (auto simp: legal_change_def terminal_final)
qed

subsection \<open>Orphans\<close>

definition orphan :: "string \<Rightarrow> ('a, 'b, 'f) runtime \<Rightarrow> bool" where
  "orphan i rt \<longleftrightarrow> (\<exists>r. look (rn_store rt) i = Some r \<and> jr_status r = Running) \<and>
     not_executing i (rn_worker rt) \<and> DeleteRemove i \<notin> set (rn_deletes rt) \<and> rn_state rt \<noteq> NEW"

lemma claim_id:
  assumes "ok s" "api_claim api ck s = Inr (Some q, t)" "look s i = Some r" "jr_status r = Running"
  shows "jr_id q \<noteq> i"
proof -
  have "\<not> api_closed api s" using closed_op [of s "OpClaim ck"] assms(2) by (auto simp: attempt_def)
  then have inv: "inv s" using assms(1) by (simp add: ok_def)
  from claim [OF inv, of ck] assms(2) obtain j w where
    "look s j = Some w" "jr_status w = Queued" "q = claimed ck w" by auto
  with key [OF inv, of j w] assms(3,4) show ?thesis by (auto simp: claimed_def)
qed

lemma cancel_running:
  assumes "ok s" "summary_ok (ju_summary u)" "look s i = Some r" "jr_status r = Running"
  shows "\<exists>e. api_transition api ck i Cancelled u s = Inl e"
proof (cases "api_closed api s")
  case True
  from closed_op [OF this, of "OpTransition ck i Cancelled u"] show ?thesis
    by (cases "api_transition api ck i Cancelled u s") (auto simp: attempt_def)
next
  case False
  then have inv: "inv s" using assms(1) by (simp add: ok_def)
  have "moved_record ck Cancelled u r = Inl (RuntimeError ''illegal job transition'')"
    using assms(4) by (simp add: moved_record_def transition_job_status_def)
  with transition [OF inv assms(2), of ck i Cancelled] assms(3) show ?thesis by simp
qed

lemma get_running:
  assumes "ok s" "look s i = Some r"
  shows "api_get api i s = Inr (Some r) \<or> (\<exists>e. api_get api i s = Inl e)"
proof (cases "api_closed api s")
  case True
  from closed_op [OF this, of "OpGet i"] show ?thesis by (cases "api_get api i s") (auto simp: attempt_def)
next
  case False
  then show ?thesis using assms get [of s i] by (simp add: ok_def)
qed

lemma orphan_worker:
  assumes "re_api env = api" "ok (rn_store rt)" "orphan i rt" "rt_step env rt rt'"
  shows "not_executing i (rn_worker rt')"
  using assms(4,1-3)
proof (induction rule: rt_step.induct)
  case (step_start rt ck)
  then show ?case by (auto simp: start_def not_executing_def orphan_def split: sum.split)
next
  case (step_stop rt) then show ?case by (simp add: stop_begin_def orphan_def)
next
  case (step_stopping n rt ck)
  then show ?case
    by (cases "rn_stops rt ! n")
      (auto simp: stop_step_def stop_advance_def arm_stop_reaper_def orphan_def split: sum.split option.split)
next
  case (step_reaper rt) then show ?case by (cases "rn_reaper rt") (auto simp: reap_until_stopped_def orphan_def)
next
  case (step_worker rt ck fault)
  show ?case
  proof (cases "rn_worker rt")
    case (WorkerAdmitted j)
    have "jr_id q \<noteq> i" if "api_claim api ck (rn_store rt) = Inr (Some q, t)" for q t
      using claim_id [OF step_worker(2) that] step_worker(3) by (auto simp: orphan_def)
    with WorkerAdmitted step_worker(1) show ?thesis
      by (auto simp: worker_step_def worker_claim_def or_fault_def Let_def not_executing_def split: sum.split option.split)
  next
    case (WorkerBusy q)
    with step_worker(3) show ?thesis
      by (auto simp: worker_step_def worker_execute_def not_executing_def orphan_def split: prod.split)
  qed (use step_worker(3) in \<open>auto simp: worker_step_def worker_top_def worker_wait_def try_acquire_admission_def
      worker_denied_def worker_commit_def not_executing_def orphan_def split: sum.split option.split prod.split\<close>)
next
  case (step_run rt) then show ?case by (simp add: run_admitted_def try_acquire_admission_def orphan_def)
next
  case (step_run_end rt) then show ?case by (simp add: end_admitted_def orphan_def)
qed (simp_all only: worker_kept orphan_def simp_thms)

lemma orphan_deletes:
  assumes "\<And>j. summary_ok j" "re_api env = api" "ok (rn_store rt)" "orphan i rt" "rt_step env rt rt'"
  shows "DeleteRemove i \<notin> set (rn_deletes rt')"
  using assms(5,1-4)
proof (induction rule: rt_step.induct)
  case (step_delete rt j)
  then obtain r where r: "look (rn_store rt) i = Some r" "jr_status r = Running" by (auto simp: orphan_def)
  show ?case
  proof (cases "j = i")
    case True
    with get_running [OF step_delete(3) r(1)] r(2) step_delete(2,4) show ?thesis
      by (auto simp: delete_begin_def get_or_raise_def orphan_def)
  qed (use step_delete(4) in \<open>auto simp: delete_begin_def orphan_def split: sum.split\<close>)
next
  case (step_deleting n rt ck)
  then obtain r where r: "look (rn_store rt) i = Some r" "jr_status r = Running" by (auto simp: orphan_def)
  have kept: "DeleteRemove i \<notin> set ((rn_deletes rt)[n := pc])" if "pc \<noteq> DeleteRemove i" for pc
    using step_deleting(5) that set_update_subset_insert [of "rn_deletes rt" n pc] by (auto simp: orphan_def)
  show ?case
  proof (cases "rn_deletes rt ! n")
    case (DeleteCancel j)
    show ?thesis
    proof (cases "j = i")
      case True
      obtain e where "api_transition api ck i Cancelled (error_update ''deleted while queued'') (rn_store rt) = Inl e"
        using cancel_running [OF step_deleting(4) _ r] step_deleting(2) by blast
      with True DeleteCancel step_deleting(3) kept [of DeleteDone] show ?thesis
        by (simp add: delete_step_def delete_advance_def)
    next
      case False
      with DeleteCancel kept [of DeleteDone] kept [of "DeleteRemove j"] show ?thesis
        by (auto simp: delete_step_def delete_advance_def split: sum.split)
    qed
  next
    case (DeleteRemove j)
    with kept [of DeleteDone] show ?thesis by (auto simp: delete_step_def delete_advance_def split: sum.split)
  next
    case DeleteDone
    with kept [of DeleteDone] show ?thesis by (simp add: delete_step_def delete_advance_def)
  qed
next
  case (step_start rt ck) then show ?case by (auto simp: start_def orphan_def split: sum.split)
next
  case (step_stop rt) then show ?case by (simp add: stop_begin_def orphan_def)
next
  case (step_stopping n rt ck)
  then show ?case
    by (cases "rn_stops rt ! n")
      (auto simp: stop_step_def stop_advance_def arm_stop_reaper_def orphan_def split: sum.split option.split)
next
  case (step_reaper rt) then show ?case by (cases "rn_reaper rt") (auto simp: reap_until_stopped_def orphan_def)
next
  case (step_worker rt ck fault)
  have "rn_deletes (worker_step env ck fault rt) = rn_deletes rt"
    by (cases "rn_worker rt")
      (auto simp: worker_step_def worker_top_def worker_wait_def try_acquire_admission_def worker_denied_def
        worker_claim_def Let_def worker_execute_def worker_commit_def
        split: sum.split option.split prod.split)
  with step_worker show ?case by (simp add: orphan_def)
next
  case (step_run rt) then show ?case by (simp add: run_admitted_def try_acquire_admission_def orphan_def)
next
  case (step_run_end rt) then show ?case by (simp add: end_admitted_def orphan_def)
next
  case (step_reserve rt) then show ?case by (auto simp: try_reserve_job_slot_def orphan_def split: sum.split)
next
  case (step_commit k rt r)
  then show ?case by (auto simp: commit_reservation_def enqueue_reserved_def orphan_def split: sum.split)
next
  case (step_release k rt) then show ?case by (auto simp: release_reservation_def orphan_def split: sum.split)
next
  case (step_leave k rt)
  then show ?case by (auto simp: release_if_active_def release_reservation_def orphan_def split: sum.split)
next
  case (step_return k rt) then show ?case by (simp add: release_reserved_slot_def orphan_def)
next
  case (step_snapshot rt ck j)
  then show ?case by (simp add: get_job_snapshot_def Let_def facade_keeps orphan_def split: sum.split)
next
  case (step_lease rt ck j)
  then show ?case by (auto simp: acquire_artifact_lease_def facade_keeps take_lease_def orphan_def split: sum.split)
next
  case (step_take_lease rt j) then show ?case by (simp add: take_lease_def orphan_def)
next
  case (step_unlease rt j) then show ?case by (simp add: release_artifact_lease_def Let_def orphan_def)
next
  case (step_touch rt ck j) then show ?case by (auto simp: touch_artifact_def orphan_def split: sum.split)
next
  case (step_files rt fs) then show ?case by (simp add: orphan_def)
qed

lemma orphan_step:
  assumes "\<And>j. summary_ok j" "re_api env = api" "ok (rn_store rt)" "orphan i rt" "rt_step env rt rt'"
  shows "orphan i rt'"
proof -
  let ?s = "rn_store rt" and ?t = "rn_store rt'"
  obtain r where r: "look ?s i = Some r" "jr_status r = Running" and new: "rn_state rt \<noteq> NEW"
    and ne: "not_executing i (rn_worker rt)" "DeleteRemove i \<notin> set (rn_deletes rt)"
    using assms(4) by (auto simp: orphan_def)
  have "\<exists>q. look ?t i = Some q \<and> jr_status q = Running"
  proof (cases "look ?t i = Some r")
    case False
    with job_step [OF assms(1-3,5) r(1)] new obtain p where
      p: "step_op env rt p" "inv ?s" "client_ok summary_ok look ?s p" "?t = snd (run_op api p ?s)" by blast
    have "look ?t i \<noteq> None"
    proof
      assume "look ?t i = None"
      then have "look (snd (run_op api p ?s)) i = None" using p(4) by simp
      from op_removes [OF p(2,3) r(1) this] r(2) have "p = OpDelete i" by (auto simp: terminal_def)
      then show False using p(1) ne(2) by (simp add: step_op_def)
    qed
    then obtain q where q: "look ?t i = Some q" by blast
    have "jr_status q = Running"
    proof (rule ccontr)
      assume n: "jr_status q \<noteq> Running"
      have q1: "look (snd (run_op api p ?s)) i = Some q" using q p(4) by simp
      from op_finishes [OF p(2,3) r q1 n] obtain ck u where op: "p = OpTransition ck i (jr_status q) u" by blast
      have legal: "legal_change (look ?s i) (look ?t i)" using op_legal [OF p(2,3), of i] p(4) by simp
      then have "jr_status q \<noteq> Cancelled" using r q n by (auto simp: legal_change_def touched_def)
      then obtain e where "rn_worker rt = WorkerCommit i e" using p(1) op by (auto simp: step_op_def)
      then show False using ne(1) by (simp add: not_executing_def)
    qed
    with q show ?thesis by blast
  qed (use r in blast)
  moreover have "rn_state rt' \<noteq> NEW" using new_state_step [OF assms(5) new] .
  ultimately show ?thesis
    using orphan_worker [OF assms(2-5)] orphan_deletes [OF assms(1-5)] by (simp add: orphan_def)
qed

lemma orphan_steps:
  assumes "\<And>j. summary_ok j" "re_api env = api" "inv s" "rt_steps env (new_runtime env s fs) rt"
    "orphan i rt" "rt_steps env rt rt'"
  shows "orphan i rt'"
proof -
  have "ok (rn_store rt)"
    by (rule rt_steps_invariant [OF assms(4)]) (use assms(3) ok_step [OF assms(1,2)] in \<open>auto simp: ok_def new_runtime_def\<close>)
  then have "ok (rn_store rt) \<and> orphan i rt" using assms(5) by simp
  with assms(6) have "ok (rn_store rt') \<and> orphan i rt'"
    by (rule rt_steps_invariant [where P = "\<lambda>x. ok (rn_store x) \<and> orphan i x"])
      (use ok_step [OF assms(1,2)] orphan_step [OF assms(1,2)] in auto)
  then show ?thesis ..
qed

lemma orphan_reachable:
  assumes "\<And>j. summary_ok j" "re_api env = api" "inv s" "rt_steps env (new_runtime env s fs) rt"
    and "look (rn_store rt) i = Some r" "jr_status r = Running" "not_executing i (rn_worker rt)"
    and "DeleteRemove i \<notin> set (rn_deletes rt)" "rn_state rt \<noteq> NEW" "rt_steps env rt rt'"
  shows "\<exists>q. look (rn_store rt') i = Some q \<and> jr_status q = Running \<and> not_executing i (rn_worker rt')"
proof -
  have "orphan i rt" using assms(5-9) by (simp add: orphan_def)
  from orphan_steps [OF assms(1-4) this assms(10)] show ?thesis by (auto simp: orphan_def)
qed

lemma leased_reachable:
  assumes "\<And>j. summary_ok j" "re_api env = api" "inv s" "rt_steps env (new_runtime env s fs) rt" "rt_step env rt rt'"
    and "i \<in> fst ` set (rn_leases rt)" "look (rn_store rt) i = Some r" "terminal (jr_status r)"
    and "DeleteRemove i \<notin> set (rn_deletes rt)"
  shows "\<exists>a. look (rn_store rt') i = Some (touched a r)"
proof -
  have "ok (rn_store rt)"
    by (rule rt_steps_invariant [OF assms(4)]) (use assms(3) ok_step [OF assms(1,2)] in \<open>auto simp: ok_def new_runtime_def\<close>)
  from leased_step [OF assms(1,2) this assms(5-9)] show ?thesis .
qed

end

end
