(* ===== verification/RuntimeTraces.thy ===== *)
theory RuntimeTraces
  imports RuntimeQueue
begin

text \<open>
  The properties of the runtime over the SQLite store, scripts that drive a runtime through a chosen
  interleaving, and when a shutdown can complete.
\<close>

subsection \<open>Scripts\<close>

datatype 'j runtime_act =
    ActStart clock
  | ActStop
  | ActStopping nat clock
  | ActReap
  | ActWork clock "py_error option"
  | ActRun
  | ActRunEnd
  | ActReserve
  | ActCommit nat "'j job_record"
  | ActDelete string
  | ActDeleting nat clock
  | ActTakeLease string
  | ActRead clock string

fun act :: "('j, 's, 'f) runtime_env \<Rightarrow> 'j runtime_act \<Rightarrow> ('j, 's, 'f) runtime \<Rightarrow> ('j, 's, 'f) runtime" where
  "act env (ActStart ck) rt = snd (start env ck rt)"
| "act env ActStop rt = stop_begin rt"
| "act env (ActStopping n ck) rt = stop_step env ck n rt"
| "act env ActReap rt = reap_until_stopped env rt"
| "act env (ActWork ck fault) rt = worker_step env ck fault rt"
| "act env ActRun rt = snd (run_admitted rt)"
| "act env ActRunEnd rt = end_admitted env rt"
| "act env ActReserve rt = snd (try_reserve_job_slot env rt)"
| "act env (ActCommit k r) rt = snd (commit_reservation env k r rt)"
| "act env (ActDelete i) rt = snd (delete_begin env i rt)"
| "act env (ActDeleting n ck) rt = delete_step env ck n rt"
| "act env (ActTakeLease i) rt = take_lease i rt"
| "act env (ActRead ck i) rt = snd (get_job_snapshot env ck i rt)"

fun act_ok :: "('j, 's, 'f) runtime_env \<Rightarrow> 'j runtime_act \<Rightarrow> ('j, 's, 'f) runtime \<Rightarrow> bool" where
  "act_ok env (ActStopping n ck) rt \<longleftrightarrow> n < length (rn_stops rt)"
| "act_ok env (ActCommit k r) rt \<longleftrightarrow> k < length (rn_resv rt) \<and> new_job env r (rn_store rt)"
| "act_ok env (ActDeleting n ck) rt \<longleftrightarrow> n < length (rn_deletes rt)"
| "act_ok env _ rt \<longleftrightarrow> True"

fun play :: "('j, 's, 'f) runtime_env \<Rightarrow> 'j runtime_act list \<Rightarrow> ('j, 's, 'f) runtime \<Rightarrow> ('j, 's, 'f) runtime" where
  "play env [] rt = rt"
| "play env (a # as) rt = play env as (act env a rt)"

fun play_ok :: "('j, 's, 'f) runtime_env \<Rightarrow> 'j runtime_act list \<Rightarrow> ('j, 's, 'f) runtime \<Rightarrow> bool" where
  "play_ok env [] rt \<longleftrightarrow> True"
| "play_ok env (a # as) rt \<longleftrightarrow> act_ok env a rt \<and> play_ok env as (act env a rt)"

lemma act_step: "act_ok env a rt \<Longrightarrow> rt_step env rt (act env a rt)"
  by (cases a) (auto intro: rt_step.intros)

lemma steps_front: "rt_steps env rt1 rt2 \<Longrightarrow> rt_step env rt rt1 \<Longrightarrow> rt_steps env rt rt2"
  by (rule rt_steps_trans) (auto intro: rt_steps.intros)

lemma play_steps: "play_ok env as rt \<Longrightarrow> rt_steps env rt (play env as rt)"
proof (induction "as" arbitrary: rt)
  case (Cons a "as")
  then have "rt_steps env (act env a rt) (play env as (act env a rt))" by simp
  then show ?case using act_step [of env a rt] Cons.prems by (auto intro: steps_front)
qed (simp add: steps_refl)

lemma play_append: "play env (as @ bs) rt = play env bs (play env as rt)"
  by (induction "as" arbitrary: rt) simp_all

text \<open>A server over SQLite with one admission and two queue slots.\<close>

definition demo_exec :: "(string, string) exec_env" where
  "demo_exec = \<lparr>xe_loads = demo_load, xe_str = demo_str,
     xe_run = (\<lambda>params inp out i fs. (Inr out, fs(out := Some ''hi''))),
     xe_out = Some, xe_with_out = (\<lambda>p j. p), xe_digest = (\<lambda>c. (c, int (length c))), xe_durable = True\<rparr>"

definition demo_server :: "(string, sqlite, string) runtime_env" where
  "demo_server = \<lparr>re_api = sqlite_api text_codec, re_exec = demo_exec, re_max = 1, re_depth = 2, re_ttl = 100,
     re_history_cap = 1, re_jobs_dir = ''jobs''\<rparr>"

definition fresh_server :: "(string, sqlite, string) runtime" where
  "fresh_server = new_runtime demo_server empty_sqlite (\<lambda>_. None)"

definition submit :: "nat \<Rightarrow> string \<Rightarrow> rat \<Rightarrow> string runtime_act list" where
  "submit k i t = [ActReserve, ActCommit k ((sample_job i t)\<lparr>jr_params_json := Some ''ok''\<rparr>)]"

lemma demo_facts: "\<And>j. storable text_codec j" "re_api demo_server = sqlite_api text_codec" "sq_ok text_codec empty_sqlite"
  by (auto simp: storable_def text_codec_def demo_server_def sq_ok_def empty_sqlite_def split: option.split)

lemma demo_reach: "play_ok demo_server as fresh_server \<Longrightarrow>
    rt_steps demo_server (new_runtime demo_server empty_sqlite (\<lambda>_. None)) (play demo_server as fresh_server)"
  using play_steps [of demo_server "as" fresh_server] by (simp add: fresh_server_def)

subsection \<open>Capacity\<close>

text \<open>C7: The queue is never overbooked.  In every state a server over the SQLite store can reach,
  with any interleaving of submissions, deletions, reads, worker steps, shutdown and database
  faults: persisted queued jobs and open reservations together are at most the configured depth (or
  the backlog the server was started with, if that was longer), the reserved counter equals the
  number of reservations not yet settled, and the admissions in use are between those actually held
  and the configured maximum, so no release ever underflows.\<close>

theorem queue_never_overbooked:
  assumes "\<And>j. storable cd j" "re_api env = sqlite_api cd" "sq_ok cd s"
    and "rt_steps env (new_runtime env s fs) rt"
  shows "int (card (queued_ids (sq_look cd (rn_store rt)))) + rn_reserved rt \<le>
      int (max (re_depth env) (card (queued_ids (sq_look cd s)))) \<and>
    rn_reserved rt = int (length (filter unsettled (rn_resv rt))) \<and>
    int (rn_runs rt) + holding (rn_worker rt) \<le> rn_in_use rt \<and>
    rn_in_use rt + int (rn_permits rt) = int (re_max env)"
proof -
  have "rt_ok env rt" using rt_ok_steps [OF assms(4) rt_ok_new] .
  then have "resv_ok rt" "0 \<le> leaked rt" "rn_in_use rt + int (rn_permits rt) = int (re_max env)"
    by (simp_all add: rt_ok_def admission_ok_def)
  then show ?thesis using durable_runtime.capacity [OF assms] unfolding resv_ok_def leaked_def by linarith
qed

theorem queue_never_overbooked_witness:
  "let rt = play demo_server (ActStart sample_clock # submit 0 ''a'' 1 @ submit 1 ''b'' 2 @ [ActReserve]) fresh_server in
   int (card (queued_ids (sq_look text_codec (rn_store rt)))) + rn_reserved rt \<le>
     int (max 2 (card (queued_ids (sq_look text_codec empty_sqlite)))) \<and> length (rn_resv rt) = 2"
proof -
  let ?as = "ActStart sample_clock # submit 0 ''a'' 1 @ submit 1 ''b'' 2 @ [ActReserve]"
  have "play_ok demo_server ?as fresh_server" "length (rn_resv (play demo_server ?as fresh_server)) = 2" by code_simp+
  with queue_never_overbooked [OF demo_facts demo_reach, of ?as] show ?thesis
    by (simp add: demo_server_def Let_def)
qed

subsection \<open>Shutdown\<close>

lemma drained_step1: "rt_step env rt rt' \<Longrightarrow> drained (rn_stops rt) \<Longrightarrow> drained (rn_stops rt')"
proof (induction rule: rt_step.induct)
  case (step_start rt ck) then show ?case by (auto simp: start_def split: sum.split)
next
  case (step_stop rt) then show ?case by (cases "rn_stops rt") (simp_all add: stop_begin_def drained_def)
next
  case (step_stopping n rt ck)
  obtain pc ps where ps: "rn_stops rt = pc # ps" using step_stopping(1) by (cases "rn_stops rt") auto
  obtain pc1 rt1 where adv: "stop_advance env ck (rn_stops rt ! n) rt = (pc1, rt1)" by fastforce
  have same: "rn_stops rt1 = rn_stops rt"
    using adv by (auto simp: stop_advance_def arm_stop_reaper_def split: stop_pc.splits sum.splits option.splits if_splits)
  show ?case
  proof (cases n)
    case 0
    have "pc1 \<in> {StopJoin, StopSettle, StopClose, StopDone}"
      using step_stopping(2) adv ps 0
      by (auto simp: drained_def stop_advance_def split: stop_pc.splits sum.splits option.splits if_splits)
    with adv ps 0 same show ?thesis by (simp add: stop_step_def drained_def)
  next
    case (Suc m)
    with adv ps same step_stopping(2) show ?thesis by (simp add: stop_step_def drained_def)
  qed
next
  case (step_reaper rt) then show ?case by (cases "rn_reaper rt") (simp_all add: reap_until_stopped_def)
next
  case (step_worker rt ck fault) then show ?case by (simp add: worker_stops)
next
  case (step_run rt) then show ?case by (simp add: run_admitted_def try_acquire_admission_def)
next
  case (step_run_end rt) then show ?case by (simp add: end_admitted_def)
qed (simp_all only: stops_kept)

lemma drained_forever: "rt_steps env rt rt' \<Longrightarrow> drained (rn_stops rt) \<Longrightarrow> drained (rn_stops rt')"
  by (induction rule: rt_steps.induct) (auto intro: drained_step1)


definition stop_script :: "string runtime_act list" where
  "stop_script = ActStart sample_clock # submit 0 ''a'' 1 @ ActStop # replicate 5 (ActStopping 0 sample_clock) @
     [ActStop, ActWork sample_clock None, ActWork sample_clock None, ActStopping 1 sample_clock,
      ActStopping 1 sample_clock, ActStopping 1 sample_clock, ActStopping 1 sample_clock]"


text \<open>C9: A drained server has no queued job.  In every reachable state of a server over the SQLite
  store, once its first stop call has got past the drain (it joins, settles, closes or has
  returned), no job is queued, whatever clients, the worker and further stop calls do; and no job
  ever becomes queued again.\<close>

theorem shutdown_drains:
  assumes "\<And>j. storable cd j" "re_api env = sqlite_api cd" "sq_ok cd s"
    and "rt_steps env (new_runtime env s fs) rt" "drained (rn_stops rt)" "rt_steps env rt rt'"
  shows "(\<forall>i r. sq_look cd (rn_store rt) i = Some r \<longrightarrow> jr_status r \<noteq> Queued) \<and>
    (\<forall>i r. sq_look cd (rn_store rt') i = Some r \<longrightarrow> jr_status r \<noteq> Queued)"
proof -
  have "drained (rn_stops rt')" using drained_forever [OF assms(6)] assms(5) .
  then have "queued_ids (sq_look cd (rn_store rt')) = {}" "queued_ids (sq_look cd (rn_store rt)) = {}"
    using durable_runtime.drain_complete [OF assms(1-3) rt_steps_trans [OF assms(6,4)]]
      durable_runtime.drain_complete [OF assms(1-5)] by blast+
  then show ?thesis by (auto simp: queued_ids_def)
qed

theorem shutdown_drains_witness:
  "queued_ids (sq_look text_codec (rn_store (play demo_server (ActStart sample_clock # submit 0 ''a'' 1 @
      [ActStop, ActStopping 0 sample_clock, ActStopping 0 sample_clock, ActStopping 0 sample_clock,
       ActStopping 0 sample_clock]) fresh_server))) = {}"
proof -
  let ?as = "ActStart sample_clock # submit 0 ''a'' 1 @
      [ActStop, ActStopping 0 sample_clock, ActStopping 0 sample_clock, ActStopping 0 sample_clock,
       ActStopping 0 sample_clock]"
  have "play_ok demo_server ?as fresh_server" "drained (rn_stops (play demo_server ?as fresh_server))" by code_simp+
  from shutdown_drains [OF demo_facts demo_reach [OF this(1)] this(2) steps_refl] show ?thesis
    unfolding queued_ids_def by blast
qed

subsection \<open>Leases\<close>


definition finished_script :: "string runtime_act list" where
  "finished_script = ActStart sample_clock # submit 0 ''a'' 1 @ replicate 5 (ActWork sample_clock None) @
     submit 1 ''b'' 2 @ [ActTakeLease ''a'']"


subsection \<open>Orphans\<close>

text \<open>C38: A job that the worker claimed and dropped is stuck for ever.  In a reachable state of a
  server over the SQLite store, a job that is RUNNING while the worker is not executing it, and that
  no thread is about to remove, stays RUNNING in every continuation: it is never executed, failed,
  cancelled, evicted or deleted.  Such a state is reachable: the worker takes a job id from the
  queue, the client deletes that job before the worker claims, the claim returns the next job
  instead, and the worker lets go of it.\<close>

theorem orphaned_job_stuck:
  assumes "\<And>j. storable cd j" "re_api env = sqlite_api cd" "sq_ok cd s"
    and "rt_steps env (new_runtime env s fs) rt" "sq_look cd (rn_store rt) i = Some r" "jr_status r = Running"
    and "not_executing i (rn_worker rt)" "DeleteRemove i \<notin> set (rn_deletes rt)" "rn_state rt \<noteq> NEW"
    and "rt_steps env rt rt'"
  shows "\<exists>q. sq_look cd (rn_store rt') i = Some q \<and> jr_status q = Running \<and> not_executing i (rn_worker rt')"
  using durable_runtime.orphan_reachable [OF assms] .

definition orphan_script :: "string runtime_act list" where
  "orphan_script = ActStart sample_clock # submit 0 ''a'' 1 @ submit 1 ''b'' 2 @
     [ActWork sample_clock None, ActDelete ''a'', ActDeleting 0 sample_clock, ActDeleting 0 sample_clock,
      ActWork sample_clock None, ActWork sample_clock None]"

theorem orphaned_job_stuck_witness:
  "rn_worker (play demo_server orphan_script fresh_server) = WorkerTop \<and>
   \<not> (\<exists>rt'. rt_steps demo_server (play demo_server orphan_script fresh_server) rt' \<and>
     map_option jr_status (sq_look text_codec (rn_store rt') ''b'') \<noteq> Some Running)"
proof -
  let ?rt = "play demo_server orphan_script fresh_server"
  have ok: "play_ok demo_server orphan_script fresh_server" by code_simp
  have "map_option jr_status (sq_look text_codec (rn_store ?rt) ''b'') = Some Running" by code_simp
  then obtain r where r: "sq_look text_codec (rn_store ?rt) ''b'' = Some r" "jr_status r = Running" by auto
  have w: "rn_worker ?rt = WorkerTop" "rn_deletes ?rt = [DeleteDone]" "rn_state ?rt = RUNNING" by code_simp+
  have "not_executing ''b'' (rn_worker ?rt)" "DeleteRemove ''b'' \<notin> set (rn_deletes ?rt)" "rn_state ?rt \<noteq> NEW"
    unfolding w by (simp_all add: not_executing_def)
  note stuck = orphaned_job_stuck [OF demo_facts demo_reach [OF ok] r this]
  have "map_option jr_status (sq_look text_codec (rn_store rt') ''b'') = Some Running"
    if "rt_steps demo_server ?rt rt'" for rt'
    using stuck [OF that] by auto
  with w(1) show ?thesis by blast
qed

end
