(* ===== verification/RuntimeLiveness.thy ===== *)
theory RuntimeLiveness
  imports RuntimeTraces
begin

text \<open>When a shutdown can complete: the store is closed only after the worker has left, admissions
  are leaked only by a claim that raises, and a server can reach STOPPED exactly when none is leaked.\<close>

definition worker_gone :: "'j worker_pc \<Rightarrow> bool" where
  "worker_gone w \<longleftrightarrow> w \<in> {WorkerOff, WorkerLeft, WorkerExited, WorkerDied}"

definition closing :: "('j, 's, 'f) runtime \<Rightarrow> bool" where
  "closing rt \<longleftrightarrow> StopClose \<in> set (rn_stops rt) \<or> rn_reaper rt \<in> {ReaperExec, ReaperSettle, ReaperClose, ReaperDone}"

text \<open>The store is closed, or about to be, only when the worker has gone.\<close>

definition shut_ok :: "('j, 's, 'f) runtime_env \<Rightarrow> ('j, 's, 'f) runtime \<Rightarrow> bool" where
  "shut_ok env rt \<longleftrightarrow>
     (api_closed (re_api env) (rn_store rt) \<or> closing rt \<longrightarrow> worker_gone (rn_worker rt) \<and> rn_state rt \<noteq> NEW)"

lemma control_closing: "control rt' = control rt \<Longrightarrow> closing rt' = closing rt"
  by (simp add: closing_def control_def)

lemmas closing_kept = control_facades [THEN control_closing]

lemma gone_step:
  assumes "rt_step env rt rt'" "worker_gone (rn_worker rt)" "rn_state rt \<noteq> NEW"
  shows "worker_gone (rn_worker rt')"
  using assms
proof (induction rule: rt_step.induct)
  case (step_start rt ck) then show ?case by (simp add: start_def)
next
  case (step_stop rt) then show ?case by (simp add: stop_begin_def)
next
  case (step_stopping n rt ck)
  then show ?case
    by (cases "rn_stops rt ! n")
      (auto simp: stop_step_def stop_advance_def arm_stop_reaper_def split: sum.split option.split)
next
  case (step_reaper rt) then show ?case by (cases "rn_reaper rt") (simp_all add: reap_until_stopped_def)
next
  case (step_worker rt ck fault) then show ?case by (auto simp: worker_gone_def worker_step_def)
next
  case (step_run rt) then show ?case by (simp add: run_admitted_def try_acquire_admission_def)
next
  case (step_run_end rt) then show ?case by (simp add: end_admitted_def)
qed (simp_all only: worker_kept)

lemma closing_step:
  assumes "rt_step env rt rt'" "life_ok rt" "\<not> closing rt" "closing rt'"
  shows "worker_gone (rn_worker rt')"
  using assms
proof (induction rule: rt_step.induct)
  case (step_start rt ck) then show ?case by (auto simp: start_def closing_def split: sum.splits if_splits)
next
  case (step_stop rt) then show ?case by (simp add: stop_begin_def closing_def split: if_splits)
next
  case (step_stopping n rt ck)
  have pc: "StopClose \<notin> set ((rn_stops rt)[n := pc])" if "pc \<noteq> StopClose" for pc
    using step_stopping(3) that set_update_subset_insert [of "rn_stops rt" n pc] by (auto simp: closing_def)
  show ?case
  proof (cases "rn_stops rt ! n")
    case StopSettle
    then have "StopSettle \<in> set (rn_stops rt)" using step_stopping(1) by (metis nth_mem)
    then have "worker_gone (rn_worker rt)" using life_idle(1) [OF step_stopping(2)] by (auto simp: worker_gone_def)
    then show ?thesis by (simp add: stop_step_def stop_advance_def StopSettle)
  qed (use step_stopping(3,4) pc in \<open>auto simp: stop_step_def stop_advance_def arm_stop_reaper_def closing_def
      split: sum.splits option.splits if_splits\<close>)
next
  case (step_reaper rt)
  show ?case
  proof (cases "rn_reaper rt")
    case ReaperWait
    show ?thesis
    proof (cases "rn_worker_exited rt")
      case True
      then have "rn_worker rt \<in> {WorkerLeft, WorkerExited}" using step_reaper(1) by (simp add: life_ok_def)
      then show ?thesis using True ReaperWait by (auto simp: reap_until_stopped_def worker_gone_def)
    qed (use step_reaper(2,3) ReaperWait in \<open>simp add: reap_until_stopped_def\<close>)
  qed (use step_reaper(2,3) in \<open>auto simp: reap_until_stopped_def closing_def split: if_splits\<close>)
next
  case (step_worker rt ck fault)
  have "rn_reaper (worker_step env ck fault rt) = rn_reaper rt"
    by (cases "rn_worker rt")
      (auto simp: worker_step_def worker_top_def worker_wait_def try_acquire_admission_def worker_denied_def
        worker_claim_def Let_def worker_execute_def worker_commit_def
        split: sum.split option.split prod.split)
  with step_worker show ?case by (simp add: closing_def worker_stops)
next
  case (step_run rt) then show ?case by (simp add: run_admitted_def try_acquire_admission_def closing_def split: if_splits)
next
  case (step_run_end rt) then show ?case by (simp add: end_admitted_def closing_def split: if_splits)
qed (simp_all only: closing_kept simp_thms)

subsection \<open>Leaks\<close>

lemma control_leaked: "control rt' = control rt \<Longrightarrow> leaked rt' = leaked rt"
  by (simp add: leaked_def control_def)

lemmas leaked_kept = control_facades [THEN control_leaked]

lemma leaked_step:
  assumes "rt_step env rt rt'" "admission_ok env rt" "rn_state rt = NEW \<longrightarrow> rn_worker rt = WorkerOff"
  shows "leaked rt \<le> leaked rt'"
  using assms
proof (induction rule: rt_step.induct)
  case (step_start rt ck)
  then show ?case by (auto simp: start_def leaked_def split: sum.split)
next
  case (step_stop rt) then show ?case by (simp add: stop_begin_def leaked_def)
next
  case (step_stopping n rt ck)
  then show ?case
    by (cases "rn_stops rt ! n")
      (auto simp: stop_step_def stop_advance_def arm_stop_reaper_def leaked_def split: sum.split option.split)
next
  case (step_reaper rt) then show ?case by (cases "rn_reaper rt") (auto simp: reap_until_stopped_def leaked_def)
next
  case (step_worker rt ck fault)
  show ?case
  proof (cases "rn_worker rt")
    case (WorkerAdmitted i)
    with step_worker show ?thesis
      by (auto simp: worker_step_def worker_claim_def Let_def release_held leaked_def or_fault_def
          split: sum.split option.split)
  next
    case (WorkerCommit i e)
    with step_worker show ?thesis
      by (auto simp: worker_step_def worker_commit_def release_held release_held_same leaked_def
          split: sum.split option.split)
  qed (use step_worker in \<open>auto simp: worker_step_def worker_top_def worker_wait_def try_acquire_admission_def
      worker_denied_def worker_execute_def leaked_def split: sum.split option.split prod.split\<close>)
next
  case (step_run rt) then show ?case by (auto simp: run_admitted_def try_acquire_admission_def leaked_def)
next
  case (step_run_end rt) then show ?case by (auto simp: end_admitted_eq) (auto simp: leaked_def)
qed (simp_all only: leaked_kept order.refl)

lemma leaked_steps:
  assumes "rt_steps env rt rt'" "rt_ok env rt"
  shows "leaked rt \<le> leaked rt'"
proof -
  have "rt_ok env rt' \<and> leaked rt \<le> leaked rt'"
    using assms
  proof (induction rule: rt_steps.induct)
    case (steps_step rt rt1 rt2)
    then have ok: "rt_ok env rt1" "leaked rt \<le> leaked rt1" by simp_all
    then have "leaked rt1 \<le> leaked rt2"
      using leaked_step [OF steps_step(2)] by (simp add: rt_ok_def life_ok_def)
    with ok rt_ok_step [OF ok(1) steps_step(2)] show ?case by simp
  qed simp
  then show ?thesis ..
qed

subsection \<open>Completing a shutdown\<close>

definition worker_rank :: "'j worker_pc \<Rightarrow> nat" where
  "worker_rank w =
     (case w of WorkerAdmitted _ \<Rightarrow> 6 | WorkerBusy _ \<Rightarrow> 5 | WorkerCommit _ _ \<Rightarrow> 4 | WorkerPeeked _ \<Rightarrow> 4
      | WorkerDenied _ \<Rightarrow> 3 | WorkerTop \<Rightarrow> 2 | WorkerLeft \<Rightarrow> 1 | _ \<Rightarrow> 0)"

context runtime_store
begin

lemma inv_step:
  assumes "\<And>j. summary_ok j" "re_api env = api" "inv (rn_store rt)" "\<not> closing rt" "rt_step env rt rt'"
  shows "inv (rn_store rt')"
proof -
  let ?s = "rn_store rt"
  have ok: "ok ?s" using assms(3) by (simp add: ok_def)
  from rt_step_kind [OF assms(5)] consider (commit) "commit_kind env rt rt'" | (same) "rn_store rt' = ?s"
    | (op) p where "step_op env rt p" "rn_store rt' = snd (run_op api p ?s)"
    | (recovery) ck f rep where "api_recover api ck f ?s = Inr (rep, rn_store rt')"
    using assms(2,4) by (auto simp: reserve_kind_def plain_kind_def store_step_def closing_def)
  then show ?thesis
  proof cases
    case commit
    then obtain r where r: "new_job env r ?s" "api_create api r ?s = Inr (rn_store rt')"
      using assms(2) by (auto simp: commit_kind_def)
    have "look ?s (jr_id r) = None"
      using r(1) get [OF assms(3), of "jr_id r"] assms(2) by (cases "look ?s (jr_id r)") (auto simp: new_job_def)
    with create [OF assms(3), of r] r assms(1) show ?thesis by (auto simp: new_job_def)
  next
    case (op p)
    with op_legal [OF assms(3) step_client [OF assms(1) op(1) assms(2)]] show ?thesis by simp
  next
    case (recovery ck f rep)
    with recover [OF assms(3), of ck f] show ?thesis by auto
  qed (use assms(3) in simp)
qed

lemma shut_ok_step:
  assumes "\<And>j. summary_ok j" "re_api env = api" "ok (rn_store rt)" "rt_ok env rt" "shut_ok env rt" "rt_step env rt rt'"
  shows "shut_ok env rt'"
proof (cases "api_closed api (rn_store rt) \<or> closing rt")
  case True
  then have "worker_gone (rn_worker rt)" "rn_state rt \<noteq> NEW" using assms(2,5) by (auto simp: shut_ok_def)
  with gone_step [OF assms(6)] new_state_step [OF assms(6)] show ?thesis by (simp add: shut_ok_def)
next
  case False
  then have "inv (rn_store rt)" using assms(3) by (simp add: ok_def)
  then have "\<not> api_closed api (rn_store rt')" using inv_step [OF assms(1,2) _ _ assms(6)] False open_store by blast
  moreover have "worker_gone (rn_worker rt') \<and> rn_state rt' \<noteq> NEW" if c: "closing rt'"
  proof -
    have l: "life_ok rt" "life_ok rt'" using assms(4) rt_ok_step [OF assms(4,6)] by (simp_all add: rt_ok_def)
    have "rn_stops rt' \<noteq> [] \<or> rn_reaper rt' \<noteq> ReaperOff" using c by (auto simp: closing_def)
    then have "rn_state rt' \<noteq> NEW" using l(2) by (auto simp: life_ok_def)
    with closing_step [OF assms(6) l(1) _ c] False show ?thesis by blast
  qed
  ultimately show ?thesis using assms(2) by (auto simp: shut_ok_def)
qed

text \<open>Everything known of a reachable state.\<close>

definition sound :: "('a, 'b, 'f) runtime_env \<Rightarrow> ('a, 'b, 'f) runtime \<Rightarrow> bool" where
  "sound env rt \<longleftrightarrow> rt_ok env rt \<and> ok (rn_store rt) \<and> shut_ok env rt"

lemma sound_steps:
  assumes "\<And>j. summary_ok j" "re_api env = api" "rt_steps env rt rt'" "sound env rt"
  shows "sound env rt'"
  by (rule rt_steps_invariant [where P = "sound env", OF assms(3,4)])
    (use ok_step [OF assms(1,2)] rt_ok_step shut_ok_step [OF assms(1,2)] in \<open>auto simp: sound_def\<close>)

lemma sound_new: "re_api env = api \<Longrightarrow> inv s \<Longrightarrow> sound env (new_runtime env s fs)"
  using open_store [of s] rt_ok_new [of env s fs]
  by (simp add: sound_def ok_def shut_ok_def new_runtime_def closing_def)

text \<open>While the server drains, each step of the worker brings it closer to its end and leaks nothing.\<close>

lemma worker_progress:
  assumes "re_api env = api" "sound env rt" "rn_state rt = DRAINING" "rn_shutdown rt" "worker_alive rt"
  shows "worker_rank (rn_worker (worker_step env ck None rt)) < worker_rank (rn_worker rt) \<and>
    rn_state (worker_step env ck None rt) = DRAINING \<and> rn_shutdown (worker_step env ck None rt) \<and>
    leaked (worker_step env ck None rt) = leaked rt \<and> rn_runs (worker_step env ck None rt) = rn_runs rt"
proof -
  have adm: "admission_ok env rt" using assms(2) by (simp add: sound_def rt_ok_def)
  show ?thesis
  proof (cases "rn_worker rt")
    case (WorkerAdmitted i)
    then have "\<not> worker_gone (rn_worker rt)" by (simp add: worker_gone_def)
    then have "inv (rn_store rt)" using assms(1,2) by (auto simp: sound_def ok_def shut_ok_def)
    from claim [OF this, of ck] obtain out t where "api_claim api ck (rn_store rt) = Inr (out, t)" by blast
    with WorkerAdmitted assms(1,3,4) adm show ?thesis
      by (cases out)
        (simp_all add: worker_step_def worker_claim_def or_fault_def release_held leaked_def worker_rank_def Let_def)
  next
    case (WorkerCommit i e)
    with assms(3,4) adm show ?thesis
      by (auto simp: worker_step_def worker_commit_def or_fault_def release_held release_held_same leaked_def
          worker_rank_def split: sum.split option.split)
  qed (use assms in \<open>auto simp: worker_step_def worker_top_def worker_wait_def worker_denied_def worker_execute_def
      or_fault_def leaked_def worker_rank_def worker_alive_def split: sum.split option.split prod.split\<close>)
qed

lemma worker_leaves:
  assumes "\<And>j. summary_ok j" "re_api env = api"
    and "sound env rt" "rn_state rt = DRAINING" "rn_shutdown rt"
  shows "\<exists>rt'. rt_steps env rt rt' \<and> \<not> worker_alive rt' \<and> rn_state rt' = DRAINING \<and> leaked rt' = leaked rt \<and>
    rn_runs rt' = rn_runs rt"
  using assms(3-5)
proof (induction "worker_rank (rn_worker rt)" arbitrary: rt rule: less_induct)
  case less
  show ?case
  proof (cases "worker_alive rt")
    case True
    let ?t = "worker_step env undefined None rt"
    note p = worker_progress [OF assms(2) less.prems True, of undefined]
    have st: "rt_step env rt ?t" by (rule step_worker)
    have "rt_steps env rt ?t" using st by (auto intro: rt_steps.intros)
    from sound_steps [OF assms(1,2) this less.prems(1)] less.hyps [of ?t] p obtain rt' where
      r: "rt_steps env ?t rt'" "\<not> worker_alive rt'" "rn_state rt' = DRAINING" "leaked rt' = leaked ?t" "rn_runs rt' = rn_runs ?t"
      by blast
    have "rt_steps env rt rt'" using steps_front [OF r(1) st] .
    with r p show ?thesis by auto
  next
    case False
    then show ?thesis using less.prems by (intro exI [of _ rt]) (simp add: steps_refl)
  qed
qed

lemma runs_end:
  assumes "\<And>j. summary_ok j" "re_api env = api" "sound env rt"
  shows "\<exists>rt'. rt_steps env rt rt' \<and> rn_runs rt' = 0 \<and> rn_state rt' = rn_state rt \<and> rn_shutdown rt' = rn_shutdown rt \<and>
    leaked rt' = leaked rt"
  using assms(3)
proof (induction "rn_runs rt" arbitrary: rt)
  case 0
  then show ?case by (intro exI [of _ rt]) (simp add: steps_refl)
next
  case (Suc n)
  let ?t = "end_admitted env rt"
  have adm: "admission_ok env rt" using Suc.prems by (simp add: sound_def rt_ok_def)
  have t: "rn_runs ?t = n" "rn_state ?t = rn_state rt" "rn_shutdown ?t = rn_shutdown rt" "leaked ?t = leaked rt"
    using Suc.hyps(2) by (simp_all add: end_admitted_eq [OF adm] leaked_def)
  have st: "rt_step env rt ?t" by (rule step_run_end)
  have "rt_steps env rt ?t" using st by (auto intro: rt_steps.intros)
  from Suc.hyps(1) [OF t(1) [symmetric] sound_steps [OF assms(1,2) this Suc.prems]] obtain rt' where
    r: "rt_steps env ?t rt'" "rn_runs rt' = 0" "rn_state rt' = rn_state ?t" "rn_shutdown rt' = rn_shutdown ?t" "leaked rt' = leaked ?t"
    by blast
  with steps_front [OF r(1) st] t show ?case by auto
qed

lemma leak_blocks:
  assumes "rt_ok env rt" "0 < leaked rt" "rt_steps env rt rt'"
  shows "rn_state rt' \<noteq> STOPPED"
proof
  assume "rn_state rt' = STOPPED"
  moreover have ok: "rt_ok env rt'" using rt_ok_steps [OF assms(3,1)] .
  ultimately have "rn_in_use rt' \<le> 0" by (simp add: rt_ok_def life_ok_def owns_simps)
  moreover have "0 < leaked rt'" using leaked_steps [OF assms(3,1)] assms(2) by simp
  ultimately show False using holding_nonneg [of "rn_worker rt'"] unfolding leaked_def by linarith
qed

lemma step_then: "rt_steps env rt rt1 \<Longrightarrow> rt_step env rt1 rt2 \<Longrightarrow> rt_steps env rt rt2"
  by (rule steps_step)

lemma stop_now:
  assumes "owns_no_execution rt" "rn_state rt = DRAINING"
  shows "\<exists>rt'. rt_steps env rt rt' \<and> rn_state rt' = STOPPED"
proof -
  let ?n = "length (rn_stops rt)"
  let ?a = "stop_begin rt"
  let ?b = "stop_step env undefined ?n ?a" let ?c = "stop_step env undefined ?n ?b" let ?d = "stop_step env undefined ?n ?c"
  have a: "?a = rt\<lparr>rn_stops := rn_stops rt @ [StopSignal True]\<rparr>" using assms(2) by (simp add: stop_begin_def)
  have b: "?b = rt\<lparr>rn_shutdown := True, rn_stops := rn_stops rt @ [StopJoin]\<rparr>"
    unfolding a by (simp add: stop_step_def stop_advance_def)
  have c: "?c = rt\<lparr>rn_shutdown := True, rn_stops := rn_stops rt @ [StopSettle]\<rparr>"
    unfolding b using assms(1) by (simp add: stop_step_def stop_advance_def owns_simps)
  have d: "rn_state ?d = STOPPED" unfolding c by (simp add: stop_step_def stop_advance_def)
  have na: "?n < length (rn_stops ?a)" unfolding a by simp
  have nb: "?n < length (rn_stops ?b)" unfolding b by simp
  have nc: "?n < length (rn_stops ?c)" unfolding c by simp
  have "rt_steps env rt ?a" by (rule step_then [OF steps_refl step_stop])
  then have "rt_steps env rt ?b" by (rule step_then) (rule step_stopping [OF na])
  then have "rt_steps env rt ?c" by (rule step_then) (rule step_stopping [OF nb])
  then have "rt_steps env rt ?d" by (rule step_then) (rule step_stopping [OF nc])
  with d show ?thesis by blast
qed

lemma can_stop:
  assumes "\<And>j. summary_ok j" "re_api env = api" "sound env rt" "leaked rt = 0"
  shows "\<exists>rt'. rt_steps env rt rt' \<and> rn_state rt' = STOPPED"
proof (cases "rn_state rt = STOPPED")
  case True
  then show ?thesis by (intro exI [of _ rt]) (simp add: steps_refl)
next
  case False
  let ?n = "length (rn_stops rt)"
  let ?a = "stop_begin rt"
  let ?b = "stop_step env undefined ?n ?a"
  have a: "?a = rt\<lparr>rn_state := DRAINING, rn_stops := rn_stops rt @ [StopSignal (rn_state rt = DRAINING)]\<rparr>"
    using False by (simp add: stop_begin_def)
  have b: "rn_state ?b = DRAINING" "rn_shutdown ?b" "leaked ?b = 0"
    using assms(4) by (simp_all add: a stop_step_def stop_advance_def leaked_def)
  have "rt_steps env rt ?a" by (rule step_then [OF steps_refl step_stop])
  then have rb: "rt_steps env rt ?b" by (rule step_then) (intro step_stopping, simp add: a)
  note sb = sound_steps [OF assms(1,2) rb assms(3)]
  from runs_end [OF assms(1,2) sb] b obtain c where
    c: "rt_steps env ?b c" "rn_runs c = 0" "rn_state c = DRAINING" "rn_shutdown c" "leaked c = 0" by auto
  from worker_leaves [OF assms(1,2) sound_steps [OF assms(1,2) c(1) sb] c(3,4)] c obtain d where
    d: "rt_steps env c d" "\<not> worker_alive d" "rn_state d = DRAINING" "leaked d = 0" "rn_runs d = 0" by auto
  have "holding (rn_worker d) = 0" using d(2) by (cases "rn_worker d") (auto simp: worker_alive_def)
  then have "owns_no_execution d" using d(2,4,5) by (simp add: owns_no_execution_def executing_def leaked_def)
  from stop_now [OF this d(3), of env] obtain e where e: "rt_steps env d e" "rn_state e = STOPPED" by blast
  have "rt_steps env rt e"
    using rt_steps_trans [OF e(1) rt_steps_trans [OF d(1) rt_steps_trans [OF c(1) rb]]] .
  with e(2) show ?thesis by blast
qed

lemma stop_reachable:
  assumes "\<And>j. summary_ok j" "re_api env = api" "inv s" "rt_steps env (new_runtime env s fs) rt"
  shows "(\<exists>rt'. rt_steps env rt rt' \<and> rn_state rt' = STOPPED) \<longleftrightarrow> leaked rt = 0"
proof -
  have snd: "sound env rt" using sound_steps [OF assms(1,2,4)] sound_new [OF assms(2,3)] by blast
  then have ok: "rt_ok env rt" by (simp add: sound_def)
  then have "0 \<le> leaked rt" by (simp add: rt_ok_def admission_ok_def)
  then consider "leaked rt = 0" | "0 < leaked rt" by linarith
  then show ?thesis
  proof cases
    case 1
    then show ?thesis using can_stop [OF assms(1,2) snd] by simp
  next
    case 2
    then show ?thesis using leak_blocks [OF ok 2] by auto
  qed
qed

end

text \<open>C10: A server over the SQLite store can be brought to STOPPED from a reachable state exactly
  when no admission has leaked there, that is, when every admission in use belongs to a synchronous
  run or to the worker: whatever the threads are doing, and even if the worker has died, there is
  then a continuation in which the running calls return, the worker leaves and a stop call settles;
  and once a single admission has leaked, no continuation reaches STOPPED.\<close>

theorem can_stop_iff_no_leak:
  assumes "\<And>j. storable cd j" "re_api env = sqlite_api cd" "sq_ok cd s"
    and "rt_steps env (new_runtime env s fs) rt"
  shows "(\<exists>rt'. rt_steps env rt rt' \<and> rn_state rt' = STOPPED) \<longleftrightarrow> leaked rt = 0"
  using durable_runtime.stop_reachable [OF assms] .

definition busy_script :: "string runtime_act list" where
  "busy_script = ActStart sample_clock # submit 0 ''a'' 1 @ [ActWork sample_clock None, ActWork sample_clock None]"

theorem can_stop_iff_no_leak_witness:
  "\<exists>rt. rt_steps demo_server (play demo_server (busy_script @ [ActWork sample_clock None]) fresh_server) rt \<and> rn_state rt = STOPPED"
proof -
  let ?as = "busy_script @ [ActWork sample_clock None]"
  have "play_ok demo_server ?as fresh_server" "leaked (play demo_server ?as fresh_server) = 0" by code_simp+
  with can_stop_iff_no_leak [OF demo_facts demo_reach, of ?as] show ?thesis by simp
qed



end
