(* ===== verification/Tiling.thy ===== *)
theory Tiling
  imports Tensor
begin

text \<open>
  Model of \<open>workflow/tiling.py\<close> and of the boundary metrics of
  \<open>benchmark/metrics/tiling_consistency.py\<close> that drive its iteration: cutting a layout into
  overlapping anchored tiles, blending tile results back together, and the Schwarz iteration that
  exchanges overlaps between tiles.  Tensors are two-dimensional; the optimizer of a tile is a
  parameter.  The two while loops of a tiling are ranges with a positive step.
\<close>

record tile =
  tl_tensor :: tensor
  tl_x :: int
  tl_y :: int
  tl_w :: int
  tl_h :: int
  tl_overlap :: int

subsection \<open>Cutting\<close>

text \<open>Origin and real extent of the tile at position \<open>p\<close> of an axis of length \<open>n\<close>.\<close>

definition axis_span :: "int \<Rightarrow> int \<Rightarrow> int \<Rightarrow> int \<times> int" where
  "axis_span tsize n p =
     (let actual = min (p + tsize) n - p in
      if actual < tsize \<and> n \<ge> tsize then (n - tsize, tsize) else (p, actual))"

text \<open>\<open>functional.pad(data, (0, right, 0, bottom), value=0.0)\<close>.\<close>

definition t_pad :: "tensor \<Rightarrow> int \<Rightarrow> int \<Rightarrow> tensor" where
  "t_pad t right bottom =
     t_build (rows t + bottom) (cols t + right) (\<lambda>y x. if y < rows t \<and> x < cols t then t_get t y x else 0)"

definition cut_tile :: "tensor \<Rightarrow> int \<Rightarrow> int \<Rightarrow> int \<Rightarrow> int \<Rightarrow> tile" where
  "cut_tile layout tsize overlap y x =
     (case axis_span tsize (rows layout) y of (yo, th) \<Rightarrow>
      case axis_span tsize (cols layout) x of (xo, tw) \<Rightarrow>
        let data = t_slice layout yo (yo + th) xo (xo + tw) in
        \<lparr>tl_tensor = (if th < tsize \<or> tw < tsize then t_pad data (tsize - tw) (tsize - th) else data),
         tl_x = xo, tl_y = yo, tl_w = tw, tl_h = th, tl_overlap = overlap\<rparr>)"

definition add_tile ::
    "tensor \<Rightarrow> int \<Rightarrow> int \<Rightarrow> (int \<times> int) list \<times> tile list \<Rightarrow> int \<times> int \<Rightarrow> (int \<times> int) list \<times> tile list" where
  "add_tile layout tsize overlap st yx =
     (let t = cut_tile layout tsize overlap (fst yx) (snd yx); key = (tl_x t, tl_y t) in
      if key \<notin> set (fst st) then (key # fst st, snd st @ [t]) else st)"

definition axis_positions :: "int \<Rightarrow> int \<Rightarrow> int \<Rightarrow> int list" where
  "axis_positions tsize overlap n = pyrange 0 (if n < tsize then 1 else n) (tsize - overlap)"

definition tile_layout :: "tensor \<Rightarrow> int \<Rightarrow> int \<Rightarrow> tile list res" where
  "tile_layout layout tsize overlap =
     (if tsize \<le> 0 then Inl (ValueError ''tile_size must be positive'')
      else if overlap < 0 then Inl (ValueError ''overlap must be non-negative'')
      else if overlap \<ge> tsize then Inl (ValueError ''overlap must be less than tile_size'')
      else Inr (snd (foldl (add_tile layout tsize overlap) ([], [])
        (List.product (axis_positions tsize overlap (rows layout)) (axis_positions tsize overlap (cols layout))))))"

subsection \<open>Stitching\<close>

text \<open>\<open>torch.linspace(0.0, 1.0, n)\<close> for more than one point.\<close>

definition linspace01 :: "int \<Rightarrow> rat list" where
  "linspace01 n = map (\<lambda>i. of_nat i / of_int (n - 1)) [0..<nat n]"

text \<open>The ramps multiplied into the weights along one axis: at the start if the tile begins inside
  the layout, at the end if it ends inside.\<close>

definition ramp_factor :: "int \<Rightarrow> int \<Rightarrow> int \<Rightarrow> int \<Rightarrow> int \<Rightarrow> rat" where
  "ramp_factor overlap n origin len i =
     (let ramp = linspace01 overlap; ol = min overlap len in
      (if overlap > 1 \<and> origin > 0 \<and> i < ol then ramp ! nat i else 1) *
      (if overlap > 1 \<and> origin + len < n \<and> len - ol \<le> i
       then rev ramp ! nat (overlap - ol + (i - (len - ol))) else 1))"

definition tile_blend :: "int \<times> int \<Rightarrow> tile \<Rightarrow> tensor" where
  "tile_blend shape t =
     t_build (tl_h t) (tl_w t) (\<lambda>y x.
       ramp_factor (tl_overlap t) (snd shape) (tl_x t) (tl_w t) x *
       ramp_factor (tl_overlap t) (fst shape) (tl_y t) (tl_h t) y)"

text \<open>Broadcasting: an axis of length one is repeated.\<close>

definition bidx :: "int \<Rightarrow> int \<Rightarrow> int" where
  "bidx n i = (if n = 1 then 0 else i)"

definition t_mul :: "tensor \<Rightarrow> tensor \<Rightarrow> tensor res" where
  "t_mul a b =
     (if (rows a = rows b \<or> rows a = 1 \<or> rows b = 1) \<and> (cols a = cols b \<or> cols a = 1 \<or> cols b = 1)
      then Inr (t_build (if rows a = 1 then rows b else rows a) (if cols a = 1 then cols b else cols a)
        (\<lambda>y x. t_get a (bidx (rows a) y) (bidx (cols a) x) * t_get b (bidx (rows b) y) (bidx (cols b) x)))
      else Inl (RuntimeError ''size of tensor a must match the size of tensor b''))"

text \<open>\<open>t[y0:y1, x0:x1] += c\<close>.\<close>

definition t_add_at :: "tensor \<Rightarrow> int \<Rightarrow> int \<Rightarrow> int \<Rightarrow> int \<Rightarrow> tensor \<Rightarrow> tensor res" where
  "t_add_at t y0 y1 x0 x1 c =
     (let ly = norm_idx (rows t) y0; hy = norm_idx (rows t) y1;
          lx = norm_idx (cols t) x0; hx = norm_idx (cols t) x1 in
      if (rows c = max 0 (hy - ly) \<or> rows c = 1) \<and> (cols c = max 0 (hx - lx) \<or> cols c = 1)
      then Inr (t_build (rows t) (cols t) (\<lambda>y x.
        if ly \<le> y \<and> y < hy \<and> lx \<le> x \<and> x < hx
        then t_get t y x + t_get c (bidx (rows c) (y - ly)) (bidx (cols c) (x - lx)) else t_get t y x))
      else Inl (RuntimeError ''output with shape does not match the broadcast shape''))"

definition stitch_one :: "int \<times> int \<Rightarrow> tensor \<times> tensor \<Rightarrow> tile \<times> tensor \<Rightarrow> (tensor \<times> tensor) res" where
  "stitch_one shape st tr =
     (let t = fst tr; blend = tile_blend shape t; y_end = tl_y t + tl_h t; x_end = tl_x t + tl_w t in
      ebind (t_mul (t_slice (snd tr) 0 (tl_h t) 0 (tl_w t)) blend) (\<lambda>weighted.
      ebind (t_add_at (fst st) (tl_y t) y_end (tl_x t) x_end weighted) (\<lambda>output.
      ebind (t_add_at (snd st) (tl_y t) y_end (tl_x t) x_end blend) (\<lambda>weight_map.
        Inr (output, weight_map)))))"

definition normalise :: "tensor \<times> tensor \<Rightarrow> tensor" where
  "normalise st =
     t_build (rows (fst st)) (cols (fst st)) (\<lambda>y x.
       if t_get (snd st) y x > 0 then t_get (fst st) y x / t_get (snd st) y x else t_get (fst st) y x)"

definition stitch_tiles :: "(tile \<times> tensor) list \<Rightarrow> int \<times> int \<Rightarrow> tensor res" where
  "stitch_tiles trs shape =
     ebind (foldE (stitch_one shape) (t_full (fst shape) (snd shape) 0, t_full (fst shape) (snd shape) 0) trs)
       (\<lambda>st. Inr (normalise st))"

subsection \<open>Boundary consistency\<close>

definition overlap_regions :: "tile \<Rightarrow> tile \<Rightarrow> tensor \<Rightarrow> tensor \<Rightarrow> int \<Rightarrow> (tensor \<times> tensor) option" where
  "overlap_regions ti tj ri rj ol_width =
     (let xs = max (tl_x ti) (tl_x tj); xe = min (tl_x ti + tl_w ti) (tl_x tj + tl_w tj);
          ys = max (tl_y ti) (tl_y tj); ye = min (tl_y ti + tl_h ti) (tl_y tj + tl_h tj) in
      if xs \<ge> xe \<or> ys \<ge> ye then None
      else
        let same_row = (tl_y ti = tl_y tj \<and> tl_h ti = tl_h tj);
            same_col = (tl_x ti = tl_x tj \<and> tl_w ti = tl_w tj) in
        if \<not> same_row \<and> \<not> same_col then None
        else
          let x_end = (if same_row then xs + min (xe - xs) ol_width else xe);
              y_end = (if same_row then ye else ys + min (ye - ys) ol_width);
              iy = ys - tl_y ti; ix = xs - tl_x ti; jy = ys - tl_y tj; jx = xs - tl_x tj;
              dy = y_end - ys; dx = x_end - xs in
          if iy < 0 \<or> ix < 0 \<or> iy + dy > rows ri \<or> ix + dx > cols ri \<or>
             jy < 0 \<or> jx < 0 \<or> jy + dy > rows rj \<or> jx + dx > cols rj then None
          else
            let pa = t_slice ri iy (iy + dy) ix (ix + dx); pb = t_slice rj jy (jy + dy) jx (jx + dx) in
            if t_shape pa \<noteq> t_shape pb then None else Some (pa, pb))"

record boundary_sums =
  bs_mse :: "rat list"
  bs_max :: "rat list"
  bs_match :: "rat list"
  bs_total :: "rat list"

definition is_sraf :: "rat \<Rightarrow> bool" where
  "is_sraf v \<longleftrightarrow> v > 1 / 10 \<and> v < 1 / 2"

definition pair_sums :: "tensor \<Rightarrow> tensor \<Rightarrow> boundary_sums \<Rightarrow> boundary_sums" where
  "pair_sums ra rb acc =
     (let vs = zip (concat ra) (concat rb);
          diffs = map (\<lambda>(a, b). a - b) vs;
          acc1 = acc\<lparr>bs_mse := bs_mse acc @ [(\<Sum>d\<leftarrow>diffs. d * d) / of_nat (length diffs)],
                     bs_max := bs_max acc @ [Max (set (map abs diffs))]\<rparr>;
          srafs = filter (\<lambda>(a, b). is_sraf a \<or> is_sraf b) vs in
      if length srafs > 0
      then acc1\<lparr>bs_match := bs_match acc1 @ [of_nat (length (filter (\<lambda>(a, b). is_sraf a = is_sraf b) srafs))],
                bs_total := bs_total acc1 @ [of_nat (length srafs)]\<rparr>
      else acc1)"

definition compare_pair ::
    "int \<Rightarrow> (tile \<times> tensor) \<times> (tile \<times> tensor) \<Rightarrow> boundary_sums \<Rightarrow> boundary_sums" where
  "compare_pair overlap p acc =
     (case p of ((ti, ri), (tj, rj)) \<Rightarrow>
        let ol_width = (if overlap > 0 then overlap else min (tl_overlap ti) (tl_overlap tj)) in
        if ol_width \<le> 0 then acc
        else (case overlap_regions ti tj ri rj ol_width of
                None \<Rightarrow> acc | Some (ra, rb) \<Rightarrow> pair_sums ra rb acc))"

fun pairs_of :: "'a list \<Rightarrow> ('a \<times> 'a) list" where
  "pairs_of [] = []"
| "pairs_of (x # xs) = map (\<lambda>y. (x, y)) xs @ pairs_of xs"

record consistency =
  cs_mse :: rat
  cs_max_diff :: rat
  cs_sraf :: rat

definition perfect :: consistency where
  "perfect = \<lparr>cs_mse = 0, cs_max_diff = 0, cs_sraf = 1\<rparr>"

definition tile_boundary_consistency :: "tile list \<Rightarrow> tensor list \<Rightarrow> int \<Rightarrow> consistency res" where
  "tile_boundary_consistency tiles results overlap =
     (if length tiles \<noteq> length results
      then Inl (ValueError ''tiles and tile_results must have same length'')
      else if tiles = [] then Inr perfect
      else
        let acc = fold (compare_pair overlap) (pairs_of (zip tiles results))
              \<lparr>bs_mse = [], bs_max = [], bs_match = [], bs_total = []\<rparr> in
        if bs_mse acc = [] then Inr perfect
        else Inr \<lparr>cs_mse = sum_list (bs_mse acc) / of_nat (length (bs_mse acc)),
                  cs_max_diff = Max (set (bs_max acc)),
                  cs_sraf = (if bs_total acc \<noteq> [] then sum_list (bs_match acc) / sum_list (bs_total acc) else 1)\<rparr>)"

subsection \<open>Tiled optimization\<close>

record tiled_result =
  tr_mask :: tensor
  tr_tiles :: "tile list"
  tr_results :: "tensor list"
  tr_consistency :: consistency
  tr_history :: "rat list"

definition tiled_ilt_with_consistency ::
    "tensor \<Rightarrow> int \<Rightarrow> (tensor \<Rightarrow> tensor) \<Rightarrow> int \<Rightarrow> nat \<Rightarrow> tiled_result res" where
  "tiled_ilt_with_consistency layout tsize ilt overlap n =
     ebind (tile_layout layout tsize overlap) (\<lambda>tiles.
     let results = map (\<lambda>t. (ilt ^^ n) (tl_tensor t)) tiles in
     ebind (stitch_tiles (zip tiles results) (rows layout, cols layout)) (\<lambda>stitched.
     ebind (tile_boundary_consistency tiles results overlap) (\<lambda>c.
       Inr \<lparr>tr_mask = stitched, tr_tiles = tiles, tr_results = results, tr_consistency = c, tr_history = []\<rparr>)))"

definition inject_one ::
    "tile \<Rightarrow> tensor \<Rightarrow> tile \<times> tensor \<Rightarrow> tensor res" where
  "inject_one t current other =
     (let o1 = fst other; x0 = tl_x t; y0 = tl_y t; x1 = x0 + cols current; y1 = y0 + rows current;
          ix0 = max x0 (tl_x o1); iy0 = max y0 (tl_y o1);
          ix1 = min x1 (tl_x o1 + tl_w o1); iy1 = min y1 (tl_y o1 + tl_h o1) in
      if ix1 \<le> ix0 \<or> iy1 \<le> iy0 then Inr current
      else t_put current (iy0 - y0) (iy1 - y0) (ix0 - x0) (ix1 - x0)
             (t_slice (snd other) (iy0 - tl_y o1) (iy1 - tl_y o1) (ix0 - tl_x o1) (ix1 - tl_x o1)))"

definition inject_boundary_data :: "tile list \<Rightarrow> tensor list \<Rightarrow> nat \<Rightarrow> tensor res" where
  "inject_boundary_data tiles results idx =
     foldE (\<lambda>cur j. if j = idx then Inr cur else inject_one (tiles ! idx) cur (tiles ! j, results ! j))
       (results ! idx) [0..<length tiles]"

text \<open>One Schwarz round computes all new results from the old ones.\<close>

definition schwarz_round ::
    "tile list \<Rightarrow> (tensor \<Rightarrow> tensor) \<Rightarrow> nat \<Rightarrow> tensor list \<Rightarrow> tensor list res" where
  "schwarz_round tiles ilt inner results =
     mapE (\<lambda>idx. ebind (inject_boundary_data tiles results idx) (\<lambda>cur. Inr ((ilt ^^ inner) cur)))
       [0..<length tiles]"

primrec schwarz_loop ::
    "nat \<Rightarrow> tile list \<Rightarrow> (tensor \<Rightarrow> tensor) \<Rightarrow> nat \<Rightarrow> int \<Rightarrow> rat \<Rightarrow> tensor list \<Rightarrow> rat list \<Rightarrow>
     (tensor list \<times> rat list) res" where
  "schwarz_loop 0 tiles ilt inner overlap tol results history = Inr (results, history)"
| "schwarz_loop (Suc n) tiles ilt inner overlap tol results history =
     ebind (schwarz_round tiles ilt inner results) (\<lambda>new.
     ebind (tile_boundary_consistency tiles new overlap) (\<lambda>c.
       if cs_mse c < tol then Inr (new, history @ [cs_mse c])
       else schwarz_loop n tiles ilt inner overlap tol new (history @ [cs_mse c])))"

definition schwarz_tiled_ilt ::
    "tensor \<Rightarrow> int \<Rightarrow> (tensor \<Rightarrow> tensor) \<Rightarrow> int \<Rightarrow> nat \<Rightarrow> nat \<Rightarrow> rat \<Rightarrow> tiled_result res" where
  "schwarz_tiled_ilt layout tsize ilt overlap n_schwarz n_inner tol =
     ebind (tile_layout layout tsize overlap) (\<lambda>tiles.
     ebind (schwarz_loop n_schwarz tiles ilt n_inner overlap tol (map tl_tensor tiles) []) (\<lambda>(results, history).
     ebind (stitch_tiles (zip tiles results) (rows layout, cols layout)) (\<lambda>stitched.
     ebind (tile_boundary_consistency tiles results overlap) (\<lambda>c.
       Inr \<lparr>tr_mask = stitched, tr_tiles = tiles, tr_results = results, tr_consistency = c,
            tr_history = history\<rparr>))))"

record convergence =
  cv_initial :: rat
  cv_final :: rat
  cv_ratio :: rat
  cv_monotone :: bool

definition schwarz_convergence_metrics :: "rat list \<Rightarrow> convergence" where
  "schwarz_convergence_metrics history =
     (if history = [] then \<lparr>cv_initial = 0, cv_final = 0, cv_ratio = 1, cv_monotone = True\<rparr>
      else
        let initial = hd history; final = last history in
        \<lparr>cv_initial = initial, cv_final = final,
         cv_ratio = (if initial > 0 then final / initial else 1),
         cv_monotone = list_all (\<lambda>(a, b). b \<le> a + 1 / 1000000000000) (zip history (tl history))\<rparr>)"

end
