(* ===== verification/TilingStitch.thy ===== *)
theory TilingStitch
  imports Tiling
begin

text \<open>
  Tiles cover the layout with positive total weight, so blending results that agree with one image
  gives that image back, exactly.
\<close>

subsection \<open>Spans and positions\<close>

lemma positions_range:
  assumes "0 \<le> ov" "ov < sz" "0 < n" "p \<in> set (axis_positions sz ov n)"
  shows "0 \<le> p" "p < n" "n < sz \<Longrightarrow> p = 0"
  using assms by (auto simp: axis_positions_def pyrange_mem split: if_splits)

lemma span_facts:
  assumes "0 < sz" "0 \<le> p" "p < n" "n < sz \<Longrightarrow> p = 0" "axis_span sz n p = (a, len)"
  shows "0 \<le> a" "0 < len" "a + len \<le> n" "len \<le> sz" "len = (if n < sz then n else sz)" "a \<le> p"
  using assms by (auto simp: axis_span_def Let_def min_def split: if_splits)

lemma linspace_nth: "0 \<le> i \<Longrightarrow> i < ov \<Longrightarrow> linspace01 ov ! nat i = of_int i / of_int (ov - 1)"
  by (simp add: linspace01_def of_nat_nat)

lemma linspace_rev_nth:
  assumes "0 \<le> i" "i < ov"
  shows "rev (linspace01 ov) ! nat i = of_int (ov - 1 - i) / of_int (ov - 1)"
proof -
  have len: "length (linspace01 ov) = nat ov" by (simp add: linspace01_def)
  have "rev (linspace01 ov) ! nat i = linspace01 ov ! (nat ov - Suc (nat i))"
    using assms by (subst rev_nth) (simp_all add: len)
  also have "nat ov - Suc (nat i) = nat (ov - 1 - i)" using assms by linarith
  finally show ?thesis using assms by (simp add: linspace_nth)
qed

text \<open>Both ramps in closed form.\<close>

lemma ramp_factor_eq:
  assumes "0 \<le> i" "i < len"
  shows "ramp_factor ov n a len i =
    (if ov > 1 \<and> a > 0 \<and> i < min ov len then of_int i / of_int (ov - 1) else 1) *
    (if ov > 1 \<and> a + len < n \<and> len - min ov len \<le> i then of_int (len - 1 - i) / of_int (ov - 1) else 1)"
proof -
  have "rev (linspace01 ov) ! nat (ov - min ov len + (i - (len - min ov len))) =
      of_int (len - 1 - i) / of_int (ov - 1)" if "ov > 1" "len - min ov len \<le> i"
    using that assms by (subst linspace_rev_nth) auto
  then show ?thesis using assms by (simp add: ramp_factor_def Let_def linspace_nth)
qed

lemma ramp_factor_nonneg: "0 \<le> i \<Longrightarrow> i < len \<Longrightarrow> 0 \<le> ramp_factor ov n a len i"
  by (simp add: ramp_factor_eq)

lemma ramp_factor_pos:
  assumes "0 \<le> i" "i < len" "ov \<le> 1 \<or> (a \<le> 0 \<or> 0 < i) \<and> (n \<le> a + len \<or> i < len - 1)"
  shows "0 < ramp_factor ov n a len i"
  using assms by (auto simp: ramp_factor_eq intro!: mult_pos_pos divide_pos_pos)

lemma axis_positive:
  assumes "0 \<le> ov" "ov < sz" "0 \<le> c" "c < n"
  obtains p a len where "p \<in> set (axis_positions sz ov n)" "axis_span sz n p = (a, len)" "a \<le> c" "c < a + len"
    "0 < ramp_factor ov n a len (c - a)"
proof (cases "n < sz")
  case True
  have "0 \<in> set (axis_positions sz ov n)" using assms True by (simp add: axis_positions_def pyrange_mem)
  moreover have "axis_span sz n 0 = (0, n)" using True assms by (simp add: axis_span_def)
  moreover have "0 < ramp_factor ov n 0 n (c - 0)" using assms by (intro ramp_factor_pos) auto
  ultimately show ?thesis using assms that by simp
next
  case False
  let ?s = "sz - ov"
  define p where "p = (if ov \<le> 1 then c div ?s * ?s else (c - 1) div ?s * ?s)"
  have s: "0 < ?s" using assms by simp
  show ?thesis
  proof (cases "ov \<le> 1 \<or> 0 < c")
    case c: True
    define b where "b = (if ov \<le> 1 then c else c - 1)"
    have p: "p = b div ?s * ?s" "0 \<le> b" "b \<le> c" using assms c by (auto simp: p_def b_def)
    have "b mod ?s < ?s" "0 \<le> b mod ?s" using s by simp_all
    moreover have "p = b - b mod ?s" unfolding p(1) by (simp add: minus_mod_eq_div_mult)
    ultimately have pb: "p \<le> b" "b < p + ?s" by linarith+
    have p0: "0 \<le> p" using p(1,2) s by (simp add: pos_imp_zdiv_nonneg_iff)
    have pn: "p < n" using pb p(3) assms by simp
    have mem: "p \<in> set (axis_positions sz ov n)"
      using False s p0 pn p(1) by (simp add: axis_positions_def pyrange_mem)
    show ?thesis
    proof (cases "p + sz > n")
      case True
      have span: "axis_span sz n p = (n - sz, sz)" using True False pn by (simp add: axis_span_def min_def)
      have "0 < ramp_factor ov n (n - sz) sz (c - (n - sz))"
        using True pb p(3) assms b_def by (intro ramp_factor_pos) (auto split: if_splits)
      then show ?thesis using that [OF mem span] True pb p(3) assms by simp
    next
      case fit: False
      have span: "axis_span sz n p = (p, sz)" using fit by (simp add: axis_span_def min_def)
      have "0 < ramp_factor ov n p sz (c - p)"
        using fit pb p(3) assms b_def by (intro ramp_factor_pos) (auto split: if_splits)
      moreover have "c < p + sz" using pb assms b_def by (auto split: if_splits)
      ultimately show ?thesis using that [OF mem span] pb p(3) by simp
    qed
  next
    case c: False
    then have "c = 0" "1 < ov" using assms by auto
    have "0 \<in> set (axis_positions sz ov n)" using assms False by (simp add: axis_positions_def pyrange_mem)
    moreover have "axis_span sz n 0 = (0, sz)" using False by (simp add: axis_span_def)
    moreover have "0 < ramp_factor ov n 0 sz (c - 0)" using \<open>c = 0\<close> \<open>1 < ov\<close> assms by (intro ramp_factor_pos) auto
    ultimately show ?thesis using that \<open>c = 0\<close> assms by simp
  qed
qed

subsection \<open>The tiles of a layout\<close>

definition tile_key :: "tile \<Rightarrow> int \<times> int" where
  "tile_key t = (tl_x t, tl_y t)"

text \<open>The tile with origin row \<open>a\<close> and column \<open>b\<close>: it depends on the origin only.\<close>

definition tile_at :: "tensor \<Rightarrow> int \<Rightarrow> int \<Rightarrow> int \<Rightarrow> int \<Rightarrow> tile" where
  "tile_at layout sz ov a b =
     \<lparr>tl_tensor = t_build sz sz (\<lambda>y x.
        if y < min (rows layout) sz \<and> x < min (cols layout) sz then t_get layout (a + y) (b + x) else 0),
      tl_x = b, tl_y = a, tl_w = min (cols layout) sz, tl_h = min (rows layout) sz, tl_overlap = ov\<rparr>"

lemma tile_key_at [simp]: "tile_key (tile_at layout sz ov a b) = (b, a)"
  by (simp add: tile_key_def tile_at_def)

lemma cut_tile_eq:
  assumes "t_ok layout" "0 < sz" "axis_span sz (rows layout) y = (a, h)" "axis_span sz (cols layout) x = (b, w)"
    "0 \<le> y" "y < rows layout" "rows layout < sz \<Longrightarrow> y = 0"
    "0 \<le> x" "x < cols layout" "cols layout < sz \<Longrightarrow> x = 0"
  shows "cut_tile layout sz ov y x = tile_at layout sz ov a b"
proof -
  note sy = span_facts [OF assms(2,5,6,7,3)] and sx = span_facts [OF assms(2,8,9,10,4)]
  have h: "h = min (rows layout) sz" and w: "w = min (cols layout) sz" using sy(5) sx(5) by auto
  let ?d = "t_slice layout a (a + h) b (b + w)"
  have d: "t_ok ?d" "rows ?d = h" "cols ?d = w"
    using assms(1) sy sx by (simp_all add: t_ok_slice rows_slice cols_slice)
  have get: "t_get ?d i j = t_get layout (a + i) (b + j)" if "0 \<le> i" "i < h" "0 \<le> j" "j < w" for i j
    using that assms(1) sy sx by (simp add: t_get_slice add.commute)
  have "(if h < sz \<or> w < sz then t_pad ?d (sz - w) (sz - h) else ?d) = tl_tensor (tile_at layout sz ov a b)"
  proof (rule t_ext)
    fix i j
    assume i: "0 \<le> i" "i < rows (if h < sz \<or> w < sz then t_pad ?d (sz - w) (sz - h) else ?d)"
      and j: "0 \<le> j" "j < cols (if h < sz \<or> w < sz then t_pad ?d (sz - w) (sz - h) else ?d)"
    have "i < sz" "j < sz" using i j assms(2) d sy(4) sx(4) by (auto simp: t_pad_def split: if_splits)
    then show "t_get (if h < sz \<or> w < sz then t_pad ?d (sz - w) (sz - h) else ?d) i j =
        t_get (tl_tensor (tile_at layout sz ov a b)) i j"
      using i(1) j(1) d get [of i j] sy(4) sx(4)
      by (cases "h = sz \<and> w = sz") (auto simp: tile_at_def t_pad_def h [symmetric] w [symmetric])
  qed (use d assms(2) sy sx in \<open>auto simp: t_pad_def tile_at_def\<close>)
  then show ?thesis
    unfolding cut_tile_def assms(3,4) by (simp add: Let_def tile_at_def h [symmetric] w [symmetric])
qed

lemma foldl_add_tile:
  assumes "\<And>q. q \<in> set ps \<Longrightarrow> cut_tile layout sz ov (fst q) (snd q) = F q"
    and "fst st = rev (map tile_key (snd st))" "distinct (map tile_key (snd st))"
    and "inj_on tile_key (set (snd st) \<union> F ` set ps)"
  shows "let r = foldl (add_tile layout sz ov) st ps in
    set (snd r) = set (snd st) \<union> F ` set ps \<and> distinct (map tile_key (snd r))"
  using assms
proof (induction ps arbitrary: st)
  case (Cons q ps)
  let ?st = "add_tile layout sz ov st q"
  have F: "cut_tile layout sz ov (fst q) (snd q) = F q" using Cons.prems(1) by simp
  have st: "?st = (if F q \<in> set (snd st) then st else (tile_key (F q) # fst st, snd st @ [F q]))"
  proof -
    have "tile_key (F q) \<in> set (fst st) \<longleftrightarrow> F q \<in> set (snd st)"
      using Cons.prems(2,4) by (auto simp: inj_on_def)
    then show ?thesis by (simp add: add_tile_def F Let_def tile_key_def)
  qed
  have dis: "distinct (map tile_key (snd ?st))"
    using Cons.prems(3,4) by (auto simp: st inj_on_def)
  have "inj_on tile_key (set (snd ?st) \<union> F ` set ps)"
    by (rule inj_on_subset [OF Cons.prems(4)]) (auto simp: st)
  moreover have "fst ?st = rev (map tile_key (snd ?st))" using Cons.prems(2) by (simp add: st)
  moreover note Cons.IH [of ?st] Cons.prems(1)
  ultimately have "let r = foldl (add_tile layout sz ov) ?st ps in
    set (snd r) = set (snd ?st) \<union> F ` set ps \<and> distinct (map tile_key (snd r))" using dis by simp
  then show ?case by (auto simp: Let_def st)
qed simp

text \<open>The origins of the tiles along one axis.\<close>

definition axis_origins :: "int \<Rightarrow> int \<Rightarrow> int \<Rightarrow> int set" where
  "axis_origins sz ov n = (\<lambda>p. fst (axis_span sz n p)) ` set (axis_positions sz ov n)"

lemma axis_origins_bounds:
  assumes "0 \<le> ov" "ov < sz" "0 < n" "a \<in> axis_origins sz ov n"
  shows "0 \<le> a" "a + min n sz \<le> n"
proof -
  obtain p where p: "p \<in> set (axis_positions sz ov n)" "a = fst (axis_span sz n p)"
    using assms(4) by (auto simp: axis_origins_def)
  obtain len where sp: "axis_span sz n p = (a, len)" using p(2) by (cases "axis_span sz n p") auto
  have "0 < sz" using assms by simp
  note f = span_facts [OF this positions_range [OF assms(1-3) p(1)] sp]
  then show "0 \<le> a" "a + min n sz \<le> n" by (auto split: if_splits)
qed

lemma axis_covered:
  assumes "0 \<le> ov" "ov < sz" "0 \<le> c" "c < n"
  obtains a where "a \<in> axis_origins sz ov n" "a \<le> c" "c < a + min n sz"
    "0 < ramp_factor ov n a (min n sz) (c - a)"
proof -
  obtain p a len where p: "p \<in> set (axis_positions sz ov n)" "axis_span sz n p = (a, len)" "a \<le> c" "c < a + len"
    "0 < ramp_factor ov n a len (c - a)" using axis_positive [OF assms] .
  have "0 < sz" "0 < n" using assms by simp_all
  then have "len = min n sz"
    using span_facts [OF _ positions_range [OF assms(1,2) _ p(1)] p(2)] by (auto simp: min_def split: if_splits)
  moreover have "a \<in> axis_origins sz ov n"
    unfolding axis_origins_def using p(1,2) by (metis (no_types, lifting) fst_conv image_eqI)
  ultimately show ?thesis using that p by simp
qed

lemma tile_layout_tiles:
  assumes "t_ok layout" "0 < rows layout" "0 < cols layout" "0 \<le> ov" "ov < sz"
  obtains ts where "tile_layout layout sz ov = Inr ts" "distinct (map tile_key ts)"
    "set ts = (\<lambda>(a, b). tile_at layout sz ov a b) ` (axis_origins sz ov (rows layout) \<times> axis_origins sz ov (cols layout))"
proof -
  let ?P = "axis_positions sz ov (rows layout)" and ?Q = "axis_positions sz ov (cols layout)"
  let ?F = "\<lambda>q. tile_at layout sz ov (fst (axis_span sz (rows layout) (fst q))) (fst (axis_span sz (cols layout) (snd q)))"
  have cut: "cut_tile layout sz ov (fst q) (snd q) = ?F q" if q: "q \<in> set (List.product ?P ?Q)" for q
  proof -
    have "fst q \<in> set ?P" "snd q \<in> set ?Q" using q by (auto simp: mem_Times_iff)
    note p = positions_range [OF assms(4,5,2) this(1)] positions_range [OF assms(4,5,3) this(2)]
    show ?thesis
      by (rule cut_tile_eq [OF assms(1) _ prod.collapse [symmetric] prod.collapse [symmetric] p]) (use assms in auto)
  qed
  have inj: "inj_on tile_key (set [] \<union> ?F ` set (List.product ?P ?Q))"
    by (auto simp: inj_on_def)
  let ?r = "foldl (add_tile layout sz ov) ([], []) (List.product ?P ?Q)"
  have "set (snd ?r) = ?F ` set (List.product ?P ?Q)" "distinct (map tile_key (snd ?r))"
    using foldl_add_tile [of "List.product ?P ?Q" layout sz ov ?F "([], [])", OF cut] inj
    by (simp_all add: Let_def)
  moreover have "?F ` set (List.product ?P ?Q) =
      (\<lambda>(a, b). tile_at layout sz ov a b) ` (axis_origins sz ov (rows layout) \<times> axis_origins sz ov (cols layout))"
    unfolding axis_origins_def by (auto simp: image_iff; force)
  ultimately show ?thesis using that [of "snd ?r"] assms by (simp add: tile_layout_def)
qed

subsection \<open>Blending\<close>

text \<open>The weight tile \<open>t\<close> contributes to a pixel, and the image's value it contributes.\<close>

definition blend_at :: "int \<times> int \<Rightarrow> tile \<Rightarrow> int \<Rightarrow> int \<Rightarrow> rat" where
  "blend_at shape t y x =
     (if tl_y t \<le> y \<and> y < tl_y t + tl_h t \<and> tl_x t \<le> x \<and> x < tl_x t + tl_w t
      then ramp_factor (tl_overlap t) (snd shape) (tl_x t) (tl_w t) (x - tl_x t) *
           ramp_factor (tl_overlap t) (fst shape) (tl_y t) (tl_h t) (y - tl_y t) else 0)"

definition value_at :: "tile \<times> tensor \<Rightarrow> int \<Rightarrow> int \<Rightarrow> rat" where
  "value_at tr y x = t_get (snd tr) (y - tl_y (fst tr)) (x - tl_x (fst tr))"

definition result_fits :: "int \<times> int \<Rightarrow> tile \<times> tensor \<Rightarrow> bool" where
  "result_fits shape tr \<longleftrightarrow>
     (case tr of (t, r) \<Rightarrow>
        0 \<le> tl_y t \<and> 0 < tl_h t \<and> tl_y t + tl_h t \<le> fst shape \<and>
        0 \<le> tl_x t \<and> 0 < tl_w t \<and> tl_x t + tl_w t \<le> snd shape \<and>
        t_ok r \<and> tl_h t \<le> rows r \<and> tl_w t \<le> cols r)"

lemma blend_at_nonneg: "0 \<le> blend_at shape t y x"
  unfolding blend_at_def by (simp add: ramp_factor_nonneg)

lemma bidx_in: "0 \<le> i \<Longrightarrow> i < n \<Longrightarrow> bidx n i = i"
  by (simp add: bidx_def)

lemma t_mul_build:
  assumes "t_ok a" "rows a = h" "cols a = w" "0 < h" "0 < w"
  shows "t_mul a (t_build h w g) = Inr (t_build h w (\<lambda>y x. t_get a y x * g y x))"
proof -
  have "t_build h w (\<lambda>y x. t_get a (bidx h y) (bidx w x) * t_get (t_build h w g) (bidx h y) (bidx w x)) =
      t_build h w (\<lambda>y x. t_get a y x * g y x)"
    by (rule t_ext) (use assms in \<open>simp_all add: bidx_in\<close>)
  then show ?thesis using assms by (auto simp: t_mul_def)
qed

lemma t_add_at_build:
  assumes "0 \<le> y0" "0 < h" "y0 + h \<le> H" "0 \<le> x0" "0 < w" "x0 + w \<le> W"
  shows "t_add_at (t_build H W f) y0 (y0 + h) x0 (x0 + w) (t_build h w g) =
    Inr (t_build H W (\<lambda>y x. f y x + (if y0 \<le> y \<and> y < y0 + h \<and> x0 \<le> x \<and> x < x0 + w then g (y - y0) (x - x0) else 0)))"
proof -
  have "t_build H W (\<lambda>y x. if y0 \<le> y \<and> y < y0 + h \<and> x0 \<le> x \<and> x < x0 + w
        then t_get (t_build H W f) y x + t_get (t_build h w g) (bidx h (y - y0)) (bidx w (x - x0))
        else t_get (t_build H W f) y x) =
      t_build H W (\<lambda>y x. f y x + (if y0 \<le> y \<and> y < y0 + h \<and> x0 \<le> x \<and> x < x0 + w then g (y - y0) (x - x0) else 0))"
    by (rule t_ext) (use assms in \<open>simp_all add: bidx_in\<close>)
  then show ?thesis using assms by (simp add: t_add_at_def Let_def cong: if_cong)
qed

lemma stitch_one_build:
  assumes "result_fits shape tr"
  shows "stitch_one shape (t_build (fst shape) (snd shape) f, t_build (fst shape) (snd shape) g) tr =
    Inr (t_build (fst shape) (snd shape) (\<lambda>y x. f y x + blend_at shape (fst tr) y x * value_at tr y x),
         t_build (fst shape) (snd shape) (\<lambda>y x. g y x + blend_at shape (fst tr) y x))"
proof -
  obtain t r where tr: "tr = (t, r)" by (cases tr)
  note fits = assms [unfolded result_fits_def tr prod.case]
  let ?s = "t_slice r 0 (tl_h t) 0 (tl_w t)"
  have s: "t_ok ?s" "rows ?s = tl_h t" "cols ?s = tl_w t" using fits by (simp_all add: t_ok_slice rows_slice cols_slice)
  have get: "t_get ?s i j = t_get r i j" if "0 \<le> i" "i < tl_h t" "0 \<le> j" "j < tl_w t" for i j
    using that fits by (simp add: t_get_slice)
  let ?b = "\<lambda>y x. ramp_factor (tl_overlap t) (snd shape) (tl_x t) (tl_w t) x *
    ramp_factor (tl_overlap t) (fst shape) (tl_y t) (tl_h t) y"
  have cong: "t_build H W u = t_build H W v"
    if "\<And>y x. 0 \<le> y \<Longrightarrow> y < H \<Longrightarrow> 0 \<le> x \<Longrightarrow> x < W \<Longrightarrow> u y x = v y x" for H W and u v :: "int \<Rightarrow> int \<Rightarrow> rat"
    by (simp add: t_build_def that)
  have "stitch_one shape (t_build (fst shape) (snd shape) f, t_build (fst shape) (snd shape) g) tr =
    Inr (t_build (fst shape) (snd shape) (\<lambda>y x. f y x +
          (if tl_y t \<le> y \<and> y < tl_y t + tl_h t \<and> tl_x t \<le> x \<and> x < tl_x t + tl_w t
           then t_get ?s (y - tl_y t) (x - tl_x t) * ?b (y - tl_y t) (x - tl_x t) else 0)),
      t_build (fst shape) (snd shape) (\<lambda>y x. g y x +
          (if tl_y t \<le> y \<and> y < tl_y t + tl_h t \<and> tl_x t \<le> x \<and> x < tl_x t + tl_w t
           then ?b (y - tl_y t) (x - tl_x t) else 0)))"
    using fits s by (simp add: stitch_one_def tr tile_blend_def t_mul_build t_add_at_build Let_def)
  then show ?thesis
    by (auto simp: tr blend_at_def value_at_def get mult.commute intro!: cong)
qed

definition weight_sum :: "int \<times> int \<Rightarrow> (tile \<times> tensor) list \<Rightarrow> int \<Rightarrow> int \<Rightarrow> rat" where
  "weight_sum shape trs y x = (\<Sum>tr\<leftarrow>trs. blend_at shape (fst tr) y x)"

definition value_sum :: "int \<times> int \<Rightarrow> (tile \<times> tensor) list \<Rightarrow> int \<Rightarrow> int \<Rightarrow> rat" where
  "value_sum shape trs y x = (\<Sum>tr\<leftarrow>trs. blend_at shape (fst tr) y x * value_at tr y x)"

lemma stitch_fold:
  assumes "list_all (result_fits shape) trs"
  shows "foldE (stitch_one shape) (t_build (fst shape) (snd shape) f, t_build (fst shape) (snd shape) g) trs =
    Inr (t_build (fst shape) (snd shape) (\<lambda>y x. f y x + value_sum shape trs y x),
         t_build (fst shape) (snd shape) (\<lambda>y x. g y x + weight_sum shape trs y x))"
  using assms
  by (induction trs arbitrary: f g) (simp_all add: value_sum_def weight_sum_def stitch_one_build add.assoc)

text \<open>The stitched image is the weighted mean of the tile results.\<close>

lemma stitch_mean:
  assumes "list_all (result_fits shape) trs" "0 < fst shape" "0 < snd shape"
  obtains out where "stitch_tiles trs shape = Inr out" "t_ok out" "t_shape out = shape"
    "\<And>y x. 0 \<le> y \<Longrightarrow> y < fst shape \<Longrightarrow> 0 \<le> x \<Longrightarrow> x < snd shape \<Longrightarrow>
       0 < weight_sum shape trs y x \<Longrightarrow> t_get out y x = value_sum shape trs y x / weight_sum shape trs y x"
proof -
  let ?st = "(t_build (fst shape) (snd shape) (value_sum shape trs), t_build (fst shape) (snd shape) (weight_sum shape trs))"
  have "stitch_tiles trs shape = Inr (normalise ?st)"
    using stitch_fold [OF assms(1), of "\<lambda>_ _. 0" "\<lambda>_ _. 0"] by (simp add: stitch_tiles_def t_full_def)
  moreover have "t_ok (normalise ?st)" by (simp add: normalise_def)
  moreover have "t_shape (normalise ?st) = shape"
    using assms(2,3) by (simp add: normalise_def t_shape_def prod_eq_iff)
  moreover have "t_get (normalise ?st) y x = value_sum shape trs y x / weight_sum shape trs y x"
    if "0 \<le> y" "y < fst shape" "0 \<le> x" "x < snd shape" "0 < weight_sum shape trs y x" for y x
    using that by (simp add: normalise_def)
  ultimately show ?thesis by (rule that)
qed

text \<open>A weighted mean lies between the values with positive weight.\<close>

lemma mean_bounds:
  assumes "\<And>tr. tr \<in> set trs \<Longrightarrow> 0 < blend_at shape (fst tr) y x \<Longrightarrow> lo \<le> value_at tr y x \<and> value_at tr y x \<le> hi"
  shows "lo * weight_sum shape trs y x \<le> value_sum shape trs y x \<and>
    value_sum shape trs y x \<le> hi * weight_sum shape trs y x"
  using assms
proof (induction trs)
  case (Cons tr trs)
  have IH: "lo * weight_sum shape trs y x \<le> value_sum shape trs y x \<and>
      value_sum shape trs y x \<le> hi * weight_sum shape trs y x"
    using Cons.IH Cons.prems by simp
  let ?b = "blend_at shape (fst tr) y x"
  have "lo * ?b \<le> ?b * value_at tr y x \<and> ?b * value_at tr y x \<le> hi * ?b"
  proof (cases "0 < ?b")
    case True
    then have "lo \<le> value_at tr y x \<and> value_at tr y x \<le> hi" using Cons.prems [of tr] by simp
    then show ?thesis using True by (simp add: mult.commute mult_right_mono)
  next
    case False
    then have "?b = 0" using blend_at_nonneg [of shape "fst tr" y x] by simp
    then show ?thesis by simp
  qed
  with IH show ?case by (auto simp: weight_sum_def value_sum_def distrib_left)
qed (simp add: weight_sum_def value_sum_def)

subsection \<open>What a tiling guarantees\<close>

definition in_tile :: "tile \<Rightarrow> int \<Rightarrow> int \<Rightarrow> bool" where
  "in_tile t y x \<longleftrightarrow> tl_y t \<le> y \<and> y < tl_y t + tl_h t \<and> tl_x t \<le> x \<and> x < tl_x t + tl_w t"

text \<open>A tile of the layout: inside it, with a full-size tensor that holds its pixels, zero beyond.\<close>

definition tile_of :: "tensor \<Rightarrow> int \<Rightarrow> int \<Rightarrow> tile \<Rightarrow> bool" where
  "tile_of layout sz ov t \<longleftrightarrow>
     0 \<le> tl_y t \<and> tl_y t + tl_h t \<le> rows layout \<and> 0 \<le> tl_x t \<and> tl_x t + tl_w t \<le> cols layout \<and>
     tl_h t = min (rows layout) sz \<and> tl_w t = min (cols layout) sz \<and> tl_overlap t = ov \<and>
     tl_tensor t = t_build sz sz (\<lambda>y x.
       if y < tl_h t \<and> x < tl_w t then t_get layout (tl_y t + y) (tl_x t + x) else 0)"

definition is_image :: "tensor \<Rightarrow> bool" where
  "is_image t \<longleftrightarrow> t_ok t \<and> 0 < rows t \<and> 0 < cols t"

lemma tile_layout_Inr: "tile_layout layout sz ov = Inr ts \<Longrightarrow> 0 \<le> ov \<and> ov < sz"
  by (auto simp: tile_layout_def split: if_splits)

lemma tile_layout_of:
  assumes "tile_layout layout sz ov = Inr ts" "is_image layout"
  shows "list_all (tile_of layout sz ov) ts" "distinct (map tile_key ts)"
    "\<And>y x. 0 \<le> y \<Longrightarrow> y < rows layout \<Longrightarrow> 0 \<le> x \<Longrightarrow> x < cols layout \<Longrightarrow>
       \<exists>t\<in>set ts. 0 < blend_at (rows layout, cols layout) t y x"
proof -
  have ov: "0 \<le> ov" "ov < sz" using tile_layout_Inr [OF assms(1)] by simp_all
  have im: "t_ok layout" "0 < rows layout" "0 < cols layout" using assms(2) by (simp_all add: is_image_def)
  obtain us where us: "tile_layout layout sz ov = Inr us" "distinct (map tile_key us)"
    "set us = (\<lambda>(a, b). tile_at layout sz ov a b) ` (axis_origins sz ov (rows layout) \<times> axis_origins sz ov (cols layout))"
    using tile_layout_tiles [OF im ov] .
  have [simp]: "us = ts" using us(1) assms(1) by simp
  show "distinct (map tile_key ts)" using us(2) by simp
  have "tile_of layout sz ov (tile_at layout sz ov a b)"
    if "a \<in> axis_origins sz ov (rows layout)" "b \<in> axis_origins sz ov (cols layout)" for a b
    using axis_origins_bounds [OF ov im(2) that(1)] axis_origins_bounds [OF ov im(3) that(2)]
    by (simp add: tile_of_def tile_at_def cong: if_cong)
  then show "list_all (tile_of layout sz ov) ts" using us(3) by (auto simp: list_all_iff)
  fix y x assume y: "0 \<le> y" "y < rows layout" and x: "0 \<le> x" "x < cols layout"
  obtain a where a: "a \<in> axis_origins sz ov (rows layout)" "a \<le> y" "y < a + min (rows layout) sz"
    "0 < ramp_factor ov (rows layout) a (min (rows layout) sz) (y - a)" using axis_covered [OF ov y] .
  obtain b where b: "b \<in> axis_origins sz ov (cols layout)" "b \<le> x" "x < b + min (cols layout) sz"
    "0 < ramp_factor ov (cols layout) b (min (cols layout) sz) (x - b)" using axis_covered [OF ov x] .
  have "tile_at layout sz ov a b \<in> set ts" using us(3) a(1) b(1) by auto
  moreover have "0 < blend_at (rows layout, cols layout) (tile_at layout sz ov a b) y x"
    using a b by (simp add: blend_at_def tile_at_def)
  ultimately show "\<exists>t\<in>set ts. 0 < blend_at (rows layout, cols layout) t y x" by blast
qed

lemma blend_at_in: "0 < blend_at shape t y x \<Longrightarrow> in_tile t y x"
  by (auto simp: blend_at_def in_tile_def split: if_splits)

definition result_ok :: "tile \<Rightarrow> tensor \<Rightarrow> bool" where
  "result_ok t r \<longleftrightarrow> t_ok r \<and> tl_h t \<le> rows r \<and> tl_w t \<le> cols r"

lemma weight_positive:
  assumes "tile_layout layout sz ov = Inr ts" "is_image layout" "length rs = length ts"
    and "0 \<le> y" "y < rows layout" "0 \<le> x" "x < cols layout"
  shows "0 < weight_sum (rows layout, cols layout) (zip ts rs) y x"
proof -
  let ?b = "\<lambda>t. blend_at (rows layout, cols layout) t y x"
  obtain t where t: "t \<in> set ts" "0 < ?b t" using tile_layout_of(3) [OF assms(1,2,4-7)] by blast
  have "weight_sum (rows layout, cols layout) (zip ts rs) y x = sum_list (map ?b (map fst (zip ts rs)))"
    unfolding weight_sum_def map_map comp_def ..
  also have "\<dots> = sum_list (map ?b ts)" using assms(3) by simp
  also have "\<dots> > 0"
  proof -
    have "?b t \<le> sum_list (map ?b ts)" using t(1) by (intro member_le_sum_list) (auto simp: blend_at_nonneg)
    then show ?thesis using t(2) by simp
  qed
  finally show ?thesis .
qed

lemma results_fit:
  assumes "tile_layout layout sz ov = Inr ts" "is_image layout" "list_all2 result_ok ts rs"
  shows "list_all (result_fits (rows layout, cols layout)) (zip ts rs)"
proof -
  have "0 < sz" using tile_layout_Inr [OF assms(1)] by simp
  then have "result_fits (rows layout, cols layout) (t, r)" if "(t, r) \<in> set (zip ts rs)" for t r
    using that assms(2,3) tile_layout_of(1) [OF assms(1,2)]
    by (auto simp: result_fits_def tile_of_def result_ok_def is_image_def list_all_iff list_all2_iff
        dest!: set_zip_leftD split: prod.splits)
  then show ?thesis by (auto simp: list_all_iff)
qed

end
