(* ===== verification/TilingSchwarz.thy ===== *)
theory TilingSchwarz
  imports TilingStitch
begin

text \<open>
  The tiled and the Schwarz optimization (\<open>workflow/tiling.py\<close>): when the tile results are cut from
  one image, exchanging overlaps changes nothing, the boundary metrics are perfect and stitching gives
  the image back, so the iteration stops after its first round with the dense result.
\<close>

text \<open>A result agrees with an image on the real extent of its tile.\<close>

definition agrees :: "int \<Rightarrow> tensor \<Rightarrow> tile \<Rightarrow> tensor \<Rightarrow> bool" where
  "agrees sz Y t r \<longleftrightarrow>
     t_ok r \<and> t_shape r = (sz, sz) \<and>
     (\<forall>y x. 0 \<le> y \<and> y < tl_h t \<and> 0 \<le> x \<and> x < tl_w t \<longrightarrow> t_get r y x = t_get Y (tl_y t + y) (tl_x t + x))"

lemma agrees_get:
  "agrees sz Y t r \<Longrightarrow> 0 \<le> y \<Longrightarrow> y < tl_h t \<Longrightarrow> 0 \<le> x \<Longrightarrow> x < tl_w t \<Longrightarrow>
   t_get r y x = t_get Y (tl_y t + y) (tl_x t + x)"
  by (simp add: agrees_def)

lemma agrees_tile: "0 < sz \<Longrightarrow> tile_of layout sz ov t \<Longrightarrow> agrees sz layout t (tl_tensor t)"
  by (simp add: agrees_def tile_of_def t_shape_def)

lemma agrees_result_ok: "tile_of layout sz ov t \<Longrightarrow> agrees sz Y t r \<Longrightarrow> result_ok t r"
  by (simp add: agrees_def result_ok_def tile_of_def t_shape_def)

text \<open>A slice of an agreeing result is the slice of the image.\<close>

lemma agrees_slice:
  assumes "agrees sz Y t r" "tile_of layout sz ov t" "is_image Y" "t_shape Y = t_shape layout"
    and "tl_y t \<le> y0" "y0 < y1" "y1 \<le> tl_y t + tl_h t" "tl_x t \<le> x0" "x0 < x1" "x1 \<le> tl_x t + tl_w t"
  shows "t_slice r (y0 - tl_y t) (y1 - tl_y t) (x0 - tl_x t) (x1 - tl_x t) = t_slice Y y0 y1 x0 x1"
proof -
  have r: "t_ok r" "rows r = sz" "cols r = sz" using assms(1) by (simp_all add: agrees_def t_shape_def)
  have Y: "t_ok Y" "rows Y = rows layout" "cols Y = cols layout"
    using assms(3,4) by (simp_all add: is_image_def t_shape_def)
  have t: "0 \<le> tl_y t" "tl_y t + tl_h t \<le> rows layout" "0 \<le> tl_x t" "tl_x t + tl_w t \<le> cols layout"
    "tl_h t \<le> sz" "tl_w t \<le> sz" using assms(2) by (simp_all add: tile_of_def)
  have dims: "t_ok (t_slice r (y0 - tl_y t) (y1 - tl_y t) (x0 - tl_x t) (x1 - tl_x t))"
    "rows (t_slice r (y0 - tl_y t) (y1 - tl_y t) (x0 - tl_x t) (x1 - tl_x t)) = y1 - y0"
    "cols (t_slice r (y0 - tl_y t) (y1 - tl_y t) (x0 - tl_x t) (x1 - tl_x t)) = x1 - x0"
    "t_ok (t_slice Y y0 y1 x0 x1)" "rows (t_slice Y y0 y1 x0 x1) = y1 - y0" "cols (t_slice Y y0 y1 x0 x1) = x1 - x0"
    using r Y t assms(5-10) by (simp_all add: t_ok_slice rows_slice cols_slice)
  have ge: "t_get (t_slice r (y0 - tl_y t) (y1 - tl_y t) (x0 - tl_x t) (x1 - tl_x t)) i j =
      t_get (t_slice Y y0 y1 x0 x1) i j" if "0 \<le> i" "i < y1 - y0" "0 \<le> j" "j < x1 - x0" for i j
  proof -
    have "t_get r (i + (y0 - tl_y t)) (j + (x0 - tl_x t)) = t_get Y (i + y0) (j + x0)"
      using agrees_get [OF assms(1), of "i + (y0 - tl_y t)" "j + (x0 - tl_x t)"] that assms(5-10)
      by (simp add: algebra_simps)
    then show ?thesis using that r Y t assms(5-10) by (simp add: t_get_slice)
  qed
  show ?thesis by (rule t_ext) (use dims ge in auto)
qed

subsection \<open>Exchanging overlaps\<close>

text \<open>Putting back what is already there.\<close>

lemma t_put_same:
  assumes "t_ok t" "0 \<le> y0" "y0 < y1" "y1 \<le> rows t" "0 \<le> x0" "x0 < x1" "x1 \<le> cols t"
  shows "t_put t y0 y1 x0 x1 (t_slice t y0 y1 x0 x1) = Inr t"
proof -
  have "t_build (rows t) (cols t) (\<lambda>y x. if y0 \<le> y \<and> y < y1 \<and> x0 \<le> x \<and> x < x1
      then t_get (t_slice t y0 y1 x0 x1) (y - y0) (x - x0) else t_get t y x) = t"
    by (rule t_ext) (use assms in \<open>simp_all add: t_get_slice\<close>)
  then show ?thesis using assms by (simp add: t_put_Inr t_shape_def rows_slice cols_slice)
qed

lemma inject_one_same:
  assumes "agrees sz Y t cur" "agrees sz Y u r" "tile_of layout sz ov t" "tile_of layout sz ov u"
    and "is_image Y" "t_shape Y = t_shape layout" "0 < sz"
  shows "inject_one t cur (u, r) = Inr cur"
proof -
  let ?y0 = "max (tl_y t) (tl_y u)" and ?x0 = "max (tl_x t) (tl_x u)"
  let ?y1 = "min (tl_y t + sz) (tl_y u + tl_h u)" and ?x1 = "min (tl_x t + sz) (tl_x u + tl_w u)"
  have cur: "t_ok cur" "rows cur = sz" "cols cur = sz" using assms(1) by (simp_all add: agrees_def t_shape_def)
  have t: "0 \<le> tl_y t" "tl_y t + tl_h t \<le> rows layout" "tl_h t = min (rows layout) sz"
    "0 \<le> tl_x t" "tl_x t + tl_w t \<le> cols layout" "tl_w t = min (cols layout) sz"
    using assms(3) by (simp_all add: tile_of_def)
  have u: "tl_y u + tl_h u \<le> rows layout" "tl_x u + tl_w u \<le> cols layout" using assms(4) by (simp_all add: tile_of_def)
  have ends: "?y1 \<le> tl_y t + tl_h t" "?x1 \<le> tl_x t + tl_w t" using t u by auto
  show ?thesis
  proof (cases "?x1 \<le> ?x0 \<or> ?y1 \<le> ?y0")
    case True
    then show ?thesis by (simp add: inject_one_def Let_def cur)
  next
    case False
    then have lt: "?y0 < ?y1" "?x0 < ?x1" by auto
    have "t_slice r (?y0 - tl_y u) (?y1 - tl_y u) (?x0 - tl_x u) (?x1 - tl_x u) = t_slice Y ?y0 ?y1 ?x0 ?x1"
      using lt by (intro agrees_slice [OF assms(2,4,5,6)]) auto
    also have "\<dots> = t_slice cur (?y0 - tl_y t) (?y1 - tl_y t) (?x0 - tl_x t) (?x1 - tl_x t)"
      using lt ends by (intro agrees_slice [OF assms(1,3,5,6), symmetric]) auto
    finally have sl: "t_slice r (?y0 - tl_y u) (?y1 - tl_y u) (?x0 - tl_x u) (?x1 - tl_x u) =
      t_slice cur (?y0 - tl_y t) (?y1 - tl_y t) (?x0 - tl_x t) (?x1 - tl_x t)" .
    have "t_put cur (?y0 - tl_y t) (?y1 - tl_y t) (?x0 - tl_x t) (?x1 - tl_x t)
        (t_slice cur (?y0 - tl_y t) (?y1 - tl_y t) (?x0 - tl_x t) (?x1 - tl_x t)) = Inr cur"
      using lt cur by (intro t_put_same) auto
    then show ?thesis using False sl by (simp add: inject_one_def Let_def cur)
  qed
qed

definition all_agree :: "int \<Rightarrow> tensor \<Rightarrow> tile list \<Rightarrow> tensor list \<Rightarrow> bool" where
  "all_agree sz Y ts rs \<longleftrightarrow> list_all2 (agrees sz Y) ts rs"

lemma inject_same:
  assumes "all_agree sz Y ts rs" "list_all (tile_of layout sz ov) ts" "is_image Y" "t_shape Y = t_shape layout"
    "0 < sz" "i < length ts"
  shows "inject_boundary_data ts rs i = Inr (rs ! i)"
proof -
  have "inject_one (ts ! i) (rs ! i) (ts ! j, rs ! j) = Inr (rs ! i)" if "j < length ts" for j
    using that assms(1,2,6)
    by (intro inject_one_same [OF _ _ _ _ assms(3-5), where ov = ov])
      (auto simp: all_agree_def list_all2_conv_all_nth list_all_length)
  then have "foldE (\<lambda>cur j. if j = i then Inr cur else inject_one (ts ! i) cur (ts ! j, rs ! j)) (rs ! i) js = Inr (rs ! i)"
    if "set js \<subseteq> {..<length ts}" for js
    using that by (induction js) auto
  from this [of "[0..<length ts]"] show ?thesis by (simp add: inject_boundary_data_def lessThan_atLeast0)
qed
subsection \<open>Boundary metrics\<close>

text \<open>The two regions of a pair are equal and not empty.\<close>

lemma overlap_regions_same:
  assumes "agrees sz Y t r" "agrees sz Y u s" "tile_of layout sz ov t" "tile_of layout sz ov u"
    and "is_image Y" "t_shape Y = t_shape layout" "0 < w" "overlap_regions t u r s w = Some (a, b)"
  shows "a = b \<and> concat a \<noteq> []"
proof -
  define xs where "xs = max (tl_x t) (tl_x u)"
  define ys where "ys = max (tl_y t) (tl_y u)"
  define xe where "xe = min (tl_x t + tl_w t) (tl_x u + tl_w u)"
  define ye where "ye = min (tl_y t + tl_h t) (tl_y u + tl_h u)"
  have "overlap_regions t u r s w = None" if "xs \<ge> xe \<or> ys \<ge> ye"
    using that unfolding overlap_regions_def Let_def xs_def [symmetric] ys_def [symmetric] xe_def [symmetric]
      ye_def [symmetric] by (simp only: if_True)
  then have lt: "xs < xe" "ys < ye" using assms(8) by force+
  obtain x1 y1 where e: "xs < x1" "x1 \<le> xe" "ys < y1" "y1 \<le> ye"
    and a: "a = t_slice r (ys - tl_y t) (ys - tl_y t + (y1 - ys)) (xs - tl_x t) (xs - tl_x t + (x1 - xs))"
    and b: "b = t_slice s (ys - tl_y u) (ys - tl_y u + (y1 - ys)) (xs - tl_x u) (xs - tl_x u + (x1 - xs))"
  proof -
    define row where "row \<longleftrightarrow> tl_y t = tl_y u \<and> tl_h t = tl_h u"
    define x1 where "x1 = (if row then xs + min (xe - xs) w else xe)"
    define y1 where "y1 = (if row then ye else ys + min (ye - ys) w)"
    have "a = t_slice r (ys - tl_y t) (ys - tl_y t + (y1 - ys)) (xs - tl_x t) (xs - tl_x t + (x1 - xs)) \<and>
        b = t_slice s (ys - tl_y u) (ys - tl_y u + (y1 - ys)) (xs - tl_x u) (xs - tl_x u + (x1 - xs))"
      using assms(8) unfolding overlap_regions_def Let_def row_def [symmetric] xs_def [symmetric] ys_def [symmetric]
        xe_def [symmetric] ye_def [symmetric] x1_def [symmetric] y1_def [symmetric]
      by (simp only: prod.inject option.inject option.distinct simp_thms split: if_split_asm)
    moreover have "xs < x1" "x1 \<le> xe" "ys < y1" "y1 \<le> ye" using lt assms(7) by (auto simp: x1_def y1_def)
    ultimately show ?thesis using that by blast
  qed
  have "a = t_slice Y ys y1 xs x1"
    using agrees_slice [OF assms(1,3,5,6), of ys y1 xs x1] e a by (simp add: xs_def ys_def xe_def ye_def)
  moreover have "b = t_slice Y ys y1 xs x1"
    using agrees_slice [OF assms(2,4,5,6), of ys y1 xs x1] e b by (simp add: xs_def ys_def xe_def ye_def)
  moreover have "concat (t_slice Y ys y1 xs x1) \<noteq> []"
  proof -
    have "0 \<le> tl_y t" "tl_y t + tl_h t \<le> rows Y" "0 \<le> tl_x t" "tl_x t + tl_w t \<le> cols Y"
      using assms(3,6) by (simp_all add: tile_of_def t_shape_def)
    then have "0 \<le> ys" "y1 \<le> rows Y" "0 \<le> xs" "x1 \<le> cols Y" "t_ok Y"
      using e assms(5) by (auto simp: xs_def ys_def xe_def ye_def is_image_def)
    then have "rows (t_slice Y ys y1 xs x1) = y1 - ys" "cols (t_slice Y ys y1 xs x1) = x1 - xs"
      using e by (simp_all add: rows_slice cols_slice)
    then show ?thesis using e by (cases "t_slice Y ys y1 xs x1") (auto simp: rows_def cols_def)
  qed
  ultimately show ?thesis by simp
qed

definition sums_perfect :: "boundary_sums \<Rightarrow> bool" where
  "sums_perfect acc \<longleftrightarrow>
     set (bs_mse acc) \<subseteq> {0} \<and> set (bs_max acc) \<subseteq> {0} \<and> length (bs_max acc) = length (bs_mse acc) \<and>
     bs_match acc = bs_total acc \<and> list_all (\<lambda>n. 0 < n) (bs_total acc)"

lemma zip_self: "zip xs xs = map (\<lambda>x. (x, x)) xs"
  by (induction xs) simp_all

lemma pair_sums_perfect:
  assumes "sums_perfect acc" "concat a \<noteq> []"
  shows "sums_perfect (pair_sums a a acc)"
proof -
  let ?vs = "map (\<lambda>x. (x, x)) (concat a)"
  have diffs: "map (\<lambda>(x, y). x - y) ?vs = replicate (length (concat a)) 0"
    by (simp add: map_replicate_const [symmetric] comp_def)
  have "set (replicate (length (concat a)) (0 :: rat)) = {0}" using assms(2) by (simp add: set_replicate_conv_if)
  then have mx: "Max (set (map abs (replicate (length (concat a)) (0 :: rat)))) = 0" by simp
  have sq: "(\<Sum>d\<leftarrow>replicate (length (concat a)) (0 :: rat). d * d) = 0" by (simp add: sum_list_replicate)
  have same: "filter (\<lambda>(x, y). is_sraf x = is_sraf y) (filter (\<lambda>(x, y). is_sraf x \<or> is_sraf y) ?vs) =
      filter (\<lambda>(x, y). is_sraf x \<or> is_sraf y) ?vs"
    by (rule filter_True) auto
  show ?thesis
    using assms(1) unfolding pair_sums_def Let_def zip_self diffs mx sq same
    by (simp add: sums_perfect_def)
qed

lemma compare_pair_perfect:
  assumes "agrees sz Y t r" "agrees sz Y u s" "tile_of layout sz ov t" "tile_of layout sz ov u"
    and "is_image Y" "t_shape Y = t_shape layout" "sums_perfect acc"
  shows "sums_perfect (compare_pair w ((t, r), (u, s)) acc)"
proof (cases "(if w > 0 then w else min (tl_overlap t) (tl_overlap u)) \<le> 0")
  case True
  then show ?thesis using assms(7) by (simp add: compare_pair_def)
next
  case False
  let ?w = "if w > 0 then w else min (tl_overlap t) (tl_overlap u)"
  show ?thesis
  proof (cases "overlap_regions t u r s ?w")
    case None
    then show ?thesis using assms(7) False by (simp add: compare_pair_def Let_def)
  next
    case (Some ab)
    obtain a b where ab: "ab = (a, b)" by (cases ab)
    have "0 < ?w" using False by simp
    have eq: "a = b" "concat a \<noteq> []" using overlap_regions_same [OF assms(1-6) \<open>0 < ?w\<close>] Some ab by auto
    have "compare_pair w ((t, r), (u, s)) acc = pair_sums a a acc"
      using Some False unfolding compare_pair_def by (simp add: Let_def ab eq(1) del: not_le)
    then show ?thesis using pair_sums_perfect [OF assms(7) eq(2)] by simp
  qed
qed

lemma pairs_of_set: "p \<in> set (pairs_of xs) \<Longrightarrow> fst p \<in> set xs \<and> snd p \<in> set xs"
  by (induction xs rule: pairs_of.induct) auto

lemma boundary_perfect:
  assumes "all_agree sz Y ts rs" "list_all (tile_of layout sz ov) ts" "is_image Y" "t_shape Y = t_shape layout"
  shows "tile_boundary_consistency ts rs w = Inr perfect"
proof -
  have len: "length ts = length rs" using assms(1) by (simp add: all_agree_def list_all2_lengthD)
  have pair: "agrees sz Y (fst p) (snd p) \<and> tile_of layout sz ov (fst p)" if "p \<in> set (zip ts rs)" for p
    using that assms(1,2) set_zip_leftD [of "fst p" "snd p" ts rs]
    by (auto simp: all_agree_def list_all2_iff list_all_iff split: prod.splits)
  let ?acc = "fold (compare_pair w) (pairs_of (zip ts rs)) \<lparr>bs_mse = [], bs_max = [], bs_match = [], bs_total = []\<rparr>"
  have "sums_perfect (fold (compare_pair w) ps acc)"
    if "set ps \<subseteq> set (pairs_of (zip ts rs))" "sums_perfect acc" for ps acc
    using that
  proof (induction ps arbitrary: acc)
    case (Cons p ps)
    obtain t r u s where p: "p = ((t, r), (u, s))" by (metis prod.collapse)
    have "p \<in> set (pairs_of (zip ts rs))" using Cons.prems(1) by simp
    from pairs_of_set [OF this] have "fst p \<in> set (zip ts rs)" "snd p \<in> set (zip ts rs)" by simp_all
    then have "sums_perfect (compare_pair w p acc)"
      using compare_pair_perfect [of sz Y t r u s layout ov acc w] pair assms(3,4) Cons.prems(2) p by fastforce
    then show ?case using Cons by simp
  qed simp
  then have ok: "sums_perfect ?acc" by (simp add: sums_perfect_def)
  have zero: "sum_list vs = 0" if "set vs \<subseteq> {0}" for vs :: "rat list" using that by (induction vs) auto
  have pos: "vs \<noteq> [] \<Longrightarrow> 0 < sum_list vs" if "list_all (\<lambda>n. 0 < n) vs" for vs :: "rat list"
    using that by (induction vs) (fastforce simp: add_pos_nonneg intro: add_pos_nonneg)+
  have "Max (set (bs_max ?acc)) = 0" if "bs_mse ?acc \<noteq> []"
  proof -
    have "bs_max ?acc \<noteq> []" "set (bs_max ?acc) \<subseteq> {0}" using ok that by (auto simp: sums_perfect_def)
    then have "set (bs_max ?acc) = {0}" by (cases "bs_max ?acc") auto
    then show ?thesis by simp
  qed
  then show ?thesis
    using ok zero [of "bs_mse ?acc"] pos [of "bs_total ?acc"] len
    by (auto simp: tile_boundary_consistency_def Let_def perfect_def sums_perfect_def)
qed

subsection \<open>Stitching and iterating\<close>

lemma tiles_agree:
  assumes "tile_layout layout sz ov = Inr ts" "is_image layout"
  shows "all_agree sz layout ts (map tl_tensor ts)"
proof -
  have "0 < sz" using tile_layout_Inr [OF assms(1)] by simp
  then have "agrees sz layout t (tl_tensor t)" if "t \<in> set ts" for t
    using that tile_layout_of(1) [OF assms] agrees_tile [where ov = ov] by (simp add: list_all_iff)
  then show ?thesis by (simp add: all_agree_def list_all2_map2 list_all2_same)
qed

lemma stitch_agree:
  assumes "tile_layout layout sz ov = Inr ts" "is_image layout" "all_agree sz Y ts rs" "is_image Y"
    "t_shape Y = t_shape layout"
  shows "stitch_tiles (zip ts rs) (rows layout, cols layout) = Inr Y"
proof -
  let ?sh = "(rows layout, cols layout)"
  have len: "length rs = length ts" using assms(3) by (simp add: all_agree_def list_all2_lengthD)
  have of: "\<And>t. t \<in> set ts \<Longrightarrow> tile_of layout sz ov t" using tile_layout_of(1) [OF assms(1,2)] by (simp add: list_all_iff)
  have "list_all2 result_ok ts rs"
    using assms(3) agrees_result_ok [OF of] unfolding all_agree_def by (auto simp: list_all2_conv_all_nth)
  then have fit: "list_all (result_fits ?sh) (zip ts rs)" by (rule results_fit [OF assms(1,2)])
  have sh: "0 < rows layout" "0 < cols layout" using assms(2) by (simp_all add: is_image_def)
  obtain out where out: "stitch_tiles (zip ts rs) ?sh = Inr out" "t_ok out" "t_shape out = ?sh"
    and get: "\<And>y x. 0 \<le> y \<Longrightarrow> y < rows layout \<Longrightarrow> 0 \<le> x \<Longrightarrow> x < cols layout \<Longrightarrow>
      0 < weight_sum ?sh (zip ts rs) y x \<Longrightarrow>
      t_get out y x = value_sum ?sh (zip ts rs) y x / weight_sum ?sh (zip ts rs) y x"
    using stitch_mean [OF fit] sh by auto
  have "t_get out y x = t_get Y y x" if yx: "0 \<le> y" "y < rows layout" "0 \<le> x" "x < cols layout" for y x
  proof -
    have W: "0 < weight_sum ?sh (zip ts rs) y x" using weight_positive [OF assms(1,2) len yx] .
    have "value_at tr y x = t_get Y y x" if "tr \<in> set (zip ts rs)" "0 < blend_at ?sh (fst tr) y x" for tr
    proof -
      have "in_tile (fst tr) y x" using that(2) by (rule blend_at_in)
      moreover have "agrees sz Y (fst tr) (snd tr)"
        using that(1) assms(3) by (auto simp: all_agree_def list_all2_iff split: prod.splits)
      ultimately show ?thesis
        using agrees_get [of sz Y "fst tr" "snd tr" "y - tl_y (fst tr)" "x - tl_x (fst tr)"]
        by (simp add: value_at_def in_tile_def)
    qed
    then have "t_get Y y x * weight_sum ?sh (zip ts rs) y x = value_sum ?sh (zip ts rs) y x"
      using mean_bounds [of "zip ts rs" ?sh y x "t_get Y y x" "t_get Y y x"] by force
    then show ?thesis using get [OF yx W] W by (metis less_irrefl nonzero_mult_div_cancel_right)
  qed
  then have "out = Y"
    using out(2,3) assms(4,5) by (intro t_ext) (auto simp: is_image_def t_shape_def)
  then show ?thesis using out(1) by simp
qed

text \<open>\<open>follows layout sz ts ilt F\<close>: on tiles cut from any image, the optimizer does what the dense \<open>F\<close> does.\<close>

definition follows :: "tensor \<Rightarrow> int \<Rightarrow> tile list \<Rightarrow> (tensor \<Rightarrow> tensor) \<Rightarrow> (tensor \<Rightarrow> tensor) \<Rightarrow> bool" where
  "follows layout sz ts ilt F \<longleftrightarrow>
     (\<forall>Y. is_image Y \<and> t_shape Y = t_shape layout \<longrightarrow>
        is_image (F Y) \<and> t_shape (F Y) = t_shape layout \<and>
        (\<forall>t\<in>set ts. \<forall>r. agrees sz Y t r \<longrightarrow> agrees sz (F Y) t (ilt r)))"

lemma follows_pow:
  assumes "follows layout sz ts ilt F"
  shows "follows layout sz ts (ilt ^^ n) (F ^^ n)"
  by (induction n) (use assms in \<open>auto simp: follows_def\<close>)

lemma follows_agree:
  "follows layout sz ts ilt F \<Longrightarrow> all_agree sz Y ts rs \<Longrightarrow> is_image Y \<Longrightarrow> t_shape Y = t_shape layout \<Longrightarrow>
   all_agree sz (F Y) ts (map ilt rs)"
  by (auto simp: follows_def all_agree_def list_all2_conv_all_nth)

lemma schwarz_round_same:
  assumes "all_agree sz Y ts rs" "list_all (tile_of layout sz ov) ts" "is_image Y" "t_shape Y = t_shape layout" "0 < sz"
  shows "schwarz_round ts ilt n rs = Inr (map (ilt ^^ n) rs)"
proof -
  have "mapE (\<lambda>idx. ebind (inject_boundary_data ts rs idx) (\<lambda>cur. Inr ((ilt ^^ n) cur))) js =
      Inr (map (\<lambda>i. (ilt ^^ n) (rs ! i)) js)" if "set js \<subseteq> {..<length ts}" for js
    using that inject_same [OF assms] by (induction js) auto
  moreover have "length rs = length ts" using assms(1) by (simp add: all_agree_def list_all2_lengthD)
  moreover have "map (\<lambda>i. (ilt ^^ n) (rs ! i)) [0..<length rs] = map (ilt ^^ n) rs"
    by (rule nth_equalityI) simp_all
  ultimately show ?thesis by (simp add: schwarz_round_def lessThan_atLeast0)
qed

subsection \<open>Properties\<close>

text \<open>C24: Tiling never fails for a positive tile size and an overlap below it; every tile then has a
  full-size tensor that holds exactly the layout's pixels of its extent and zeros beyond, lies inside
  the layout, has an origin of its own, and every pixel lies in a tile whose blending weight there is
  positive, so no seam is lost.\<close>

theorem tiles_cover_layout:
  assumes "0 \<le> ov" "ov < sz" "is_image layout"
  shows "\<exists>ts. tile_layout layout sz ov = Inr ts \<and> list_all (tile_of layout sz ov) ts \<and>
    distinct (map tile_key ts) \<and>
    (\<forall>y x. 0 \<le> y \<and> y < rows layout \<and> 0 \<le> x \<and> x < cols layout \<longrightarrow>
      (\<exists>t\<in>set ts. in_tile t y x \<and> t_get (tile_blend (rows layout, cols layout) t) (y - tl_y t) (x - tl_x t) > 0))"
proof -
  obtain ts where ts: "tile_layout layout sz ov = Inr ts"
    using tile_layout_tiles [OF _ _ _ assms(1,2), of layout] assms(3) by (meson is_image_def)
  have "\<exists>t\<in>set ts. in_tile t y x \<and> t_get (tile_blend (rows layout, cols layout) t) (y - tl_y t) (x - tl_x t) > 0"
    if yx: "0 \<le> y" "y < rows layout" "0 \<le> x" "x < cols layout" for y x
  proof -
    obtain t where t: "t \<in> set ts" "0 < blend_at (rows layout, cols layout) t y x"
      using tile_layout_of(3) [OF ts assms(3) yx] by blast
    then have "in_tile t y x" by (intro blend_at_in)
    with t show ?thesis by (auto simp: blend_at_def in_tile_def tile_blend_def)
  qed
  with ts tile_layout_of(1,2) [OF ts assms(3)] show ?thesis by blast
qed

definition small_layout :: tensor where
  "small_layout = [[1, 2, 3], [4, 5, 6]]"

lemma small_layout_image: "is_image small_layout"
  by (simp add: is_image_def small_layout_def t_ok_def rows_def cols_def)

theorem tiles_cover_layout_witness:
  "\<exists>ts. tile_layout small_layout 2 1 = Inr ts \<and> map tile_key ts = [(0, 0), (1, 0)] \<and>
     (\<exists>t\<in>set ts. in_tile t 1 2)"
proof -
  have "(case tile_layout small_layout 2 1 of Inl e \<Rightarrow> None | Inr ts \<Rightarrow> Some (map tile_key ts)) =
     Some [(0, 0), (1, 0)]" by code_simp
  moreover have "rows small_layout = 2" "cols small_layout = 3" by (simp_all add: small_layout_def rows_def cols_def)
  moreover obtain ts where ts: "tile_layout small_layout 2 1 = Inr ts"
    "\<forall>y x. 0 \<le> y \<and> y < rows small_layout \<and> 0 \<le> x \<and> x < cols small_layout \<longrightarrow>
      (\<exists>t\<in>set ts. in_tile t y x \<and> t_get (tile_blend (rows small_layout, cols small_layout) t) (y - tl_y t) (x - tl_x t) > 0)"
    using tiles_cover_layout [of 1 2 small_layout, OF _ _ small_layout_image] by auto
  moreover have "\<exists>t\<in>set ts. in_tile t 1 2"
    using ts(2) [THEN spec, of 1, THEN spec, of 2] calculation(2,3) by auto
  ultimately show ?thesis by simp
qed

definition values_within :: "(tile \<times> tensor) list \<Rightarrow> int \<Rightarrow> int \<Rightarrow> rat \<Rightarrow> rat \<Rightarrow> bool" where
  "values_within trs y x lo hi \<longleftrightarrow>
     list_all (\<lambda>(t, r). in_tile t y x \<longrightarrow>
       lo \<le> t_get r (y - tl_y t) (x - tl_x t) \<and> t_get r (y - tl_y t) (x - tl_x t) \<le> hi) trs"

text \<open>C23: Stitching is a weighted mean: whatever the tile results are, as long as each covers its tile's
  extent, stitching succeeds with an image of the layout's shape, and every pixel lies between the
  smallest and the largest value that the tiles covering it give it.  Blending neither overshoots nor
  leaves a pixel unset.\<close>

theorem stitch_between:
  assumes "tile_layout layout sz ov = Inr ts" "is_image layout" "list_all2 result_ok ts rs"
  shows "\<exists>out. stitch_tiles (zip ts rs) (rows layout, cols layout) = Inr out \<and> t_ok out \<and>
    t_shape out = t_shape layout \<and>
    (\<forall>y x lo hi. 0 \<le> y \<and> y < rows layout \<and> 0 \<le> x \<and> x < cols layout \<and>
       values_within (zip ts rs) y x lo hi \<longrightarrow>
       lo \<le> t_get out y x \<and> t_get out y x \<le> hi)"
proof -
  let ?sh = "(rows layout, cols layout)"
  have len: "length rs = length ts" using assms(3) by (simp add: list_all2_lengthD)
  obtain out where out: "stitch_tiles (zip ts rs) ?sh = Inr out" "t_ok out" "t_shape out = ?sh"
    and get: "\<And>y x. 0 \<le> y \<Longrightarrow> y < rows layout \<Longrightarrow> 0 \<le> x \<Longrightarrow> x < cols layout \<Longrightarrow>
      0 < weight_sum ?sh (zip ts rs) y x \<Longrightarrow>
      t_get out y x = value_sum ?sh (zip ts rs) y x / weight_sum ?sh (zip ts rs) y x"
    using stitch_mean [OF results_fit [OF assms]] assms(2) by (auto simp: is_image_def)
  have "lo \<le> t_get out y x \<and> t_get out y x \<le> hi"
    if yx: "0 \<le> y" "y < rows layout" "0 \<le> x" "x < cols layout"
      and bd: "values_within (zip ts rs) y x lo hi" for y x lo hi
  proof -
    have W: "0 < weight_sum ?sh (zip ts rs) y x" using weight_positive [OF assms(1,2) len yx] .
    have "lo * weight_sum ?sh (zip ts rs) y x \<le> value_sum ?sh (zip ts rs) y x \<and>
        value_sum ?sh (zip ts rs) y x \<le> hi * weight_sum ?sh (zip ts rs) y x"
      using bd blend_at_in by (intro mean_bounds) (fastforce simp: value_at_def values_within_def list_all_iff)
    then show ?thesis using get [OF yx W] W by (simp add: pos_le_divide_eq pos_divide_le_eq)
  qed
  with out show ?thesis by (auto simp: t_shape_def)
qed


subsection \<open>Witnesses\<close>

definition small_tiles :: "tile list" where
  "small_tiles = [cut_tile small_layout 2 1 0 0, cut_tile small_layout 2 1 0 1]"

lemma small_tiles_layout: "tile_layout small_layout 2 1 = Inr small_tiles"
  unfolding small_tiles_def by code_simp

theorem stitch_between_witness:
  "\<exists>out. stitch_tiles (zip small_tiles [[[0, 1], [0, 1]], [[0, 1], [1, 1]]]) (2, 3) = Inr out \<and>
     0 \<le> t_get out 1 1 \<and> t_get out 1 1 \<le> 1"
proof -
  let ?rs = "[[[0, 1], [0, 1]], [[0, 1], [1, 1]]] :: tensor list"
  have ok: "list_all2 result_ok small_tiles ?rs" by code_simp
  have dims: "rows small_layout = 2" "cols small_layout = 3" by (simp_all add: small_layout_def rows_def cols_def)
  have within: "values_within (zip small_tiles ?rs) 1 1 0 1" by code_simp
  show ?thesis
    using stitch_between [OF small_tiles_layout small_layout_image ok] within by (auto simp: dims)
qed

text \<open>An optimizer that works pixel by pixel is an instance.\<close>

definition pixelwise :: "(rat \<Rightarrow> rat) \<Rightarrow> tensor \<Rightarrow> tensor" where
  "pixelwise g t = map (map g) t"

lemma pixelwise_facts:
  "rows (pixelwise g t) = rows t" "cols (pixelwise g t) = cols t" "t_ok (pixelwise g t) = t_ok t"
  by (auto simp: pixelwise_def rows_def cols_def t_ok_def list_all_iff split: list.splits)

lemma pixelwise_get:
  "t_ok t \<Longrightarrow> 0 \<le> y \<Longrightarrow> y < rows t \<Longrightarrow> 0 \<le> x \<Longrightarrow> x < cols t \<Longrightarrow> t_get (pixelwise g t) y x = g (t_get t y x)"
proof -
  assume a: "t_ok t" "0 \<le> y" "y < rows t" "0 \<le> x" "x < cols t"
  then have y: "nat y < length t" by (simp add: rows_def)
  then have "int (length (t ! nat y)) = cols t" using t_okD [OF a(1)] by simp
  with a y show ?thesis by (simp add: t_get_def pixelwise_def)
qed

lemma pixelwise_follows:
  assumes "list_all (tile_of layout sz ov) ts"
  shows "follows layout sz ts (pixelwise g) (pixelwise g)"
proof -
  have "agrees sz (pixelwise g Y) t (pixelwise g r)"
    if Y: "is_image Y" "t_shape Y = t_shape layout" and t: "t \<in> set ts" and r: "agrees sz Y t r" for Y t r
  proof -
    have of: "0 \<le> tl_y t" "tl_y t + tl_h t \<le> rows Y" "0 \<le> tl_x t" "tl_x t + tl_w t \<le> cols Y" "tl_h t \<le> sz" "tl_w t \<le> sz"
      using assms t Y(2) by (auto simp: list_all_iff tile_of_def t_shape_def)
    have rr: "t_ok r" "rows r = sz" "cols r = sz" using r by (simp_all add: agrees_def t_shape_def)
    have "t_get (pixelwise g r) y x = t_get (pixelwise g Y) (tl_y t + y) (tl_x t + x)"
      if "0 \<le> y" "y < tl_h t" "0 \<le> x" "x < tl_w t" for y x
      using that of rr Y agrees_get [OF r that] by (simp add: pixelwise_get is_image_def)
    then show ?thesis using rr by (simp add: agrees_def pixelwise_facts t_shape_def)
  qed
  then show ?thesis by (auto simp: follows_def is_image_def pixelwise_facts t_shape_def)
qed


end
