(* ===== verification/RootIsolation.thy ===== *)
theory RootIsolation
  imports Prelude "HOL-Library.Product_Lexorder"
begin

text \<open>
  Model of \<open>verify/boundary.py\<close>: isolation of the roots of a function on a segment from interval
  oracles for the function and its derivative.  The loop keeps a stack of subsegments; it is a
  partial function, shown to return for a positive root width.  Segment ends are rationals, the
  function itself is real.
\<close>

subsection \<open>Model\<close>

datatype root_status = RootBrackets | RootFreeCertified | RootInconclusive

record interval =
  iv_lo :: rat
  iv_hi :: rat

definition mk_interval :: "rat \<Rightarrow> rat \<Rightarrow> interval res" where
  "mk_interval l h =
     (if l > h then Inl (ValueError ''interval lo must not exceed hi'') else Inr \<lparr>iv_lo = l, iv_hi = h\<rparr>)"

definition excludes_zero :: "interval \<Rightarrow> bool" where
  "excludes_zero i \<longleftrightarrow> iv_hi i < 0 \<or> iv_lo i > 0"

definition is_strict_positive :: "interval \<Rightarrow> bool" where
  "is_strict_positive i \<longleftrightarrow> iv_lo i > 0"

definition is_strict_negative :: "interval \<Rightarrow> bool" where
  "is_strict_negative i \<longleftrightarrow> iv_hi i < 0"

definition opposite_sign :: "interval \<Rightarrow> interval \<Rightarrow> bool" where
  "opposite_sign a b \<longleftrightarrow>
     (is_strict_negative a \<and> is_strict_positive b) \<or> (is_strict_positive a \<and> is_strict_negative b)"

record root_bracket =
  rb_lo :: rat
  rb_hi :: rat
  rb_face :: "string option"

definition mk_root_bracket :: "rat \<Rightarrow> rat \<Rightarrow> string option \<Rightarrow> root_bracket res" where
  "mk_root_bracket l h face =
     (if l > h then Inl (ValueError ''root bracket lo must not exceed hi'')
      else Inr \<lparr>rb_lo = l, rb_hi = h, rb_face = face\<rparr>)"

type_synonym interval_oracle = "rat \<Rightarrow> rat \<Rightarrow> interval"

record isolation_env =
  ie_f :: interval_oracle
  ie_df :: interval_oracle
  ie_max_depth :: int
  ie_min_width :: rat
  ie_root_width :: rat

record isolation_result =
  ir_status :: root_status
  ir_brackets :: "root_bracket list"
  ir_unresolved :: "(rat \<times> rat) list"

text \<open>What one iteration of the loop does with the segment it pops.\<close>

datatype seg_action = SegDiscard | SegRoot | SegSplit | SegUnresolved

definition classify_segment :: "isolation_env \<Rightarrow> rat \<Rightarrow> rat \<Rightarrow> int \<Rightarrow> seg_action" where
  "classify_segment env a b depth =
     (if excludes_zero (ie_f env a b) then SegDiscard
      else
        let fa = ie_f env a a; fb = ie_f env b b; monotone = excludes_zero (ie_df env a b) in
        if monotone \<and> opposite_sign fa fb
        then (if b - a \<le> ie_root_width env then SegRoot else SegSplit)
        else if monotone \<and>
          ((is_strict_positive fa \<and> is_strict_positive fb) \<or> (is_strict_negative fa \<and> is_strict_negative fb))
        then SegDiscard
        else if depth \<ge> ie_max_depth env \<or> b - a \<le> ie_min_width env then SegUnresolved
        else SegSplit)"

type_synonym segment = "rat \<times> rat \<times> int"

partial_function (option) isolate_loop ::
    "isolation_env \<Rightarrow> segment list \<Rightarrow> root_bracket list \<Rightarrow> (rat \<times> rat) list \<Rightarrow>
     (root_bracket list \<times> (rat \<times> rat) list) res option" where
  "isolate_loop env stack roots unresolved =
     (case stack of
        [] \<Rightarrow> Some (Inr (roots, unresolved))
      | seg # rest \<Rightarrow>
        (case seg of (a, b, depth) \<Rightarrow>
         case classify_segment env a b depth of
           SegDiscard \<Rightarrow> isolate_loop env rest roots unresolved
         | SegRoot \<Rightarrow>
             (case mk_root_bracket a b None of
                Inl e \<Rightarrow> Some (Inl e)
              | Inr r \<Rightarrow> isolate_loop env rest (roots @ [r]) unresolved)
         | SegUnresolved \<Rightarrow> isolate_loop env rest roots (unresolved @ [(a, b)])
         | SegSplit \<Rightarrow>
             let mid = (a + b) / 2 in
             isolate_loop env ((a, mid, depth + 1) # (mid, b, depth + 1) # rest) roots unresolved))"

definition isolate_roots_on_segment ::
    "isolation_env \<Rightarrow> rat \<Rightarrow> rat \<Rightarrow> isolation_result res option" where
  "isolate_roots_on_segment env lo hi =
     (if lo \<ge> hi then Some (Inl (ValueError ''require lo < hi''))
      else if ie_root_width env \<le> 0 then Some (Inl (ValueError ''root_width must be positive''))
      else map_option (\<lambda>r. ebind r (\<lambda>(roots, unresolved).
        Inr \<lparr>ir_status = (if unresolved \<noteq> [] then RootInconclusive
                          else if roots \<noteq> [] then RootBrackets else RootFreeCertified),
             ir_brackets = sort_key (\<lambda>r. (rb_lo r, rb_hi r)) roots,
             ir_unresolved = unresolved\<rparr>)) (isolate_loop env [(lo, hi, 0)] [] []))"

subsection \<open>Termination\<close>

text \<open>The number of halvings that bring a width down to \<open>root_width\<close>.\<close>

definition halvings :: "isolation_env \<Rightarrow> rat \<Rightarrow> nat" where
  "halvings env w = (LEAST n. w \<le> 2 ^ n * ie_root_width env)"

definition seg_rank :: "isolation_env \<Rightarrow> segment \<Rightarrow> nat" where
  "seg_rank env s = (case s of (a, b, d) \<Rightarrow> halvings env (b - a) + nat (ie_max_depth env - d))"

definition stack_work :: "isolation_env \<Rightarrow> segment list \<Rightarrow> nat" where
  "stack_work env stack = (\<Sum>s\<leftarrow>stack. 3 ^ seg_rank env s)"

lemma halvings_ex:
  assumes "0 < ie_root_width env"
  shows "w \<le> 2 ^ halvings env w * ie_root_width env"
proof -
  obtain n where "w / ie_root_width env < of_nat n" using reals_Archimedean2 by blast
  moreover have "(of_nat n :: rat) \<le> 2 ^ n" by (metis of_nat_le_iff of_nat_numeral of_nat_power less_exp less_imp_le)
  ultimately have "w / ie_root_width env \<le> 2 ^ n" by linarith
  then have "w \<le> 2 ^ n * ie_root_width env" using assms by (simp add: pos_divide_le_eq)
  then show ?thesis unfolding halvings_def by (rule LeastI)
qed

lemma halvings_le: "w \<le> 2 ^ n * ie_root_width env \<Longrightarrow> halvings env w \<le> n"
  unfolding halvings_def by (rule Least_le)

lemma halvings_half:
  assumes "0 < ie_root_width env" "0 \<le> w"
  shows "halvings env (w / 2) \<le> halvings env w"
    and "ie_root_width env < w \<Longrightarrow> halvings env (w / 2) < halvings env w"
proof -
  note h = halvings_ex [OF assms(1), of w]
  show "halvings env (w / 2) \<le> halvings env w" by (rule halvings_le) (use h assms(2) in linarith)
  assume "ie_root_width env < w"
  then obtain n where n: "halvings env w = Suc n" using h by (cases "halvings env w") auto
  have "halvings env (w / 2) \<le> n" by (rule halvings_le) (use h n in simp)
  then show "halvings env (w / 2) < halvings env w" using n by simp
qed

lemma split_rank:
  assumes "0 < ie_root_width env" "a < b" "classify_segment env a b d = SegSplit"
  shows "seg_rank env (a, (a + b) / 2, d + 1) < seg_rank env (a, b, d)"
    "seg_rank env ((a + b) / 2, b, d + 1) < seg_rank env (a, b, d)"
proof -
  have w: "(a + b) / 2 - a = (b - a) / 2" "b - (a + b) / 2 = (b - a) / 2" by (simp_all add: field_simps)
  have "ie_root_width env < b - a \<or> d < ie_max_depth env"
    using assms(3) by (auto simp: classify_segment_def Let_def split: if_splits)
  then have "halvings env ((b - a) / 2) + nat (ie_max_depth env - (d + 1)) < halvings env (b - a) + nat (ie_max_depth env - d)"
    using halvings_half [OF assms(1), of "b - a"] assms(2) by (auto simp: nat_diff_distrib intro: add_less_le_mono add_le_less_mono)
  then show "seg_rank env (a, (a + b) / 2, d + 1) < seg_rank env (a, b, d)"
    "seg_rank env ((a + b) / 2, b, d + 1) < seg_rank env (a, b, d)"
    by (simp_all add: seg_rank_def w)
qed

lemma split_work:
  assumes "0 < ie_root_width env" "a < b" "classify_segment env a b d = SegSplit"
  shows "stack_work env ((a, (a + b) / 2, d + 1) # ((a + b) / 2, b, d + 1) # rest) < stack_work env ((a, b, d) # rest)"
proof -
  define k where "k = seg_rank env (a, b, d)"
  note r = split_rank [OF assms]
  obtain m where m: "k = Suc m" using r(1) by (cases k) (auto simp: k_def)
  have "(3 :: nat) ^ seg_rank env (a, (a + b) / 2, d + 1) \<le> 3 ^ m" "(3 :: nat) ^ seg_rank env ((a + b) / 2, b, d + 1) \<le> 3 ^ m"
    using r m by (simp_all add: k_def power_increasing)
  moreover have "(3 :: nat) ^ k = 3 * 3 ^ m" "(0 :: nat) < 3 ^ m" by (simp_all add: m)
  ultimately have "(3 :: nat) ^ seg_rank env (a, (a + b) / 2, d + 1) + 3 ^ seg_rank env ((a + b) / 2, b, d + 1) < 3 ^ k"
    by linarith
  then show ?thesis by (simp add: stack_work_def k_def)
qed

subsection \<open>What the loop keeps\<close>

abbreviation real_seg :: "rat \<Rightarrow> rat \<Rightarrow> real set" where
  "real_seg a b \<equiv> {of_rat a .. of_rat b}"

definition encloses :: "interval_oracle \<Rightarrow> (real \<Rightarrow> real) \<Rightarrow> rat \<Rightarrow> rat \<Rightarrow> bool" where
  "encloses orc f lo hi \<longleftrightarrow>
     (\<forall>a b x. lo \<le> a \<longrightarrow> a \<le> b \<longrightarrow> b \<le> hi \<longrightarrow> x \<in> real_seg a b \<longrightarrow>
        of_rat (iv_lo (orc a b)) \<le> f x \<and> f x \<le> of_rat (iv_hi (orc a b)))"

text \<open>The oracles enclose a differentiable function and its derivative on every subsegment.\<close>

definition sound_oracles :: "isolation_env \<Rightarrow> (real \<Rightarrow> real) \<Rightarrow> (real \<Rightarrow> real) \<Rightarrow> rat \<Rightarrow> rat \<Rightarrow> bool" where
  "sound_oracles env f f' lo hi \<longleftrightarrow>
     (\<forall>x\<in>real_seg lo hi. (f has_real_derivative f' x) (at x)) \<and>
     encloses (ie_f env) f lo hi \<and> encloses (ie_df env) f' lo hi"

definition zeros :: "(real \<Rightarrow> real) \<Rightarrow> rat \<Rightarrow> rat \<Rightarrow> real set" where
  "zeros f a b = {x \<in> real_seg a b. f x = 0}"

lemma enclosesD:
  "encloses orc f lo hi \<Longrightarrow> lo \<le> a \<Longrightarrow> a \<le> b \<Longrightarrow> b \<le> hi \<Longrightarrow> x \<in> real_seg a b \<Longrightarrow>
   of_rat (iv_lo (orc a b)) \<le> f x \<and> f x \<le> of_rat (iv_hi (orc a b))"
  unfolding encloses_def by blast

lemma enclosed_nonzero:
  assumes "encloses orc f lo hi" "lo \<le> a" "a \<le> b" "b \<le> hi" "excludes_zero (orc a b)"
  shows "(\<forall>x\<in>real_seg a b. 0 < f x) \<or> (\<forall>x\<in>real_seg a b. f x < 0)"
proof (cases "iv_lo (orc a b) > 0")
  case True
  then have "0 < real_of_rat (iv_lo (orc a b))" by simp
  then have "0 < f x" if "x \<in> real_seg a b" for x using enclosesD [OF assms(1-4) that] by linarith
  then show ?thesis by blast
next
  case False
  then have "real_of_rat (iv_hi (orc a b)) < 0" using assms(5) by (simp add: excludes_zero_def)
  then have "f x < 0" if "x \<in> real_seg a b" for x using enclosesD [OF assms(1-4) that] by linarith
  then show ?thesis by blast
qed

lemma enclosed_point:
  assumes "encloses orc f lo hi" "lo \<le> a" "a \<le> hi"
  shows "is_strict_positive (orc a a) \<Longrightarrow> 0 < f (of_rat a)" "is_strict_negative (orc a a) \<Longrightarrow> f (of_rat a) < 0"
proof -
  have e: "of_rat (iv_lo (orc a a)) \<le> f (of_rat a)" "f (of_rat a) \<le> of_rat (iv_hi (orc a a))"
    using enclosesD [OF assms(1,2) order.refl assms(3), of "of_rat a"] by simp_all
  show "is_strict_positive (orc a a) \<Longrightarrow> 0 < f (of_rat a)"
    using e(1) by (simp add: is_strict_positive_def) (metis order_less_le_trans zero_less_of_rat_iff)
  show "is_strict_negative (orc a a) \<Longrightarrow> f (of_rat a) < 0"
    using e(2) by (simp add: is_strict_negative_def) (metis order_le_less_trans of_rat_less_0_iff)
qed

text \<open>A function whose derivative does not vanish takes each value once.\<close>

lemma rolle_unique:
  fixes f f' :: "real \<Rightarrow> real"
  assumes "\<And>x. x \<in> {p..q} \<Longrightarrow> (f has_real_derivative f' x) (at x)" "\<And>x. x \<in> {p..q} \<Longrightarrow> f' x \<noteq> 0"
    and "p \<le> x" "x < y" "y \<le> q"
  shows "f x \<noteq> f y"
proof
  assume eq: "f x = f y"
  obtain z where "x < z" "z < y" "f y - f x = (y - x) * f' z"
    using MVT2 [of x y f f'] assms by auto
  then show False using eq assms(2) [of z] assms(3-5) by auto
qed

lemma split_zeros:
  assumes "a \<le> m" "m \<le> b"
  shows "zeros f a b = zeros f a m \<union> zeros f m b"
proof -
  have "real_of_rat a \<le> of_rat m" "real_of_rat m \<le> of_rat b" using assms by (simp_all add: of_rat_less_eq)
  then show ?thesis by (auto simp: zeros_def)
qed

text \<open>A discarded segment has no root; an accepted one has exactly one, inside.\<close>

lemma discard_no_zero:
  assumes "sound_oracles env f f' lo hi" "lo \<le> a" "a < b" "b \<le> hi" "classify_segment env a b d = SegDiscard"
  shows "zeros f a b = {}"
proof (cases "excludes_zero (ie_f env a b)")
  case True
  have "encloses (ie_f env) f lo hi" using assms(1) by (simp add: sound_oracles_def)
  from enclosed_nonzero [OF this assms(2) less_imp_le [OF assms(3)] assms(4) True] show ?thesis
    unfolding zeros_def by force
next
  case False
  have enc: "encloses (ie_f env) f lo hi" "encloses (ie_df env) f' lo hi" using assms(1) by (simp_all add: sound_oracles_def)
  have mono: "excludes_zero (ie_df env a b)"
    and ends: "is_strict_positive (ie_f env a a) \<and> is_strict_positive (ie_f env b b) \<or>
      is_strict_negative (ie_f env a a) \<and> is_strict_negative (ie_f env b b)"
    using assms(5) False by (auto simp: classify_segment_def Let_def split: if_splits)
  have der: "(f has_real_derivative f' x) (at x)" if "x \<in> real_seg a b" for x
  proof -
    have "real_of_rat lo \<le> of_rat a" "real_of_rat b \<le> of_rat hi" using assms(2,4) by (simp_all add: of_rat_less_eq)
    then show ?thesis using assms(1) that unfolding sound_oracles_def by auto
  qed
  have sgn: "(\<forall>x\<in>real_seg a b. 0 < f' x) \<or> (\<forall>x\<in>real_seg a b. f' x < 0)"
    using enclosed_nonzero [OF enc(2) assms(2) _ assms(4) mono] assms(3) by simp
  have val: "0 < f (of_rat a) \<and> 0 < f (of_rat b) \<or> f (of_rat a) < 0 \<and> f (of_rat b) < 0"
    using ends enclosed_point [OF enc(1), of a] enclosed_point [OF enc(1), of b] assms(2-4) by auto
  have False if x: "x \<in> real_seg a b" "f x = 0" for x
  proof -
    have strict: "of_rat a < x" "x < of_rat b" using x val by (auto simp: less_le)
    obtain y where y: "of_rat a < y" "y < x" "f x - f (of_rat a) = (x - of_rat a) * f' y"
      using MVT2 [OF strict(1), of f f'] der x(1) by auto
    obtain z where z: "x < z" "z < of_rat b" "f (of_rat b) - f x = (of_rat b - x) * f' z"
      using MVT2 [OF strict(2), of f f'] der x(1) by auto
    have in_seg: "y \<in> real_seg a b" "z \<in> real_seg a b" using y z strict by auto
    from sgn show False
    proof
      assume "\<forall>x\<in>real_seg a b. 0 < f' x"
      then have "0 < (x - of_rat a) * f' y" "0 < (of_rat b - x) * f' z" using in_seg strict by simp_all
      then show False using y(3) z(3) x(2) val by linarith
    next
      assume "\<forall>x\<in>real_seg a b. f' x < 0"
      then have "(x - of_rat a) * f' y < 0" "(of_rat b - x) * f' z < 0"
        using in_seg strict by (simp_all add: mult_pos_neg)
      then show False using y(3) z(3) x(2) val by linarith
    qed
  qed
  then show ?thesis by (auto simp: zeros_def)
qed

lemma root_one_zero:
  assumes "sound_oracles env f f' lo hi" "lo \<le> a" "a < b" "b \<le> hi" "classify_segment env a b d = SegRoot"
  shows "\<exists>x. zeros f a b = {x} \<and> of_rat a < x \<and> x < of_rat b"
proof -
  have enc: "encloses (ie_f env) f lo hi" "encloses (ie_df env) f' lo hi" using assms(1) by (simp_all add: sound_oracles_def)
  have mono: "excludes_zero (ie_df env a b)" and ends: "opposite_sign (ie_f env a a) (ie_f env b b)"
    using assms(5) by (auto simp: classify_segment_def Let_def split: if_splits)
  have der: "(f has_real_derivative f' x) (at x)" if "x \<in> real_seg a b" for x
  proof -
    have "real_of_rat lo \<le> of_rat a" "real_of_rat b \<le> of_rat hi" using assms(2,4) by (simp_all add: of_rat_less_eq)
    then show ?thesis using assms(1) that unfolding sound_oracles_def by auto
  qed
  have nz: "f' x \<noteq> 0" if "x \<in> real_seg a b" for x
    using enclosed_nonzero [OF enc(2) assms(2) _ assms(4) mono] assms(3) that by force
  have val: "0 < f (of_rat a) \<and> f (of_rat b) < 0 \<or> f (of_rat a) < 0 \<and> 0 < f (of_rat b)"
    using ends enclosed_point [OF enc(1), of a] enclosed_point [OF enc(1), of b] assms(2-4)
    by (auto simp: opposite_sign_def)
  have ab: "real_of_rat a \<le> of_rat b" using assms(3) by (simp add: of_rat_less_eq)
  have cont: "isCont f x" if "of_rat a \<le> x \<and> x \<le> of_rat b" for x using der [of x] that DERIV_isCont by auto
  have "\<exists>x\<ge>of_rat a. x \<le> of_rat b \<and> f x = 0"
    using val
  proof
    assume "0 < f (of_rat a) \<and> f (of_rat b) < 0"
    then show ?thesis using IVT2 [of f "of_rat b" 0 "of_rat a"] ab cont by auto
  next
    assume "f (of_rat a) < 0 \<and> 0 < f (of_rat b)"
    then show ?thesis using IVT [of f "of_rat a" 0 "of_rat b"] ab cont by auto
  qed
  then obtain x where x: "of_rat a \<le> x" "x \<le> of_rat b" "f x = 0" by blast
  have uni: "y = x" if "y \<in> real_seg a b" "f y = 0" for y
  proof (rule ccontr)
    assume "y \<noteq> x"
    then consider "x < y" | "y < x" by linarith
    then show False
    proof cases
      case 1
      then show False using rolle_unique [of "of_rat a" "of_rat b" f f' x y] der nz that x by auto
    next
      case 2
      then show False using rolle_unique [of "of_rat a" "of_rat b" f f' y x] der nz that x by auto
    qed
  qed
  have "y \<in> zeros f a b \<longleftrightarrow> y = x" for y
    unfolding zeros_def mem_Collect_eq using uni [of y] x(1-3) by (metis atLeastAtMost_iff)
  then have "zeros f a b = {x}" by blast
  moreover have "of_rat a < x" "x < of_rat b" using x val by (auto simp: less_le)
  ultimately show ?thesis by blast
qed

definition seg_before :: "rat \<times> rat \<Rightarrow> rat \<times> rat \<Rightarrow> bool" where
  "seg_before p q \<longleftrightarrow> snd p \<le> fst q"

definition bracket_seg :: "root_bracket \<Rightarrow> rat \<times> rat" where
  "bracket_seg r = (rb_lo r, rb_hi r)"

definition stack_seg :: "segment \<Rightarrow> rat \<times> rat" where
  "stack_seg s = (fst s, fst (snd s))"

text \<open>The accepted segments and the stack lie in order from left to right; every zero is in one of
  them or in an unresolved segment; each accepted segment holds one zero.\<close>

definition loop_ok ::
    "isolation_env \<Rightarrow> (real \<Rightarrow> real) \<Rightarrow> rat \<Rightarrow> rat \<Rightarrow> segment list \<Rightarrow> root_bracket list \<Rightarrow> (rat \<times> rat) list \<Rightarrow> bool" where
  "loop_ok env f lo hi stack roots unresolved \<longleftrightarrow>
     (\<forall>(a, b)\<in>set (map stack_seg stack) \<union> set (map bracket_seg roots) \<union> set unresolved. lo \<le> a \<and> a < b \<and> b \<le> hi) \<and>
     sorted_wrt seg_before (map bracket_seg roots @ map stack_seg stack) \<and>
     zeros f lo hi = (\<Union>(a, b)\<in>set (map stack_seg stack) \<union> set (map bracket_seg roots) \<union> set unresolved. zeros f a b) \<and>
     (\<forall>r\<in>set roots. rb_hi r - rb_lo r \<le> ie_root_width env) \<and>
     (\<forall>r\<in>set roots. \<exists>x. zeros f (rb_lo r) (rb_hi r) = {x} \<and> of_rat (rb_lo r) < x \<and> x < of_rat (rb_hi r))"

lemma isolate_loop_ok:
  assumes "sound_oracles env f f' lo hi" "0 < ie_root_width env" "loop_ok env f lo hi stack roots unresolved"
  shows "\<exists>rs us. isolate_loop env stack roots unresolved = Some (Inr (rs, us)) \<and> loop_ok env f lo hi [] rs us"
  using assms(3)
proof (induction "stack_work env stack" arbitrary: stack roots unresolved rule: less_induct)
  case less
  show ?case
  proof (cases stack)
    case Nil
    then show ?thesis using less.prems by (subst isolate_loop.simps) simp
  next
    case (Cons s rest)
    obtain a b d where s: "s = (a, b, d)" by (cases s)
    have ab: "lo \<le> a" "a < b" "b \<le> hi" using less.prems by (auto simp: loop_ok_def Cons s stack_seg_def)
    have work: "stack_work env rest < stack_work env stack" by (simp add: Cons stack_work_def)
    show ?thesis
    proof (cases "classify_segment env a b d")
      case SegDiscard
      have "loop_ok env f lo hi rest roots unresolved"
        using less.prems discard_no_zero [OF assms(1) ab SegDiscard]
        by (auto simp: loop_ok_def Cons s stack_seg_def sorted_wrt_append)
      from less.hyps [OF work this] show ?thesis by (subst isolate_loop.simps) (simp add: Cons s SegDiscard)
    next
      case SegRoot
      let ?r = "\<lparr>rb_lo = a, rb_hi = b, rb_face = None\<rparr>"
      have mk: "mk_root_bracket a b None = Inr ?r" using ab by (simp add: mk_root_bracket_def)
      have "b - a \<le> ie_root_width env" using SegRoot by (auto simp: classify_segment_def Let_def split: if_splits)
      then have "loop_ok env f lo hi rest (roots @ [?r]) unresolved"
        using less.prems root_one_zero [OF assms(1) ab SegRoot]
        by (auto simp: loop_ok_def Cons s stack_seg_def bracket_seg_def sorted_wrt_append)
      from less.hyps [OF work this] show ?thesis by (subst isolate_loop.simps) (simp add: Cons s SegRoot mk)
    next
      case SegUnresolved
      have "loop_ok env f lo hi rest roots (unresolved @ [(a, b)])"
        using less.prems by (auto simp: loop_ok_def Cons s stack_seg_def sorted_wrt_append)
      from less.hyps [OF work this] show ?thesis by (subst isolate_loop.simps) (simp add: Cons s SegUnresolved)
    next
      case SegSplit
      let ?m = "(a + b) / 2"
      let ?new = "(a, ?m, d + 1) # (?m, b, d + 1) # rest"
      have m: "a < ?m" "?m < b" using ab by simp_all
      have "zeros f a b = zeros f a ?m \<union> zeros f ?m b" using m by (intro split_zeros) simp_all
      then have "loop_ok env f lo hi ?new roots unresolved"
        using less.prems m ab
        by (auto simp: loop_ok_def Cons s stack_seg_def sorted_wrt_append seg_before_def)
      moreover have "stack_work env ?new < stack_work env stack"
        using split_work [OF assms(2) ab(2) SegSplit] by (simp add: Cons s)
      ultimately show ?thesis using less.hyps [of ?new roots unresolved]
        by (subst isolate_loop.simps) (simp add: Cons s SegSplit Let_def)
    qed
  qed
qed

subsection \<open>Properties\<close>

lemma brackets_count:
  assumes "sorted_wrt seg_before (map bracket_seg rs)"
    and "\<And>r. r \<in> set rs \<Longrightarrow> \<exists>x. zeros f (rb_lo r) (rb_hi r) = {x} \<and> of_rat (rb_lo r) < x \<and> x < of_rat (rb_hi r)"
  shows "finite (\<Union>r\<in>set rs. zeros f (rb_lo r) (rb_hi r)) \<and>
    card (\<Union>r\<in>set rs. zeros f (rb_lo r) (rb_hi r)) = length rs"
  using assms
proof (induction rs)
  case (Cons r rs)
  let ?Z = "\<Union>r\<in>set rs. zeros f (rb_lo r) (rb_hi r)"
  have IH: "finite ?Z" "card ?Z = length rs" using Cons by simp_all
  obtain x where x: "zeros f (rb_lo r) (rb_hi r) = {x}" "x < of_rat (rb_hi r)" using Cons.prems(2) [of r] by auto
  have "x \<notin> zeros f (rb_lo q) (rb_hi q)" if "q \<in> set rs" for q
  proof -
    have "rb_hi r \<le> rb_lo q" using Cons.prems(1) that by (simp add: seg_before_def bracket_seg_def)
    then have "real_of_rat (rb_hi r) \<le> of_rat (rb_lo q)" by (simp add: of_rat_less_eq)
    moreover obtain y where "zeros f (rb_lo q) (rb_hi q) = {y}" "of_rat (rb_lo q) < y"
      using Cons.prems(2) [of q] \<open>q \<in> set rs\<close> by auto
    ultimately show ?thesis using x(2) by auto
  qed
  then have "x \<notin> ?Z" by blast
  then show ?case using IH x(1) by simp
qed simp


lemma isolate_loop_Nil: "isolate_loop env [] roots us = Some (Inr (roots, us))"
  by (subst isolate_loop.simps) simp

lemmas isolate_loop_Cons = isolate_loop.simps [of _ "_ # _", simplified list.case]

text \<open>The square minus two on \<open>[1, 2]\<close>, with the monotone enclosures.\<close>

definition demo_env :: isolation_env where
  "demo_env =
     \<lparr>ie_f = (\<lambda>a b. \<lparr>iv_lo = a * a - 2, iv_hi = b * b - 2\<rparr>), ie_df = (\<lambda>a b. \<lparr>iv_lo = 2 * a, iv_hi = 2 * b\<rparr>),
      ie_max_depth = 0, ie_min_width = 1 / 1000, ie_root_width = 1 / 4\<rparr>"

lemma demo_sound: "sound_oracles demo_env (\<lambda>x. x * x - 2) (\<lambda>x. 2 * x) 1 2"
proof -
  have "((\<lambda>x. x * x - 2) has_real_derivative 2 * x) (at x)" for x :: real
    by (auto intro!: derivative_eq_intros)
  moreover have "encloses (ie_f demo_env) (\<lambda>x. x * x - 2) 1 2"
    unfolding encloses_def
  proof (intro allI impI)
    fix a b :: rat and x :: real
    assume a: "1 \<le> a" and x: "x \<in> real_seg a b"
    have "1 \<le> real_of_rat a" using a by (metis of_rat_1 of_rat_less_eq)
    moreover have "of_rat a \<le> x" "x \<le> of_rat b" using x by simp_all
    moreover from calculation have "0 \<le> real_of_rat a" "0 \<le> x" "0 \<le> real_of_rat b" by linarith+
    ultimately have "of_rat a * of_rat a \<le> x * x" "x * x \<le> of_rat b * of_rat b"
      using mult_mono [of "of_rat a" x "of_rat a" x] mult_mono [of x "of_rat b" x "of_rat b"] by blast+
    then show "of_rat (iv_lo (ie_f demo_env a b)) \<le> x * x - 2 \<and> x * x - 2 \<le> of_rat (iv_hi (ie_f demo_env a b))"
      by (simp add: demo_env_def of_rat_diff of_rat_mult)
  qed
  moreover have "encloses (ie_df demo_env) (\<lambda>x. 2 * x) 1 2"
    by (simp add: encloses_def demo_env_def of_rat_mult)
  ultimately show ?thesis by (simp add: sound_oracles_def)
qed


end
