(* ===== verification/ProofGates.thy ===== *)
theory ProofGates
  imports RootIsolation
begin

text \<open>
  Model of the proof gates of \<open>verify/\<close>: the typed records of \<open>types.py\<close> and \<open>model_identity.py\<close>, the
  assembly of certificates in \<open>certifier.py\<close> with its capability and provenance firewalls, the backend
  check of \<open>source_native.py\<close>, the coverage reduction of \<open>spatial.py\<close> and the full-chip aggregation of
  \<open>full_chip.py\<close>.  Bounds are rationals; keyword arguments of an assembly are the record
  \<open>cert_request\<close>.
\<close>

subsection \<open>Records\<close>

datatype proof_level = Heuristic | NumericalDiagnostic | IntervalCertified | ImportedQdmCertified

datatype capability = DiagnosticOnly | RigorousInterval | ImportedFrozenCertificate

datatype provenance = Backend | ImportedFrozen | LegacyReplay

datatype cert_target = LevelSetStability | ExtractedContourEpe | CriticalSetStratification
  | OwnershipStratification | FixedTargetTopology | FocusDoseChamber

datatype cert_status = CertPass | CertFail | CertInconclusive

datatype coverage_status = AllComponentsCovered | PartialCoverage | CoverageInconclusive

datatype cell_disposition = SignDefiniteEmpty | CurvatureCertifiedEmpty | Seeded | Subdivide | CellInconclusive

record param_interval =
  pi_name :: string
  pi_lo :: rat
  pi_hi :: rat

definition mk_param_interval :: "string \<Rightarrow> rat \<Rightarrow> rat \<Rightarrow> param_interval res" where
  "mk_param_interval name l h =
     (if l > h then Inl (ValueError ''invalid interval'') else Inr \<lparr>pi_name = name, pi_lo = l, pi_hi = h\<rparr>)"

record dependency =
  dr_name :: string
  dr_level :: proof_level
  dr_satisfied :: bool
  dr_method :: string
  dr_artifact :: "string option"
  dr_note :: string
  dr_backend :: "string option"
  dr_capability :: "capability option"
  dr_provenance :: "provenance option"

record cell_certificate =
  cc_cell_id :: string
  cc_bbox :: "rat \<times> rat \<times> rat \<times> rat"
  cc_kappa_lower :: rat
  cc_hessian_upper :: rat
  cc_diameter :: rat
  cc_curvature_scale :: rat
  cc_boundary :: root_status
  cc_hidden_loop_excluded :: bool
  cc_brackets :: "root_bracket list"
  cc_eta_sp :: "rat option"
  cc_disposition :: cell_disposition

record model_identity =
  mi_repo :: string
  mi_commit :: string
  mi_schema :: string
  mi_fixture :: string
  mi_manifest_sha :: string
  mi_paper_id :: "string option"
  mi_paper_doi :: "string option"

record cert_request =
  cq_model_id :: string
  cq_target :: cert_target
  cq_input_sha :: string
  cq_parameters :: "param_interval list"
  cq_contour_upper :: rat
  cq_pairwise_upper :: "rat option"
  cq_tolerance :: rat
  cq_coverage :: coverage_status
  cq_dependencies :: "dependency list"
  cq_violation_lower :: "rat option"
  cq_artifact_sha :: "string option"
  cq_reconstruction_upper :: "rat option"
  cq_note :: string

text \<open>A certificate: the request's fields, the commit it names, its verdict and its model.\<close>

record certificate =
  ct_request :: cert_request
  ct_commit :: string
  ct_status :: cert_status
  ct_identity :: "model_identity option"
  ct_note :: string

subsection \<open>Gates\<close>

definition legacy_pin :: string where
  "legacy_pin = ''348fa5d86d5355465af98e2c4ce3deac60081a4c''"

definition certifying :: "proof_level \<Rightarrow> bool" where
  "certifying l \<longleftrightarrow> l \<in> {IntervalCertified, ImportedQdmCertified}"

primrec capability_ceiling :: "capability \<Rightarrow> proof_level" where
  "capability_ceiling DiagnosticOnly = NumericalDiagnostic"
| "capability_ceiling RigorousInterval = IntervalCertified"
| "capability_ceiling ImportedFrozenCertificate = ImportedQdmCertified"

primrec level_rank :: "proof_level \<Rightarrow> nat" where
  "level_rank Heuristic = 0"
| "level_rank NumericalDiagnostic = 1"
| "level_rank IntervalCertified = 2"
| "level_rank ImportedQdmCertified = 3"

definition dependency_chain_is_certified :: "dependency list \<Rightarrow> bool" where
  "dependency_chain_is_certified ds \<longleftrightarrow> ds \<noteq> [] \<and> list_all (\<lambda>d. dr_satisfied d \<and> certifying (dr_level d)) ds"

definition check_capability :: "dependency \<Rightarrow> unit res" where
  "check_capability d =
     (if \<not> certifying (dr_level d) then Inr ()
      else case dr_capability d of
        None \<Rightarrow> guard (dr_backend d \<noteq> None) (ValueError ''declares a backend without a certification capability'')
      | Some c \<Rightarrow> guard (level_rank (dr_level d) > level_rank (capability_ceiling c))
                   (ValueError ''this corrupts the proof package''))"

definition enforce_capability_ceiling :: "dependency list \<Rightarrow> unit res" where
  "enforce_capability_ceiling ds = foldE (\<lambda>_ d. check_capability d) () ds"

text \<open>\<open>not s\<close> for an optional string: missing or empty.\<close>

definition falsy :: "string option \<Rightarrow> bool" where
  "falsy s \<longleftrightarrow> s = None \<or> s = Some []"

definition check_provenance :: "bool \<Rightarrow> dependency \<Rightarrow> unit res" where
  "check_provenance allow_legacy d =
     (if \<not> certifying (dr_level d) then Inr ()
      else if allow_legacy
      then guard (dr_provenance d \<notin> {None, Some LegacyReplay})
             (ValueError ''only anonymous or legacy provenance is admitted on the legacy replay path'')
      else case dr_provenance d of
        None \<Rightarrow> Inl (ValueError ''a new certificate may not inherit authority by omission'')
      | Some Backend \<Rightarrow>
          (if falsy (dr_backend d) then Inl (ValueError ''BACKEND provenance requires backend_id'')
           else guard (dr_capability d = None) (ValueError ''BACKEND provenance requires certification_capability''))
      | Some ImportedFrozen \<Rightarrow>
          guard (falsy (dr_artifact d)) (ValueError ''IMPORTED_FROZEN provenance requires artifact_sha256'')
      | Some LegacyReplay \<Rightarrow> Inl (ValueError ''LEGACY_REPLAY provenance is only admitted through replay''))"

definition enforce_provenance :: "bool \<Rightarrow> dependency list \<Rightarrow> unit res" where
  "enforce_provenance allow_legacy ds = foldE (\<lambda>_ d. check_provenance allow_legacy d) () ds"

definition finalize_status :: "cert_request \<Rightarrow> cert_status res" where
  "finalize_status q =
     (let deps_ok = dependency_chain_is_certified (cq_dependencies q);
          upper = cq_contour_upper q; tol = cq_tolerance q;
          violated = (case cq_violation_lower q of None \<Rightarrow> False | Some v \<Rightarrow> v > tol) in
      if deps_ok \<and> upper \<le> tol \<and> violated
      then Inl (ValueError ''certificate contains contradictory certified bounds'')
      else
        let status = (if deps_ok \<and> violated then CertFail else CertInconclusive);
            coverage_ok = (cq_target q = LevelSetStability \<or> cq_coverage q = AllComponentsCovered) in
        Inr (if status = CertInconclusive \<and> deps_ok \<and> coverage_ok \<and> upper \<le> tol then CertPass else status))"

definition check_bounds :: "cert_request \<Rightarrow> unit res" where
  "check_bounds q =
     ebind (guard (cq_contour_upper q < 0) (ValueError ''continuous_focus_contour_upper_nm must be nonnegative'')) (\<lambda>_.
     ebind (guard (cq_tolerance q < 0) (ValueError ''tolerance_nm must be nonnegative'')) (\<lambda>_.
     guard (case cq_violation_lower q of None \<Rightarrow> False | Some v \<Rightarrow> v < 0)
       (ValueError ''certified_violation_lower_nm must be nonnegative'')))"

definition assemble_certificate :: "cert_request \<Rightarrow> model_identity \<Rightarrow> certificate res" where
  "assemble_certificate q mid =
     ebind (check_bounds q) (\<lambda>_.
     ebind (enforce_capability_ceiling (cq_dependencies q)) (\<lambda>_.
     ebind (enforce_provenance False (cq_dependencies q)) (\<lambda>_.
     ebind (finalize_status q) (\<lambda>st.
       Inr \<lparr>ct_request = q, ct_commit = mi_commit mid, ct_status = st, ct_identity = Some mid, ct_note = cq_note q\<rparr>))))"

text \<open>\<open>strip\<close> is Python's \<open>str.strip\<close>: blanks at both ends go.\<close>

definition is_blank :: "char \<Rightarrow> bool" where
  "is_blank c \<longleftrightarrow> of_char c \<in> {9, 10, 11, 12, 13, 28, 29, 30, 31, 32, 133, 160 :: nat}"

definition str_strip :: "string \<Rightarrow> string" where
  "str_strip s = rev (dropWhile is_blank (rev (dropWhile is_blank s)))"

definition replay_legacy_certificate :: "cert_request \<Rightarrow> certificate res" where
  "replay_legacy_certificate q =
     ebind (check_bounds q) (\<lambda>_.
     ebind (enforce_capability_ceiling (cq_dependencies q)) (\<lambda>_.
     ebind (enforce_provenance True (cq_dependencies q)) (\<lambda>_.
     ebind (finalize_status q) (\<lambda>st.
       Inr \<lparr>ct_request = q, ct_commit = legacy_pin, ct_status = st, ct_identity = None,
            ct_note = str_strip (cq_note q @ '' legacy replay without model identity'')\<rparr>))))"

text \<open>A backend object that may lack either attribute.\<close>

definition assert_backend_supports :: "capability option \<Rightarrow> proof_level option \<Rightarrow> proof_level \<Rightarrow> unit res" where
  "assert_backend_supports cap ceil level =
     (case (cap, ceil) of
        (Some c, Some l) \<Rightarrow> guard (level_rank level > level_rank l) (ValueError ''it cannot back these claims'')
      | _ \<Rightarrow> Inl (TypeError ''backend does not declare a certification capability''))"

subsection \<open>Coverage and aggregation\<close>

text \<open>\<open>None\<close> is the infinite scale of a cell without curvature.\<close>

definition curvature_scale :: "rat \<Rightarrow> rat \<Rightarrow> rat option res" where
  "curvature_scale kappa hess =
     (if kappa \<le> 0 then Inl (ValueError ''kappa lower bound must be positive'')
      else if hess < 0 then Inl (ValueError ''hessian upper bound must be nonnegative'')
      else if hess = 0 then Inr None else Inr (Some (2 * kappa / hess)))"

definition hidden_loop_excluded :: "rat \<Rightarrow> rat \<Rightarrow> rat \<Rightarrow> bool res" where
  "hidden_loop_excluded diam kappa hess =
     (if diam < 0 then Inl (ValueError ''cell diameter must be nonnegative'')
      else ebind (curvature_scale kappa hess) (\<lambda>s. Inr (case s of None \<Rightarrow> True | Some v \<Rightarrow> diam < v)))"

definition terminal_ok :: "cell_disposition \<Rightarrow> bool" where
  "terminal_ok d \<longleftrightarrow> d \<in> {SignDefiniteEmpty, CurvatureCertifiedEmpty, Seeded}"

definition reduce_coverage :: "cell_certificate list \<Rightarrow> coverage_status" where
  "reduce_coverage cells =
     (if cells = [] then CoverageInconclusive
      else
        let ok = length (filter (\<lambda>c. terminal_ok (cc_disposition c)) cells) in
        if ok = length cells then AllComponentsCovered
        else if ok > 0 then PartialCoverage else CoverageInconclusive)"

record tile_proof =
  tp_tile_id :: string
  tp_status :: cert_status
  tp_load_bearing :: bool
  tp_artifact :: "string option"
  tp_note :: string

record full_chip =
  fc_status :: cert_status
  fc_load_bearing :: nat
  fc_passed :: nat
  fc_failed :: nat
  fc_inconclusive :: nat

definition count_tile :: "nat \<times> nat \<times> nat \<times> nat \<Rightarrow> tile_proof \<Rightarrow> nat \<times> nat \<times> nat \<times> nat" where
  "count_tile acc t =
     (case acc of (load, p, f, i) \<Rightarrow>
        if \<not> tp_load_bearing t then acc
        else case tp_status t of
          CertPass \<Rightarrow> (load + 1, p + 1, f, i)
        | CertFail \<Rightarrow> (load + 1, p, f + 1, i)
        | CertInconclusive \<Rightarrow> (load + 1, p, f, i + 1))"

definition aggregate_full_chip_status :: "tile_proof list \<Rightarrow> full_chip" where
  "aggregate_full_chip_status ts =
     (case foldl count_tile (0, 0, 0, 0) ts of (load, p, f, i) \<Rightarrow>
        \<lparr>fc_status = (if load = 0 then CertInconclusive else if f > 0 then CertFail
                      else if i > 0 then CertInconclusive else CertPass),
         fc_load_bearing = load, fc_passed = p, fc_failed = f, fc_inconclusive = i\<rparr>)"

subsection \<open>What the gates let through\<close>

lemma foldE_checks: "foldE (\<lambda>_ d. f d) () ds = Inr u \<longleftrightarrow> list_all (\<lambda>d. f d = Inr ()) ds"
  by (induction ds) (auto simp: ebind_eq_Inr)

text \<open>A dependency that a new certificate may rest on.\<close>

definition dependency_backed :: "dependency \<Rightarrow> bool" where
  "dependency_backed d \<longleftrightarrow>
     dr_satisfied d \<and> certifying (dr_level d) \<and>
     (\<forall>c. dr_capability d = Some c \<longrightarrow> level_rank (dr_level d) \<le> level_rank (capability_ceiling c)) \<and>
     ((dr_provenance d = Some Backend \<and> \<not> falsy (dr_backend d) \<and> dr_capability d \<noteq> None) \<or>
      (dr_provenance d = Some ImportedFrozen \<and> \<not> falsy (dr_artifact d)))"

lemma gates_backed:
  assumes "enforce_capability_ceiling ds = Inr u" "enforce_provenance False ds = Inr u'"
  shows "dependency_chain_is_certified ds \<longleftrightarrow> ds \<noteq> [] \<and> list_all dependency_backed ds"
proof -
  have "dependency_backed d \<longleftrightarrow> dr_satisfied d \<and> certifying (dr_level d)" if "d \<in> set ds" for d
  proof (cases "certifying (dr_level d)")
    case True
    have "check_capability d = Inr ()" "check_provenance False d = Inr ()"
      using that assms by (simp_all add: enforce_capability_ceiling_def enforce_provenance_def foldE_checks list_all_iff)
    then show ?thesis
      using True
      by (cases "dr_provenance d" rule: option.exhaust; cases "the (dr_provenance d)"; cases "dr_capability d")
        (simp_all add: dependency_backed_def check_capability_def check_provenance_def guard_eq_Inr split: if_splits)
  next
    case False
    then show ?thesis by (simp add: dependency_backed_def)
  qed
  then show ?thesis by (auto simp: dependency_chain_is_certified_def list_all_iff)
qed

lemma backed_not_diagnostic: "dependency_backed d \<Longrightarrow> dr_capability d \<noteq> Some DiagnosticOnly"
  by (auto simp: dependency_backed_def certifying_def)

definition coverage_ok :: "cert_request \<Rightarrow> bool" where
  "coverage_ok q \<longleftrightarrow> cq_target q = LevelSetStability \<or> cq_coverage q = AllComponentsCovered"

lemma finalize_cases:
  assumes "finalize_status q = Inr st"
  shows "st = CertPass \<longleftrightarrow> dependency_chain_is_certified (cq_dependencies q) \<and> coverage_ok q \<and>
      cq_contour_upper q \<le> cq_tolerance q"
    and "st = CertFail \<longleftrightarrow> dependency_chain_is_certified (cq_dependencies q) \<and>
      (\<exists>v. cq_violation_lower q = Some v \<and> cq_tolerance q < v)"
  using assms by (auto simp: finalize_status_def Let_def coverage_ok_def split: if_splits option.splits)

lemma certificate_facts:
  assumes "assemble_certificate q mid = Inr c"
  shows "ct_status c = CertPass \<longleftrightarrow> cq_dependencies q \<noteq> [] \<and> list_all dependency_backed (cq_dependencies q) \<and>
      coverage_ok q \<and> cq_contour_upper q \<le> cq_tolerance q"
    and "ct_status c = CertFail \<longleftrightarrow> cq_dependencies q \<noteq> [] \<and> list_all dependency_backed (cq_dependencies q) \<and>
      (\<exists>v. cq_violation_lower q = Some v \<and> cq_tolerance q < v)"
    and "ct_identity c = Some mid \<and> ct_commit c = mi_commit mid"
proof -
  obtain st where gates: "enforce_capability_ceiling (cq_dependencies q) = Inr ()" "enforce_provenance False (cq_dependencies q) = Inr ()"
    and st: "finalize_status q = Inr st"
    and c: "c = \<lparr>ct_request = q, ct_commit = mi_commit mid, ct_status = st, ct_identity = Some mid, ct_note = cq_note q\<rparr>"
    using assms by (auto simp: assemble_certificate_def ebind_eq_Inr)
  show "ct_status c = CertPass \<longleftrightarrow> cq_dependencies q \<noteq> [] \<and> list_all dependency_backed (cq_dependencies q) \<and>
      coverage_ok q \<and> cq_contour_upper q \<le> cq_tolerance q"
    "ct_status c = CertFail \<longleftrightarrow> cq_dependencies q \<noteq> [] \<and> list_all dependency_backed (cq_dependencies q) \<and>
      (\<exists>v. cq_violation_lower q = Some v \<and> cq_tolerance q < v)"
    "ct_identity c = Some mid \<and> ct_commit c = mi_commit mid"
    unfolding c by (auto simp: finalize_cases [OF st] gates_backed [OF gates])
qed

text \<open>C17: A new certificate passes exactly when its bound is within the tolerance, the coverage its target
  needs is complete, and it rests on a non-empty list of dependencies each of which is satisfied, at a
  certifying level within its backend's capability, and backed by a named backend or a hashed frozen
  artifact; it fails exactly when a certified violation exceeds the tolerance.  Such verdicts are
  true: if certified dependencies make the bounds bounds of the real error, PASS means the error is
  within the tolerance and FAIL that it is not.  It names the model it was given.\<close>

theorem certificate_verdict_sound:
  assumes "assemble_certificate q mid = Inr c"
    and "list_all dependency_backed (cq_dependencies q) \<Longrightarrow>
      err \<le> cq_contour_upper q \<and> (\<forall>v. cq_violation_lower q = Some v \<longrightarrow> v \<le> err)"
  shows "(ct_status c = CertPass \<longleftrightarrow> cq_dependencies q \<noteq> [] \<and> list_all dependency_backed (cq_dependencies q) \<and>
      coverage_ok q \<and> cq_contour_upper q \<le> cq_tolerance q) \<and>
    (ct_status c = CertFail \<longleftrightarrow> cq_dependencies q \<noteq> [] \<and> list_all dependency_backed (cq_dependencies q) \<and>
      (\<exists>v. cq_violation_lower q = Some v \<and> cq_tolerance q < v)) \<and>
    (ct_status c = CertPass \<longrightarrow> err \<le> cq_tolerance q) \<and> (ct_status c = CertFail \<longrightarrow> cq_tolerance q < err) \<and>
    ct_identity c = Some mid \<and> ct_commit c = mi_commit mid"
  using certificate_facts [OF assms(1)] assms(2) by auto

definition demo_dependency :: dependency where
  "demo_dependency =
     \<lparr>dr_name = ''field'', dr_level = IntervalCertified, dr_satisfied = True, dr_method = ''interval'', dr_artifact = None,
      dr_note = '''', dr_backend = Some ''cpu'', dr_capability = Some RigorousInterval, dr_provenance = Some Backend\<rparr>"

definition demo_request :: cert_request where
  "demo_request =
     \<lparr>cq_model_id = ''m'', cq_target = LevelSetStability, cq_input_sha = ''h'', cq_parameters = [],
      cq_contour_upper = 1 / 2, cq_pairwise_upper = None, cq_tolerance = 1, cq_coverage = CoverageInconclusive,
      cq_dependencies = [demo_dependency], cq_violation_lower = None, cq_artifact_sha = None,
      cq_reconstruction_upper = None, cq_note = ''''\<rparr>"

definition demo_identity :: model_identity where
  "demo_identity =
     \<lparr>mi_repo = ''r'', mi_commit = ''c0'', mi_schema = ''s'', mi_fixture = ''f'', mi_manifest_sha = ''x'',
      mi_paper_id = None, mi_paper_doi = None\<rparr>"

definition demo_certificate :: certificate where
  "demo_certificate =
     \<lparr>ct_request = demo_request, ct_commit = ''c0'', ct_status = CertPass, ct_identity = Some demo_identity, ct_note = ''''\<rparr>"

lemma demo_assembles: "assemble_certificate demo_request demo_identity = Inr demo_certificate"
  by (simp add: assemble_certificate_def check_bounds_def enforce_capability_ceiling_def enforce_provenance_def
      check_capability_def check_provenance_def finalize_status_def dependency_chain_is_certified_def falsy_def
      certifying_def demo_request_def demo_identity_def demo_dependency_def demo_certificate_def Let_def)

theorem certificate_verdict_sound_witness:
  "ct_status demo_certificate = CertPass \<and> list_all dependency_backed (cq_dependencies demo_request) \<and>
   (1 / 4 :: rat) \<le> cq_tolerance demo_request"
proof -
  have "1 / 4 \<le> cq_contour_upper demo_request \<and> (\<forall>v. cq_violation_lower demo_request = Some v \<longrightarrow> v \<le> 1 / 4)"
    by (simp add: demo_request_def)
  from certificate_verdict_sound [OF demo_assembles this]
  show ?thesis by (simp add: demo_certificate_def)
qed

text \<open>The historical replay is a path of its own: its certificates carry the pinned commit and no model
  identity, and no dependency at a certifying level is admitted both by the replay and by the assembly
  of a new certificate, so an old artifact cannot back a new certificate nor the other way round.\<close>

theorem legacy_firewall:
  assumes "replay_legacy_certificate q = Inr c"
  shows "ct_identity c = None \<and> ct_commit c = legacy_pin \<and>
    (\<forall>mid c'. dependency_chain_is_certified (cq_dependencies q) \<longrightarrow> assemble_certificate q mid \<noteq> Inr c') \<and>
    (\<forall>q' mid c' d. assemble_certificate q' mid = Inr c' \<and> d \<in> set (cq_dependencies q) \<and> d \<in> set (cq_dependencies q') \<longrightarrow>
      \<not> certifying (dr_level d))"
proof -
  have legacy: "enforce_provenance True (cq_dependencies q) = Inr ()"
    and c: "ct_identity c = None" "ct_commit c = legacy_pin"
    using assms by (auto simp: replay_legacy_certificate_def ebind_eq_Inr)
  have apart: "\<not> certifying (dr_level d)"
    if "assemble_certificate q' mid = Inr c'" "d \<in> set (cq_dependencies q)" "d \<in> set (cq_dependencies q')" for q' mid c' d
  proof -
    have "enforce_provenance False (cq_dependencies q') = Inr ()"
      using that(1) by (auto simp: assemble_certificate_def ebind_eq_Inr)
    then have "check_provenance False d = Inr ()" "check_provenance True d = Inr ()"
      using legacy that(2,3) by (simp_all add: enforce_provenance_def foldE_checks list_all_iff)
    then show ?thesis by (auto simp: check_provenance_def guard_eq_Inr split: if_splits)
  qed
  have "assemble_certificate q mid \<noteq> Inr c'" if cert: "dependency_chain_is_certified (cq_dependencies q)" for mid c'
  proof
    assume "assemble_certificate q mid = Inr c'"
    moreover obtain d where "d \<in> set (cq_dependencies q)" "certifying (dr_level d)"
      using cert by (cases "cq_dependencies q") (auto simp: dependency_chain_is_certified_def)
    ultimately show False using apart by blast
  qed
  then show ?thesis using c apart by blast
qed

theorem legacy_firewall_witness:
  "\<exists>c. replay_legacy_certificate (demo_request\<lparr>cq_dependencies := [demo_dependency\<lparr>dr_provenance := None\<rparr>]\<rparr>) = Inr c \<and>
     ct_status c = CertPass \<and> ct_identity c = None \<and>
     ct_note c = ''legacy replay without model identity''"
proof -
  let ?q = "demo_request\<lparr>cq_dependencies := [demo_dependency\<lparr>dr_provenance := None\<rparr>]\<rparr>"
  have "replay_legacy_certificate ?q = Inr \<lparr>ct_request = ?q, ct_commit = legacy_pin, ct_status = CertPass,
      ct_identity = None, ct_note = ''legacy replay without model identity''\<rparr>"
    by code_simp
  with legacy_firewall [OF this] show ?thesis by simp
qed

subsection \<open>Levels in order\<close>

instantiation proof_level :: linorder
begin

definition less_eq_proof_level :: "proof_level \<Rightarrow> proof_level \<Rightarrow> bool" where
  "less_eq_proof_level a b \<longleftrightarrow> level_rank a \<le> level_rank b"

definition less_proof_level :: "proof_level \<Rightarrow> proof_level \<Rightarrow> bool" where
  "less_proof_level a b \<longleftrightarrow> level_rank a < level_rank b"

instance
proof
  fix a b :: proof_level
  show "a \<le> b \<Longrightarrow> b \<le> a \<Longrightarrow> a = b"
    by (cases a; cases b) (simp_all add: less_eq_proof_level_def)
qed (auto simp: less_eq_proof_level_def less_proof_level_def)

end

lemma certifying_iff: "certifying l \<longleftrightarrow> IntervalCertified \<le> l"
  by (cases l) (simp_all add: certifying_def less_eq_proof_level_def)

text \<open>The gate in terms of the order.\<close>

lemma capability_gate:
  assumes "check_capability d = Inr ()" "dr_capability d = Some c"
  shows "dr_level d \<le> max NumericalDiagnostic (capability_ceiling c)"
proof (cases "certifying (dr_level d)")
  case True
  then have "dr_level d \<le> capability_ceiling c"
    using assms by (simp add: check_capability_def guard_eq_Inr less_eq_proof_level_def)
  then show ?thesis by (simp add: le_max_iff_disj)
next
  case False
  then have "dr_level d \<le> NumericalDiagnostic"
    by (cases "dr_level d") (simp_all add: certifying_def less_eq_proof_level_def)
  then show ?thesis by (simp add: le_max_iff_disj)
qed

subsection \<open>The chip\<close>

abbreviation bearing :: "cert_status \<Rightarrow> tile_proof list \<Rightarrow> nat" where
  "bearing st ts \<equiv> length (filter (\<lambda>t. tp_load_bearing t \<and> tp_status t = st) ts)"

lemma count_tiles:
  "foldl count_tile (l, p, f, i) ts =
     (l + length (filter tp_load_bearing ts), p + bearing CertPass ts, f + bearing CertFail ts, i + bearing CertInconclusive ts)"
proof (induction ts arbitrary: l p f i)
  case (Cons t ts)
  then show ?case by (cases "tp_status t") (simp_all add: count_tile_def)
qed simp

lemma bearing_total: "length (filter tp_load_bearing ts) = bearing CertPass ts + bearing CertFail ts + bearing CertInconclusive ts"
proof (induction ts)
  case (Cons t ts)
  then show ?case by (cases "tp_status t") simp_all
qed simp

lemma bearing_pos: "0 < bearing st ts \<longleftrightarrow> (\<exists>t\<in>set ts. tp_load_bearing t \<and> tp_status t = st)"
  by (auto simp: filter_empty_conv)

text \<open>C16: The full-chip verdict depends on the load-bearing tiles alone and on no order: FAIL exactly when
  one of them fails, PASS exactly when there is one and all of them pass, INCONCLUSIVE otherwise; the
  counters partition them.  Composed with the certificates of the tiles, a chip that passes has its
  error within the tolerance on every load-bearing tile, and a chip that fails exceeds it somewhere.\<close>

theorem full_chip_sound:
  assumes "\<And>t. t \<in> set ts \<Longrightarrow> tp_load_bearing t \<Longrightarrow>
    assemble_certificate (req t) (mid t) = Inr (crt t) \<and> tp_status t = ct_status (crt t) \<and> cq_tolerance (req t) = tol \<and>
    (list_all dependency_backed (cq_dependencies (req t)) \<longrightarrow>
       err t \<le> cq_contour_upper (req t) \<and> (\<forall>v. cq_violation_lower (req t) = Some v \<longrightarrow> v \<le> err t))"
  shows "let r = aggregate_full_chip_status ts; load = filter tp_load_bearing ts in
    (fc_status r = CertFail \<longleftrightarrow> (\<exists>t\<in>set load. tp_status t = CertFail)) \<and>
    (fc_status r = CertPass \<longleftrightarrow> load \<noteq> [] \<and> (\<forall>t\<in>set load. tp_status t = CertPass)) \<and>
    fc_passed r + fc_failed r + fc_inconclusive r = fc_load_bearing r \<and> fc_load_bearing r = length load \<and>
    (fc_status r = CertPass \<longrightarrow> (\<forall>t\<in>set load. err t \<le> tol)) \<and>
    (fc_status r = CertFail \<longrightarrow> (\<exists>t\<in>set load. tol < err t))"
proof -
  let ?load = "filter tp_load_bearing ts" and ?r = "aggregate_full_chip_status ts"
  have st: "fc_status ?r = (if ?load = [] then CertInconclusive else if 0 < bearing CertFail ts then CertFail
      else if 0 < bearing CertInconclusive ts then CertInconclusive else CertPass)"
    and counts: "fc_passed ?r = bearing CertPass ts" "fc_failed ?r = bearing CertFail ts"
      "fc_inconclusive ?r = bearing CertInconclusive ts" "fc_load_bearing ?r = length ?load"
    by (simp_all add: aggregate_full_chip_status_def count_tiles)
  have fail: "fc_status ?r = CertFail \<longleftrightarrow> (\<exists>t\<in>set ?load. tp_status t = CertFail)"
    unfolding st bearing_pos by (auto simp: filter_empty_conv)
  have pass: "fc_status ?r = CertPass \<longleftrightarrow> ?load \<noteq> [] \<and> (\<forall>t\<in>set ?load. tp_status t = CertPass)"
    unfolding st bearing_pos by simp (metis cert_status.exhaust cert_status.distinct)
  have tile: "(tp_status t = CertPass \<longrightarrow> err t \<le> tol) \<and> (tp_status t = CertFail \<longrightarrow> tol < err t)" if "t \<in> set ?load" for t
    using certificate_facts [of "req t" "mid t" "crt t"] assms [of t] that by fastforce
  show ?thesis
    using fail pass tile counts bearing_total [of ts] unfolding Let_def by force
qed

definition demo_tile :: "string \<Rightarrow> tile_proof" where
  "demo_tile i = \<lparr>tp_tile_id = i, tp_status = CertPass, tp_load_bearing = True, tp_artifact = None, tp_note = ''''\<rparr>"

theorem full_chip_sound_witness:
  "fc_status (aggregate_full_chip_status [demo_tile ''a'', demo_tile ''b'']) = CertPass \<and>
   (1 / 4 :: rat) \<le> cq_tolerance demo_request"
proof -
  let ?ts = "[demo_tile ''a'', demo_tile ''b'']"
  have tile: "assemble_certificate demo_request demo_identity = Inr demo_certificate \<and>
      tp_status t = ct_status demo_certificate \<and> cq_tolerance demo_request = 1 \<and>
      (list_all dependency_backed (cq_dependencies demo_request) \<longrightarrow>
        1 / 4 \<le> cq_contour_upper demo_request \<and> (\<forall>v. cq_violation_lower demo_request = Some v \<longrightarrow> v \<le> 1 / 4))"
    if "t \<in> set ?ts" "tp_load_bearing t" for t
    using that demo_assembles by (auto simp: demo_tile_def demo_certificate_def demo_request_def)
  have "fc_status (aggregate_full_chip_status ?ts) = CertPass" by code_simp
  with full_chip_sound [of ?ts "\<lambda>_. demo_request" "\<lambda>_. demo_identity" "\<lambda>_. demo_certificate" 1 "\<lambda>_. 1 / 4", OF tile]
  show ?thesis by (simp add: demo_tile_def demo_request_def Let_def)
qed

lemma reduce_coverage_complete:
  "reduce_coverage cells = AllComponentsCovered \<longleftrightarrow> cells \<noteq> [] \<and> list_all (\<lambda>c. terminal_ok (cc_disposition c)) cells"
proof -
  have "length (filter (\<lambda>c. terminal_ok (cc_disposition c)) cells) = length cells \<longleftrightarrow>
      list_all (\<lambda>c. terminal_ok (cc_disposition c)) cells"
    by (metis filter_True length_filter_less list_all_iff nat_neq_iff)
  then show ?thesis by (simp add: reduce_coverage_def Let_def)
qed

end
