(* ===== verification/VerifierHalo.thy ===== *)
theory VerifierHalo
  imports Prelude
begin

text \<open>
  Model of \<open>verify/halo.py\<close> and of the checks of \<open>verify/replay_contract.py\<close>: tail bounds of a sum of
  coherent systems, the bracket of the minimal halo from a tail profile, the final halo requirement and
  the acceptance of a replayed interval.  \<open>unrestricted_binary_tail_lower\<close> uses the float of pi and is
  left out.
\<close>

datatype bracket_status = HaloSufficient | HaloPartial | HaloOpen

record tail_point =
  tp_h :: int
  tp_lower :: rat
  tp_upper :: rat

definition mk_tail_point :: "int \<Rightarrow> rat \<Rightarrow> rat \<Rightarrow> tail_point res" where
  "mk_tail_point h l u =
     (if h < 0 then Inl (ValueError ''h_px must be non-negative'')
      else if l < 0 \<or> u < 0 then Inl (ValueError ''tail bounds must be non-negative'')
      else if l > u then Inl (ValueError ''lower tail bound exceeds upper tail bound'')
      else Inr \<lparr>tp_h = h, tp_lower = l, tp_upper = u\<rparr>)"

record halo_bracket =
  hb_epsilon :: rat
  hb_necessary :: int
  hb_sufficient :: "int option"
  hb_status :: bracket_status

record core_geometry =
  cg_core :: "int \<times> int"
  cg_loaded :: "int \<times> int"
  cg_left :: int
  cg_right :: int
  cg_top :: int
  cg_bottom :: int

definition verifier_halo_px :: "core_geometry \<Rightarrow> int" where
  "verifier_halo_px g = min (min (min (cg_left g) (cg_right g)) (cg_top g)) (cg_bottom g)"

definition supports :: "core_geometry \<Rightarrow> int \<Rightarrow> bool" where
  "supports g h \<longleftrightarrow> verifier_halo_px g \<ge> h"

record final_halo =
  fh_physics :: int
  fh_model :: int
  fh_verifier :: int
  fh_final :: int
  fh_status :: bracket_status
  fh_note :: string

fun tail_sum :: "rat \<Rightarrow> (rat \<times> rat \<times> rat) list \<Rightarrow> rat res" where
  "tail_sum acc [] = Inr acc"
| "tail_sum acc ((w, a, t) # ms) =
     (if w < 0 \<or> a < 0 \<or> t < 0 then Inl (ValueError ''weights/L1 bounds must be non-negative'')
      else tail_sum (acc + w * (2 * a * t + t * t)) ms)"

definition socs_absolute_tail_upper :: "rat list \<Rightarrow> rat list \<Rightarrow> rat list \<Rightarrow> rat res" where
  "socs_absolute_tail_upper ws as ts =
     (if \<not> (length ws = length as \<and> length as = length ts)
      then Inl (ValueError ''mode arrays must have equal length'') else tail_sum 0 (zip ws (zip as ts)))"

definition minimal_halo_bracket :: "tail_point list \<Rightarrow> rat \<Rightarrow> halo_bracket res" where
  "minimal_halo_bracket profile eps =
     (if eps < 0 then Inl (ValueError ''epsilon_intensity must be non-negative'')
      else if profile = [] then Inl (ValueError ''tail profile must not be empty'')
      else
        let ordered = sort_key tp_h profile;
            bad = map tp_h (filter (\<lambda>p. tp_lower p > eps) ordered);
            necessary = (if bad \<noteq> [] then Max (set bad) + 1 else tp_h (hd ordered));
            sufficient = map_option tp_h (List.find (\<lambda>p. tp_upper p \<le> eps) ordered) in
        if (case sufficient of None \<Rightarrow> False | Some s \<Rightarrow> s < necessary)
        then Inl (ValueError ''inconsistent halo profile'')
        else Inr \<lparr>hb_epsilon = eps, hb_necessary = necessary, hb_sufficient = sufficient,
          hb_status = (case sufficient of None \<Rightarrow> HaloOpen
                       | Some s \<Rightarrow> if s = necessary then HaloSufficient else HaloPartial)\<rparr>)"

definition resolve_final_halo :: "int \<Rightarrow> int \<Rightarrow> halo_bracket \<Rightarrow> final_halo res" where
  "resolve_final_halo phys model b =
     (if min phys model < 0 then Inl (ValueError ''halo requirements must be non-negative'')
      else case hb_sufficient b of
        None \<Rightarrow> Inr \<lparr>fh_physics = phys, fh_model = model, fh_verifier = hb_necessary b,
          fh_final = max (max phys model) (hb_necessary b), fh_status = HaloOpen,
          fh_note = ''no theorem-facing sufficient verifier halo is currently proved''\<rparr>
      | Some vh \<Rightarrow> Inr \<lparr>fh_physics = phys, fh_model = model, fh_verifier = vh,
          fh_final = max (max phys model) vh, fh_status = hb_status b, fh_note = ''''\<rparr>)"

definition halo_duplicate_compute_ratio :: "int \<Rightarrow> int \<Rightarrow> rat res" where
  "halo_duplicate_compute_ratio core halo =
     (if core \<le> 0 \<or> halo < 0 then Inl (ValueError ''invalid core/halo geometry'')
      else let c = of_int core; h = of_int halo in
        Inr (((c + 2 * h) * (c + 2 * h) - c * c) / (c * c)))"

text \<open>\<open>HaloDecisionProvenance\<close>: its checks and \<open>theorem_ready\<close>.\<close>

record halo_decision =
  hd_core_size :: int
  hd_halo :: int
  hd_tail_upper :: "rat option"
  hd_budget :: rat

definition mk_halo_decision :: "int \<Rightarrow> int \<Rightarrow> rat option \<Rightarrow> rat \<Rightarrow> halo_decision res" where
  "mk_halo_decision core halo tail budget =
     (if core \<le> 0 \<or> halo < 0 then Inl (ValueError ''invalid core/halo geometry'')
      else if budget < 0 then Inl (ValueError ''negative error budget'')
      else if (case tail of None \<Rightarrow> False | Some t \<Rightarrow> t < 0) then Inl (ValueError ''negative optical tail bound'')
      else Inr \<lparr>hd_core_size = core, hd_halo = halo, hd_tail_upper = tail, hd_budget = budget\<rparr>)"

definition theorem_ready :: "halo_decision \<Rightarrow> bool" where
  "theorem_ready d \<longleftrightarrow> (case hd_tail_upper d of None \<Rightarrow> False | Some t \<Rightarrow> t \<le> hd_budget d)"

definition mk_interval1d :: "rat \<Rightarrow> rat \<Rightarrow> (rat \<times> rat) res" where
  "mk_interval1d l h = (if l > h then Inl (ValueError ''invalid interval'') else Inr (l, h))"

definition one_way_reference_enclosed :: "rat \<times> rat \<Rightarrow> rat \<times> rat \<Rightarrow> rat \<Rightarrow> bool res" where
  "one_way_reference_enclosed cert ref eps =
     (if eps < 0 then Inl (ValueError ''bridge error must be non-negative'')
      else Inr (fst cert \<le> fst ref - eps \<and> snd ref + eps \<le> snd cert))"

subsection \<open>The tail bound\<close>

lemma tail_sum_Inr:
  "tail_sum acc ms = Inr u \<Longrightarrow>
   list_all (\<lambda>(w, a, t). 0 \<le> w \<and> 0 \<le> a \<and> 0 \<le> t) ms \<and> u = acc + (\<Sum>(w, a, t)\<leftarrow>ms. w * (2 * a * t + t * t))"
  by (induction acc ms rule: tail_sum.induct) (auto split: if_splits)

text \<open>Perturbing one coherent amplitude.\<close>

lemma mode_perturbation:
  fixes z e :: complex
  assumes "cmod z \<le> a" "cmod e \<le> t"
  shows "\<bar>(cmod (z + e))\<^sup>2 - (cmod z)\<^sup>2\<bar> \<le> 2 * a * t + t * t"
proof -
  have "\<bar>cmod (z + e) - cmod z\<bar> \<le> cmod e" by (metis add_diff_cancel_left' norm_triangle_ineq3)
  moreover have "cmod (z + e) + cmod z \<le> 2 * cmod z + cmod e" using norm_triangle_ineq [of z e] by simp
  moreover have "(cmod (z + e))\<^sup>2 - (cmod z)\<^sup>2 = (cmod (z + e) - cmod z) * (cmod (z + e) + cmod z)"
    by (simp add: power2_eq_square algebra_simps)
  ultimately have "\<bar>(cmod (z + e))\<^sup>2 - (cmod z)\<^sup>2\<bar> \<le> cmod e * (2 * cmod z + cmod e)"
    by (simp add: abs_mult mult_mono)
  also have "\<dots> \<le> t * (2 * a + t)"
    using assms by (intro mult_mono) (auto intro: order_trans [OF norm_ge_zero])
  finally show ?thesis by (simp add: algebra_simps)
qed

text \<open>A mode is a weight with its kernel; the intensity of a mask is the weighted sum of the squared
  amplitudes.\<close>

definition amplitude :: "'p set \<Rightarrow> ('p \<Rightarrow> complex) \<Rightarrow> ('p \<Rightarrow> real) \<Rightarrow> complex" where
  "amplitude S k m = (\<Sum>p\<in>S. of_real (m p) * k p)"

definition intensity :: "'p set \<Rightarrow> (rat \<times> ('p \<Rightarrow> complex)) list \<Rightarrow> ('p \<Rightarrow> real) \<Rightarrow> real" where
  "intensity S modes m = (\<Sum>(w, k)\<leftarrow>modes. of_rat w * (cmod (amplitude S k m))\<^sup>2)"

lemma amplitude_bound:
  assumes "finite S" "\<And>p. p \<in> S \<Longrightarrow> \<bar>m p\<bar> \<le> 1" "\<And>p. p \<in> S \<Longrightarrow> p \<notin> T \<Longrightarrow> m p = 0" "T \<subseteq> S"
  shows "cmod (amplitude S k m) \<le> (\<Sum>p\<in>T. cmod (k p))"
proof -
  have "amplitude S k m = (\<Sum>p\<in>T. of_real (m p) * k p)"
    unfolding amplitude_def using assms by (intro sum.mono_neutral_right) auto
  also have "cmod \<dots> \<le> (\<Sum>p\<in>T. cmod (of_real (m p) * k p))" by (rule norm_sum)
  also have "\<dots> \<le> (\<Sum>p\<in>T. cmod (k p))"
    using assms(2,4) by (intro sum_mono) (auto simp: norm_mult mult_left_le_one_le)
  finally show ?thesis .
qed

text \<open>C21: The tail bound holds: if a mask changes by at most one per pixel and only outside the halo, and
  the arrays bound the absolute sums of each kernel and of its tail outside the halo, then the intensity
  changes by no more than \<open>socs_absolute_tail_upper\<close> returns.\<close>

theorem socs_tail_sound:
  assumes "socs_absolute_tail_upper ws as ts = Inr u" "length ks = length ws" "finite S" "T \<subseteq> S"
    and "\<And>p. p \<in> S \<Longrightarrow> \<bar>m p\<bar> \<le> 1" "\<And>p. p \<in> S \<Longrightarrow> \<bar>d p\<bar> \<le> 1" "\<And>p. p \<in> S \<Longrightarrow> p \<notin> T \<Longrightarrow> d p = 0"
    and "\<And>j. j < length ks \<Longrightarrow> (\<Sum>p\<in>S. cmod ((ks ! j) p)) \<le> of_rat (as ! j)"
    and "\<And>j. j < length ks \<Longrightarrow> (\<Sum>p\<in>T. cmod ((ks ! j) p)) \<le> of_rat (ts ! j)"
  shows "\<bar>intensity S (zip ws ks) (\<lambda>p. m p + d p) - intensity S (zip ws ks) m\<bar> \<le> of_rat u"
proof -
  have len: "length as = length ws" "length ts = length ws" and sum: "tail_sum 0 (zip ws (zip as ts)) = Inr u"
    using assms(1) by (auto simp: socs_absolute_tail_upper_def split: if_splits)
  let ?n = "length ws"
  have nn: "0 \<le> ws ! j" if "j < ?n" for j
  proof -
    have "(ws ! j, as ! j, ts ! j) \<in> set (zip ws (zip as ts))"
      using that len by (auto simp: set_zip intro!: exI [of _ j])
    then show ?thesis using tail_sum_Inr [OF sum] by (auto simp: list_all_iff)
  qed
  have u: "u = (\<Sum>j<?n. ws ! j * (2 * as ! j * ts ! j + ts ! j * ts ! j))"
    using tail_sum_Inr [OF sum] len
    by (auto simp: sum_list_sum_nth atLeast0LessThan intro!: sum.cong)
  have I: "intensity S (zip ws ks) v = (\<Sum>j<?n. of_rat (ws ! j) * (cmod (amplitude S (ks ! j) v))\<^sup>2)" for v
    using assms(2) by (auto simp: intensity_def sum_list_sum_nth atLeast0LessThan intro!: sum.cong)
  have each: "\<bar>of_rat (ws ! j) * (cmod (amplitude S (ks ! j) (\<lambda>p. m p + d p)))\<^sup>2 - of_rat (ws ! j) * (cmod (amplitude S (ks ! j) m))\<^sup>2\<bar>
      \<le> of_rat (ws ! j * (2 * as ! j * ts ! j + ts ! j * ts ! j))" if j: "j < ?n" for j
  proof -
    let ?k = "ks ! j"
    have split: "amplitude S ?k (\<lambda>p. m p + d p) = amplitude S ?k m + amplitude S ?k d"
      by (simp add: amplitude_def sum.distrib distrib_right)
    have "cmod (amplitude S ?k m) \<le> of_rat (as ! j)"
      using amplitude_bound [OF assms(3,5), where T = S and k = ?k] assms(8) [of j] j assms(2) by fastforce
    moreover have "cmod (amplitude S ?k d) \<le> of_rat (ts ! j)"
      using amplitude_bound [OF assms(3,6,7,4), where k = ?k] assms(9) [of j] j assms(2) by fastforce
    ultimately have b: "\<bar>(cmod (amplitude S ?k m + amplitude S ?k d))\<^sup>2 - (cmod (amplitude S ?k m))\<^sup>2\<bar>
        \<le> 2 * of_rat (as ! j) * of_rat (ts ! j) + of_rat (ts ! j) * of_rat (ts ! j)" by (rule mode_perturbation)
    have "0 \<le> real_of_rat (ws ! j)" using nn [OF j] by simp
    from mult_left_mono [OF b this] show ?thesis
      unfolding split right_diff_distrib [symmetric] abs_mult
      using \<open>0 \<le> real_of_rat (ws ! j)\<close> by (simp add: of_rat_mult of_rat_add)
  qed
  have "\<bar>intensity S (zip ws ks) (\<lambda>p. m p + d p) - intensity S (zip ws ks) m\<bar>
      \<le> (\<Sum>j<?n. of_rat (ws ! j * (2 * as ! j * ts ! j + ts ! j * ts ! j)))"
    unfolding I sum_subtractf [symmetric] using each by (intro order_trans [OF sum_abs] sum_mono) simp
  also have "\<dots> = of_rat u" unfolding u by (simp add: of_rat_sum)
  finally show ?thesis .
qed

text \<open>One mode with a unit kernel on three pixels, the middle one inside the halo.\<close>

theorem socs_tail_sound_witness:
  "socs_absolute_tail_upper [1 / 2] [3] [2] = Inr 8 \<and>
   \<bar>intensity {0, 1, 2 :: nat} (zip [1 / 2] [\<lambda>_. 1]) (\<lambda>p. (if p = 1 then 1 else 0) + (if p = 1 then 0 else 1)) -
     intensity {0, 1, 2 :: nat} (zip [1 / 2] [\<lambda>_. 1]) (\<lambda>p. if p = 1 then 1 else 0)\<bar> \<le> 8"
proof -
  have u: "socs_absolute_tail_upper [1 / 2] [3] [2] = Inr 8" by (simp add: socs_absolute_tail_upper_def)
  have "\<bar>intensity {0, 1, 2 :: nat} (zip [1 / 2] [\<lambda>_. 1]) (\<lambda>p. (if p = 1 then 1 else 0) + (if p = 1 then 0 else 1)) -
     intensity {0, 1, 2 :: nat} (zip [1 / 2] [\<lambda>_. 1]) (\<lambda>p. if p = 1 then 1 else 0)\<bar> \<le> of_rat 8"
    by (rule socs_tail_sound [OF u, where T = "{0, 2}"]) auto
  then show ?thesis using u by simp
qed

subsection \<open>The minimal halo\<close>

text \<open>A profile is sound for a tail function when every point brackets it.\<close>

definition profile_sound :: "tail_point list \<Rightarrow> (int \<Rightarrow> rat) \<Rightarrow> bool" where
  "profile_sound profile tail \<longleftrightarrow> list_all (\<lambda>p. tp_lower p \<le> tail (tp_h p) \<and> tail (tp_h p) \<le> tp_upper p) profile"

lemma Max_set_in: "xs \<noteq> [] \<Longrightarrow> Max (set xs) \<in> set xs"
  by simp

lemma find_in: "List.find P xs = Some x \<Longrightarrow> x \<in> set xs \<and> P x"
  by (auto simp: find_Some_iff)

lemma hd_sort_key_le: "p \<in> set xs \<Longrightarrow> f (hd (sort_key f xs)) \<le> f p"
proof -
  assume p: "p \<in> set xs"
  have "sorted (map f (sort_key f xs))" by simp
  moreover have "p \<in> set (sort_key f xs)" using p by simp
  ultimately show ?thesis by (cases "sort_key f xs") auto
qed

text \<open>C20: For a sound profile of a tail that does not grow with the halo, the bracket never fails and is
  right: every halo from the sufficient one on keeps the error within epsilon; if some sample exceeds
  epsilon, every halo below the necessary one exceeds it, so a CERTIFIED_SUFFICIENT bracket is then
  exactly the smallest halo; and the final requirement resolved from it covers the physics, the model
  and, unless it is OPEN, the error.\<close>

theorem halo_bracket_sound:
  assumes "profile \<noteq> []" "0 \<le> eps" "profile_sound profile tail" "antimono tail"
  shows "\<exists>b. minimal_halo_bracket profile eps = Inr b \<and>
    (\<forall>s h. hb_sufficient b = Some s \<and> s \<le> h \<longrightarrow> tail h \<le> eps) \<and>
    ((\<exists>p\<in>set profile. eps < tp_lower p) \<longrightarrow> (\<forall>h < hb_necessary b. eps < tail h) \<and>
       (hb_status b = HaloSufficient \<longrightarrow> (\<forall>h. tail h \<le> eps \<longleftrightarrow> hb_necessary b \<le> h))) \<and>
    (hb_status b = HaloOpen \<longleftrightarrow> hb_sufficient b = None) \<and>
    (\<forall>phys model r. resolve_final_halo phys model b = Inr r \<longrightarrow>
       phys \<le> fh_final r \<and> model \<le> fh_final r \<and> (fh_status r \<noteq> HaloOpen \<longrightarrow> tail (fh_final r) \<le> eps))"
proof -
  let ?ord = "sort_key tp_h profile"
  let ?bad = "map tp_h (filter (\<lambda>p. tp_lower p > eps) ?ord)"
  define nec where "nec = (if ?bad \<noteq> [] then Max (set ?bad) + 1 else tp_h (hd ?ord))"
  define suf where "suf = map_option tp_h (List.find (\<lambda>p. tp_upper p \<le> eps) ?ord)"
  have pt: "tp_lower p \<le> tail (tp_h p) \<and> tail (tp_h p) \<le> tp_upper p" if "p \<in> set profile" for p
    using assms(3) that by (simp add: profile_sound_def list_all_iff)
  have S: "tail h \<le> eps" if s: "suf = Some s" and h: "s \<le> h" for s h
  proof -
    obtain p where p: "List.find (\<lambda>p. tp_upper p \<le> eps) ?ord = Some p" "s = tp_h p"
      using s unfolding suf_def map_option_eq_Some by blast
    then have "p \<in> set profile" "tp_upper p \<le> eps" using find_in [OF p(1)] by simp_all
    then have "tail s \<le> eps" using pt p(2) by fastforce
    then show ?thesis using antimonoD [OF assms(4) h] by simp
  qed
  have N: "eps < tail h" if ne: "?bad \<noteq> []" and h: "h < nec" for h
  proof -
    have "Max (set ?bad) \<in> set ?bad" using ne by (rule Max_set_in)
    then obtain p where p: "p \<in> set profile" "eps < tp_lower p" "Max (set ?bad) = tp_h p" by auto
    have "h \<le> tp_h p" using ne h p(3) by (simp add: nec_def)
    then have "tail (tp_h p) \<le> tail h" by (rule antimonoD [OF assms(4)])
    then show ?thesis using pt [OF p(1)] p(2) by simp
  qed
  have ok: "nec \<le> s" if s: "suf = Some s" for s
  proof (cases "?bad = []")
    case True
    obtain p where "p \<in> set profile" "s = tp_h p" using s find_in unfolding suf_def map_option_eq_Some by fastforce
    then show ?thesis using True hd_sort_key_le [of p profile tp_h] by (simp add: nec_def)
  next
    case False
    then show ?thesis using N [OF False, of s] S [OF s order.refl] by (meson not_le)
  qed
  let ?b = "\<lparr>hb_epsilon = eps, hb_necessary = nec, hb_sufficient = suf,
    hb_status = (case suf of None \<Rightarrow> HaloOpen | Some s \<Rightarrow> if s = nec then HaloSufficient else HaloPartial)\<rparr>"
  have run: "minimal_halo_bracket profile eps = Inr ?b"
    using assms(1,2) ok unfolding minimal_halo_bracket_def Let_def suf_def [symmetric] nec_def [symmetric]
    by (auto split: option.splits)
  have bad: "?bad \<noteq> [] \<longleftrightarrow> (\<exists>p\<in>set profile. eps < tp_lower p)" by (auto simp: filter_empty_conv)
  have exact: "tail h \<le> eps \<longleftrightarrow> nec \<le> h" if "?bad \<noteq> []" "hb_status ?b = HaloSufficient" for h
    using that N [OF that(1)] S [of nec h] by (auto split: option.splits if_splits simp: not_le [symmetric])
  have final: "phys \<le> fh_final r \<and> model \<le> fh_final r \<and> (fh_status r \<noteq> HaloOpen \<longrightarrow> tail (fh_final r) \<le> eps)"
    if "resolve_final_halo phys model ?b = Inr r" for phys model r
    using that S by (auto simp: resolve_final_halo_def split: if_splits option.splits)
  have "hb_status ?b = HaloOpen \<longleftrightarrow> hb_sufficient ?b = None" by (simp split: option.splits)
  then show ?thesis using S N exact final bad by (intro exI [of _ ?b]) (simp add: run)
qed

definition demo_profile :: "tail_point list" where
  "demo_profile =
     [\<lparr>tp_h = 4, tp_lower = 0, tp_upper = 0\<rparr>, \<lparr>tp_h = 3, tp_lower = 1 / 2, tp_upper = 1 / 2\<rparr>]"

theorem halo_bracket_sound_witness:
  "minimal_halo_bracket demo_profile (1 / 4) =
     Inr \<lparr>hb_epsilon = 1 / 4, hb_necessary = 4, hb_sufficient = Some 4, hb_status = HaloSufficient\<rparr> \<and>
   {h \<in> {0..<4 :: int}. (if h < 4 then 1 / 2 else 0) \<le> (1 / 4 :: rat)} = {}"
proof -
  let ?tail = "\<lambda>h :: int. if h < 4 then 1 / 2 else (0 :: rat)"
  have run: "minimal_halo_bracket demo_profile (1 / 4) =
     Inr \<lparr>hb_epsilon = 1 / 4, hb_necessary = 4, hb_sufficient = Some 4, hb_status = HaloSufficient\<rparr>" by code_simp
  have "profile_sound demo_profile ?tail" "demo_profile \<noteq> []" "antimono ?tail"
    by (auto simp: profile_sound_def demo_profile_def antimono_def)
  moreover have "\<exists>p\<in>set demo_profile. 1 / 4 < tp_lower p" by (simp add: demo_profile_def)
  ultimately show ?thesis using halo_bracket_sound [of demo_profile "1 / 4" ?tail] run by auto
qed

text \<open>Without a sample above epsilon the necessary halo is just the first sample, although smaller halos
  may do: the bracket then certifies a minimum that the profile does not support.\<close>

lemma halo_bracket_overclaims:
  "minimal_halo_bracket [\<lparr>tp_h = 5, tp_lower = 0, tp_upper = 0\<rparr>] 0 =
     Inr \<lparr>hb_epsilon = 0, hb_necessary = 5, hb_sufficient = Some 5, hb_status = HaloSufficient\<rparr> \<and>
   profile_sound [\<lparr>tp_h = 5, tp_lower = 0, tp_upper = 0\<rparr>] (\<lambda>_. 0) \<and> antimono (\<lambda>_ :: int. 0 :: rat)"
  by (simp add: minimal_halo_bracket_def profile_sound_def antimono_def Let_def)

text \<open>What an accepted replay means.\<close>

lemma one_way_enclosed:
  "one_way_reference_enclosed cert ref eps = Inr True \<Longrightarrow> fst ref - eps \<le> x \<Longrightarrow> x \<le> snd ref + eps \<Longrightarrow>
   fst cert \<le> x \<and> x \<le> snd cert"
  by (auto simp: one_way_reference_enclosed_def split: if_splits)

end
