(* ===== verification/InterfaceRuns.thy ===== *)
theory InterfaceRuns
  imports Tensor
begin

text \<open>
  Model of \<open>verify/interface_runs.py\<close> and of the far-field sums of \<open>verify/derivative_runs.py\<close>: horizontal
  runs of a binary mask, the part of the runs outside a halo, cyclic prefix sums of a kernel bank, and
  the sum of a kernel over the far pixels of a known layout.  Arrays are a shape with a lookup function;
  kernel values are any commutative ring (the source's are complex), and the directed rounding of the
  interval version is a pair of parameters.
\<close>

subsection \<open>Runs\<close>

record hrun =
  hr_y :: int
  hr_x0 :: int
  hr_x1 :: int

definition mk_hrun :: "int \<Rightarrow> int \<Rightarrow> int \<Rightarrow> hrun res" where
  "mk_hrun y x0 x1 =
     (if y < 0 \<or> x0 < 0 \<or> x1 \<le> x0 then Inl (ValueError ''invalid horizontal run'')
      else Inr \<lparr>hr_y = y, hr_x0 = x0, hr_x1 = x1\<rparr>)"

definition hr_length :: "hrun \<Rightarrow> int" where
  "hr_length r = hr_x1 r - hr_x0 r"

text \<open>One row: skip the zeros, take the ones, go on behind them.\<close>

function mask_row_runs :: "int \<Rightarrow> int \<Rightarrow> bool list \<Rightarrow> hrun list res" where
  "mask_row_runs y x bs =
     (let x0 = x + int (length (takeWhile Not bs)); rest = dropWhile Not bs in
      if rest = [] then Inr []
      else
        let x1 = x0 + int (length (takeWhile id rest)) in
        ebind (mk_hrun y x0 x1) (\<lambda>r. ebind (mask_row_runs y x1 (dropWhile id rest)) (\<lambda>rs. Inr (r # rs))))"
  by pat_completeness auto
termination
proof (relation "measure (\<lambda>(y, x, bs). length bs)")
  fix x0 x1 x y :: int and bs rest :: "bool list" and r :: hrun
  assume rest: "rest = dropWhile Not bs" "rest \<noteq> []"
  then have "hd rest" using hd_dropWhile [of Not bs] by simp
  then have "length (dropWhile id rest) < length rest"
    using rest(2) by (cases rest) (simp_all add: length_dropWhile_le less_Suc_eq_le)
  also have "length rest \<le> length bs" by (simp add: rest(1) length_dropWhile_le)
  finally show "((y, x1, dropWhile id rest), y, x, bs) \<in> measure (\<lambda>(y, x, bs). length bs)" by simp
qed simp

definition encode_binary_row_runs :: "tensor \<Rightarrow> hrun list res" where
  "encode_binary_row_runs m =
     ebind (mapE (\<lambda>(y, row). mask_row_runs (int y) 0 (map (\<lambda>v. v \<noteq> 0) row)) (enumerate 0 m)) (\<lambda>rs. Inr (concat rs))"

definition run_compression_stats :: "hrun list \<Rightarrow> int \<times> nat" where
  "run_compression_stats rs = (sum_list (map hr_length rs), length rs)"

text \<open>\<open>pixel_to_run_ratio\<close>; \<open>None\<close> is infinity.\<close>

definition pixel_to_run_ratio :: "int \<times> nat \<Rightarrow> rat option" where
  "pixel_to_run_ratio s =
     (if snd s = 0 then (if fst s \<noteq> 0 then None else Some 1) else Some (of_int (fst s) / of_nat (snd s)))"

definition split_one :: "int \<Rightarrow> int \<Rightarrow> int \<Rightarrow> hrun list \<Rightarrow> hrun \<Rightarrow> hrun list res" where
  "split_one cy cx halo out r =
     (if \<bar>hr_y r - cy\<bar> > halo then Inr (out @ [r])
      else
        let lo = cx - halo; hi = cx + halo + 1 in
        ebind (if hr_x0 r < min (hr_x1 r) lo
               then ebind (mk_hrun (hr_y r) (hr_x0 r) (min (hr_x1 r) lo)) (\<lambda>s. Inr (out @ [s])) else Inr out) (\<lambda>out1.
        if max (hr_x0 r) hi < hr_x1 r
        then ebind (mk_hrun (hr_y r) (max (hr_x0 r) hi) (hr_x1 r)) (\<lambda>s. Inr (out1 @ [s])) else Inr out1))"

definition split_runs_outside_chebyshev :: "hrun list \<Rightarrow> int \<Rightarrow> int \<Rightarrow> int \<Rightarrow> hrun list res" where
  "split_runs_outside_chebyshev rs cy cx halo =
     (if halo < 0 then Inl (ValueError ''halo_px must be non-negative'') else foldE (split_one cy cx halo) [] rs)"

definition zero_padded_horizontal_variation :: "hrun list \<Rightarrow> nat" where
  "zero_padded_horizontal_variation rs = 2 * length rs"

subsection \<open>Prefix sums\<close>

record 'a kernel_bank =
  kb_shape :: "nat \<times> int \<times> int"
  kb_at :: "nat \<Rightarrow> int \<Rightarrow> int \<Rightarrow> 'a"

record 'a cyclic_prefix =
  cp_k :: nat
  cp_n :: int
  cp_at :: "nat \<Rightarrow> int \<Rightarrow> int \<Rightarrow> 'a"

text \<open>Entry \<open>s\<close> of a prefix row: the cumulative sum of the first \<open>s\<close> values of the reversed cyclic row.\<close>

definition prefix_entry :: "'a :: comm_ring_1 kernel_bank \<Rightarrow> int \<Rightarrow> nat \<Rightarrow> int \<Rightarrow> int \<Rightarrow> 'a" where
  "prefix_entry kb n j yi s = (\<Sum>t\<leftarrow>[0..s - 1]. kb_at kb j yi ((- t) mod n))"

definition from_kernel_bank :: "'a :: comm_ring_1 kernel_bank \<Rightarrow> 'a cyclic_prefix res" where
  "from_kernel_bank kb =
     (case kb_shape kb of (k, n, n') \<Rightarrow>
        if n \<noteq> n' then Inl (ValueError ''kernels must have shape (K,N,N)'')
        else Inr \<lparr>cp_k = k, cp_n = n, cp_at = prefix_entry kb n\<rparr>)"

text \<open>The two indices of a run; a run that leaves the doubled row is out of range.\<close>

definition run_index :: "int \<Rightarrow> int \<Rightarrow> int \<Rightarrow> hrun \<Rightarrow> (int \<times> int) res" where
  "run_index n cy cx r =
     (if n = 0 then Inl (ZeroDivisionError ''integer modulo by zero'')
      else
        let c = n div 2; yi = (c + cy - hr_y r) mod n; r_start = (c + cx - hr_x0 r) mod n; s0 = (- r_start) mod n in
        if s0 + hr_length r > 2 * n then Inl (IndexError ''index is out of bounds'') else Inr (yi, s0))"

definition sum_run :: "'a :: comm_ring_1 cyclic_prefix \<Rightarrow> int \<Rightarrow> int \<Rightarrow> 'a list \<Rightarrow> hrun \<Rightarrow> 'a list res" where
  "sum_run cp cy cx out r =
     ebind (run_index (cp_n cp) cy cx r) (\<lambda>(yi, s0).
       Inr (map (\<lambda>j. out ! j + (cp_at cp j yi (s0 + hr_length r) - cp_at cp j yi s0)) [0..<cp_k cp]))"

definition sum_runs :: "'a :: comm_ring_1 cyclic_prefix \<Rightarrow> hrun list \<Rightarrow> int \<Rightarrow> int \<Rightarrow> 'a list res" where
  "sum_runs cp rs cy cx = foldE (sum_run cp cy cx) (replicate (cp_k cp) 0) rs"

definition known_layout_far_coherent ::
    "'a :: comm_ring_1 cyclic_prefix \<Rightarrow> hrun list \<Rightarrow> int \<Rightarrow> int \<Rightarrow> int \<Rightarrow> 'a list res" where
  "known_layout_far_coherent cp rs cy cx halo =
     ebind (split_runs_outside_chebyshev rs cy cx halo) (\<lambda>far. sum_runs cp far cy cx)"

subsection \<open>Interval prefix sums\<close>

text \<open>One real component (real or imaginary part) of one derivative: lower and upper arrays.\<close>

record iv_prefix =
  ip_k :: nat
  ip_n :: int
  ip_lo :: "nat \<Rightarrow> int \<Rightarrow> int \<Rightarrow> rat"
  ip_hi :: "nat \<Rightarrow> int \<Rightarrow> int \<Rightarrow> rat"

text \<open>\<open>down\<close> and \<open>up\<close> take an exact value to the float that the rounded operation followed by
  \<open>np.nextafter\<close> towards an infinity gives.  The source does the same for the imaginary part.\<close>

definition sum_far_run ::
    "(rat \<Rightarrow> rat) \<Rightarrow> (rat \<Rightarrow> rat) \<Rightarrow> iv_prefix \<Rightarrow> int \<Rightarrow> int \<Rightarrow> (rat \<times> rat) list \<Rightarrow> hrun \<Rightarrow> (rat \<times> rat) list res" where
  "sum_far_run down up ip cy cx out r =
     ebind (run_index (ip_n ip) cy cx r) (\<lambda>(yi, s0).
       Inr (map (\<lambda>j.
         let e = s0 + hr_length r;
             sl = down (ip_lo ip j yi e - ip_hi ip j yi s0);
             sh = up (ip_hi ip j yi e - ip_lo ip j yi s0) in
         (down (fst (out ! j) + sl), up (snd (out ! j) + sh))) [0..<ip_k ip]))"

definition sum_far_runs ::
    "(rat \<Rightarrow> rat) \<Rightarrow> (rat \<Rightarrow> rat) \<Rightarrow> iv_prefix \<Rightarrow> hrun list \<Rightarrow> int \<Rightarrow> int \<Rightarrow> int \<Rightarrow> (rat \<times> rat) list res" where
  "sum_far_runs down up ip rs cy cx halo =
     ebind (split_runs_outside_chebyshev rs cy cx halo) (\<lambda>far.
     ebind (foldE (sum_far_run down up ip cy cx) (replicate (ip_k ip) (0, 0)) far) (\<lambda>out.
       if list_all (\<lambda>(l, h). l \<le> h) out then Inr out
       else Inl (ValueError ''invalid complex interval vector'')))"

subsection \<open>Encoding\<close>

declare mask_row_runs.simps [simp del]

definition hr_ok :: "hrun \<Rightarrow> bool" where
  "hr_ok r \<longleftrightarrow> 0 \<le> hr_y r \<and> 0 \<le> hr_x0 r \<and> hr_x0 r < hr_x1 r"

lemma mk_hrun_Inr: "0 \<le> y \<Longrightarrow> 0 \<le> a \<Longrightarrow> a < b \<Longrightarrow> mk_hrun y a b = Inr \<lparr>hr_y = y, hr_x0 = a, hr_x1 = b\<rparr>"
  by (simp add: mk_hrun_def)

text \<open>The variation of a row: how often neighbours differ.\<close>

fun variation :: "bool list \<Rightarrow> nat" where
  "variation (a # b # cs) = (if a \<noteq> b then 1 else 0) + variation (b # cs)"
| "variation _ = 0"

lemma variation_repeat: "variation (b # replicate n b @ cs) = variation (b # cs)"
  by (induction n) auto

lemma replicate_takeWhile:
  shows "takeWhile Not bs = replicate (length (takeWhile Not bs)) False"
    and "takeWhile id bs = replicate (length (takeWhile id bs)) True"
  by (induction bs) simp_all

text \<open>A row that is not all zeros: zeros, ones, and a rest that is empty or begins with a zero.\<close>

lemma row_split:
  assumes "dropWhile Not bs \<noteq> []"
  obtains a b us where "bs = replicate a False @ replicate (Suc b) True @ us" "us = [] \<or> \<not> hd us"
    "a = length (takeWhile Not bs)" "Suc b = length (takeWhile id (dropWhile Not bs))" "us = dropWhile id (dropWhile Not bs)"
proof -
  let ?rest = "dropWhile Not bs"
  have "hd ?rest" using hd_dropWhile [of Not bs] assms by simp
  then obtain b where b: "length (takeWhile id ?rest) = Suc b" using assms by (cases ?rest) auto
  have "bs = takeWhile Not bs @ takeWhile id ?rest @ dropWhile id ?rest" by simp
  then have "bs = replicate (length (takeWhile Not bs)) False @ replicate (Suc b) True @ dropWhile id ?rest"
    using replicate_takeWhile(1) [of bs] replicate_takeWhile(2) [of ?rest] b by metis
  moreover have "dropWhile id ?rest = [] \<or> \<not> hd (dropWhile id ?rest)" using hd_dropWhile [of id ?rest] by auto
  ultimately show ?thesis using that b by metis
qed

definition in_run :: "hrun \<Rightarrow> int \<Rightarrow> bool" where
  "in_run r c \<longleftrightarrow> hr_x0 r \<le> c \<and> c < hr_x1 r"

lemma mask_row_runs_spec:
  assumes "0 \<le> y" "0 \<le> x"
  shows "\<exists>rs. mask_row_runs y x bs = Inr rs \<and>
    list_all (\<lambda>r. hr_ok r \<and> hr_y r = y \<and> x \<le> hr_x0 r \<and> hr_x1 r \<le> x + int (length bs)) rs \<and>
    sorted_wrt (\<lambda>r s. hr_x1 r < hr_x0 s) rs \<and>
    (\<forall>c. (\<exists>r\<in>set rs. in_run r c) \<longleftrightarrow> x \<le> c \<and> c < x + int (length bs) \<and> bs ! nat (c - x)) \<and>
    2 * length rs = variation (False # bs @ [False])"
  using assms(2)
proof (induction "length bs" arbitrary: x bs rule: less_induct)
  case less
  show ?case
  proof (cases "dropWhile Not bs = []")
    case True
    then have "takeWhile Not bs = bs" by (simp add: dropWhile_eq_Nil_conv)
    then obtain n where bs: "bs = replicate n False" using replicate_takeWhile(1) [of bs] by metis
    have "mask_row_runs y x bs = Inr []" unfolding mask_row_runs.simps [of y x bs] Let_def True by simp
    moreover have "variation (False # bs @ [False]) = 0" using variation_repeat [of False n "[False]"] by (simp add: bs)
    ultimately show ?thesis by (auto simp: bs)
  next
    case False
    obtain a b us where bs: "bs = replicate a False @ replicate (Suc b) True @ us" and us: "us = [] \<or> \<not> hd us"
      and len: "a = length (takeWhile Not bs)" "Suc b = length (takeWhile id (dropWhile Not bs))"
        "us = dropWhile id (dropWhile Not bs)" using row_split [OF False] .
    let ?x0 = "x + int a" and ?x1 = "x + int a + int (Suc b)"
    have "length us < length bs" "0 \<le> ?x1" using bs less.prems by simp_all
    from less.hyps [OF this] obtain rs where rs: "mask_row_runs y ?x1 us = Inr rs"
      and ok: "list_all (\<lambda>r. hr_ok r \<and> hr_y r = y \<and> ?x1 \<le> hr_x0 r \<and> hr_x1 r \<le> ?x1 + int (length us)) rs"
      and gaps: "sorted_wrt (\<lambda>r s. hr_x1 r < hr_x0 s) rs"
      and pix: "\<And>c. (\<exists>r\<in>set rs. in_run r c) \<longleftrightarrow> ?x1 \<le> c \<and> c < ?x1 + int (length us) \<and> us ! nat (c - ?x1)"
      and var: "2 * length rs = variation (False # us @ [False])" by blast
    let ?r = "\<lparr>hr_y = y, hr_x0 = ?x0, hr_x1 = ?x1\<rparr>"
    have mk: "mk_hrun y ?x0 ?x1 = Inr ?r" using assms(1) less.prems by (simp add: mk_hrun_Inr)
    have run: "mask_row_runs y x bs = Inr (?r # rs)"
      using False rs mk unfolding mask_row_runs.simps [of y x bs] Let_def len [symmetric] by simp
    have "hr_x0 s \<noteq> ?x1" if "s \<in> set rs" for s
    proof
      assume "hr_x0 s = ?x1"
      then have "in_run s ?x1" using ok that by (auto simp: list_all_iff in_run_def hr_ok_def)
      then have "us \<noteq> []" "us ! 0" using pix [of ?x1] that by auto
      then show False using us by (simp add: hd_conv_nth)
    qed
    then have gap: "sorted_wrt (\<lambda>r s. hr_x1 r < hr_x0 s) (?r # rs)"
      using gaps ok by (fastforce simp: list_all_iff)
    have bits: "bs ! i \<longleftrightarrow> a \<le> i \<and> (i < a + Suc b \<or> us ! (i - (a + Suc b)))" if "i < length bs" for i
      using that unfolding bs by (auto simp: nth_append nth_Cons')
    have "(\<exists>r\<in>set (?r # rs). in_run r c) \<longleftrightarrow> x \<le> c \<and> c < x + int (length bs) \<and> bs ! nat (c - x)" for c
    proof (cases "?x1 \<le> c")
      case True
      then have e: "nat (c - x) - (a + Suc b) = nat (c - ?x1)" "\<not> nat (c - x) < a + Suc b" "a \<le> nat (c - x)" by linarith+
      have "bs ! nat (c - x) \<longleftrightarrow> us ! nat (c - ?x1)" if "c < x + int (length bs)"
        using bits [of "nat (c - x)"] that True e by simp
      moreover have "x + int (length bs) = ?x1 + int (length us)" by (simp add: bs)
      moreover have "\<not> in_run ?r c" using True by (simp add: in_run_def)
      ultimately show ?thesis using True pix [of c] by auto
    next
      case False
      then have "\<not> (\<exists>r\<in>set rs. in_run r c)" using pix [of c] by simp
      moreover have "in_run ?r c \<longleftrightarrow> x \<le> c \<and> c < x + int (length bs) \<and> bs ! nat (c - x)"
      proof (cases "x \<le> c")
        case True
        have "c < x + int (length bs)" using False by (simp add: bs)
        moreover from this True have "bs ! nat (c - x) \<longleftrightarrow> a \<le> nat (c - x)"
          using bits [of "nat (c - x)"] False by auto
        ultimately show ?thesis using True False by (auto simp: in_run_def)
      next
        case x: False
        then show ?thesis by (simp add: in_run_def)
      qed
      ultimately show ?thesis by simp
    qed
    moreover have "variation (False # bs @ [False]) = 2 + variation (False # us @ [False])"
    proof -
      have "variation (False # bs @ [False]) = 1 + variation (True # us @ [False])"
        unfolding bs append_assoc variation_repeat by (simp add: variation_repeat)
      then show ?thesis using us by (cases us) auto
    qed
    moreover have "hr_ok ?r" using assms(1) less.prems by (simp add: hr_ok_def)
    moreover have "list_all (\<lambda>r. hr_ok r \<and> hr_y r = y \<and> x \<le> hr_x0 r \<and> hr_x1 r \<le> x + int (length bs)) rs"
      using ok by (auto simp: list_all_iff bs)
    moreover have "?x1 \<le> x + int (length bs)" by (simp add: bs)
    ultimately show ?thesis using gap var run by (intro exI [of _ "?r # rs"]) simp
  qed
qed

text \<open>Runs in raster order with a gap between neighbours.\<close>

definition run_before :: "hrun \<Rightarrow> hrun \<Rightarrow> bool" where
  "run_before r s \<longleftrightarrow> hr_y r < hr_y s \<or> hr_y r = hr_y s \<and> hr_x1 r < hr_x0 s"

definition pixels_of :: "hrun list \<Rightarrow> (int \<times> int) set" where
  "pixels_of rs = {(y, x). \<exists>r\<in>set rs. hr_y r = y \<and> in_run r x}"

definition occupied :: "tensor \<Rightarrow> (int \<times> int) set" where
  "occupied m = {(y, x). 0 \<le> y \<and> y < rows m \<and> 0 \<le> x \<and> x < cols m \<and> t_get m y x \<noteq> 0}"

lemma encode_facts:
  assumes "t_ok m"
  obtains rs where "encode_binary_row_runs m = Inr rs" "list_all hr_ok rs" "sorted_wrt run_before rs"
    "pixels_of rs = occupied m" "\<forall>r\<in>set rs. hr_x1 r \<le> cols m"
    "zero_padded_horizontal_variation rs = (\<Sum>row\<leftarrow>m. variation (False # map (\<lambda>v. v \<noteq> 0) row @ [False]))"
proof -
  let ?bits = "\<lambda>i. map (\<lambda>v. v \<noteq> 0) (m ! i)"
  define P where "P i rs \<longleftrightarrow> mask_row_runs (int i) 0 (?bits i) = Inr rs \<and>
    list_all (\<lambda>r. hr_ok r \<and> hr_y r = int i \<and> 0 \<le> hr_x0 r \<and> hr_x1 r \<le> 0 + int (length (?bits i))) rs \<and>
    sorted_wrt (\<lambda>r s. hr_x1 r < hr_x0 s) rs \<and>
    (\<forall>c. (\<exists>r\<in>set rs. in_run r c) \<longleftrightarrow> 0 \<le> c \<and> c < 0 + int (length (?bits i)) \<and> ?bits i ! nat (c - 0)) \<and>
    2 * length rs = variation (False # ?bits i @ [False])" for i rs
  have "\<forall>i. \<exists>rs. P i rs" unfolding P_def by (intro allI mask_row_runs_spec) simp_all
  then obtain R where P: "\<And>i. P i (R i)" using choice [of P] by blast
  have R: "\<And>i. mask_row_runs (int i) 0 (?bits i) = Inr (R i)"
    and ok: "\<And>i. list_all (\<lambda>r. hr_ok r \<and> hr_y r = int i \<and> 0 \<le> hr_x0 r \<and> hr_x1 r \<le> 0 + int (length (?bits i))) (R i)"
    and gaps: "\<And>i. sorted_wrt (\<lambda>r s. hr_x1 r < hr_x0 s) (R i)"
    and pix: "\<And>i c. (\<exists>r\<in>set (R i). in_run r c) \<longleftrightarrow> 0 \<le> c \<and> c < 0 + int (length (?bits i)) \<and> ?bits i ! nat (c - 0)"
    and var: "\<And>i. 2 * length (R i) = variation (False # ?bits i @ [False])"
    using P unfolding P_def by blast+
  let ?rs = "concat (map R [0..<length m])"
  have okD: "hr_ok r" "hr_y r = int i" "hr_x1 r \<le> int (length (m ! i))" if "r \<in> set (R i)" for r i
    using ok [of i] that by (auto simp: list_all_iff)
  have width: "int (length (m ! i)) = cols m" if "i < length m" for i using t_okD [OF assms] that by simp
  have "mapE (\<lambda>(y, row). mask_row_runs (int y) 0 (map (\<lambda>v. v \<noteq> 0) row)) (enumerate 0 m) = Inr (map (\<lambda>q. R (fst q)) (enumerate 0 m))"
    by (rule mapE_Inr) (auto simp: in_set_enumerate_eq R)
  moreover have "map (\<lambda>q. R (fst q)) (enumerate 0 m) = map R [0..<length m]"
    by (rule nth_equalityI) (simp_all add: nth_enumerate_eq)
  ultimately have run: "encode_binary_row_runs m = Inr ?rs" by (simp add: encode_binary_row_runs_def)
  have sorted: "sorted_wrt run_before (concat (map R [0..<n]))" for n
  proof (induction n)
    case (Suc n)
    have "sorted_wrt run_before (R n)"
      using okD by (intro sorted_wrt_mono_rel [OF _ gaps [of n]]) (auto simp: run_before_def)
    moreover have "run_before r s" if "r \<in> set (R i)" "i < n" "s \<in> set (R n)" for r s i
      using okD(2) [OF that(1)] okD(2) [OF that(3)] that(2) by (simp add: run_before_def)
    ultimately show ?case using Suc by (auto simp: sorted_wrt_append)
  qed simp
  have len: "2 * length (concat (map R [0..<n])) = (\<Sum>i<n. variation (False # ?bits i @ [False]))" for n
    by (induction n) (simp_all add: var)
  have "(\<Sum>row\<leftarrow>m. variation (False # map (\<lambda>v. v \<noteq> 0) row @ [False])) = (\<Sum>i<length m. variation (False # ?bits i @ [False]))"
    by (simp add: sum_list_sum_nth atLeast0LessThan)
  then have tv: "zero_padded_horizontal_variation ?rs = (\<Sum>row\<leftarrow>m. variation (False # map (\<lambda>v. v \<noteq> 0) row @ [False]))"
    using len [of "length m"] by (simp add: zero_padded_horizontal_variation_def)
  have "(\<exists>r\<in>set ?rs. hr_y r = y \<and> in_run r x) \<longleftrightarrow> (y, x) \<in> occupied m" for y x
  proof -
    have "(\<exists>r\<in>set ?rs. hr_y r = y \<and> in_run r x) \<longleftrightarrow> (\<exists>i<length m. y = int i \<and> (\<exists>r\<in>set (R i). in_run r x))"
      using okD(2) by fastforce
    also have "\<dots> \<longleftrightarrow> (\<exists>i<length m. y = int i \<and> 0 \<le> x \<and> x < int (length (m ! i)) \<and> m ! i ! nat x \<noteq> 0)"
      unfolding pix by (auto simp: nth_map)
    also have "\<dots> \<longleftrightarrow> (y, x) \<in> occupied m"
    proof
      assume "\<exists>i<length m. y = int i \<and> 0 \<le> x \<and> x < int (length (m ! i)) \<and> m ! i ! nat x \<noteq> 0"
      then show "(y, x) \<in> occupied m" using width by (auto simp: occupied_def t_get_def rows_def)
    next
      assume "(y, x) \<in> occupied m"
      then show "\<exists>i<length m. y = int i \<and> 0 \<le> x \<and> x < int (length (m ! i)) \<and> m ! i ! nat x \<noteq> 0"
        using width [of "nat y"] by (intro exI [of _ "nat y"]) (auto simp: occupied_def t_get_def rows_def)
    qed
    finally show ?thesis .
  qed
  then have px: "pixels_of ?rs = occupied m" by (auto simp: pixels_of_def)
  have "list_all hr_ok ?rs" using okD(1) by (auto simp: list_all_iff)
  moreover have "hr_x1 r \<le> cols m" if "r \<in> set ?rs" for r using that okD(3) width by fastforce
  ultimately show ?thesis using that run sorted px tv by blast
qed

lemma runs_sum:
  fixes g :: "int \<Rightarrow> int \<Rightarrow> 'b :: comm_monoid_add"
  assumes "sorted_wrt run_before rs" "list_all hr_ok rs"
  shows "finite (pixels_of rs) \<and>
    (\<Sum>r\<leftarrow>rs. \<Sum>x\<in>{hr_x0 r..<hr_x1 r}. g (hr_y r) x) = (\<Sum>(y, x)\<in>pixels_of rs. g y x)"
  using assms
proof (induction rs)
  case (Cons r rs)
  have split: "pixels_of (r # rs) = {hr_y r} \<times> {hr_x0 r..<hr_x1 r} \<union> pixels_of rs"
    by (auto simp: pixels_of_def in_run_def)
  have IH: "finite (pixels_of rs)"
    "(\<Sum>r\<leftarrow>rs. \<Sum>x\<in>{hr_x0 r..<hr_x1 r}. g (hr_y r) x) = (\<Sum>(y, x)\<in>pixels_of rs. g y x)" using Cons by simp_all
  have "({hr_y r} \<times> {hr_x0 r..<hr_x1 r}) \<inter> pixels_of rs = {}"
    using Cons.prems by (fastforce simp: pixels_of_def in_run_def run_before_def)
  then have "(\<Sum>(y, x)\<in>pixels_of (r # rs). g y x) =
      (\<Sum>(y, x)\<in>{hr_y r} \<times> {hr_x0 r..<hr_x1 r}. g y x) + (\<Sum>(y, x)\<in>pixels_of rs. g y x)"
    unfolding split using IH(1) by (intro sum.union_disjoint) simp_all
  moreover have "(\<Sum>(y, x)\<in>{hr_y r} \<times> {hr_x0 r..<hr_x1 r}. g y x) = (\<Sum>x\<in>{hr_x0 r..<hr_x1 r}. g (hr_y r) x)"
    by (simp add: sum.cartesian_product [symmetric])
  ultimately show ?case using IH split by simp
qed (simp add: pixels_of_def)

subsection \<open>Splitting off the far runs\<close>

definition far_pixel :: "int \<Rightarrow> int \<Rightarrow> int \<Rightarrow> int \<Rightarrow> int \<Rightarrow> bool" where
  "far_pixel cy cx halo y x \<longleftrightarrow> \<bar>y - cy\<bar> > halo \<or> \<bar>x - cx\<bar> > halo"

definition far_pieces :: "int \<Rightarrow> int \<Rightarrow> int \<Rightarrow> hrun \<Rightarrow> hrun list" where
  "far_pieces cy cx halo r =
     (if \<bar>hr_y r - cy\<bar> > halo then [r]
      else
        (if hr_x0 r < min (hr_x1 r) (cx - halo)
         then [\<lparr>hr_y = hr_y r, hr_x0 = hr_x0 r, hr_x1 = min (hr_x1 r) (cx - halo)\<rparr>] else []) @
        (if max (hr_x0 r) (cx + halo + 1) < hr_x1 r
         then [\<lparr>hr_y = hr_y r, hr_x0 = max (hr_x0 r) (cx + halo + 1), hr_x1 = hr_x1 r\<rparr>] else []))"

lemma split_one_eq:
  assumes "hr_ok r"
  shows "split_one cy cx halo out r = Inr (out @ far_pieces cy cx halo r)"
proof -
  define a where "a = min (hr_x1 r) (cx - halo)"
  define b where "b = max (hr_x0 r) (cx + halo + 1)"
  have "mk_hrun (hr_y r) (hr_x0 r) a = Inr \<lparr>hr_y = hr_y r, hr_x0 = hr_x0 r, hr_x1 = a\<rparr>" if "hr_x0 r < a"
    using that assms by (intro mk_hrun_Inr) (simp_all add: hr_ok_def)
  moreover have "mk_hrun (hr_y r) b (hr_x1 r) = Inr \<lparr>hr_y = hr_y r, hr_x0 = b, hr_x1 = hr_x1 r\<rparr>" if "b < hr_x1 r"
    using that assms by (intro mk_hrun_Inr) (auto simp: hr_ok_def b_def)
  ultimately show ?thesis
    unfolding split_one_def far_pieces_def Let_def a_def [symmetric] b_def [symmetric] by simp
qed

lemma far_pieces_ok:
  assumes "hr_ok r" "s \<in> set (far_pieces cy cx halo r)"
  shows "hr_ok s" "hr_length s \<le> hr_length r"
  using assms by (auto simp: far_pieces_def hr_ok_def hr_length_def split: if_splits)

lemma far_pieces_sum:
  fixes h :: "int \<Rightarrow> int \<Rightarrow> 'b :: comm_monoid_add"
  assumes "hr_ok r" "0 \<le> halo"
  shows "(\<Sum>s\<leftarrow>far_pieces cy cx halo r. \<Sum>x\<in>{hr_x0 s..<hr_x1 s}. h (hr_y s) x) =
    (\<Sum>x\<in>{hr_x0 r..<hr_x1 r}. if far_pixel cy cx halo (hr_y r) x then h (hr_y r) x else 0)"
proof (cases "\<bar>hr_y r - cy\<bar> > halo")
  case True
  then show ?thesis by (simp add: far_pieces_def far_pixel_def)
next
  case False
  let ?A = "{hr_x0 r..<min (hr_x1 r) (cx - halo)}" and ?B = "{max (hr_x0 r) (cx + halo + 1)..<hr_x1 r}"
  have "(\<Sum>x\<in>{hr_x0 r..<hr_x1 r}. if far_pixel cy cx halo (hr_y r) x then h (hr_y r) x else 0) =
      (\<Sum>x\<in>{x \<in> {hr_x0 r..<hr_x1 r}. far_pixel cy cx halo (hr_y r) x}. h (hr_y r) x)"
    by (rule sum.inter_filter [symmetric]) simp
  also have "{x \<in> {hr_x0 r..<hr_x1 r}. far_pixel cy cx halo (hr_y r) x} = ?A \<union> ?B"
    using False assms(2) by (auto simp: far_pixel_def)
  also have "(\<Sum>x\<in>?A \<union> ?B. h (hr_y r) x) = (\<Sum>x\<in>?A. h (hr_y r) x) + (\<Sum>x\<in>?B. h (hr_y r) x)"
    using assms(2) by (intro sum.union_disjoint) auto
  finally have sum: "(\<Sum>x\<in>{hr_x0 r..<hr_x1 r}. if far_pixel cy cx halo (hr_y r) x then h (hr_y r) x else 0) =
      (\<Sum>x\<in>?A. h (hr_y r) x) + (\<Sum>x\<in>?B. h (hr_y r) x)" .
  define a where "a = min (hr_x1 r) (cx - halo)"
  define b where "b = max (hr_x0 r) (cx + halo + 1)"
  show ?thesis
    using False unfolding sum far_pieces_def a_def [symmetric] b_def [symmetric] by simp
qed

lemma split_runs_eq:
  assumes "list_all hr_ok rs" "0 \<le> halo"
  shows "split_runs_outside_chebyshev rs cy cx halo = Inr (concat (map (far_pieces cy cx halo) rs))"
proof -
  have "foldE (split_one cy cx halo) out rs = Inr (out @ concat (map (far_pieces cy cx halo) rs))" for out
    using assms(1) by (induction rs arbitrary: out) (simp_all add: split_one_eq)
  then show ?thesis using assms(2) by (simp add: split_runs_outside_chebyshev_def)
qed

lemma far_runs_sum:
  fixes h :: "int \<Rightarrow> int \<Rightarrow> 'b :: comm_monoid_add"
  assumes "list_all hr_ok rs" "0 \<le> halo"
  shows "(\<Sum>s\<leftarrow>concat (map (far_pieces cy cx halo) rs). \<Sum>x\<in>{hr_x0 s..<hr_x1 s}. h (hr_y s) x) =
    (\<Sum>r\<leftarrow>rs. \<Sum>x\<in>{hr_x0 r..<hr_x1 r}. if far_pixel cy cx halo (hr_y r) x then h (hr_y r) x else 0)"
  using assms(1) by (induction rs) (simp_all add: far_pieces_sum assms(2))

subsection \<open>Prefix differences\<close>

text \<open>The kernel seen from the center.\<close>

definition seen :: "(int \<Rightarrow> int \<Rightarrow> 'a) \<Rightarrow> int \<Rightarrow> int \<Rightarrow> int \<Rightarrow> int \<Rightarrow> int \<Rightarrow> 'a" where
  "seen k n cy cx y x = k ((n div 2 + cy - y) mod n) ((n div 2 + cx - x) mod n)"

lemma prefix_entry_sum: "prefix_entry kb n j yi s = (\<Sum>t\<in>{0..<s}. kb_at kb j yi ((- t) mod n))"
proof -
  have "set [0..s - 1] = {0..<s}" by auto
  then show ?thesis by (simp add: prefix_entry_def interv_sum_list_conv_sum_set_int)
qed

lemma run_index_Inr:
  assumes "hr_ok r" "hr_length r \<le> n"
  obtains s0 where "run_index n cy cx r = Inr ((n div 2 + cy - hr_y r) mod n, s0)"
    "s0 = (- ((n div 2 + cx - hr_x0 r) mod n)) mod n" "0 \<le> s0" "s0 + hr_length r \<le> 2 * n"
proof -
  have n: "0 < n" using assms by (simp add: hr_ok_def hr_length_def)
  let ?s = "(- ((n div 2 + cx - hr_x0 r) mod n)) mod n"
  have s: "0 \<le> ?s" "?s < n" using n by simp_all
  then have in_range: "?s + hr_length r \<le> 2 * n" using assms(2) by linarith
  then have "run_index n cy cx r = Inr ((n div 2 + cy - hr_y r) mod n, ?s)"
    using n unfolding run_index_def Let_def by simp
  then show ?thesis using that s(1) in_range by blast
qed

lemma prefix_difference:
  assumes "hr_ok r" "0 < n" "s0 = (- ((n div 2 + cx - hr_x0 r) mod n)) mod n"
  shows "(\<Sum>t\<in>{0..<s0 + hr_length r}. f ((- t) mod n)) - (\<Sum>t\<in>{0..<s0}. f ((- t) mod n)) =
    (\<Sum>x\<in>{hr_x0 r..<hr_x1 r}. f ((n div 2 + cx - x) mod n) :: 'a :: comm_ring_1)"
proof -
  have s0: "0 \<le> s0" using assms(2,3) by simp
  have "{0..<s0 + hr_length r} = {0..<s0} \<union> {s0..<s0 + hr_length r}"
    using s0 assms(1) by (auto simp: hr_ok_def hr_length_def)
  then have "(\<Sum>t\<in>{0..<s0 + hr_length r}. f ((- t) mod n)) =
      (\<Sum>t\<in>{0..<s0}. f ((- t) mod n)) + (\<Sum>t\<in>{s0..<s0 + hr_length r}. f ((- t) mod n))"
    by (simp add: sum.union_disjoint)
  moreover have "(\<Sum>t\<in>{s0..<s0 + hr_length r}. f ((- t) mod n)) = (\<Sum>x\<in>{hr_x0 r..<hr_x1 r}. f ((n div 2 + cx - x) mod n))"
  proof (rule sum.reindex_bij_witness [where i = "\<lambda>x. s0 + (x - hr_x0 r)" and j = "\<lambda>t. hr_x0 r + (t - s0)"])
    fix t
    have "(- s0) mod n = (n div 2 + cx - hr_x0 r) mod n" unfolding assms(3) by (simp add: mod_minus_eq)
    then have "(- s0 - (t - s0)) mod n = ((n div 2 + cx - hr_x0 r) - (t - s0)) mod n" by (rule mod_diff_cong) simp
    moreover have "- s0 - (t - s0) = - t" by simp
    ultimately have "(- t) mod n = ((n div 2 + cx - hr_x0 r) - (t - s0)) mod n" by simp
    also have "(n div 2 + cx - hr_x0 r) - (t - s0) = n div 2 + cx - (hr_x0 r + (t - s0))" by simp
    finally show "f ((n div 2 + cx - (hr_x0 r + (t - s0))) mod n) = f ((- t) mod n)" by simp
  qed (auto simp: hr_length_def)
  ultimately show ?thesis by simp
qed

abbreviation run_total :: "(int \<Rightarrow> int \<Rightarrow> 'a :: comm_monoid_add) \<Rightarrow> hrun list \<Rightarrow> 'a" where
  "run_total h rs \<equiv> (\<Sum>r\<leftarrow>rs. \<Sum>x\<in>{hr_x0 r..<hr_x1 r}. h (hr_y r) x)"

lemma sum_runs_eq:
  assumes "from_kernel_bank kb = Inr cp" "list_all hr_ok rs" "\<And>r. r \<in> set rs \<Longrightarrow> hr_length r \<le> cp_n cp"
  shows "sum_runs cp rs cy cx = Inr (map (\<lambda>j. run_total (seen (kb_at kb j) (cp_n cp) cy cx) rs) [0..<cp_k cp])"
proof -
  let ?h = "\<lambda>j. seen (kb_at kb j) (cp_n cp) cy cx"
  have at: "cp_at cp = prefix_entry kb (cp_n cp)"
    using assms(1) by (auto simp: from_kernel_bank_def split: prod.splits if_splits)
  have one: "sum_run cp cy cx out r = Inr (map (\<lambda>j. out ! j + (\<Sum>x\<in>{hr_x0 r..<hr_x1 r}. ?h j (hr_y r) x)) [0..<cp_k cp])"
    if r: "hr_ok r" "hr_length r \<le> cp_n cp" for r out
  proof -
    have n: "0 < cp_n cp" using r by (simp add: hr_ok_def hr_length_def)
    obtain s0 where s0: "run_index (cp_n cp) cy cx r = Inr ((cp_n cp div 2 + cy - hr_y r) mod cp_n cp, s0)"
      "s0 = (- ((cp_n cp div 2 + cx - hr_x0 r) mod cp_n cp)) mod cp_n cp" using run_index_Inr [OF r] by blast
    show ?thesis
      using prefix_difference [OF r(1) n s0(2), of "kb_at kb _ ((cp_n cp div 2 + cy - hr_y r) mod cp_n cp)"]
      by (simp add: sum_run_def s0(1) at prefix_entry_sum seen_def)
  qed
  have "foldE (sum_run cp cy cx) out rs = Inr (map (\<lambda>j. out ! j + run_total (?h j) rs) [0..<cp_k cp])"
    if "length out = cp_k cp" for out
    using that assms(2,3)
  proof (induction rs arbitrary: out)
    case Nil
    then show ?case by (auto intro!: nth_equalityI)
  next
    case (Cons r rs)
    then show ?case by (simp add: one add.assoc)
  qed
  from this [of "replicate (cp_k cp) 0"] show ?thesis by (simp add: sum_runs_def)
qed

lemma far_length:
  assumes "list_all hr_ok rs" "\<And>r. r \<in> set rs \<Longrightarrow> hr_length r \<le> n" "s \<in> set (concat (map (far_pieces cy cx halo) rs))"
  shows "hr_ok s" "hr_length s \<le> n"
proof -
  obtain r where r: "r \<in> set rs" "s \<in> set (far_pieces cy cx halo r)" using assms(3) by auto
  have "hr_ok r" using r(1) assms(1) by (simp add: list_all_iff)
  from far_pieces_ok [OF this r(2)] assms(2) [OF r(1)] show "hr_ok s" "hr_length s \<le> n" by simp_all
qed

lemma occupied_far_sum:
  fixes h :: "int \<Rightarrow> int \<Rightarrow> 'b :: comm_monoid_add"
  assumes "sorted_wrt run_before rs" "list_all hr_ok rs" "pixels_of rs = occupied m" "0 \<le> halo"
  shows "run_total h (concat (map (far_pieces cy cx halo) rs)) =
    (\<Sum>(y, x)\<in>{(y, x) \<in> occupied m. far_pixel cy cx halo y x}. h y x)"
proof -
  have fin: "finite (occupied m)" using runs_sum [OF assms(1,2), of "\<lambda>_ _. 0 :: nat"] assms(3) by simp
  have "run_total h (concat (map (far_pieces cy cx halo) rs)) =
      (\<Sum>(y, x)\<in>occupied m. if far_pixel cy cx halo y x then h y x else 0)"
    unfolding far_runs_sum [OF assms(2,4)]
    using runs_sum [OF assms(1,2), of "\<lambda>y x. if far_pixel cy cx halo y x then h y x else 0"] assms(3) by simp
  also have "\<dots> = (\<Sum>p\<in>occupied m. if far_pixel cy cx halo (fst p) (snd p) then h (fst p) (snd p) else 0)"
    by (simp add: case_prod_unfold)
  also have "\<dots> = (\<Sum>p\<in>{p \<in> occupied m. far_pixel cy cx halo (fst p) (snd p)}. h (fst p) (snd p))"
    using fin by (rule sum.inter_filter [symmetric])
  finally show ?thesis by (simp add: case_prod_unfold)
qed

subsection \<open>Properties\<close>

text \<open>Run encoding is exact: it succeeds on every mask, its runs are valid, in raster order with a gap
  between neighbours, cover exactly the nonzero pixels and lie in the mask; the statistics count those
  pixels, and twice the number of runs is the zero-padded horizontal variation of the mask.\<close>

theorem encode_runs_exact:
  assumes "t_ok m"
  shows "\<exists>rs. encode_binary_row_runs m = Inr rs \<and> list_all hr_ok rs \<and> sorted_wrt run_before rs \<and>
    pixels_of rs = occupied m \<and> (\<forall>r\<in>set rs. hr_x1 r \<le> cols m) \<and>
    run_compression_stats rs = (int (card (occupied m)), length rs) \<and>
    zero_padded_horizontal_variation rs = (\<Sum>row\<leftarrow>m. variation (False # map (\<lambda>v. v \<noteq> 0) row @ [False]))"
proof -
  obtain rs where rs: "encode_binary_row_runs m = Inr rs" "list_all hr_ok rs" "sorted_wrt run_before rs"
    "pixels_of rs = occupied m" "\<forall>r\<in>set rs. hr_x1 r \<le> cols m"
    "zero_padded_horizontal_variation rs = (\<Sum>row\<leftarrow>m. variation (False # map (\<lambda>v. v \<noteq> 0) row @ [False]))"
    using encode_facts [OF assms] .
  have "map hr_length rs = map (\<lambda>r. \<Sum>x\<in>{hr_x0 r..<hr_x1 r}. 1) rs"
    using rs(2) by (auto simp: list_all_iff hr_length_def hr_ok_def)
  moreover have "run_total (\<lambda>_ _. 1 :: int) rs = (\<Sum>(y, x)\<in>occupied m. 1)"
    unfolding rs(4) [symmetric] by (rule conjunct2 [OF runs_sum [OF rs(3,2)]])
  ultimately have "sum_list (map hr_length rs) = (\<Sum>(y, x)\<in>occupied m. 1)" by presburger
  then have "run_compression_stats rs = (int (card (occupied m)), length rs)"
    by (simp add: run_compression_stats_def case_prod_unfold)
  with rs show ?thesis by blast
qed

definition demo_mask :: tensor where
  "demo_mask = [[1, 1, 0, 1], [0, 0, 0, 0], [0, 1, 1, 1]]"

lemma demo_mask_ok: "t_ok demo_mask"
  by (simp add: demo_mask_def t_ok_def cols_def)

theorem encode_runs_exact_witness:
  "encode_binary_row_runs demo_mask = Inr
     [\<lparr>hr_y = 0, hr_x0 = 0, hr_x1 = 2\<rparr>, \<lparr>hr_y = 0, hr_x0 = 3, hr_x1 = 4\<rparr>, \<lparr>hr_y = 2, hr_x0 = 1, hr_x1 = 4\<rparr>] \<and>
   int (card (occupied demo_mask)) = 6"
proof -
  have run: "encode_binary_row_runs demo_mask = Inr
     [\<lparr>hr_y = 0, hr_x0 = 0, hr_x1 = 2\<rparr>, \<lparr>hr_y = 0, hr_x0 = 3, hr_x1 = 4\<rparr>, \<lparr>hr_y = 2, hr_x0 = 1, hr_x1 = 4\<rparr>]"
    by (simp add: encode_binary_row_runs_def demo_mask_def mask_row_runs.simps mk_hrun_def Let_def)
  then show ?thesis
    using encode_runs_exact [OF demo_mask_ok] by (auto simp: run_compression_stats_def hr_length_def)
qed

text \<open>C18: The compressed far field is the direct sum: for a mask no wider than the kernel grid, encoding its
  runs, splitting off the halo and summing prefix differences succeeds, and gives for every kernel the
  sum of its cyclic values, seen from the center, over the occupied pixels outside the halo.\<close>

theorem far_coherent_exact:
  assumes "t_ok m" "from_kernel_bank kb = Inr cp" "cols m \<le> cp_n cp" "0 \<le> halo"
  shows "\<exists>rs. encode_binary_row_runs m = Inr rs \<and>
    known_layout_far_coherent cp rs cy cx halo = Inr (map (\<lambda>j.
      \<Sum>(y, x)\<in>{(y, x) \<in> occupied m. far_pixel cy cx halo y x}. seen (kb_at kb j) (cp_n cp) cy cx y x) [0..<cp_k cp])"
proof -
  obtain rs where rs: "encode_binary_row_runs m = Inr rs" "list_all hr_ok rs" "sorted_wrt run_before rs"
    "pixels_of rs = occupied m" "\<forall>r\<in>set rs. hr_x1 r \<le> cols m"
    "zero_padded_horizontal_variation rs = (\<Sum>row\<leftarrow>m. variation (False # map (\<lambda>v. v \<noteq> 0) row @ [False]))"
    using encode_facts [OF assms(1)] .
  have short: "hr_length r \<le> cp_n cp" if "r \<in> set rs" for r
    using rs(2,5) that assms(3) by (fastforce simp: list_all_iff hr_ok_def hr_length_def)
  let ?far = "concat (map (far_pieces cy cx halo) rs)"
  have "list_all hr_ok ?far" using far_length(1) [OF rs(2) short] unfolding list_all_iff by blast
  from sum_runs_eq [OF assms(2) this far_length(2) [OF rs(2) short]]
  have run: "known_layout_far_coherent cp rs cy cx halo =
      Inr (map (\<lambda>j. run_total (seen (kb_at kb j) (cp_n cp) cy cx) ?far) [0..<cp_k cp])"
    by (simp add: known_layout_far_coherent_def split_runs_eq [OF rs(2) assms(4)])
  have eq: "run_total (seen (kb_at kb j) (cp_n cp) cy cx) ?far =
      (\<Sum>(y, x)\<in>{(y, x) \<in> occupied m. far_pixel cy cx halo y x}. seen (kb_at kb j) (cp_n cp) cy cx y x)" for j
    by (rule occupied_far_sum [OF rs(3,2,4) assms(4)])
  show ?thesis using rs(1) run unfolding eq by blast
qed

definition demo_bank :: "int kernel_bank" where
  "demo_bank = \<lparr>kb_shape = (2, 4, 4), kb_at = (\<lambda>j y x. if j = 0 then 1 else 10 * y + x)\<rparr>"

theorem far_coherent_exact_witness:
  "\<exists>cp rs out. from_kernel_bank demo_bank = Inr cp \<and> encode_binary_row_runs demo_mask = Inr rs \<and>
     known_layout_far_coherent cp rs 0 0 0 = Inr out \<and>
     out ! 0 = (\<Sum>(y, x)\<in>{(y, x) \<in> occupied demo_mask. far_pixel 0 0 0 y x}. 1)"
proof -
  obtain cp where cp: "from_kernel_bank demo_bank = Inr cp" "cp_n cp = 4" "cp_k cp = 2"
    by (simp add: from_kernel_bank_def demo_bank_def)
  have "cols demo_mask \<le> cp_n cp" by (simp add: cp demo_mask_def cols_def)
  from far_coherent_exact [OF demo_mask_ok cp(1) this, of 0 0 0] cp show ?thesis
    by (auto simp: demo_bank_def seen_def case_prod_unfold numeral_2_eq_2)
qed

text \<open>The arrays of one real component enclose the prefix sums of a real kernel.\<close>

definition encloses_prefix :: "iv_prefix \<Rightarrow> (nat \<Rightarrow> int \<Rightarrow> int \<Rightarrow> real) \<Rightarrow> bool" where
  "encloses_prefix ip K \<longleftrightarrow>
     (\<forall>j yi s. j < ip_k ip \<longrightarrow> 0 \<le> s \<longrightarrow> s \<le> 2 * ip_n ip \<longrightarrow>
        of_rat (ip_lo ip j yi s) \<le> (\<Sum>t\<in>{0..<s}. K j yi ((- t) mod ip_n ip)) \<and>
        (\<Sum>t\<in>{0..<s}. K j yi ((- t) mod ip_n ip)) \<le> of_rat (ip_hi ip j yi s))"

definition encloses_all :: "nat \<Rightarrow> (rat \<times> rat) list \<Rightarrow> (nat \<Rightarrow> real) \<Rightarrow> bool" where
  "encloses_all k out v \<longleftrightarrow> length out = k \<and>
     (\<forall>j<k. of_rat (fst (out ! j)) \<le> v j \<and> v j \<le> of_rat (snd (out ! j)))"

lemma sum_far_run_encloses:
  assumes "encloses_prefix ip K" "\<And>v. down v \<le> v" "\<And>v. v \<le> up v" "hr_ok r" "hr_length r \<le> ip_n ip"
    and "encloses_all (ip_k ip) out v"
  shows "\<exists>out'. sum_far_run down up ip cy cx out r = Inr out' \<and>
    encloses_all (ip_k ip) out' (\<lambda>j. v j + (\<Sum>x\<in>{hr_x0 r..<hr_x1 r}. seen (K j) (ip_n ip) cy cx (hr_y r) x))"
proof -
  let ?n = "ip_n ip" and ?yi = "(ip_n ip div 2 + cy - hr_y r) mod ip_n ip"
  have n: "0 < ?n" using assms(4,5) by (simp add: hr_ok_def hr_length_def)
  obtain s0 where s0: "run_index ?n cy cx r = Inr (?yi, s0)" "s0 = (- ((?n div 2 + cx - hr_x0 r) mod ?n)) mod ?n"
    "0 \<le> s0" "s0 + hr_length r \<le> 2 * ?n" using run_index_Inr [OF assms(4,5)] .
  let ?e = "s0 + hr_length r"
  let ?l = "\<lambda>j. down (fst (out ! j) + down (ip_lo ip j ?yi ?e - ip_hi ip j ?yi s0))"
  let ?h = "\<lambda>j. up (snd (out ! j) + up (ip_hi ip j ?yi ?e - ip_lo ip j ?yi s0))"
  have run: "sum_far_run down up ip cy cx out r = Inr (map (\<lambda>j. (?l j, ?h j)) [0..<ip_k ip])"
    by (simp add: sum_far_run_def s0(1) Let_def)
  have "of_rat (?l j) \<le> v j + (\<Sum>x\<in>{hr_x0 r..<hr_x1 r}. seen (K j) ?n cy cx (hr_y r) x) \<and>
      v j + (\<Sum>x\<in>{hr_x0 r..<hr_x1 r}. seen (K j) ?n cy cx (hr_y r) x) \<le> of_rat (?h j)" if j: "j < ip_k ip" for j
  proof -
    let ?P = "\<lambda>s. \<Sum>t\<in>{0..<s}. K j ?yi ((- t) mod ?n)"
    have diff: "?P ?e - ?P s0 = (\<Sum>x\<in>{hr_x0 r..<hr_x1 r}. seen (K j) ?n cy cx (hr_y r) x)"
      using prefix_difference [OF assms(4) n s0(2), of "K j ?yi"] by (simp add: seen_def)
    have e0: "0 \<le> ?e" using s0(3) assms(4) by (simp add: hr_ok_def hr_length_def)
    have pe: "of_rat (ip_lo ip j ?yi ?e) \<le> ?P ?e" "?P ?e \<le> of_rat (ip_hi ip j ?yi ?e)"
      and ps: "of_rat (ip_lo ip j ?yi s0) \<le> ?P s0" "?P s0 \<le> of_rat (ip_hi ip j ?yi s0)"
      using assms(1) j e0 s0(3,4) assms(4) unfolding encloses_prefix_def hr_ok_def hr_length_def by simp_all
    have v: "of_rat (fst (out ! j)) \<le> v j" "v j \<le> of_rat (snd (out ! j))"
      using assms(6) j by (simp_all add: encloses_all_def)
    have "?l j \<le> fst (out ! j) + (ip_lo ip j ?yi ?e - ip_hi ip j ?yi s0)"
      using assms(2) by (meson add_left_mono order_trans)
    then have "real_of_rat (?l j) \<le> of_rat (fst (out ! j)) + (of_rat (ip_lo ip j ?yi ?e) - of_rat (ip_hi ip j ?yi s0))"
      by (metis of_rat_add of_rat_diff of_rat_less_eq)
    moreover have "snd (out ! j) + (ip_hi ip j ?yi ?e - ip_lo ip j ?yi s0) \<le> ?h j"
      using assms(3) by (meson add_left_mono order_trans)
    then have "of_rat (snd (out ! j)) + (of_rat (ip_hi ip j ?yi ?e) - of_rat (ip_lo ip j ?yi s0)) \<le> real_of_rat (?h j)"
      by (metis of_rat_add of_rat_diff of_rat_less_eq)
    ultimately show ?thesis using pe ps v diff by linarith
  qed
  then show ?thesis using run by (auto simp: encloses_all_def)
qed

lemma sum_far_fold:
  assumes "encloses_prefix ip K" "\<And>v. down v \<le> v" "\<And>v. v \<le> up v" "list_all hr_ok rs"
    "\<And>r. r \<in> set rs \<Longrightarrow> hr_length r \<le> ip_n ip" "encloses_all (ip_k ip) out v"
  shows "\<exists>out'. foldE (sum_far_run down up ip cy cx) out rs = Inr out' \<and>
    encloses_all (ip_k ip) out' (\<lambda>j. v j + run_total (seen (K j) (ip_n ip) cy cx) rs)"
  using assms(4-6)
proof (induction rs arbitrary: out v)
  case (Cons r rs)
  obtain out1 where o: "sum_far_run down up ip cy cx out r = Inr out1"
    "encloses_all (ip_k ip) out1 (\<lambda>j. v j + (\<Sum>x\<in>{hr_x0 r..<hr_x1 r}. seen (K j) (ip_n ip) cy cx (hr_y r) x))"
    using sum_far_run_encloses [OF assms(1-3), of r out v cy cx] Cons.prems by auto
  show ?case using Cons.IH [OF _ _ o(2)] Cons.prems o(1) by (simp add: add.assoc)
qed simp

text \<open>C19: The interval version encloses the exact far field: if the arrays enclose the prefix sums of a
  derivative of the kernels and rounding is outward, the far runs of a mask sum, without an error and
  for every kernel, to an interval that contains the direct sum over the occupied pixels outside the
  halo.\<close>

theorem far_runs_enclose:
  assumes "t_ok m" "encloses_prefix ip K" "\<And>v. down v \<le> v" "\<And>v. v \<le> up v" "cols m \<le> ip_n ip" "0 \<le> halo"
  shows "\<exists>rs out. encode_binary_row_runs m = Inr rs \<and> sum_far_runs down up ip rs cy cx halo = Inr out \<and>
    length out = ip_k ip \<and>
    (\<forall>j<ip_k ip. of_rat (fst (out ! j)) \<le>
        (\<Sum>(y, x)\<in>{(y, x) \<in> occupied m. far_pixel cy cx halo y x}. seen (K j) (ip_n ip) cy cx y x) \<and>
      (\<Sum>(y, x)\<in>{(y, x) \<in> occupied m. far_pixel cy cx halo y x}. seen (K j) (ip_n ip) cy cx y x) \<le> of_rat (snd (out ! j)))"
proof -
  obtain rs where rs: "encode_binary_row_runs m = Inr rs" "list_all hr_ok rs" "sorted_wrt run_before rs"
    "pixels_of rs = occupied m" "\<forall>r\<in>set rs. hr_x1 r \<le> cols m"
    "zero_padded_horizontal_variation rs = (\<Sum>row\<leftarrow>m. variation (False # map (\<lambda>v. v \<noteq> 0) row @ [False]))"
    using encode_facts [OF assms(1)] .
  have short: "hr_length r \<le> ip_n ip" if "r \<in> set rs" for r
    using rs(2,5) that assms(5) by (fastforce simp: list_all_iff hr_ok_def hr_length_def)
  let ?far = "concat (map (far_pieces cy cx halo) rs)"
  let ?T = "\<lambda>j. \<Sum>(y, x)\<in>{(y, x) \<in> occupied m. far_pixel cy cx halo y x}. seen (K j) (ip_n ip) cy cx y x"
  have far_ok: "list_all hr_ok ?far" using far_length(1) [OF rs(2) short] unfolding list_all_iff by blast
  have far_len: "hr_length s \<le> ip_n ip" if "s \<in> set ?far" for s using far_length(2) [OF rs(2) short that] .
  have start: "encloses_all (ip_k ip) (replicate (ip_k ip) (0, 0)) (\<lambda>_. 0)" by (simp add: encloses_all_def)
  obtain out where out: "foldE (sum_far_run down up ip cy cx) (replicate (ip_k ip) (0, 0)) ?far = Inr out"
    "encloses_all (ip_k ip) out (\<lambda>j. 0 + run_total (seen (K j) (ip_n ip) cy cx) ?far)"
    using sum_far_fold [OF assms(2-4) far_ok far_len start] by blast
  have eq: "run_total (seen (K j) (ip_n ip) cy cx) ?far = ?T j" for j
    by (rule occupied_far_sum [OF rs(3,2,4) assms(6)])
  have enc: "length out = ip_k ip" "\<And>j. j < ip_k ip \<Longrightarrow> of_rat (fst (out ! j)) \<le> ?T j \<and> ?T j \<le> of_rat (snd (out ! j))"
    using out(2) unfolding eq encloses_all_def by simp_all
  have "fst (out ! j) \<le> snd (out ! j)" if "j < ip_k ip" for j
    using enc(2) [OF that] by (meson of_rat_less_eq order_trans)
  then have "list_all (\<lambda>(l, h). l \<le> h) out" using enc(1) by (auto simp: list_all_length case_prod_unfold)
  then have "sum_far_runs down up ip rs cy cx halo = Inr out"
    by (simp add: sum_far_runs_def split_runs_eq [OF rs(2) assms(6)] out(1))
  then show ?thesis using rs(1) enc by blast
qed

text \<open>A constant kernel with exact arrays, rounded to whole numbers.\<close>

definition demo_iv :: iv_prefix where
  "demo_iv = \<lparr>ip_k = 1, ip_n = 4, ip_lo = (\<lambda>j y s. of_int s), ip_hi = (\<lambda>j y s. of_int s)\<rparr>"

theorem far_runs_enclose_witness:
  "\<exists>out. sum_far_runs (\<lambda>v. of_int \<lfloor>v\<rfloor>) (\<lambda>v. of_int \<lceil>v\<rceil>) demo_iv
       [\<lparr>hr_y = 0, hr_x0 = 0, hr_x1 = 2\<rparr>, \<lparr>hr_y = 0, hr_x0 = 3, hr_x1 = 4\<rparr>, \<lparr>hr_y = 2, hr_x0 = 1, hr_x1 = 4\<rparr>] 0 0 1 = Inr out \<and>
     of_rat (fst (out ! 0)) \<le> real (card {(y, x) \<in> occupied demo_mask. far_pixel 0 0 1 y x})"
proof -
  have run: "encode_binary_row_runs demo_mask = Inr
     [\<lparr>hr_y = 0, hr_x0 = 0, hr_x1 = 2\<rparr>, \<lparr>hr_y = 0, hr_x0 = 3, hr_x1 = 4\<rparr>, \<lparr>hr_y = 2, hr_x0 = 1, hr_x1 = 4\<rparr>]"
    by (simp add: encode_binary_row_runs_def demo_mask_def mask_row_runs.simps mk_hrun_def Let_def)
  have enc: "encloses_prefix demo_iv (\<lambda>_ _ _. 1)" by (simp add: encloses_prefix_def demo_iv_def)
  have round: "of_int \<lfloor>v\<rfloor> \<le> v" "v \<le> of_int \<lceil>v\<rceil>" for v :: rat by simp_all
  have dims: "cols demo_mask \<le> ip_n demo_iv" "ip_k demo_iv = 1" by (simp_all add: demo_mask_def demo_iv_def cols_def)
  obtain out where "sum_far_runs (\<lambda>v. of_int \<lfloor>v\<rfloor>) (\<lambda>v. of_int \<lceil>v\<rceil>) demo_iv
       [\<lparr>hr_y = 0, hr_x0 = 0, hr_x1 = 2\<rparr>, \<lparr>hr_y = 0, hr_x0 = 3, hr_x1 = 4\<rparr>, \<lparr>hr_y = 2, hr_x0 = 1, hr_x1 = 4\<rparr>] 0 0 1 = Inr out"
    "of_rat (fst (out ! 0)) \<le> (\<Sum>(y, x)\<in>{(y, x) \<in> occupied demo_mask. far_pixel 0 0 1 y x}. seen (\<lambda>_ _. 1 :: real) (ip_n demo_iv) 0 0 y x)"
    using far_runs_enclose [OF demo_mask_ok enc round dims(1), of 1 0 0] run dims(2) by auto
  then show ?thesis by (auto simp: seen_def case_prod_unfold)
qed

end
