(* ===== verification/RasterBridge.thy ===== *)
theory RasterBridge
  imports Tensor
begin

text \<open>
  Model of \<open>verify/raster_bridge.py\<close>: comparison of two binary rasters, the Chebyshev dilation by shifted
  unions and the smallest radius at which one mask lies in the dilation of the other.  The
  specification is the discrete Hausdorff distance of the two pixel sets.
\<close>

type_synonym bits = "bool grid"

text \<open>\<open>grown[y0+dy:y1+dy, x0+dx:x1+dx] |= prev[y0:y1, x0:x1]\<close>.\<close>

definition shift_or :: "bits \<Rightarrow> int \<times> int \<Rightarrow> bits \<Rightarrow> bits" where
  "shift_or prev d grown =
     (case d of (dy, dx) \<Rightarrow>
        let h = rows prev; w = cols prev;
            y0 = max 0 (- dy); y1 = min h (h - dy); x0 = max 0 (- dx); x1 = min w (w - dx) in
        t_build h w (\<lambda>y x. t_get grown y x \<or>
          (y0 + dy \<le> y \<and> y < y1 + dy \<and> x0 + dx \<le> x \<and> x < x1 + dx \<and> t_get prev (y - dy) (x - dx))))"

definition neighbours :: "(int \<times> int) list" where
  "neighbours = filter (\<lambda>d. d \<noteq> (0, 0)) (List.product [- 1, 0, 1] [- 1, 0, 1])"

definition grow :: "bits \<Rightarrow> bits" where
  "grow prev = fold (shift_or prev) neighbours prev"

definition dilate_chebyshev :: "bits \<Rightarrow> int \<Rightarrow> bits res" where
  "dilate_chebyshev m radius =
     (if radius < 0 then Inl (ValueError ''radius must be non-negative'') else Inr ((grow ^^ nat radius) m))"

definition any_pixel :: "bits \<Rightarrow> bool" where
  "any_pixel m \<longleftrightarrow> True \<in> set (concat m)"

definition all_covered :: "bits \<Rightarrow> bits \<Rightarrow> bool" where
  "all_covered tgt dil \<longleftrightarrow> list_all (\<lambda>(t, d). \<not> t \<or> d) (zip (concat tgt) (concat dil))"

fun first_radius :: "bits \<Rightarrow> bits \<Rightarrow> int list \<Rightarrow> int option res" where
  "first_radius src tgt [] = Inr None"
| "first_radius src tgt (r # rs) =
     ebind (dilate_chebyshev src r) (\<lambda>d. if all_covered tgt d then Inr (Some r) else first_radius src tgt rs)"

definition minimal_enclosure_radius :: "bits \<Rightarrow> bits \<Rightarrow> int \<Rightarrow> int option res" where
  "minimal_enclosure_radius src tgt max_radius =
     (if t_shape src \<noteq> t_shape tgt then Inl (ValueError ''raster shapes differ'')
      else if \<not> any_pixel tgt then Inr (Some 0)
      else first_radius src tgt (pyrange 0 (max_radius + 1) 1))"

record raster_bridge =
  rg_reference_ones :: nat
  rg_candidate_ones :: nat
  rg_false_positive :: nat
  rg_false_negative :: nat
  rg_candidate_in_reference :: "int option"
  rg_reference_in_candidate :: "int option"

definition symmetric_difference_pixels :: "raster_bridge \<Rightarrow> nat" where
  "symmetric_difference_pixels b = rg_false_positive b + rg_false_negative b"

definition exact_equal :: "raster_bridge \<Rightarrow> bool" where
  "exact_equal b \<longleftrightarrow> symmetric_difference_pixels b = 0"

definition mutual_chebyshev_radius_px :: "raster_bridge \<Rightarrow> int option" where
  "mutual_chebyshev_radius_px b =
     (case (rg_candidate_in_reference b, rg_reference_in_candidate b) of
        (Some r, Some s) \<Rightarrow> Some (max r s) | _ \<Rightarrow> None)"

definition count_pairs :: "(bool \<Rightarrow> bool \<Rightarrow> bool) \<Rightarrow> bits \<Rightarrow> bits \<Rightarrow> nat" where
  "count_pairs f a b = length (filter (\<lambda>(x, y). f x y) (zip (concat a) (concat b)))"

definition compare_binary_rasters :: "bits \<Rightarrow> bits \<Rightarrow> int \<Rightarrow> raster_bridge res" where
  "compare_binary_rasters ref cand max_radius =
     (if t_shape ref \<noteq> t_shape cand then Inl (ValueError ''raster shapes differ'')
      else
        ebind (minimal_enclosure_radius ref cand max_radius) (\<lambda>c.
        ebind (minimal_enclosure_radius cand ref max_radius) (\<lambda>r.
          Inr \<lparr>rg_reference_ones = count_pairs (\<lambda>x y. x) ref cand, rg_candidate_ones = count_pairs (\<lambda>x y. y) ref cand,
               rg_false_positive = count_pairs (\<lambda>x y. y \<and> \<not> x) ref cand,
               rg_false_negative = count_pairs (\<lambda>x y. x \<and> \<not> y) ref cand,
               rg_candidate_in_reference = c, rg_reference_in_candidate = r\<rparr>)))"

subsection \<open>Dilation is the Chebyshev ball\<close>

definition in_grid :: "bits \<Rightarrow> int \<Rightarrow> int \<Rightarrow> bool" where
  "in_grid m y x \<longleftrightarrow> 0 \<le> y \<and> y < rows m \<and> 0 \<le> x \<and> x < cols m"

definition near :: "bits \<Rightarrow> int \<Rightarrow> int \<Rightarrow> int \<Rightarrow> bool" where
  "near m r y x \<longleftrightarrow> (\<exists>v u. in_grid m v u \<and> t_get m v u \<and> \<bar>y - v\<bar> \<le> r \<and> \<bar>x - u\<bar> \<le> r)"

definition grid :: "bits \<Rightarrow> bool" where
  "grid m \<longleftrightarrow> t_ok m \<and> 0 < rows m \<and> 0 < cols m"

lemma shift_or_facts:
  assumes "grid prev"
  shows "t_ok (shift_or prev d g)" "rows (shift_or prev d g) = rows prev" "cols (shift_or prev d g) = cols prev"
    and "in_grid prev y x \<Longrightarrow> t_get (shift_or prev d g) y x \<longleftrightarrow>
      t_get g y x \<or> (in_grid prev (y - fst d) (x - snd d) \<and> t_get prev (y - fst d) (x - snd d))"
  using assms by (cases d; auto simp: shift_or_def Let_def grid_def in_grid_def)+

lemma fold_shift:
  assumes "grid prev" "grid g" "rows g = rows prev" "cols g = cols prev"
  shows "grid (fold (shift_or prev) ds g) \<and> rows (fold (shift_or prev) ds g) = rows prev \<and>
    cols (fold (shift_or prev) ds g) = cols prev \<and>
    (\<forall>y x. in_grid prev y x \<longrightarrow> (t_get (fold (shift_or prev) ds g) y x \<longleftrightarrow>
      t_get g y x \<or> (\<exists>d\<in>set ds. in_grid prev (y - fst d) (x - snd d) \<and> t_get prev (y - fst d) (x - snd d))))"
  using assms(2-4)
proof (induction ds arbitrary: g)
  case (Cons d ds)
  have g: "grid (shift_or prev d g)" "rows (shift_or prev d g) = rows prev" "cols (shift_or prev d g) = cols prev"
    using shift_or_facts [OF assms(1)] assms(1) by (simp_all add: grid_def)
  have get: "in_grid prev y x \<Longrightarrow> t_get (shift_or prev d g) y x \<longleftrightarrow>
      t_get g y x \<or> (in_grid prev (y - fst d) (x - snd d) \<and> t_get prev (y - fst d) (x - snd d))" for y x
    by (rule shift_or_facts(4) [OF assms(1)])
  show ?case using Cons.IH [OF g] by (simp add: get disj_assoc)
qed simp

lemma neighbours_set: "d \<in> set neighbours \<longleftrightarrow> d \<noteq> (0, 0) \<and> \<bar>fst d\<bar> \<le> 1 \<and> \<bar>snd d\<bar> \<le> 1"
proof -
  have c: "c \<in> {- 1, 0, 1} \<longleftrightarrow> \<bar>c\<bar> \<le> 1" for c :: int by auto
  have "set neighbours = {d \<in> {- 1, 0, 1} \<times> {- 1, 0, 1}. d \<noteq> (0, 0)}"
    unfolding neighbours_def set_filter set_product by simp
  then show ?thesis by (simp only: mem_Collect_eq mem_Times_iff c) blast
qed

lemma grow_facts:
  assumes "grid m"
  shows "grid (grow m)" "rows (grow m) = rows m" "cols (grow m) = cols m"
    and "in_grid m y x \<Longrightarrow> t_get (grow m) y x \<longleftrightarrow> near m 1 y x"
proof -
  note f = fold_shift [OF assms assms refl refl, of neighbours]
  show "grid (grow m)" "rows (grow m) = rows m" "cols (grow m) = cols m" using f by (simp_all add: grow_def)
  assume yx: "in_grid m y x"
  have "t_get (grow m) y x \<longleftrightarrow> t_get m y x \<or>
      (\<exists>d\<in>set neighbours. in_grid m (y - fst d) (x - snd d) \<and> t_get m (y - fst d) (x - snd d))"
    using f yx by (simp add: grow_def)
  also have "\<dots> \<longleftrightarrow> near m 1 y x"
  proof
    assume "t_get m y x \<or> (\<exists>d\<in>set neighbours. in_grid m (y - fst d) (x - snd d) \<and> t_get m (y - fst d) (x - snd d))"
    then show "near m 1 y x"
    proof
      assume "t_get m y x"
      then show ?thesis using yx unfolding near_def by (intro exI [of _ y] exI [of _ x]) simp
    next
      assume "\<exists>d\<in>set neighbours. in_grid m (y - fst d) (x - snd d) \<and> t_get m (y - fst d) (x - snd d)"
      then obtain d where "d \<in> set neighbours" "in_grid m (y - fst d) (x - snd d)" "t_get m (y - fst d) (x - snd d)" by blast
      then show ?thesis unfolding near_def neighbours_set
        by (intro exI [of _ "y - fst d"] exI [of _ "x - snd d"]) simp
    qed
  next
    assume "near m 1 y x"
    then obtain v u where vu: "in_grid m v u" "t_get m v u" "\<bar>y - v\<bar> \<le> 1" "\<bar>x - u\<bar> \<le> 1" by (auto simp: near_def)
    show "t_get m y x \<or> (\<exists>d\<in>set neighbours. in_grid m (y - fst d) (x - snd d) \<and> t_get m (y - fst d) (x - snd d))"
    proof (cases "(y - v, x - u) = (0, 0)")
      case True
      then show ?thesis using vu(2) by simp
    next
      case False
      then have "(y - v, x - u) \<in> set neighbours" using vu(3,4) by (simp add: neighbours_set)
      then show ?thesis using vu(1,2) by (intro disjI2 bexI [of _ "(y - v, x - u)"]) simp_all
    qed
  qed
  finally show "t_get (grow m) y x \<longleftrightarrow> near m 1 y x" .
qed

text \<open>One step towards a point keeps within the grid.\<close>

lemma near_step:
  assumes "near m (1 + r) y x" "0 \<le> r" "in_grid m y x"
  shows "\<exists>v u. in_grid m v u \<and> near m r v u \<and> \<bar>y - v\<bar> \<le> 1 \<and> \<bar>x - u\<bar> \<le> 1"
proof -
  obtain a b where ab: "in_grid m a b" "t_get m a b" "\<bar>y - a\<bar> \<le> 1 + r" "\<bar>x - b\<bar> \<le> 1 + r"
    using assms(1) by (auto simp: near_def)
  let ?v = "if y < a then y + 1 else if a < y then y - 1 else y"
  let ?u = "if x < b then x + 1 else if b < x then x - 1 else x"
  have "in_grid m ?v ?u" "\<bar>y - ?v\<bar> \<le> 1" "\<bar>x - ?u\<bar> \<le> 1" "\<bar>?v - a\<bar> \<le> r" "\<bar>?u - b\<bar> \<le> r"
    using ab assms(2,3) by (auto simp: in_grid_def)
  then show ?thesis using ab(1,2) unfolding near_def by blast
qed

lemma dilate_facts:
  assumes "grid m"
  shows "grid ((grow ^^ n) m)" "rows ((grow ^^ n) m) = rows m" "cols ((grow ^^ n) m) = cols m"
    and "in_grid m y x \<Longrightarrow> t_get ((grow ^^ n) m) y x \<longleftrightarrow> near m (int n) y x"
proof -
  have dims: "grid ((grow ^^ n) m) \<and> rows ((grow ^^ n) m) = rows m \<and> cols ((grow ^^ n) m) = cols m" for n
    by (induction n) (simp_all add: assms grow_facts)
  then show "grid ((grow ^^ n) m)" "rows ((grow ^^ n) m) = rows m" "cols ((grow ^^ n) m) = cols m" by simp_all
  show "in_grid m y x \<Longrightarrow> t_get ((grow ^^ n) m) y x \<longleftrightarrow> near m (int n) y x"
  proof (induction n arbitrary: y x)
    case 0
    then show ?case by (auto simp: near_def)
  next
    case (Suc n)
    have ig: "in_grid ((grow ^^ n) m) v u = in_grid m v u" for v u using dims [of n] by (simp add: in_grid_def)
    have "t_get ((grow ^^ Suc n) m) y x \<longleftrightarrow> near ((grow ^^ n) m) 1 y x"
      using grow_facts(4) [of "(grow ^^ n) m" y x] dims [of n] Suc.prems ig by simp
    also have "\<dots> \<longleftrightarrow> (\<exists>v u. in_grid m v u \<and> near m (int n) v u \<and> \<bar>y - v\<bar> \<le> 1 \<and> \<bar>x - u\<bar> \<le> 1)"
      unfolding near_def [of "(grow ^^ n) m"] ig using Suc.IH by blast
    also have "\<dots> \<longleftrightarrow> near m (int (Suc n)) y x"
    proof
      assume "\<exists>v u. in_grid m v u \<and> near m (int n) v u \<and> \<bar>y - v\<bar> \<le> 1 \<and> \<bar>x - u\<bar> \<le> 1"
      then obtain v u a b where "\<bar>y - v\<bar> \<le> 1" "\<bar>x - u\<bar> \<le> 1" "in_grid m a b" "t_get m a b" "\<bar>v - a\<bar> \<le> int n" "\<bar>u - b\<bar> \<le> int n"
        by (auto simp: near_def)
      moreover from this have "\<bar>y - a\<bar> \<le> int (Suc n)" "\<bar>x - b\<bar> \<le> int (Suc n)" by linarith+
      ultimately show "near m (int (Suc n)) y x" unfolding near_def by blast
    next
      assume "near m (int (Suc n)) y x"
      then show "\<exists>v u. in_grid m v u \<and> near m (int n) v u \<and> \<bar>y - v\<bar> \<le> 1 \<and> \<bar>x - u\<bar> \<le> 1"
        using near_step [of m "int n" y x] Suc.prems by simp
    qed
    finally show ?case .
  qed
qed

subsection \<open>The smallest enclosing radius\<close>

lemma zip_concat:
  "list_all2 (\<lambda>r s. length r = length s) a b \<Longrightarrow> zip (concat a) (concat b) = concat (map2 zip a b)"
  by (induction rule: list_all2_induct) simp_all

lemma pair_pixels:
  assumes "t_ok a" "t_ok b" "t_shape a = t_shape b"
  shows "set (zip (concat a) (concat b)) = {(t_get a y x, t_get b y x) | y x. in_grid a y x}"
proof -
  have len: "length a = length b" using assms(3) by (simp add: t_shape_def rows_def)
  have w: "int (length (a ! i)) = cols a" "int (length (b ! i)) = cols a" if "i < length a" for i
    using t_okD [OF assms(1)] t_okD [OF assms(2)] assms(3) len that by (simp_all add: t_shape_def)
  have "length (a ! i) = length (b ! i)" if "i < length a" for i using w [OF that] by linarith
  then have "list_all2 (\<lambda>r s. length r = length s) a b" using len by (simp add: list_all2_conv_all_nth)
  then have z: "zip (concat a) (concat b) = concat (map2 zip a b)" by (rule zip_concat)
  have "p \<in> set (zip (concat a) (concat b)) \<longleftrightarrow> (\<exists>y x. p = (t_get a y x, t_get b y x) \<and> in_grid a y x)" for p
  proof
    assume "p \<in> set (zip (concat a) (concat b))"
    then obtain i j where ij: "i < length a" "j < length (a ! i)" "p = (a ! i ! j, b ! i ! j)"
      unfolding z using len by (auto simp: set_zip)
    then show "\<exists>y x. p = (t_get a y x, t_get b y x) \<and> in_grid a y x"
      using w(1) [OF ij(1)] by (intro exI [of _ "int i"] exI [of _ "int j"]) (simp add: t_get_def in_grid_def rows_def)
  next
    assume "\<exists>y x. p = (t_get a y x, t_get b y x) \<and> in_grid a y x"
    then obtain y x where yx: "p = (t_get a y x, t_get b y x)" "in_grid a y x" by blast
    then have i: "nat y < length a" by (auto simp: in_grid_def rows_def)
    then have j: "nat x < length (a ! nat y)" "nat x < length (b ! nat y)" using w [OF i] yx(2) by (auto simp: in_grid_def)
    have "zip (a ! nat y) (b ! nat y) \<in> set (map2 zip a b)"
      using i len by (auto simp: set_zip intro!: image_eqI [of _ _ "(a ! nat y, b ! nat y)"])
    moreover have "p \<in> set (zip (a ! nat y) (b ! nat y))"
      using j yx(1) by (auto simp: set_zip t_get_def intro!: exI [of _ "nat x"])
    ultimately show "p \<in> set (zip (concat a) (concat b))" unfolding z set_concat by (rule UN_I)
  qed
  then show ?thesis by blast
qed

lemma any_pixel_iff: "t_ok m \<Longrightarrow> any_pixel m \<longleftrightarrow> (\<exists>y x. in_grid m y x \<and> t_get m y x)"
proof -
  assume m: "t_ok m"
  have "any_pixel m \<longleftrightarrow> (\<exists>q. (True, q) \<in> set (zip (concat m) (concat m)))"
    unfolding any_pixel_def by (metis in_set_impl_in_set_zip1 set_zip_leftD)
  also have "\<dots> \<longleftrightarrow> (\<exists>y x. in_grid m y x \<and> t_get m y x)" unfolding pair_pixels [OF m m refl] by auto
  finally show ?thesis .
qed

text \<open>Every pixel of the target lies within \<open>r\<close> of a pixel of the source.\<close>

definition close_to :: "bits \<Rightarrow> bits \<Rightarrow> int \<Rightarrow> bool" where
  "close_to src tgt r \<longleftrightarrow> (\<forall>y x. in_grid tgt y x \<and> t_get tgt y x \<longrightarrow> near src r y x)"

lemma within_mono: "close_to src tgt r \<Longrightarrow> r \<le> s \<Longrightarrow> close_to src tgt s"
  unfolding close_to_def near_def by (meson order_trans)

lemma covered_within:
  assumes "grid src" "grid tgt" "t_shape src = t_shape tgt" "0 \<le> r"
  shows "\<exists>d. dilate_chebyshev src r = Inr d \<and> all_covered tgt d = close_to src tgt r"
proof -
  let ?d = "(grow ^^ nat r) src"
  note f = dilate_facts [OF assms(1), where n = "nat r"]
  have sh: "t_shape tgt = t_shape ?d" using f(2,3) assms(3) by (simp add: t_shape_def)
  have ok: "t_ok tgt" "t_ok ?d" using assms(2) f(1) by (simp_all add: grid_def)
  have ig: "in_grid tgt y x = in_grid src y x" for y x using assms(3) by (simp add: in_grid_def t_shape_def)
  have "all_covered tgt ?d \<longleftrightarrow> (\<forall>p\<in>set (zip (concat tgt) (concat ?d)). \<not> fst p \<or> snd p)"
    by (auto simp: all_covered_def list_all_iff)
  also have "\<dots> \<longleftrightarrow> (\<forall>y x. in_grid tgt y x \<longrightarrow> t_get tgt y x \<longrightarrow> t_get ?d y x)"
    unfolding pair_pixels [OF ok sh] by auto
  also have "\<dots> \<longleftrightarrow> close_to src tgt r" unfolding close_to_def ig using f(4) assms(4) by auto
  finally show ?thesis using assms(4) by (simp add: dilate_chebyshev_def)
qed

lemma first_radius_spec:
  assumes "grid src" "grid tgt" "t_shape src = t_shape tgt" "\<And>r. r \<in> set rs \<Longrightarrow> 0 \<le> r"
  shows "first_radius src tgt rs = Inr (List.find (close_to src tgt) rs)"
  using assms(4)
proof (induction rs)
  case (Cons r rs)
  obtain d where "dilate_chebyshev src r = Inr d" "all_covered tgt d = close_to src tgt r"
    using covered_within [OF assms(1-3), of r] Cons.prems by auto
  with Cons show ?case by simp
qed simp

definition least_radius :: "(int \<Rightarrow> bool) \<Rightarrow> int \<Rightarrow> int option \<Rightarrow> bool" where
  "least_radius P rmax res \<longleftrightarrow>
     (case res of Some r \<Rightarrow> 0 \<le> r \<and> r \<le> rmax \<and> P r \<and> (\<forall>s. 0 \<le> s \<and> s < r \<longrightarrow> \<not> P s)
      | None \<Rightarrow> \<forall>s. 0 \<le> s \<and> s \<le> rmax \<longrightarrow> \<not> P s)"

lemma find_least:
  assumes "sorted rs" "\<And>s. s \<in> set rs \<longleftrightarrow> 0 \<le> s \<and> s \<le> rmax"
  shows "least_radius P rmax (List.find P rs)"
proof (cases "List.find P rs")
  case None
  then have "\<not> P s" if "s \<in> set rs" for s using that by (auto simp: find_None_iff)
  then show ?thesis using assms(2) None by (simp add: least_radius_def)
next
  case (Some r)
  then obtain i where i: "i < length rs" "P (rs ! i)" "r = rs ! i" "\<forall>j<i. \<not> P (rs ! j)" by (auto simp: find_Some_iff)
  have "\<not> P s" if "0 \<le> s" "s < r" for s
  proof -
    have "r \<in> set rs" using i by simp
    then have "s \<in> set rs" using assms(2) that by fastforce
    then obtain j where j: "j < length rs" "s = rs ! j" by (auto simp: in_set_conv_nth)
    have "j < i"
    proof (rule ccontr)
      assume "\<not> j < i"
      then have "rs ! i \<le> rs ! j" using assms(1) j(1) by (simp add: sorted_nth_mono)
      then show False using that i j by simp
    qed
    then show ?thesis using i(4) j(2) by simp
  qed
  moreover have "r \<in> set rs" using i by simp
  ultimately show ?thesis using Some i assms(2) by (simp add: least_radius_def)
qed

lemma minimal_radius_spec:
  assumes "grid src" "grid tgt" "t_shape src = t_shape tgt" "0 \<le> rmax"
  shows "\<exists>res. minimal_enclosure_radius src tgt rmax = Inr res \<and> least_radius (close_to src tgt) rmax res"
proof (cases "any_pixel tgt")
  case True
  have "first_radius src tgt (pyrange 0 (rmax + 1) 1) = Inr (List.find (close_to src tgt) (pyrange 0 (rmax + 1) 1))"
    by (rule first_radius_spec [OF assms(1-3)]) (simp add: pyrange_mem)
  moreover have "least_radius (close_to src tgt) rmax (List.find (close_to src tgt) (pyrange 0 (rmax + 1) 1))"
    by (rule find_least) (auto simp: pyrange_sorted pyrange_mem)
  ultimately show ?thesis using True assms(3) by (simp add: minimal_enclosure_radius_def)
next
  case False
  then have "close_to src tgt 0" using any_pixel_iff [of tgt] assms(2) by (auto simp: close_to_def grid_def)
  then show ?thesis using False assms(3,4) by (auto simp: minimal_enclosure_radius_def least_radius_def)
qed

lemma counts_zero:
  "count_pairs (\<lambda>x y. y \<and> \<not> x) a b = 0 \<and> count_pairs (\<lambda>x y. x \<and> \<not> y) a b = 0 \<longleftrightarrow>
   (\<forall>p\<in>set (zip (concat a) (concat b)). fst p = snd p)"
  unfolding count_pairs_def length_0_conv filter_empty_conv case_prod_unfold by blast

text \<open>C22: The bridge measures the discrete Hausdorff distance: comparing two masks of one shape succeeds, its
  mutual radius is the least radius up to the given maximum at which each mask lies in the Chebyshev
  neighbourhood of the other, absent exactly if there is none, and the masks are reported equal exactly
  when they agree on every pixel.\<close>

theorem bridge_is_hausdorff:
  assumes "grid ref" "grid cand" "t_shape ref = t_shape cand" "0 \<le> rmax"
  shows "\<exists>b. compare_binary_rasters ref cand rmax = Inr b \<and>
    least_radius (\<lambda>r. close_to ref cand r \<and> close_to cand ref r) rmax (mutual_chebyshev_radius_px b) \<and>
    (exact_equal b \<longleftrightarrow> ref = cand)"
proof -
  obtain c where c: "minimal_enclosure_radius ref cand rmax = Inr c" "least_radius (close_to ref cand) rmax c"
    using minimal_radius_spec [OF assms] by blast
  obtain r where r: "minimal_enclosure_radius cand ref rmax = Inr r" "least_radius (close_to cand ref) rmax r"
    using minimal_radius_spec [OF assms(2,1) assms(3) [symmetric] assms(4)] by blast
  let ?b = "\<lparr>rg_reference_ones = count_pairs (\<lambda>x y. x) ref cand, rg_candidate_ones = count_pairs (\<lambda>x y. y) ref cand,
    rg_false_positive = count_pairs (\<lambda>x y. y \<and> \<not> x) ref cand, rg_false_negative = count_pairs (\<lambda>x y. x \<and> \<not> y) ref cand,
    rg_candidate_in_reference = c, rg_reference_in_candidate = r\<rparr>"
  have run: "compare_binary_rasters ref cand rmax = Inr ?b" using assms(3) c(1) r(1) by (simp add: compare_binary_rasters_def)
  have "least_radius (\<lambda>r. close_to ref cand r \<and> close_to cand ref r) rmax (mutual_chebyshev_radius_px ?b)"
  proof (cases "c = None \<or> r = None")
    case True
    then have "mutual_chebyshev_radius_px ?b = None"
      by (cases c; cases r) (simp_all add: mutual_chebyshev_radius_px_def)
    moreover have "\<not> (close_to ref cand s \<and> close_to cand ref s)" if "0 \<le> s" "s \<le> rmax" for s
      using True c(2) r(2) that by (auto simp: least_radius_def)
    ultimately show ?thesis by (simp add: least_radius_def)
  next
    case False
    then obtain i j where ij: "c = Some i" "r = Some j" by auto
    have "close_to ref cand (max i j)" "close_to cand ref (max i j)"
      using c(2) r(2) ij within_mono [of ref cand i] within_mono [of cand ref j] by (simp_all add: least_radius_def)
    moreover have "\<not> (close_to ref cand s \<and> close_to cand ref s)" if "0 \<le> s" "s < max i j" for s
      using c(2) r(2) ij that by (cases "s < i") (auto simp: least_radius_def)
    moreover have "0 \<le> max i j" "max i j \<le> rmax" using c(2) r(2) ij by (auto simp: least_radius_def)
    ultimately show ?thesis using ij by (simp add: mutual_chebyshev_radius_px_def least_radius_def)
  qed
  moreover have "exact_equal ?b \<longleftrightarrow> ref = cand"
  proof -
    have ok: "t_ok ref" "t_ok cand" using assms(1,2) by (simp_all add: grid_def)
    have "exact_equal ?b \<longleftrightarrow> (\<forall>p\<in>set (zip (concat ref) (concat cand)). fst p = snd p)"
      by (simp add: exact_equal_def symmetric_difference_pixels_def counts_zero)
    also have "\<dots> \<longleftrightarrow> (\<forall>y x. in_grid ref y x \<longrightarrow> t_get ref y x = t_get cand y x)"
      unfolding pair_pixels [OF ok assms(3)] by auto
    also have "\<dots> \<longleftrightarrow> ref = cand"
    proof
      assume "\<forall>y x. in_grid ref y x \<longrightarrow> t_get ref y x = t_get cand y x"
      then show "ref = cand" using assms(3) by (intro t_ext [OF ok]) (simp_all add: in_grid_def t_shape_def)
    qed simp
    finally show ?thesis .
  qed
  ultimately show ?thesis using run by blast
qed

theorem bridge_is_hausdorff_witness:
  "\<exists>b. compare_binary_rasters [[True, False, False]] [[False, False, True]] 4 = Inr b \<and>
     mutual_chebyshev_radius_px b = Some 2 \<and> \<not> exact_equal b"
proof -
  let ?a = "[[True, False, False]]" and ?c = "[[False, False, True]]"
  have "grid ?a" "grid ?c" "t_shape ?a = t_shape ?c" by (simp_all add: grid_def t_ok_def rows_def cols_def t_shape_def)
  from bridge_is_hausdorff [OF this, of 4] obtain b where b: "compare_binary_rasters ?a ?c 4 = Inr b" "\<not> exact_equal b" by auto
  have "map_option mutual_chebyshev_radius_px (case compare_binary_rasters ?a ?c 4 of Inl e \<Rightarrow> None | Inr b \<Rightarrow> Some b) = Some (Some 2)"
    by code_simp
  with b show ?thesis by simp
qed

end
