(* ===== verification/Spec2Isabelle.thy ===== *)
theory Spec2Isabelle
  imports PipelineVerdict PipelineRuns VectorSource RuntimeLiveness TilingSchwarz
    ProofGates VerifierHalo InterfaceRuns RasterBridge
begin

text \<open>
  Verification of OpenLithoHub: the streaming full-chip pipeline, the exact vector front end that
  feeds it, the tiled optimization of masks, the proof gates that turn bounds into certificates, and
  the job server that runs optimizations.  All paths below are relative to \<open>src/src/openlithohub/\<close>.

  \<^bold>\<open>The program and how its parts interact.\<close>
  A layout is cut into trusted cores that partition it, each read with a halo of context
  (\<open>streaming/geometry.py\<close>, \<open>streaming/core_halo.py\<close>).  \<open>run_streaming\<close> (\<open>streaming/pipeline.py\<close>)
  keeps an explicit stack of tiles.  For each tile it asks a screening policy whether the tile can be
  settled without computing it (\<open>streaming/screening.py\<close>), reads the window from a source
  (\<open>streaming/sources.py\<close>), runs the forward model, asks verification plugins for verdicts
  (\<open>streaming/verification.py\<close>), and then either commits the core to a sink (\<open>streaming/sinks.py\<close>)
  or refines the tile: a larger halo (\<open>streaming/halo_policy.py\<close>) or a grid of children.  Who owns which
  area is the ownership tree (\<open>streaming/ownership.py\<close>); what work was done is the ledger of
  \<open>streaming/work_accounting.py\<close>.  \<open>verify_layout\<close> is the facade over a sink that keeps no mask.
  \<open>streaming/vector_runs.py\<close> answers window reads from polygons by exact rational scanlines.
  Masks are optimized tile by tile (\<open>workflow/tiling.py\<close>): overlapping tiles are cut, optimized by a
  caller-supplied function and blended, once or as a Schwarz iteration whose residual
  \<open>benchmark/metrics/tiling_consistency.py\<close> measures.  The proof gates (\<open>verify/\<close>) take intervals and
  oracles of an external interval arithmetic and decide what may be called proved: certificates per
  core (\<open>verify/certifier.py\<close>), their full-chip reduction (\<open>verify/full_chip.py\<close>), the halo that an
  optical tail needs (\<open>verify/halo.py\<close>), run encodings and far-field sums
  (\<open>verify/interface_runs.py\<close>), isolation of the boundary (\<open>verify/boundary.py\<close>) and the distance
  between rasters (\<open>verify/raster_bridge.py\<close>).
  The server (\<open>server/runtime.py\<close>) admits requests, reserves queue slots, runs jobs on one worker
  thread, publishes their artifacts, and shuts down by draining; its jobs live in one of two stores
  (\<open>server/job_store.py\<close>) under the state machine of \<open>server/schemas.py\<close>.

  \<^bold>\<open>Theories, in the order of the code.\<close>
  \<^item> \<open>Prelude\<close>: Python exceptions as values (\<open>py_error + 'a\<close>), the fallible folds and maps, \<open>range\<close>,
    decimal counters, shared lemmas.  \<open>Tensor\<close>: two-dimensional arrays with Python slicing and slice
    assignment.
  \<^item> \<open>Geometry\<close> (\<open>BoundingBox\<close>, \<open>core_grid_boxes\<close>, \<open>read_bbox_for\<close>, halo statistics): the grid is an
    exact cover, every pixel is owned once.  \<open>CoreHalo\<close> (\<open>TileRequest\<close>, \<open>plan_tile_requests\<close>,
    \<open>subdivide_request\<close>, \<open>TileScheduler\<close>, the budgeted \<open>plan_tiling\<close>): plans cover, subdivision covers
    the parent.
  \<^item> \<open>Ownership\<close> (\<open>LeafOwnershipTree\<close>, \<open>partition_core\<close>): the final leaves partition what they started
    from through every operation; the closing audit is sound and complete.  \<open>WorkAccounting\<close>: the
    incremental pixel counter equals the area of the union of all forwarded cores.
  \<^item> \<open>HaloPolicy\<close>: a combined requirement is at least as large and no better certified than its parts;
    the kernel tail certificate; the empirical sweep.  \<open>Screening\<close>: only a certificate screens out.
  \<^item> \<open>TileVerification\<close>: the reducer as a firewall (a PASS needs full coverage and no failure), the
    identity and session layer, typed projection of verdicts to metrics.
  \<^item> \<open>TileSources\<close>, \<open>TileSinks\<close>: index queries return every box of the window; sinks assemble the commits
    of an exact cover into the dense result, whatever their order.
  \<^item> \<open>Pipeline\<close> is the model of the loop (\<open>process_tile\<close>, \<open>refine_tile\<close>, \<open>conclude_tile\<close>, \<open>tile_loop\<close>,
    micro-batches, \<open>run_streaming\<close>, \<open>verify_layout\<close>).  \<open>PipelineLedger\<close> holds its invariant between the
    stack, the tree and the sink; \<open>PipelineTotal\<close> its termination; \<open>PipelineRuns\<close> what a run
    guarantees; \<open>PipelineVerdict\<close> what a PASS means.
  \<^item> \<open>VectorRuns\<close>, \<open>VectorSource\<close> (\<open>ExactVectorRunSource\<close>): scanlines, span union with contributors, cell
    flattening, the band index with its row cache; window reads equal the pixel-centre rule on all
    polygons.
  \<^item> \<open>Tiling\<close> models the cutting and blending of tiles and the tiled and Schwarz optimizations;
    \<open>TilingStitch\<close> proves that blending is a weighted mean, exact on tiles cut from one dense mask;
    \<open>TilingSchwarz\<close> that the iteration agrees with the dense run for optimizers that follow one.
  \<^item> \<open>ProofGates\<close> models certificates, their capability and provenance firewalls, verdicts and the
    full-chip reduction; a PROVED chip has a proof of the required level for every core.  \<open>VerifierHalo\<close>
    holds the tail bounds and halo brackets, \<open>InterfaceRuns\<close> the run encoding and the far-field sums
    with their interval enclosure, \<open>RootIsolation\<close> the subdivision of a boundary segment (sound,
    complete, with an exact root count), \<open>RasterBridge\<close> the discrete Hausdorff radius.
  \<^item> \<open>JobStore\<close> models \<open>transition_job_status\<close> and both stores, operation by operation.
    \<open>StoreRefinement\<close> shows that the SQLite store implements the in-memory store; \<open>StoreContract\<close>
    states what any store promises and adds crash recovery.  \<open>JobExecution\<close> models \<open>_execute_job\<close>:
    parameters, staging, publication.
  \<^item> \<open>ServerRuntime\<close> models \<open>ServerRuntime\<close> and \<open>QueueReservation\<close> as interleaved critical sections
    (\<open>rt_step\<close>).  \<open>RuntimeSteps\<close>, \<open>RuntimeSafety\<close>, \<open>RuntimeStore\<close>, \<open>RuntimeQueue\<close> hold the invariants of every
    interleaving, \<open>RuntimeTraces\<close> and \<open>RuntimeLiveness\<close> the properties and concrete runs.

  \<^bold>\<open>How state corresponds.\<close>
  A class is a record with the source's fields; a method is a function from the record to its result
  and the record it leaves behind, also when it raises after it has begun to write.  Sets whose order
  matters nowhere are lists; dicts are association lists where their order shows and maps elsewhere.
  Integers of the source are unbounded, so they are \<open>int\<close>; floats are compared, added, multiplied and
  divided exactly as \<open>rat\<close>: no rounding, infinity or NaN.  Error messages keep their fixed text.
  Objects that the caller supplies (source, sink, forward model, policies, plugins, optimizer) and
  code outside the repository (SHA-256, JSON, SQLite's file, KLayout) are parameters; what a theorem
  needs of them is a named predicate in its statement, and its witness instantiates it.

  \<^bold>\<open>Interfaces.\<close>
  \<open>halo_policy\<close>, \<open>screening_policy\<close>, \<open>tile_source\<close>, \<open>tile_sink\<close>, \<open>job_store\<close> and \<open>runtime_store\<close> are locales:
  the contract of a collaborator, its client lemmas, and interpretations on the code's own
  implementations (for example both job stores and both tile sources).

  \<^bold>\<open>Loops and bounds.\<close>
  The tile loop runs on fuel; \<open>PipelineRuns.streaming_returns\<close> gives an amount, computed from the
  number of initial tiles and the refinement budget, with which every run of collaborators that do not
  raise produces a result, and more fuel never changes a result.  The vector flattening is a
  \<open>function\<close> with a proved termination measure, also for cyclic hierarchies, on which it raises.  The
  isolation loop of \<open>RootIsolation\<close> is a \<open>partial_function\<close> over its work list, and that it returns is
  proved from the root width and the depth limit.  The server is a step relation, so its properties hold
  for runs of any length; its liveness property says from which states STOPPED is reachable and from
  which it is not.

  \<^bold>\<open>Where the code falls short.\<close>
  Some theorems state defects, each proved on the model and listed as a finding in the manifest:
  properties about children that lose their context, jobs orphaned at shutdown, a failed claim that
  blocks the stop and races of a shutdown (\<open>PipelineRuns\<close>, \<open>RuntimeTraces\<close>, \<open>RuntimeLiveness\<close>), and
  lemmas in \<open>CoreHalo\<close>, \<open>TileVerification\<close> and \<open>VerifierHalo\<close>.

  \<^bold>\<open>Not modelled.\<close>
  The numerical models and simulators (\<open>models/\<close>, \<open>simulators/\<close>, \<open>inference/\<close>, \<open>synth/\<close>) are PyTorch
  code over floats, FFTs and autograd, whose library is not in the repository and whose results depend
  on rounding.  Command line, HTTP routes, plots, notebooks, dataset loaders and writers (\<open>cli/\<close>,
  \<open>server/app.py\<close>, \<open>vis/\<close>, \<open>jupyter/\<close>, \<open>data/\<close>) are input, output and glue.  The spectra and replays
  of \<open>verify/\<close> evaluate with Arb and mpmath on fixed artifacts, and most of \<open>benchmark/\<close> and
  \<open>workflow/\<close> measures images with SciPy and PyTorch.  Inside modelled files, the
  summaries that only format a record, logging, metrics, file opening and the removal of directories
  are left out; each component's note in the manifest names them.
\<close>

end
